(* ===== verification/Prelude.thy ===== *)
theory Prelude
  imports Main "HOL-Library.Word"
begin

text \<open>
  Shared vocabulary of the development: faults of C code as values, fixed-width signed
  integers, memory cells, the character classes of \<open>ctype.h\<close> in the C locale, C strings,
  and decimal printing and scanning. Every component theory imports this one.
\<close>

named_theorems c_simps \<open>unfolding rules of the C-level helpers\<close>

section \<open>Faults and allocation\<close>

text \<open>
  A C function whose memory accesses can go wrong returns a value of the sum type: \<open>Inl\<close> is
  the access that left its object, \<open>Inr\<close> the normal result. An allocator is a predicate
  on the number of bytes asked for: \<open>True\<close> when \<open>malloc\<close> or \<open>realloc\<close> gives memory. \<open>Out_Of_Fuel\<close>
  is a loop or recursion that did not end within its fuel, \<open>Process_Exit\<close> a call of \<open>exit\<close>.
\<close>

datatype c_fault =
    Out_Of_Bounds
  | Null_Deref
  | Type_Confusion
  | Division_By_Zero
  | Assertion_Failed
  | Uninitialised_Read
  | Out_Of_Fuel
  | Process_Exit
  | Use_After_Free

type_synonym 'a res = "c_fault + 'a"

text \<open>Sequencing: the first fault ends the computation.\<close>

definition rbind :: "'a res \<Rightarrow> ('a \<Rightarrow> 'b res) \<Rightarrow> 'b res" where
  "rbind r f = (case r of Inl e \<Rightarrow> Inl e | Inr x \<Rightarrow> f x)"

lemma rbind_simps [simp]: "rbind (Inl e) f = Inl e" "rbind (Inr x) f = f x"
  by (simp_all add: rbind_def)

lemma rbind_Inr_iff: "rbind r f = Inr y \<longleftrightarrow> (\<exists>x. r = Inr x \<and> f x = Inr y)"
  by (cases r) simp_all

lemma rbind_InrE: "rbind r k = Inr y \<Longrightarrow> (\<And>x. r = Inr x \<Longrightarrow> k x = Inr y \<Longrightarrow> thesis) \<Longrightarrow> thesis"
  by (auto simp: rbind_Inr_iff)

lemma rbind_pairE: "rbind r (\<lambda>(a, b). k a b) = Inr y \<Longrightarrow> (\<And>a b. r = Inr (a, b) \<Longrightarrow> k a b = Inr y \<Longrightarrow> thesis) \<Longrightarrow> thesis"
  by (auto simp: rbind_Inr_iff)

type_synonym allocator = "int \<Rightarrow> bool"

text \<open>
  A size handed to the allocator is converted to \<open>size_t\<close>: a negative \<open>int\<close> becomes a
  number beyond every object size, which no allocator can satisfy.
\<close>

definition alloc_ok :: "allocator \<Rightarrow> int \<Rightarrow> bool" where
  "alloc_ok mem n \<longleftrightarrow> 0 \<le> n \<and> mem n"

section \<open>32-bit signed integers\<close>

text \<open>
  \<open>int\<close> is 32 bits wide on every platform of the program. Signed overflow is written as
  two's complement wrap-around, which is what the compilers used for those platforms emit.
\<close>

definition wrap32 :: "int \<Rightarrow> int" where
  "wrap32 x = (x + 2 ^ 31) mod 2 ^ 32 - 2 ^ 31"

lemma wrap32_id: "- (2 ^ 31) \<le> x \<Longrightarrow> x < 2 ^ 31 \<Longrightarrow> wrap32 x = x"
  by (simp add: wrap32_def)

lemma wrap32_range: "- (2 ^ 31) \<le> wrap32 x \<and> wrap32 x < 2 ^ 31"
  by (simp add: wrap32_def pos_mod_bound [of "2 ^ 32" "x + 2 ^ 31", simplified])

section \<open>Memory blocks\<close>

text \<open>
  A block of memory is a list of cells; a cell that was allocated and never written is
  \<open>None\<close>. Reads and writes name their offset and fail outside the block.
\<close>

type_synonym 'a block = "'a option list"

definition mem_write :: "'a block \<Rightarrow> int \<Rightarrow> 'a block \<Rightarrow> 'a block option" where
  "mem_write b off ws =
     (if 0 \<le> off \<and> off + int (length ws) \<le> int (length b)
      then Some (take (nat off) b @ ws @ drop (nat off + length ws) b)
      else None)"

definition mem_read :: "'a block \<Rightarrow> int \<Rightarrow> 'a option option" where
  "mem_read b off = (if 0 \<le> off \<and> off < int (length b) then Some (b ! nat off) else None)"

definition mem_realloc :: "'a block \<Rightarrow> int \<Rightarrow> 'a block" where
  "mem_realloc b n = take (nat n) b @ replicate (nat n - length b) None"

lemma length_mem_realloc [simp]: "length (mem_realloc b n) = nat n"
  by (simp add: mem_realloc_def)

lemma take_mem_realloc [simp]:
  "k \<le> length b \<Longrightarrow> k \<le> nat n \<Longrightarrow> take k (mem_realloc b n) = take k b"
  by (simp add: mem_realloc_def min_def)

lemma mem_write_Some_iff:
  "(\<exists>b'. mem_write b off ws = Some b') \<longleftrightarrow> 0 \<le> off \<and> off + int (length ws) \<le> int (length b)"
  by (simp add: mem_write_def)

lemma length_mem_write: "mem_write b off ws = Some b' \<Longrightarrow> length b' = length b"
  by (auto simp: mem_write_def split: if_splits)

lemma mem_write_append:
  assumes "n \<le> length b" and "n + length ws \<le> length b"
  shows "mem_write b (int n) ws = Some (take n b @ ws @ drop (n + length ws) b)"
  using assms by (simp add: mem_write_def)

section \<open>Characters\<close>

abbreviation NUL :: char where "NUL \<equiv> CHR 0x00"

abbreviation byte :: "char \<Rightarrow> nat" where "byte c \<equiv> of_char c"

definition isspace :: "char \<Rightarrow> bool" where
  "isspace c \<longleftrightarrow> c \<in> {CHR '' '', CHR 0x09, CHR 0x0A, CHR 0x0B, CHR 0x0C, CHR 0x0D}"

definition isdigit :: "char \<Rightarrow> bool" where
  "isdigit c \<longleftrightarrow> 48 \<le> byte c \<and> byte c \<le> 57"

definition isxdigit :: "char \<Rightarrow> bool" where
  "isxdigit c \<longleftrightarrow> isdigit c \<or> 65 \<le> byte c \<and> byte c \<le> 70 \<or> 97 \<le> byte c \<and> byte c \<le> 102"

definition isprint :: "char \<Rightarrow> bool" where
  "isprint c \<longleftrightarrow> 32 \<le> byte c \<and> byte c \<le> 126"

definition tolower :: "char \<Rightarrow> char" where
  "tolower c = (if 65 \<le> byte c \<and> byte c \<le> 90 then char_of (byte c + 32) else c)"

lemma byte_eq_iff: "byte c = byte d \<longleftrightarrow> c = d"
  by (rule of_char_eq_iff)

section \<open>C strings\<close>

text \<open>The C string stored in a buffer ends before its first NUL byte.\<close>

definition cstr :: "string \<Rightarrow> string" where
  "cstr s = takeWhile (\<lambda>c. c \<noteq> NUL) s"

lemma cstr_id [simp]: "NUL \<notin> set s \<Longrightarrow> cstr s = s"
  unfolding cstr_def by (rule takeWhile_eq_all_conv [THEN iffD2]) auto

lemma NUL_notin_cstr [simp]: "NUL \<notin> set (cstr s)"
  unfolding cstr_def by (metis (mono_tags, lifting) set_takeWhileD)

text \<open>Reading a C string at an offset: behind its last character stands the terminator.\<close>

definition c_at :: "string \<Rightarrow> nat \<Rightarrow> char" where
  "c_at str pos = (if pos < length str then str ! pos else NUL)"

lemma drop_c_at: "c_at str pos \<noteq> NUL \<Longrightarrow> drop pos str = c_at str pos # drop (Suc pos) str"
  by (auto simp: c_at_def Cons_nth_drop_Suc split: if_splits)

text \<open>\<open>strlen\<close>.\<close>

definition strlen :: "string \<Rightarrow> nat" where
  "strlen s = length (cstr s)"

subsection \<open>Byte buffers\<close>

text \<open>
  A buffer of initialised bytes. Single reads and writes, and copies of several bytes, fail
  outside the buffer. \<open>store\<close> is what a routine that builds a C string leaves behind: the
  string, its terminator, and every other byte as it was.
\<close>

definition rd :: "char list \<Rightarrow> nat \<Rightarrow> char res" where
  "rd m a = (if a < length m then Inr (m ! a) else Inl Out_Of_Bounds)"

definition wr :: "char list \<Rightarrow> nat \<Rightarrow> char \<Rightarrow> char list res" where
  "wr m a c = (if a < length m then Inr (m[a := c]) else Inl Out_Of_Bounds)"

definition wr_all :: "char list \<Rightarrow> nat \<Rightarrow> string \<Rightarrow> char list res" where
  "wr_all m a s =
     (if a + length s \<le> length m then Inr (take a m @ s @ drop (a + length s) m)
      else Inl Out_Of_Bounds)"

definition store :: "char list \<Rightarrow> nat \<Rightarrow> string \<Rightarrow> char list" where
  "store m a s = take a m @ s @ [NUL] @ drop (a + length s + 1) m"

lemma length_store [simp]: "a + length s < length m \<Longrightarrow> length (store m a s) = length m"
  by (simp add: store_def)

lemma drop_store: "a \<le> length m \<Longrightarrow> drop a (store m a s) = s @ NUL # drop (a + length s + 1) m"
  by (simp add: store_def)

lemma cstr_append_NUL: "NUL \<notin> set s \<Longrightarrow> cstr (s @ NUL # r) = s"
  by (induction s) (auto simp: cstr_def)

lemma cstr_drop_store:
  "a \<le> length m \<Longrightarrow> NUL \<notin> set s \<Longrightarrow> cstr (drop a (store m a s)) = s"
  by (simp add: drop_store cstr_append_NUL)

lemma store_Nil: "a < length m \<Longrightarrow> m[a := NUL] = store m a []"
  by (simp add: store_def upd_conv_take_nth_drop)

text \<open>Writing one character and then storing the rest behind it stores the longer string.\<close>

lemma store_Cons:
  "a < length m \<Longrightarrow> store (m[a := c]) (Suc a) s = store m a (c # s)"
  by (simp add: store_def take_Suc_conv_app_nth drop_update_cancel)

section \<open>Decimal numbers\<close>

definition digit_char :: "nat \<Rightarrow> char" where
  "digit_char d = char_of (48 + d)"

fun dec :: "nat \<Rightarrow> string" where
  "dec n = (if n < 10 then [digit_char n] else dec (n div 10) @ [digit_char (n mod 10)])"

declare dec.simps [simp del]

text \<open>The output of \<open>"%d"\<close>, \<open>"%lli"\<close> and their kin.\<close>

definition show_int :: "int \<Rightarrow> string" where
  "show_int i = (if i < 0 then CHR ''-'' # dec (nat (- i)) else dec (nat i))"

text \<open>The value of a digit in any base up to 16; the letters stand for 10 to 15.\<close>

definition digit_val :: "char \<Rightarrow> nat option" where
  "digit_val c =
     (if isdigit c then Some (byte c - 48)
      else if 65 \<le> byte c \<and> byte c \<le> 70 then Some (byte c - 55)
      else if 97 \<le> byte c \<and> byte c \<le> 102 then Some (byte c - 87)
      else None)"

definition is_digit_of :: "nat \<Rightarrow> char \<Rightarrow> bool" where
  "is_digit_of base c \<longleftrightarrow> (case digit_val c of None \<Rightarrow> False | Some d \<Rightarrow> d < base)"

definition digits_value :: "nat \<Rightarrow> string \<Rightarrow> nat" where
  "digits_value base ds = foldl (\<lambda>a c. a * base + the (digit_val c)) 0 ds"

lemma digit_char_less: "d < 10 \<Longrightarrow> byte (digit_char d) = 48 + d"
  by (simp add: digit_char_def)

lemma isdigit_digit_char [simp]: "d < 10 \<Longrightarrow> isdigit (digit_char d)"
  by (simp add: isdigit_def digit_char_less)

lemma digit_val_digit_char [simp]: "d < 10 \<Longrightarrow> digit_val (digit_char d) = Some d"
  by (simp add: digit_val_def digit_char_less isdigit_def)

lemma isdigit_dec: "c \<in> set (dec n) \<Longrightarrow> isdigit c"
proof (induction n rule: dec.induct)
  case (1 n)
  then show ?case by (cases "n < 10") (auto simp: dec.simps [of n])
qed

lemma dec_not_Nil [simp]: "dec n \<noteq> []"
  by (subst dec.simps) simp

lemma digits_value_snoc:
  "digits_value b (ds @ [c]) = digits_value b ds * b + the (digit_val c)"
  by (simp add: digits_value_def)

lemma digits_value_dec [simp]: "digits_value 10 (dec n) = n"
proof (induction n rule: dec.induct)
  case (1 n)
  then show ?case
    by (cases "n < 10")
       (simp_all add: dec.simps [of n] digits_value_snoc, simp add: digits_value_def)
qed

lemma hd_dec_zero: "hd (dec n) = CHR ''0'' \<longleftrightarrow> n = 0"
proof (induction n rule: dec.induct)
  case (1 n)
  have eq: "CHR ''0'' = digit_char 0" by code_simp
  have "byte (digit_char n) = byte (digit_char 0) \<longleftrightarrow> n = 0" if "n < 10"
    using that by (simp add: digit_char_less)
  then have small: "digit_char n = digit_char 0 \<longleftrightarrow> n = 0" if "n < 10"
    using that by (metis byte_eq_iff)
  from 1 show ?case
    by (cases "n < 10") (auto simp: dec.simps [of n] eq small)
qed

text \<open>
  \<open>sscanf(s, "%lli", &n) == 1\<close>: white space is skipped, a sign is optional, and the base comes
  from the prefix as in a C literal: \<open>0x\<close> is hexadecimal, a leading \<open>0\<close> is octal, anything
  else is decimal. The scan stops at the first character that is no digit of that base, and a
  value outside the 64-bit range saturates. \<open>None\<close> is a matching failure.
\<close>

definition sat64 :: "int \<Rightarrow> int" where
  "sat64 i = max (- (2 ^ 63)) (min (2 ^ 63 - 1) i)"

definition scan_base :: "string \<Rightarrow> nat \<times> string" where
  "scan_base s =
     (case s of
        [] \<Rightarrow> (10, s)
      | c # r \<Rightarrow>
          if c \<noteq> CHR ''0'' then (10, s)
          else (case r of
                  [] \<Rightarrow> (8, s)
                | x # r' \<Rightarrow> if x = CHR ''x'' \<or> x = CHR ''X'' then (16, r') else (8, s)))"

definition scan_sign :: "string \<Rightarrow> bool \<times> string" where
  "scan_sign s =
     (case s of
        [] \<Rightarrow> (False, s)
      | c # r \<Rightarrow> if c = CHR ''-'' then (True, r)
                else if c = CHR ''+'' then (False, r) else (False, s))"

definition sscanf_lli :: "string \<Rightarrow> int option" where
  "sscanf_lli s =
     (let (neg, s1) = scan_sign (dropWhile isspace s);
          (base, s2) = scan_base s1;
          ds = takeWhile (is_digit_of base) s2
      in if ds = [] then None
         else let v = int (digits_value base ds)
              in Some (sat64 (if neg then - v else v)))"

definition int64 :: "int \<Rightarrow> bool" where
  "int64 i \<longleftrightarrow> - (2 ^ 63) \<le> i \<and> i < 2 ^ 63"

lemma isdigit_not_space: "isdigit c \<Longrightarrow> \<not> isspace c"
  by (auto simp: isdigit_def isspace_def)

lemma isdigit_is_digit_of_10: "isdigit c \<Longrightarrow> is_digit_of 10 c"
  by (auto simp: is_digit_of_def digit_val_def isdigit_def)

lemma dec_Cons: "\<exists>c r. dec n = c # r \<and> isdigit c"
  using isdigit_dec [of "hd (dec n)" n] by (cases "dec n") auto

lemma isdigit_neq_sign: "isdigit c \<Longrightarrow> c \<noteq> CHR ''-'' \<and> c \<noteq> CHR ''+''"
  by (auto simp: isdigit_def)

lemma scan_sign_digit: "isdigit c \<Longrightarrow> scan_sign (c # r) = (False, c # r)"
  by (simp add: scan_sign_def isdigit_neq_sign)

lemma takeWhile_dec: "takeWhile (is_digit_of 10) (dec n) = dec n"
  by (simp add: takeWhile_eq_all_conv isdigit_dec isdigit_is_digit_of_10)

lemma scan_base_dec: "scan_base (dec n) = (if n = 0 then 8 else 10, dec n)"
proof (cases "n = 0")
  case True
  then show ?thesis by (simp add: scan_base_def dec.simps [of 0] digit_char_def) code_simp
next
  case False
  obtain c r where c: "dec n = c # r" using dec_Cons by blast
  with False hd_dec_zero [of n] have "c \<noteq> CHR ''0''" by simp
  with c False show ?thesis by (simp add: scan_base_def)
qed

lemma scan_digits_dec:
  obtains b where "scan_base (dec n) = (b, dec n)"
    and "takeWhile (is_digit_of b) (dec n) = dec n" and "digits_value b (dec n) = n"
proof (cases "n = 0")
  case True
  have "takeWhile (is_digit_of 8) (dec 0) = dec 0" and "digits_value 8 (dec 0) = 0"
    by code_simp+
  with True show ?thesis by (intro that [of 8]) (simp_all add: scan_base_dec)
next
  case False
  then show ?thesis by (intro that [of 10]) (simp_all add: scan_base_dec takeWhile_dec)
qed

text \<open>Scanning what \<open>"%lli"\<close> printed gives the number back: the printed form never has a leading zero.\<close>

lemma sscanf_lli_show_int:
  assumes "int64 i"
  shows "sscanf_lli (show_int i) = Some i"
proof -
  have nz: "sscanf_lli (dec n) = Some (sat64 (int n))" for n
  proof -
    obtain c r where c: "dec n = c # r" "isdigit c" using dec_Cons by blast
    then have "scan_sign (dropWhile isspace (dec n)) = (False, dec n)"
      by (simp add: isdigit_not_space scan_sign_digit)
    moreover obtain b where "scan_base (dec n) = (b, dec n)"
      "takeWhile (is_digit_of b) (dec n) = dec n" "digits_value b (dec n) = n"
      by (rule scan_digits_dec)
    ultimately show ?thesis by (simp add: sscanf_lli_def del: takeWhile_eq_all_conv)
  qed
  have neg: "sscanf_lli (CHR ''-'' # dec n) = Some (sat64 (- int n))" for n
  proof -
    have "scan_sign (dropWhile isspace (CHR ''-'' # dec n)) = (True, dec n)"
      by (simp add: isspace_def scan_sign_def)
    moreover obtain b where "scan_base (dec n) = (b, dec n)"
      "takeWhile (is_digit_of b) (dec n) = dec n" "digits_value b (dec n) = n"
      by (rule scan_digits_dec)
    ultimately show ?thesis by (simp add: sscanf_lli_def del: takeWhile_eq_all_conv)
  qed
  show ?thesis
    using assms nz [of "nat i"] neg [of "nat (- i)"]
    by (auto simp: show_int_def sat64_def int64_def)
qed

end
