(* ===== verification/PrintBuf.thy ===== *)
theory PrintBuf
  imports Prelude
begin

text \<open>
  The growing output buffer of \<open>platform/shared/json/printbuf.c\<close>: the structure, its five
  operations with their allocation failures, the invariant that keeps every write inside the
  block, and the contract \<open>byte_sink\<close> the JSON printer and the tokener rely on.
\<close>

section \<open>The structure and its operations\<close>

record printbuf =
  pb_buf :: "char block"
  bpos :: int
  pb_size :: int

text \<open>
  \<open>printbuf_new\<close> leaves the block uninitialised: not even the first byte is written.
\<close>

definition printbuf_new :: "allocator \<Rightarrow> printbuf option" where
  "printbuf_new mem =
     (if \<not> alloc_ok mem 16 then None
      else if \<not> alloc_ok mem 32 then None
      else Some \<lparr>pb_buf = replicate 32 None, bpos = 0, pb_size = 32\<rparr>)"

text \<open>
  \<open>s\<close> is the object the source pointer refers to, \<open>n\<close> the number of bytes asked for.
\<close>

definition printbuf_memappend ::
  "allocator \<Rightarrow> printbuf \<Rightarrow> string \<Rightarrow> int \<Rightarrow> (int \<times> printbuf) res" where
  "printbuf_memappend mem p s n =
     (let grow = (pb_size p - bpos p \<le> n);
          new_size = max (wrap32 (pb_size p * 2)) (wrap32 (bpos p + n + 8))
      in if grow \<and> \<not> alloc_ok mem new_size then Inr (-1, p)
         else
           let p1 = (if grow then p\<lparr>pb_size := new_size, pb_buf := mem_realloc (pb_buf p) new_size\<rparr>
                     else p)
           in if n < 0 \<or> int (length s) < n then Inl Out_Of_Bounds
              else (case mem_write (pb_buf p1) (bpos p1) (map Some (take (nat n) s)) of
                      None \<Rightarrow> Inl Out_Of_Bounds
                    | Some b \<Rightarrow>
                        (case mem_write b (wrap32 (bpos p1 + n)) [Some NUL] of
                           None \<Rightarrow> Inl Out_Of_Bounds
                         | Some b' \<Rightarrow> Inr (n, p1\<lparr>bpos := wrap32 (bpos p1 + n), pb_buf := b'\<rparr>))))"

text \<open>
  The formatted text \<open>out\<close> of a call is what the C library's formatter produces for it.
  \<open>vasprintf\<close> allocates room for it and its terminator; \<open>None\<close> is the result \<open>-1\<close>.
\<close>

definition vasprintf :: "allocator \<Rightarrow> string \<Rightarrow> string option" where
  "vasprintf mem out = (if alloc_ok mem (int (length out) + 1) then Some out else None)"

text \<open>
  \<open>neg\<close> says whether the library's \<open>vsnprintf\<close> reports a truncated output as \<open>-1\<close> or by
  the length it would have had; the code handles both.
\<close>

definition sprintbuf :: "allocator \<Rightarrow> bool \<Rightarrow> printbuf \<Rightarrow> string \<Rightarrow> (int \<times> printbuf) res" where
  "sprintbuf mem neg p out =
     (let size = (if neg \<and> 128 \<le> length out then -1 else int (length out))
      in if size = -1 \<or> size > 127
         then (case vasprintf mem out of
                 None \<Rightarrow> Inr (-1, p)
               | Some t \<Rightarrow> printbuf_memappend mem p t (int (length t)))
         else printbuf_memappend mem p (take 127 out) size)"

definition printbuf_reset :: "printbuf \<Rightarrow> printbuf res" where
  "printbuf_reset p =
     (case mem_write (pb_buf p) 0 [Some NUL] of
        None \<Rightarrow> Inl Out_Of_Bounds
      | Some b \<Rightarrow> Inr (p\<lparr>pb_buf := b, bpos := 0\<rparr>))"

text \<open>\<open>printbuf_free\<close> accepts NULL; the result lists the blocks it gave back.\<close>

definition printbuf_free :: "printbuf option \<Rightarrow> char block list" where
  "printbuf_free po = (case po of None \<Rightarrow> [] | Some p \<Rightarrow> [pb_buf p])"

section \<open>Invariant and content\<close>

definition pb_inv :: "printbuf \<Rightarrow> bool" where
  "pb_inv p \<longleftrightarrow> int (length (pb_buf p)) = pb_size p \<and> 0 \<le> bpos p \<and> bpos p < pb_size p
     \<and> pb_size p < 2 ^ 31 \<and> None \<notin> set (take (nat (bpos p)) (pb_buf p))"

definition pb_content :: "printbuf \<Rightarrow> string" where
  "pb_content p = map the (take (nat (bpos p)) (pb_buf p))"

definition pb_terminated :: "printbuf \<Rightarrow> bool" where
  "pb_terminated p \<longleftrightarrow> mem_read (pb_buf p) (bpos p) = Some (Some NUL)"

lemma printbuf_new_inv:
  "printbuf_new mem = Some p \<Longrightarrow> pb_inv p \<and> pb_content p = []"
  by (auto simp: printbuf_new_def pb_inv_def pb_content_def split: if_splits)

lemma printbuf_reset_ok:
  assumes "pb_inv p"
  obtains p' where "printbuf_reset p = Inr p'" "pb_inv p'" "pb_content p' = []" "pb_terminated p'"
    "bpos p' = 0"
proof -
  from assms have "0 < length (pb_buf p)" by (auto simp: pb_inv_def)
  then obtain c r where b: "pb_buf p = c # r" by (cases "pb_buf p") auto
  with assms show ?thesis
    by (intro that [of "p\<lparr>pb_buf := Some NUL # r, bpos := 0\<rparr>"])
       (auto simp: printbuf_reset_def mem_write_def pb_inv_def pb_content_def pb_terminated_def
          mem_read_def)
qed

text \<open>The block after an append: a grown block keeps the bytes already written.\<close>

lemma write_then_terminate:
  assumes "k + length w < length b"
  shows "mem_write b (int k) w = Some (take k b @ w @ drop (k + length w) b)"
    and "mem_write (take k b @ w @ drop (k + length w) b) (int (k + length w)) [z]
         = Some (take k b @ w @ z # drop (k + length w + 1) b)"
  using assms by (simp_all add: mem_write_def nat_add_distrib)

lemma append_block_ok:
  assumes len: "int (length b) = sz" and k: "k + length s < length b" and small: "sz < 2 ^ 31"
    and init: "None \<notin> set (take k b)"
  shows "pb_inv \<lparr>pb_buf = take k b @ map Some s @ Some NUL # drop (k + length s + 1) b,
                bpos = int (k + length s), pb_size = sz\<rparr>"
    and "pb_content \<lparr>pb_buf = take k b @ map Some s @ Some NUL # drop (k + length s + 1) b,
                bpos = int (k + length s), pb_size = sz\<rparr> = map the (take k b) @ s"
    and "pb_terminated \<lparr>pb_buf = take k b @ map Some s @ Some NUL # drop (k + length s + 1) b,
                bpos = int (k + length s), pb_size = sz\<rparr>"
proof -
  let ?b = "take k b @ map Some s @ Some NUL # drop (k + length s + 1) b"
  have tk: "take (k + length s) ?b = take k b @ map Some s" using k by simp
  have lb: "length ?b = length b" using k by simp
  show "pb_inv \<lparr>pb_buf = ?b, bpos = int (k + length s), pb_size = sz\<rparr>"
    using assms lb tk by (simp add: pb_inv_def)
  show "pb_content \<lparr>pb_buf = ?b, bpos = int (k + length s), pb_size = sz\<rparr> = map the (take k b) @ s"
    using tk by (simp add: pb_content_def comp_def)
  have "?b ! (k + length s) = Some NUL" using k by (simp add: nth_append)
  then show "pb_terminated \<lparr>pb_buf = ?b, bpos = int (k + length s), pb_size = sz\<rparr>"
    using k lb by (simp add: pb_terminated_def mem_read_def nat_int_add)
qed

lemma memappend_ok:
  assumes inv: "pb_inv p" and room: "bpos p + int (length s) + 8 < 2 ^ 31"
    and mem: "pb_size p - bpos p \<le> int (length s) \<Longrightarrow>
      alloc_ok mem (max (wrap32 (pb_size p * 2)) (wrap32 (bpos p + int (length s) + 8)))"
  obtains p' where "printbuf_memappend mem p s (int (length s)) = Inr (int (length s), p')"
    "pb_inv p'" "pb_content p' = pb_content p @ s" "pb_terminated p'"
    "bpos p' = bpos p + int (length s)"
proof -
  let ?n = "int (length s)" and ?k = "nat (bpos p)"
  define grow where "grow \<longleftrightarrow> pb_size p - bpos p \<le> ?n"
  define ns where "ns = max (wrap32 (pb_size p * 2)) (wrap32 (bpos p + ?n + 8))"
  define b where "b = (if grow then mem_realloc (pb_buf p) ns else pb_buf p)"
  define sz where "sz = (if grow then ns else pb_size p)"
  from inv have k: "0 \<le> bpos p" "bpos p < pb_size p" "int (length (pb_buf p)) = pb_size p"
    by (auto simp: pb_inv_def)
  have w: "wrap32 (bpos p + ?n + 8) = bpos p + ?n + 8" "wrap32 (bpos p + ?n) = bpos p + ?n"
    using k room by (auto intro!: wrap32_id)
  have ns: "bpos p + ?n + 8 \<le> ns" "ns < 2 ^ 31"
    using w wrap32_range [of "pb_size p * 2"] room by (auto simp: ns_def max_def)
  have al: "grow \<Longrightarrow> alloc_ok mem ns" using mem by (simp add: ns_def grow_def)
  have lb: "int (length b) = sz" "?k + length s < length b" "sz < 2 ^ 31"
    "take ?k b = take ?k (pb_buf p)"
    using ns k inv by (auto simp: b_def sz_def grow_def pb_inv_def)
  have init: "None \<notin> set (take ?k b)" using lb inv by (simp add: pb_inv_def)
  define p' where "p' = \<lparr>pb_buf = take ?k b @ map Some s @ Some NUL # drop (?k + length s + 1) b,
                bpos = int (?k + length s), pb_size = sz\<rparr>"
  have wr: "mem_write b (bpos p) (map Some s) = Some (take ?k b @ map Some s @ drop (?k + length s) b)"
    "mem_write (take ?k b @ map Some s @ drop (?k + length s) b) (bpos p + ?n) [Some NUL]
     = Some (pb_buf p')"
    using write_then_terminate(1) [of ?k "map Some s" b]
      write_then_terminate(2) [of ?k "map Some s" b "Some NUL"] lb k by (simp_all add: p'_def)
  have eq: "(if grow then p\<lparr>pb_size := ns, pb_buf := mem_realloc (pb_buf p) ns\<rparr> else p)
    = \<lparr>pb_buf = b, bpos = bpos p, pb_size = sz\<rparr>"
    by (simp add: b_def sz_def)
  have "printbuf_memappend mem p s ?n = Inr (?n, p')"
    unfolding printbuf_memappend_def Let_def grow_def [symmetric] ns_def [symmetric] eq
    using al wr k by (auto simp: w p'_def)
  moreover have "pb_content p' = pb_content p @ s"
    using append_block_ok(2) [OF lb(1,2,3) init] lb(4) by (simp add: p'_def pb_content_def)
  ultimately show ?thesis
    using that append_block_ok(1,3) [OF lb(1,2,3) init] k by (simp add: p'_def)
qed

lemma memappend_no_memory:
  assumes "pb_size p - bpos p \<le> n"
    and "\<not> alloc_ok mem (max (wrap32 (pb_size p * 2)) (wrap32 (bpos p + n + 8)))"
  shows "printbuf_memappend mem p s n = Inr (-1, p)"
  using assms by (simp add: printbuf_memappend_def)

lemma sprintbuf_eq_memappend:
  assumes "alloc_ok mem (int (length out) + 1)"
  shows "sprintbuf mem neg p out = printbuf_memappend mem p out (int (length out))"
  using assms by (auto simp: sprintbuf_def vasprintf_def Let_def)

section \<open>The contract of an output buffer\<close>

text \<open>
  What a client relies on: as long as there is room, appending a text succeeds, keeps the
  invariant, extends the content by exactly that text and uses up exactly that much room.
\<close>

locale byte_sink =
  fixes inv :: "'p \<Rightarrow> bool"
    and content :: "'p \<Rightarrow> string"
    and room :: "'p \<Rightarrow> nat \<Rightarrow> bool"
    and emit :: "string \<Rightarrow> 'p \<Rightarrow> 'p res"
  assumes emit_ok: "inv p \<Longrightarrow> room p (length s + m) \<Longrightarrow>
      \<exists>p'. emit s p = Inr p' \<and> inv p' \<and> content p' = content p @ s \<and> room p' m"
begin

definition emits :: "string \<Rightarrow> ('p \<Rightarrow> 'p res) \<Rightarrow> bool" where
  "emits s f \<longleftrightarrow> (\<forall>p m. inv p \<longrightarrow> room p (length s + m) \<longrightarrow>
      (\<exists>p'. f p = Inr p' \<and> inv p' \<and> content p' = content p @ s \<and> room p' m))"

lemma emits_emit [intro]: "emits s (emit s)"
  unfolding emits_def using emit_ok by blast

lemma emits_Nil [intro]: "emits [] Inr"
  unfolding emits_def by simp

lemma emits_bind:
  assumes "emits s f" and "emits t g"
  shows "emits (s @ t) (\<lambda>p. rbind (f p) g)"
  unfolding emits_def
proof (intro allI impI)
  fix p m assume "inv p" and "room p (length (s @ t) + m)"
  then have "room p (length s + (length t + m))" by (simp add: add.assoc)
  with assms(1) \<open>inv p\<close> obtain p1 where p1: "f p = Inr p1" "inv p1" "content p1 = content p @ s"
    "room p1 (length t + m)"
    unfolding emits_def by meson
  with assms(2) obtain p2 where "g p1 = Inr p2" "inv p2" "content p2 = content p1 @ t" "room p2 m"
    unfolding emits_def by meson
  with p1 show "\<exists>p'. rbind (f p) g = Inr p' \<and> inv p' \<and> content p' = content p @ s @ t \<and> room p' m"
    by simp
qed

lemma emitsD:
  assumes "emits s f" and "inv p" and "room p (length s)"
  obtains p' where "f p = Inr p'" "inv p'" "content p' = content p @ s"
  using assms unfolding emits_def by (metis add.right_neutral)

end

text \<open>
  The callers of \<open>printbuf.c\<close> drop the return values, so an emission is the buffer a call
  leaves behind.
\<close>

definition pb_append :: "allocator \<Rightarrow> string \<Rightarrow> printbuf \<Rightarrow> printbuf res" where
  "pb_append mem s p = rbind (printbuf_memappend mem p s (int (length s))) (\<lambda>(r, p'). Inr p')"

definition pb_printf :: "allocator \<Rightarrow> bool \<Rightarrow> string \<Rightarrow> printbuf \<Rightarrow> printbuf res" where
  "pb_printf mem neg s p = rbind (sprintbuf mem neg p s) (\<lambda>(r, p'). Inr p')"

definition pb_room :: "allocator \<Rightarrow> printbuf \<Rightarrow> nat \<Rightarrow> bool" where
  "pb_room mem p n \<longleftrightarrow> (\<forall>k. 0 \<le> k \<longrightarrow> k < 2 ^ 31 \<longrightarrow> mem k) \<and> bpos p + int n + 8 < 2 ^ 31"

lemma pb_append_terminated:
  assumes "pb_inv p" and "pb_room mem p (length s + m)"
  shows "\<exists>p'. pb_append mem s p = Inr p' \<and> pb_inv p' \<and> pb_content p' = pb_content p @ s
           \<and> pb_room mem p' m \<and> pb_terminated p'"
proof -
  from assms(2) have "bpos p + int (length s) + 8 < 2 ^ 31" by (simp add: pb_room_def)
  moreover have "alloc_ok mem (max (wrap32 (pb_size p * 2)) (wrap32 (bpos p + int (length s) + 8)))"
    using assms calculation wrap32_range [of "pb_size p * 2"]
      wrap32_id [of "bpos p + int (length s) + 8"]
    by (auto simp: pb_room_def pb_inv_def alloc_ok_def max_def)
  ultimately obtain p' where "printbuf_memappend mem p s (int (length s)) = Inr (int (length s), p')"
    "pb_inv p'" "pb_content p' = pb_content p @ s" "pb_terminated p'"
    "bpos p' = bpos p + int (length s)"
    by (rule memappend_ok [OF assms(1)])
  with assms(2) show ?thesis by (auto simp: pb_append_def pb_room_def)
qed

lemma pb_append_ok:
  assumes "pb_inv p" and "pb_room mem p (length s + m)"
  shows "\<exists>p'. pb_append mem s p = Inr p' \<and> pb_inv p' \<and> pb_content p' = pb_content p @ s
           \<and> pb_room mem p' m"
  using pb_append_terminated [OF assms] by blast

lemma pb_printf_eq_append:
  assumes "pb_inv p" and "pb_room mem p (length s)"
  shows "pb_printf mem neg s p = pb_append mem s p"
proof -
  have "alloc_ok mem (int (length s) + 1)"
    using assms by (auto simp: pb_room_def pb_inv_def alloc_ok_def)
  then show ?thesis by (simp add: pb_printf_def pb_append_def sprintbuf_eq_memappend)
qed

interpretation pba: byte_sink pb_inv pb_content "pb_room mem" "pb_append mem" for mem
  by unfold_locales (rule pb_append_ok)

interpretation pbp: byte_sink pb_inv pb_content "pb_room mem" "pb_printf mem neg" for mem neg
proof unfold_locales
  fix p m and s :: string
  assume p: "pb_inv p" "pb_room mem p (length s + m)"
  then have "pb_room mem p (length s)" by (simp add: pb_room_def)
  with p show "\<exists>p'. pb_printf mem neg s p = Inr p' \<and> pb_inv p' \<and> pb_content p' = pb_content p @ s
      \<and> pb_room mem p' m"
    using pb_append_ok by (simp add: pb_printf_eq_append)
qed

section \<open>Properties\<close>

text \<open>
  C39. Appending is memory safe and exact: while the end position stays below \<open>2^31 - 8\<close>, every
  write of \<open>printbuf_memappend\<close> is inside the block and the buffer ends up with its old
  content followed by the new bytes and a terminator. It fails in exactly one case: the block is too small
  and the allocator refuses the larger of twice its size and the new end with eight bytes to spare; then the
  result is \<open>-1\<close> and nothing changed.
\<close>

theorem printbuf_memappend_correct:
  assumes "pb_inv p" and "bpos p + int (length s) + 8 < 2 ^ 31"
  defines "new_size \<equiv> max (wrap32 (pb_size p * 2)) (bpos p + int (length s) + 8)"
  shows "if pb_size p - bpos p \<le> int (length s) \<and> \<not> mem new_size
         then printbuf_memappend mem p s (int (length s)) = Inr (-1, p)
         else \<exists>p'. printbuf_memappend mem p s (int (length s)) = Inr (int (length s), p') \<and> pb_inv p'
                 \<and> pb_content p' = pb_content p @ s \<and> pb_terminated p'"
proof -
  have w: "wrap32 (bpos p + int (length s) + 8) = bpos p + int (length s) + 8"
    using assms(1,2) by (intro wrap32_id) (auto simp: pb_inv_def)
  have pos: "0 \<le> new_size" using assms(1) by (auto simp: new_size_def pb_inv_def)
  show ?thesis
  proof (cases "pb_size p - bpos p \<le> int (length s) \<and> \<not> mem new_size")
    case True
    then show ?thesis using memappend_no_memory [of p "int (length s)" mem s] by (simp add: w alloc_ok_def new_size_def)
  next
    case False
    then have "pb_size p - bpos p \<le> int (length s) \<Longrightarrow>
        alloc_ok mem (max (wrap32 (pb_size p * 2)) (wrap32 (bpos p + int (length s) + 8)))"
      using pos by (simp add: w alloc_ok_def new_size_def)
    from memappend_ok [OF assms(1,2) this] False show ?thesis by metis
  qed
qed

theorem printbuf_memappend_correct_witness:
  "(\<exists>p'. printbuf_memappend (\<lambda>n. n = 64) \<lparr>pb_buf = replicate 32 None, bpos = 0, pb_size = 32\<rparr> (replicate 40 (CHR ''a'')) 40
          = Inr (40, p') \<and> pb_inv p' \<and> pb_content p' = replicate 40 (CHR ''a'') \<and> pb_terminated p') \<and>
   printbuf_memappend (\<lambda>n. n \<noteq> 64) \<lparr>pb_buf = replicate 32 None, bpos = 0, pb_size = 32\<rparr> (replicate 40 (CHR ''a'')) 40 =
     Inr (-1, \<lparr>pb_buf = replicate 32 None, bpos = 0, pb_size = 32\<rparr>)"
proof -
  let ?p = "\<lparr>pb_buf = replicate 32 None, bpos = 0, pb_size = 32\<rparr> :: printbuf"
  have p: "pb_inv ?p" "bpos ?p + int (length (replicate 40 (CHR ''a''))) + 8 < 2 ^ 31" by (simp_all add: pb_inv_def)
  have "wrap32 64 = 64" by (simp add: wrap32_def)
  then show ?thesis
    using printbuf_memappend_correct [OF p, of "\<lambda>n. n = 64"] printbuf_memappend_correct [OF p, of "\<lambda>n. n \<noteq> 64"]
    by (simp add: pb_content_def)
qed

text \<open>
  \<open>sprintbuf\<close> never truncates: whichever way the library's \<open>vsnprintf\<close> reports an output that
  does not fit the 128-byte stack buffer, the call appends the whole formatted text, as one
  \<open>printbuf_memappend\<close> of it would.
\<close>

lemma sprintbuf_no_truncation:
  assumes "alloc_ok mem (int (length out) + 1)"
  shows "sprintbuf mem neg p out = printbuf_memappend mem p out (int (length out))"
  using assms by (rule sprintbuf_eq_memappend)

lemma sprintbuf_no_truncation_witness:
  "sprintbuf (\<lambda>_. True) True \<lparr>pb_buf = replicate 32 None, bpos = 0, pb_size = 32\<rparr>
     (replicate 200 (CHR ''x''))
   = printbuf_memappend (\<lambda>_. True) \<lparr>pb_buf = replicate 32 None, bpos = 0, pb_size = 32\<rparr>
     (replicate 200 (CHR ''x'')) 200"
proof -
  have "alloc_ok (\<lambda>_. True) (int (length (replicate 200 (CHR ''x''))) + 1)"
    by (simp add: alloc_ok_def)
  from sprintbuf_no_truncation
      [OF this, of True "\<lparr>pb_buf = replicate 32 None, bpos = 0, pb_size = 32\<rparr>"]
  show ?thesis by simp
qed

text \<open>
  The bound of the exact-append property is needed: the growth computation is done in \<open>int\<close>, so a request of
  \<open>2^31 - 8\<close> bytes wraps to a negative size, the block grows to 64 bytes only and the copy runs
  past its end.
\<close>

lemma printbuf_memappend_overflow:
  "printbuf_memappend (\<lambda>_. True) \<lparr>pb_buf = replicate 32 None, bpos = 0, pb_size = 32\<rparr>
     (replicate (2 ^ 31 - 8) c) (2 ^ 31 - 8) = Inl Out_Of_Bounds"
proof -
  have "wrap32 64 = 64" "wrap32 2147483648 = -2147483648"
    by (simp_all add: wrap32_def)
  then show ?thesis
    by (simp add: printbuf_memappend_def alloc_ok_def mem_write_def)
qed

end
