(* ===== verification/ArrayList.thy ===== *)
theory ArrayList
  imports Prelude
begin

text \<open>
  The growable array of \<open>platform/shared/json/arraylist.c\<close>, which holds the elements of a JSON
  array: the structure, its operations, its invariant, the contract \<open>dyn_array\<close> with the
  lemma about adding elements one after the other, and the index at which
  \<open>array_list_put_idx\<close> leaves its block.
\<close>

section \<open>The structure and its operations\<close>

text \<open>
  \<open>al_array\<close> is the block of pointers (\<open>None\<close> is NULL; \<open>calloc\<close> and \<open>memset\<close> keep every unused
  slot NULL), \<open>al_length\<close> and \<open>al_size\<close> are the fields \<open>length\<close> and \<open>size\<close>. A pointer takes four
  bytes on the 32-bit phones the program targets.
\<close>

record 'a array_list =
  al_array :: "'a option list"
  al_length :: int
  al_size :: int

definition ARRAY_LIST_DEFAULT_SIZE :: int where
  "ARRAY_LIST_DEFAULT_SIZE = 32"

definition array_list_new :: "allocator \<Rightarrow> 'a array_list option" where
  "array_list_new mem =
     (if \<not> alloc_ok mem 16 then None
      else if \<not> alloc_ok mem (4 * ARRAY_LIST_DEFAULT_SIZE) then None
      else Some \<lparr>al_array = replicate (nat ARRAY_LIST_DEFAULT_SIZE) None, al_length = 0,
                 al_size = ARRAY_LIST_DEFAULT_SIZE\<rparr>)"

text \<open>The elements \<open>free_fn\<close> is called on, in order.\<close>

definition array_list_free :: "'a array_list \<Rightarrow> 'a list" where
  "array_list_free this =
     map the (filter (\<lambda>e. e \<noteq> None) (take (nat (al_length this)) (al_array this)))"

definition array_list_get_idx :: "'a array_list \<Rightarrow> int \<Rightarrow> 'a option res" where
  "array_list_get_idx this i =
     (if al_length this \<le> i then Inr None
      else if i < 0 \<or> int (length (al_array this)) \<le> i then Inl Out_Of_Bounds
      else Inr (al_array this ! nat i))"

text \<open>
  The number of bytes is not reduced to the 32 bits of \<open>size_t\<close>: the two differ only from \<open>2 ^ 30\<close>
  slots on, which already need 4 GB.
\<close>

definition array_list_expand_internal ::
  "allocator \<Rightarrow> 'a array_list \<Rightarrow> int \<Rightarrow> int \<times> 'a array_list" where
  "array_list_expand_internal mem this mx =
     (if mx < al_size this then (0, this)
      else
        let new_size = max (wrap32 (al_size this * 2)) mx
        in if \<not> alloc_ok mem (new_size * 4) then (-1, this)
           else (0, this\<lparr>al_array := take (nat (al_size this)) (al_array this)
                           @ replicate (nat (new_size - al_size this)) None,
                         al_size := new_size\<rparr>))"

text \<open>
  The result is the return value, the array and the element given to \<open>free_fn\<close>, if any.
\<close>

definition array_list_put_idx ::
  "allocator \<Rightarrow> 'a array_list \<Rightarrow> int \<Rightarrow> 'a option \<Rightarrow> (int \<times> 'a array_list \<times> 'a option) res" where
  "array_list_put_idx mem this idx data =
     (let (rc, t) = array_list_expand_internal mem this idx
      in if rc \<noteq> 0 then Inr (-1, t, None)
         else if idx < 0 \<or> int (length (al_array t)) \<le> idx then Inl Out_Of_Bounds
         else Inr (0, t\<lparr>al_array := (al_array t)[nat idx := data],
                        al_length := (if al_length t \<le> idx then wrap32 (idx + 1)
                                      else al_length t)\<rparr>,
                   al_array t ! nat idx))"

definition array_list_add ::
  "allocator \<Rightarrow> 'a array_list \<Rightarrow> 'a option \<Rightarrow> (int \<times> 'a array_list \<times> 'a option) res" where
  "array_list_add mem this data = array_list_put_idx mem this (al_length this) data"

definition array_list_length :: "'a array_list \<Rightarrow> int" where
  "array_list_length this = al_length this"

section \<open>Invariant and abstraction\<close>

text \<open>
  The block has \<open>size\<close> slots, \<open>length\<close> of them in use, and the slots beyond are NULL.
\<close>

definition al_inv :: "'a array_list \<Rightarrow> bool" where
  "al_inv a \<longleftrightarrow> 0 \<le> al_length a \<and> al_length a \<le> al_size a \<and> 0 < al_size a \<and> al_size a < 2 ^ 31
     \<and> int (length (al_array a)) = al_size a
     \<and> (\<forall>i < length (al_array a). nat (al_length a) \<le> i \<longrightarrow> al_array a ! i = None)"

definition al_elems :: "'a array_list \<Rightarrow> 'a option list" where
  "al_elems a = take (nat (al_length a)) (al_array a)"

lemma al_elems_length: "al_inv a \<Longrightarrow> int (length (al_elems a)) = al_length a"
  by (auto simp: al_inv_def al_elems_def)

lemma array_list_new_inv: "array_list_new mem = Some a \<Longrightarrow> al_inv a \<and> al_elems a = []"
  by (auto simp: array_list_new_def ARRAY_LIST_DEFAULT_SIZE_def al_inv_def al_elems_def
      split: if_splits)

lemma array_list_get_idx_elems:
  "al_inv a \<Longrightarrow> i < length (al_elems a) \<Longrightarrow> array_list_get_idx a (int i) = Inr (al_elems a ! i)"
  by (auto simp: array_list_get_idx_def al_inv_def al_elems_def)

lemma array_list_get_idx_beyond:
  "al_length a \<le> i \<Longrightarrow> array_list_get_idx a i = Inr None"
  by (simp add: array_list_get_idx_def)

text \<open>Growing changes neither the elements nor the invariant and makes room for one more slot.\<close>

lemma expand_ok:
  assumes inv: "al_inv a" and idx: "al_size a \<le> idx" "idx < 2 * al_size a"
    and small: "2 * al_size a < 2 ^ 31" and mem: "alloc_ok mem (al_size a * 2 * 4)"
  obtains a' where "array_list_expand_internal mem a idx = (0, a')" "al_inv a'"
    "al_elems a' = al_elems a" "al_length a' = al_length a" "al_size a' = 2 * al_size a"
proof -
  let ?a = "a\<lparr>al_array := al_array a @ replicate (nat (al_size a)) None, al_size := al_size a * 2\<rparr>"
  have w: "wrap32 (al_size a * 2) = al_size a * 2"
    using inv small by (intro wrap32_id) (auto simp: al_inv_def)
  have "take (nat (al_size a)) (al_array a) = al_array a" using inv by (auto simp: al_inv_def)
  then have "array_list_expand_internal mem a idx = (0, ?a)"
    using inv idx mem by (simp add: array_list_expand_internal_def Let_def w max_def al_inv_def)
  moreover have "al_inv ?a"
    using inv small by (auto simp: al_inv_def nth_append)
  moreover have "al_elems ?a = al_elems a"
    using inv by (auto simp: al_elems_def al_inv_def)
  ultimately show ?thesis using that by simp
qed

text \<open>The array after storing \<open>x\<close> in the first unused slot.\<close>

definition al_snoc :: "'a array_list \<Rightarrow> 'a option \<Rightarrow> 'a array_list" where
  "al_snoc a x = a\<lparr>al_array := (al_array a)[nat (al_length a) := x], al_length := al_length a + 1\<rparr>"

lemma al_snoc_ok:
  assumes inv: "al_inv a" and "al_length a < al_size a"
  shows "al_inv (al_snoc a x)" and "al_elems (al_snoc a x) = al_elems a @ [x]"
proof -
  have n: "nat (al_length a) < length (al_array a)" "nat (al_length a + 1) = Suc (nat (al_length a))"
    using assms by (auto simp: al_inv_def)
  show "al_elems (al_snoc a x) = al_elems a @ [x]"
    using n by (simp add: al_elems_def al_snoc_def take_Suc_conv_app_nth)
  show "al_inv (al_snoc a x)"
    using assms n by (auto simp: al_inv_def al_snoc_def nth_list_update)
qed

lemma put_at_end:
  assumes "al_inv t" and "al_length t < al_size t"
    and "array_list_expand_internal mem a (al_length t) = (0, t)"
  shows "array_list_put_idx mem a (al_length t) x = Inr (0, al_snoc t x, None)"
proof -
  have "wrap32 (al_length t + 1) = al_length t + 1"
    using assms by (intro wrap32_id) (auto simp: al_inv_def)
  moreover have "al_array t ! nat (al_length t) = None"
    using assms by (auto simp: al_inv_def)
  ultimately show ?thesis
    using assms by (simp add: array_list_put_idx_def al_snoc_def al_inv_def)
qed

text \<open>\<open>al_room mem a n\<close>: there is memory and index space for \<open>n\<close> more elements.\<close>

definition al_room :: "allocator \<Rightarrow> 'a array_list \<Rightarrow> nat \<Rightarrow> bool" where
  "al_room mem a n \<longleftrightarrow> (\<forall>k. 0 \<le> k \<longrightarrow> k < 2 ^ 33 \<longrightarrow> mem k)
     \<and> al_length a + int n \<le> 2 ^ 30"

lemma array_list_add_ok:
  assumes inv: "al_inv a" and len: "2 * al_length a < 2 ^ 31"
    and mem: "al_length a = al_size a \<Longrightarrow> alloc_ok mem (al_size a * 2 * 4)"
  obtains a' where "array_list_add mem a x = Inr (0, a', None)" "al_inv a'"
    "al_elems a' = al_elems a @ [x]" "al_length a' = al_length a + 1"
proof (cases "al_length a < al_size a")
  case True
  then have "array_list_expand_internal mem a (al_length a) = (0, a)"
    by (simp add: array_list_expand_internal_def)
  from put_at_end [OF inv True this] al_snoc_ok [OF inv True] show ?thesis
    by (intro that [of "al_snoc a x"]) (simp_all add: array_list_add_def al_snoc_def)
next
  case False
  with inv have full: "al_length a = al_size a" by (auto simp: al_inv_def)
  obtain t where t: "array_list_expand_internal mem a (al_length a) = (0, t)" "al_inv t"
    "al_elems t = al_elems a" "al_length t = al_length a" "al_size t = 2 * al_size a"
    using inv len mem [OF full] full
    by (auto simp: al_inv_def intro: expand_ok [of a "al_length a" mem])
  then have "al_length t < al_size t" using inv full by (auto simp: al_inv_def)
  from put_at_end [OF t(2) this] al_snoc_ok [OF t(2) this] t show ?thesis
    by (intro that [of "al_snoc t x"]) (simp_all add: array_list_add_def al_snoc_def)
qed

section \<open>The contract of a growable array\<close>

locale dyn_array =
  fixes inv :: "'ar \<Rightarrow> bool"
    and elems :: "'ar \<Rightarrow> 'e list"
    and room :: "'ar \<Rightarrow> nat \<Rightarrow> bool"
    and add :: "'ar \<Rightarrow> 'e \<Rightarrow> 'ar res"
    and get :: "'ar \<Rightarrow> nat \<Rightarrow> 'e res"
  assumes add_ok: "inv a \<Longrightarrow> room a (Suc n) \<Longrightarrow>
      \<exists>a'. add a x = Inr a' \<and> inv a' \<and> elems a' = elems a @ [x] \<and> room a' n"
    and get_ok: "inv a \<Longrightarrow> i < length (elems a) \<Longrightarrow> get a i = Inr (elems a ! i)"
begin

fun add_all :: "'ar \<Rightarrow> 'e list \<Rightarrow> 'ar res" where
  "add_all a [] = Inr a"
| "add_all a (x # xs) = rbind (add a x) (\<lambda>a'. add_all a' xs)"

lemma add_all_ok:
  "inv a \<Longrightarrow> room a (length xs) \<Longrightarrow>
   \<exists>a'. add_all a xs = Inr a' \<and> inv a' \<and> elems a' = elems a @ xs"
proof (induction xs arbitrary: a)
  case (Cons x xs)
  from add_ok [of a "length xs" x] Cons.prems obtain a1 where
    a1: "add a x = Inr a1" "inv a1" "elems a1 = elems a @ [x]" "room a1 (length xs)" by auto
  from Cons.IH [OF a1(2,4)] a1 show ?case by auto
qed simp

lemma get_added:
  assumes "inv a" and "room a (length xs)" and "i < length xs"
  obtains a' where "add_all a xs = Inr a'" "inv a'" "get a' (length (elems a) + i) = Inr (xs ! i)"
proof -
  obtain a' where "add_all a xs = Inr a'" "inv a'" "elems a' = elems a @ xs"
    using add_all_ok [OF assms(1,2)] by blast
  with assms(3) show ?thesis by (intro that [of a']) (simp_all add: get_ok)
qed

end

definition al_add :: "allocator \<Rightarrow> 'a array_list \<Rightarrow> 'a option \<Rightarrow> 'a array_list res" where
  "al_add mem a x = rbind (array_list_add mem a x) (\<lambda>(rc, a', fr). Inr a')"

definition al_get :: "'a array_list \<Rightarrow> nat \<Rightarrow> 'a option res" where
  "al_get a i = array_list_get_idx a (int i)"

lemma al_add_ok:
  assumes "al_inv a" and "al_room mem a (Suc n)"
  shows "\<exists>a'. al_add mem a x = Inr a' \<and> al_inv a' \<and> al_elems a' = al_elems a @ [x] \<and> al_room mem a' n"
proof -
  have "2 * al_length a < 2 ^ 31" using assms(2) by (simp add: al_room_def)
  moreover have "al_length a = al_size a \<Longrightarrow> alloc_ok mem (al_size a * 2 * 4)"
    using assms by (simp add: al_room_def alloc_ok_def al_inv_def)
  ultimately obtain a' where "array_list_add mem a x = Inr (0, a', None)" "al_inv a'"
    "al_elems a' = al_elems a @ [x]" "al_length a' = al_length a + 1"
    by (rule array_list_add_ok [OF assms(1)])
  with assms(2) show ?thesis by (simp add: al_add_def al_room_def)
qed

interpretation al: dyn_array al_inv al_elems "al_room mem" "al_add mem" al_get for mem
  by unfold_locales (simp_all add: al_add_ok al_get_def array_list_get_idx_elems)

section \<open>Properties\<close>

text \<open>
  \<open>array_list_add\<close> refines appending to a list: from a well-formed array of fewer than
  \<open>2^30\<close> elements it either stores the element behind the existing ones, inside its block, or
  fails with \<open>-1\<close> because the block was full and the allocator refused to grow it.
\<close>

lemma array_list_add_refines_append:
  assumes "al_inv a" and "al_length a < 2 ^ 30"
  shows "(\<exists>a'. array_list_add mem a x = Inr (0, a', None) \<and> al_inv a' \<and> al_elems a' = al_elems a @ [x])
       \<or> (array_list_add mem a x = Inr (-1, a, None) \<and> al_length a = al_size a)"
proof (cases "al_length a = al_size a \<and> \<not> alloc_ok mem (al_size a * 2 * 4)")
  case True
  moreover have "wrap32 (al_size a * 2) = al_size a * 2"
    using assms True by (intro wrap32_id) (auto simp: al_inv_def)
  ultimately show ?thesis
    using assms by (simp add: array_list_add_def array_list_put_idx_def
        array_list_expand_internal_def max_def al_inv_def)
next
  case False
  with assms obtain a' where "array_list_add mem a x = Inr (0, a', None)" "al_inv a'"
    "al_elems a' = al_elems a @ [x]"
    by (auto intro: array_list_add_ok [of a mem x])
  then show ?thesis by blast
qed

lemma array_list_add_refines_append_instance:
  "\<exists>a'. array_list_add (\<lambda>_. True) \<lparr>al_array = [Some True, None], al_length = 2, al_size = 2\<rparr> (Some False)
     = Inr (0, a', None) \<and> al_inv a' \<and> al_elems a' = [Some True, None, Some False]"
proof -
  let ?a = "\<lparr>al_array = [Some True, None], al_length = 2, al_size = 2\<rparr> :: bool array_list"
  have inv: "al_inv ?a" by (simp add: al_inv_def)
  have "al_elems ?a = [Some True, None]" by (simp add: al_elems_def)
  moreover have "array_list_add (\<lambda>_. True) ?a (Some False) \<noteq> Inr (-1, ?a, None)"
    by (simp add: array_list_add_def array_list_put_idx_def array_list_expand_internal_def
        alloc_ok_def wrap32_def)
  ultimately show ?thesis
    using array_list_add_refines_append [OF inv, of "\<lambda>_. True" "Some False"] by simp
qed

text \<open>
  Elements added one after the other to a well-formed array are found again at their
  positions by \<open>array_list_get_idx\<close>, and an index beyond the length reads NULL.
\<close>

lemma array_list_get_after_adds:
  assumes "al_inv a" and "al_room mem a (length xs)" and "i < length xs"
  shows "\<exists>a'. al.add_all mem a xs = Inr a'
     \<and> array_list_get_idx a' (al_length a + int i) = Inr (xs ! i)
     \<and> array_list_get_idx a' (al_length a + int (length xs)) = Inr None"
proof -
  obtain a' where a': "al.add_all mem a xs = Inr a'" "al_inv a'" "al_elems a' = al_elems a @ xs"
    using al.add_all_ok [OF assms(1,2)] by blast
  have len: "al_length a = int (length (al_elems a))" using al_elems_length [OF assms(1)] by simp
  have "array_list_get_idx a' (int (length (al_elems a) + i)) = Inr (xs ! i)"
    using a' assms(3) array_list_get_idx_elems [OF a'(2), of "length (al_elems a) + i"] by simp
  moreover have "array_list_get_idx a' (al_length a + int (length xs)) = Inr None"
    using a' al_elems_length [OF a'(2)] len by (intro array_list_get_idx_beyond) simp
  ultimately show ?thesis using a'(1) len by auto
qed

lemma array_list_get_after_adds_witness:
  "\<exists>a'. al.add_all (\<lambda>_. True) \<lparr>al_array = [None], al_length = 0, al_size = 1\<rparr> [Some True, Some False] = Inr a'
     \<and> array_list_get_idx a' 1 = Inr (Some False) \<and> array_list_get_idx a' 2 = Inr None"
proof -
  let ?a = "\<lparr>al_array = [None], al_length = 0, al_size = 1\<rparr> :: bool array_list"
  have "al_inv ?a" "al_room (\<lambda>_. True) ?a (length [Some True, Some False])"
    "1 < length [Some True, Some False]"
    by (simp_all add: al_inv_def al_room_def)
  from array_list_get_after_adds [OF this] show ?thesis by simp
qed

text \<open>
  \<open>array_list_put_idx\<close> writes out of bounds: the block grows to \<open>max(size * 2, idx)\<close> slots,
  one too few when the index is at least twice the size, so a store at such an index lands just
  behind the block although the growth succeeded.
\<close>

lemma array_list_put_idx_out_of_bounds:
  assumes "al_inv a" and "2 * al_size a \<le> idx" and "idx < 2 ^ 31" and "alloc_ok mem (idx * 4)"
  shows "array_list_put_idx mem a idx x = Inl Out_Of_Bounds"
proof -
  have "wrap32 (al_size a * 2) \<le> idx"
    using assms by (subst wrap32_id) (auto simp: al_inv_def)
  then have "array_list_expand_internal mem a idx
    = (0, a\<lparr>al_array := take (nat (al_size a)) (al_array a) @ replicate (nat (idx - al_size a)) None,
           al_size := idx\<rparr>)"
    using assms by (auto simp: array_list_expand_internal_def max_def al_inv_def)
  moreover have "int (length (take (nat (al_size a)) (al_array a)
      @ replicate (nat (idx - al_size a)) None)) \<le> idx"
    using assms by (auto simp: al_inv_def)
  ultimately show ?thesis by (simp add: array_list_put_idx_def)
qed

lemma array_list_put_idx_out_of_bounds_witness:
  "array_list_put_idx (\<lambda>_. True) \<lparr>al_array = replicate 32 None, al_length = 0, al_size = 32\<rparr> 64 (Some True)
   = Inl Out_Of_Bounds"
proof -
  let ?a = "\<lparr>al_array = replicate 32 None, al_length = 0, al_size = 32\<rparr> :: bool array_list"
  have "al_inv ?a" "2 * al_size ?a \<le> 64" "(64 :: int) < 2 ^ 31" "alloc_ok (\<lambda>_. True) (64 * 4)"
    by (simp_all add: al_inv_def alloc_ok_def)
  from array_list_put_idx_out_of_bounds [OF this] show ?thesis .
qed

end
