(* ===== verification/LinkHash.thy ===== *)
theory LinkHash
  imports Prelude
begin

text \<open>
  The insertion-ordered hash table of \<open>platform/shared/json/linkhash.c\<close>, which holds the
  members of a JSON object: open addressing with linear probing, two sentinels for empty and
  freed slots, and a doubly linked list through the live slots that records the insertion order.
  An entry pointer \<open>&t->table[n]\<close> is modelled by the slot number \<open>n\<close>. The theory gives the
  operations, the invariant of probing and links, the refinement to an association list in
  insertion order, and the table on which a lookup never returns.
\<close>

unbundle bit_operations_syntax

section \<open>The structures\<close>

datatype 'k slot_key = LH_EMPTY | LH_FREED | Key (key_of: 'k)

record ('k, 'v) lh_entry =
  e_k :: "'k slot_key"
  e_v :: "'v option"
  e_next :: "nat option"
  e_prev :: "nat option"

text \<open>
  Slot counts and statistics are natural numbers where the code has \<open>int\<close>: a table of \<open>2^31\<close> slots, or of
  half as many before it is doubled, does not fit the address space.
  \<open>free_fn\<close> is \<open>True\<close> when the function pointer is not NULL.
\<close>

record ('k, 'v) lh_table =
  lh_size :: nat
  lh_count :: int
  collisions :: nat
  resizes :: nat
  lookups :: nat
  inserts :: nat
  head :: "nat option"
  tail :: "nat option"
  table :: "('k, 'v) lh_entry list"
  free_fn :: bool
  hash_fn :: "'k \<Rightarrow> nat"
  equal_fn :: "'k \<Rightarrow> 'k \<Rightarrow> bool"

section \<open>Hash functions\<close>

definition LH_PRIME :: "32 word" where
  "LH_PRIME = 0x9e370001"

definition lh_ptr_hash :: "32 word \<Rightarrow> nat" where
  "lh_ptr_hash k = unat (drop_bit 4 (k * LH_PRIME))"

definition lh_ptr_equal :: "32 word \<Rightarrow> 32 word \<Rightarrow> bool" where
  "lh_ptr_equal k1 k2 \<longleftrightarrow> k1 = k2"

text \<open>\<open>char\<close> is signed on the target compilers: the cast to \<open>unsigned int\<close> extends the sign.\<close>

definition char_word :: "char \<Rightarrow> 32 word" where
  "char_word c = (if byte c < 128 then word_of_nat (byte c) else word_of_nat (byte c) - 256)"

fun lh_char_hash_loop :: "32 word \<Rightarrow> string \<Rightarrow> 32 word" where
  "lh_char_hash_loop h [] = h"
| "lh_char_hash_loop h (c # cs) =
     (if c = NUL then h else lh_char_hash_loop (h * 129 + char_word c + LH_PRIME) cs)"

definition lh_char_hash :: "string \<Rightarrow> nat" where
  "lh_char_hash k = unat (lh_char_hash_loop 0 k)"

definition lh_char_equal :: "string \<Rightarrow> string \<Rightarrow> bool" where
  "lh_char_equal k1 k2 \<longleftrightarrow> cstr k1 = cstr k2"

section \<open>Creation\<close>

definition empty_entry :: "('k, 'v) lh_entry" where
  "empty_entry = \<lparr>e_k = LH_EMPTY, e_v = None, e_next = None, e_prev = None\<rparr>"

text \<open>
  \<open>lh_abort\<close> only writes a log line, so after a failed \<open>calloc\<close> the function goes on and
  dereferences the NULL pointer it got.
\<close>

definition lh_table_new ::
  "allocator \<Rightarrow> nat \<Rightarrow> bool \<Rightarrow> ('k \<Rightarrow> nat) \<Rightarrow> ('k \<Rightarrow> 'k \<Rightarrow> bool) \<Rightarrow> ('k, 'v) lh_table res" where
  "lh_table_new mem sz fr hash eq =
     (if \<not> alloc_ok mem 56 then Inl Null_Deref
      else if \<not> alloc_ok mem (16 * int sz) \<and> 0 < sz then Inl Null_Deref
      else Inr \<lparr>lh_size = sz, lh_count = 0, collisions = 0, resizes = 0, lookups = 0, inserts = 0,
                head = None, tail = None, table = replicate sz empty_entry,
                free_fn = fr, hash_fn = hash, equal_fn = eq\<rparr>)"

definition lh_kchar_table_new :: "allocator \<Rightarrow> nat \<Rightarrow> bool \<Rightarrow> (string, 'v) lh_table res" where
  "lh_kchar_table_new mem sz fr = lh_table_new mem sz fr lh_char_hash lh_char_equal"

definition lh_kptr_table_new :: "allocator \<Rightarrow> nat \<Rightarrow> bool \<Rightarrow> (32 word, 'v) lh_table res" where
  "lh_kptr_table_new mem sz fr = lh_table_new mem sz fr lh_ptr_hash lh_ptr_equal"

section \<open>Insertion and resizing\<close>

text \<open>
  The probing loop visits the slots in cyclic order; a loop that has seen all \<open>lh_size\<close> slots
  without stopping never stops, so that many steps of fuel decide it. The result is the slot
  and the number of collisions.
\<close>

definition next_slot :: "nat \<Rightarrow> nat \<Rightarrow> nat" where
  "next_slot sz n = (if Suc n = sz then 0 else Suc n)"

fun find_slot :: "nat \<Rightarrow> ('k, 'v) lh_entry list \<Rightarrow> nat \<Rightarrow> nat \<Rightarrow> (nat \<times> nat) res" where
  "find_slot 0 tbl n c = Inl Out_Of_Fuel"
| "find_slot (Suc f) tbl n c =
     (if e_k (tbl ! n) = LH_EMPTY \<or> e_k (tbl ! n) = LH_FREED then Inr (n, c)
      else find_slot f tbl (next_slot (length tbl) n) (Suc c))"

text \<open>Storing the pair in slot \<open>n\<close> and linking the slot behind the tail.\<close>

definition lh_link_slot :: "('k, 'v) lh_table \<Rightarrow> nat \<Rightarrow> 'k \<Rightarrow> 'v option \<Rightarrow> ('k, 'v) lh_table res" where
  "lh_link_slot t n k v =
     (let e = \<lparr>e_k = Key k, e_v = v, e_next = None, e_prev = tail t\<rparr>;
          t1 = t\<lparr>lh_count := lh_count t + 1\<rparr>
      in case head t of
           None \<Rightarrow> Inr (t1\<lparr>table := (table t)[n := e\<lparr>e_prev := None\<rparr>], head := Some n, tail := Some n\<rparr>)
         | Some _ \<Rightarrow>
             (case tail t of
                None \<Rightarrow> Inl Null_Deref
              | Some l \<Rightarrow>
                  Inr (t1\<lparr>table := ((table t)[l := (table t ! l)\<lparr>e_next := Some n\<rparr>])[n := e],
                          tail := Some n\<rparr>)))"

definition lh_insert_slot :: "('k, 'v) lh_table \<Rightarrow> 'k \<Rightarrow> 'v option \<Rightarrow> ('k, 'v) lh_table res" where
  "lh_insert_slot t k v =
     (if lh_size t = 0 then Inl Division_By_Zero
      else rbind (find_slot (lh_size t) (table t) (hash_fn t k mod lh_size t) 0)
             (\<lambda>(n, c). lh_link_slot (t\<lparr>collisions := collisions t + c\<rparr>) n k v))"

text \<open>The walk along the \<open>next\<close> pointers from a slot; \<open>None\<close> when it does not end.\<close>

fun chain :: "nat \<Rightarrow> ('k, 'v) lh_entry list \<Rightarrow> nat option \<Rightarrow> nat list option" where
  "chain f tbl None = Some []"
| "chain 0 tbl (Some i) = None"
| "chain (Suc f) tbl (Some i) = map_option ((#) i) (chain f tbl (e_next (tbl ! i)))"

definition lh_order :: "('k, 'v) lh_table \<Rightarrow> nat list option" where
  "lh_order t = chain (length (table t)) (table t) (head t)"

text \<open>
  The copying loop of \<open>lh_table_resize\<close>, over the slots in list order. \<open>ins\<close> is the insertion
  used for the copies: a live slot always holds a key.
\<close>

fun reinsert ::
  "(('k, 'v) lh_table \<Rightarrow> 'k \<Rightarrow> 'v option \<Rightarrow> ('k, 'v) lh_table res) \<Rightarrow> ('k, 'v) lh_entry list \<Rightarrow>
   nat list \<Rightarrow> ('k, 'v) lh_table \<Rightarrow> ('k, 'v) lh_table res" where
  "reinsert ins tbl [] nt = Inr nt"
| "reinsert ins tbl (i # is) nt =
     (case e_k (tbl ! i) of
        Key k \<Rightarrow> rbind (ins nt k (e_v (tbl ! i))) (reinsert ins tbl is)
      | _ \<Rightarrow> Inl Type_Confusion)"

definition lh_table_resize ::
  "(('k, 'v) lh_table \<Rightarrow> 'k \<Rightarrow> 'v option \<Rightarrow> ('k, 'v) lh_table res) \<Rightarrow> allocator \<Rightarrow>
   ('k, 'v) lh_table \<Rightarrow> nat \<Rightarrow> ('k, 'v) lh_table res" where
  "lh_table_resize ins mem t new_size =
     rbind (lh_table_new mem new_size False (hash_fn t) (equal_fn t))
       (\<lambda>new_t. case lh_order t of
          None \<Rightarrow> Inl Out_Of_Fuel
        | Some is \<Rightarrow>
            rbind (reinsert ins (table t) is new_t)
              (\<lambda>nt. Inr (t\<lparr>table := table nt, lh_size := new_size, head := head nt,
                          tail := tail nt, resizes := resizes t + 1\<rparr>)))"

text \<open>
  \<open>t->count > t->size * 0.66\<close>: the comparison in \<open>double\<close> agrees with the one of the exact
  hundredths, since no product of a slot count with 0.66 rounds across an integer.

  \<open>d\<close> bounds how deep resizing may nest: an insertion resizes the table, and the insertions that
  copy the entries could in principle resize again.
\<close>

definition load_exceeded :: "('k, 'v) lh_table \<Rightarrow> bool" where
  "load_exceeded t \<longleftrightarrow> 66 * int (lh_size t) < 100 * lh_count t"

fun lh_table_insert ::
  "nat \<Rightarrow> allocator \<Rightarrow> ('k, 'v) lh_table \<Rightarrow> 'k \<Rightarrow> 'v option \<Rightarrow> ('k, 'v) lh_table res" where
  "lh_table_insert 0 mem t k v =
     (let t0 = t\<lparr>inserts := inserts t + 1\<rparr>
      in if load_exceeded t0 then Inl Out_Of_Fuel else lh_insert_slot t0 k v)"
| "lh_table_insert (Suc d) mem t k v =
     (let t0 = t\<lparr>inserts := inserts t + 1\<rparr>
      in rbind (if load_exceeded t0 then lh_table_resize (lh_table_insert d mem) mem t0 (lh_size t0 * 2)
                else Inr t0)
           (\<lambda>t1. lh_insert_slot t1 k v))"

section \<open>Lookup and deletion\<close>

fun lookup_loop ::
  "nat \<Rightarrow> ('k \<Rightarrow> 'k \<Rightarrow> bool) \<Rightarrow> ('k, 'v) lh_entry list \<Rightarrow> 'k \<Rightarrow> nat \<Rightarrow> nat option res" where
  "lookup_loop 0 eq tbl k n = Inl Out_Of_Fuel"
| "lookup_loop (Suc f) eq tbl k n =
     (case e_k (tbl ! n) of
        LH_EMPTY \<Rightarrow> Inr None
      | LH_FREED \<Rightarrow> lookup_loop f eq tbl k (next_slot (length tbl) n)
      | Key k' \<Rightarrow> if eq k' k then Inr (Some n)
                 else lookup_loop f eq tbl k (next_slot (length tbl) n))"

definition lh_table_lookup_entry ::
  "('k, 'v) lh_table \<Rightarrow> 'k \<Rightarrow> (nat option \<times> ('k, 'v) lh_table) res" where
  "lh_table_lookup_entry t k =
     (if lh_size t = 0 then Inl Division_By_Zero
      else rbind (lookup_loop (lh_size t) (equal_fn t) (table t) k (hash_fn t k mod lh_size t))
             (\<lambda>e. Inr (e, t\<lparr>lookups := lookups t + 1\<rparr>)))"

definition lh_table_lookup ::
  "('k, 'v) lh_table \<Rightarrow> 'k \<Rightarrow> ('v option \<times> ('k, 'v) lh_table) res" where
  "lh_table_lookup t k =
     rbind (lh_table_lookup_entry t k)
       (\<lambda>(e, t1). case e of None \<Rightarrow> Inr (None, t1) | Some n \<Rightarrow> Inr (e_v (table t1 ! n), t1))"

text \<open>
  Unlinking slot \<open>n\<close>: the four cases of the code, each reading a neighbour the links must have.
\<close>

definition upd_entry ::
  "('k, 'v) lh_entry list \<Rightarrow> nat \<Rightarrow> (('k, 'v) lh_entry \<Rightarrow> ('k, 'v) lh_entry) \<Rightarrow> ('k, 'v) lh_entry list" where
  "upd_entry tbl i f = tbl[i := f (tbl ! i)]"

definition lh_unlink :: "('k, 'v) lh_table \<Rightarrow> nat \<Rightarrow> ('k, 'v) lh_table res" where
  "lh_unlink t n =
     (let e = table t ! n
      in if tail t = Some n \<and> head t = Some n then Inr (t\<lparr>head := None, tail := None\<rparr>)
         else if head t = Some n then
           (case e_next e of
              None \<Rightarrow> Inl Null_Deref
            | Some m \<Rightarrow> Inr (t\<lparr>table := upd_entry (table t) m (e_prev_update (\<lambda>_. None)), head := Some m\<rparr>))
         else if tail t = Some n then
           (case e_prev e of
              None \<Rightarrow> Inl Null_Deref
            | Some l \<Rightarrow> Inr (t\<lparr>table := upd_entry (table t) l (e_next_update (\<lambda>_. None)), tail := Some l\<rparr>))
         else
           (case (e_prev e, e_next e) of
              (Some l, Some m) \<Rightarrow>
                Inr (t\<lparr>table := upd_entry (upd_entry (table t) l (e_next_update (\<lambda>_. Some m)))
                                  m (e_prev_update (\<lambda>_. Some l))\<rparr>)
            | _ \<Rightarrow> Inl Null_Deref))"

text \<open>
  The result of a deletion: the return value, the table, and the pair given to \<open>free_fn\<close>.
\<close>

definition lh_table_delete_entry ::
  "('k, 'v) lh_table \<Rightarrow> int \<Rightarrow> (int \<times> ('k, 'v) lh_table \<times> ('k \<times> 'v option) option) res" where
  "lh_table_delete_entry t e =
     (if e < 0 then Inr (-2, t, None)
      else if int (length (table t)) \<le> e then Inl Out_Of_Bounds
      else
        (let n = nat e
         in case e_k (table t ! n) of
              Key k \<Rightarrow>
                (let t1 = t\<lparr>lh_count := lh_count t - 1,
                            table := upd_entry (table t) n (\<lambda>x. x\<lparr>e_v := None, e_k := LH_FREED\<rparr>)\<rparr>
                 in rbind (lh_unlink t1 n)
                      (\<lambda>t2. Inr (0, t2\<lparr>table := upd_entry (table t2) n
                                         (\<lambda>x. x\<lparr>e_next := None, e_prev := None\<rparr>)\<rparr>,
                                 if free_fn t then Some (k, e_v (table t ! n)) else None)))
            | _ \<Rightarrow> Inr (-1, t, None)))"

definition lh_table_delete ::
  "('k, 'v) lh_table \<Rightarrow> 'k \<Rightarrow> (int \<times> ('k, 'v) lh_table \<times> ('k \<times> 'v option) option) res" where
  "lh_table_delete t k =
     rbind (lh_table_lookup_entry t k)
       (\<lambda>(e, t1). case e of None \<Rightarrow> Inr (-1, t1, None)
                | Some n \<Rightarrow> lh_table_delete_entry t1 (int n))"

text \<open>\<open>lh_table_free\<close> hands every live entry, in list order, to \<open>free_fn\<close>.\<close>

definition lh_table_free :: "('k, 'v) lh_table \<Rightarrow> ('k slot_key \<times> 'v option) list res" where
  "lh_table_free t =
     (case lh_order t of
        None \<Rightarrow> Inl Out_Of_Fuel
      | Some is \<Rightarrow>
          Inr (if free_fn t then map (\<lambda>i. (e_k (table t ! i), e_v (table t ! i))) is else []))"

section \<open>The invariant\<close>

text \<open>
  The links form a segment: \<open>seg tbl p ns q\<close> says that the slots \<open>ns\<close> are linked one after the
  other, the first pointing back to \<open>p\<close> and the last pointing on to \<open>q\<close>.
\<close>

definition first_of :: "nat list \<Rightarrow> nat option \<Rightarrow> nat option" where
  "first_of ns q = (case ns of [] \<Rightarrow> q | n # _ \<Rightarrow> Some n)"

definition last_of :: "nat list \<Rightarrow> nat option \<Rightarrow> nat option" where
  "last_of ns p = (if ns = [] then p else Some (last ns))"

fun seg :: "('k, 'v) lh_entry list \<Rightarrow> nat option \<Rightarrow> nat list \<Rightarrow> nat option \<Rightarrow> bool" where
  "seg tbl p [] q \<longleftrightarrow> True"
| "seg tbl p (n # ns) q \<longleftrightarrow>
     e_prev (tbl ! n) = p \<and> e_next (tbl ! n) = first_of ns q \<and> seg tbl (Some n) ns q"

abbreviation live :: "('k, 'v) lh_entry list \<Rightarrow> nat \<Rightarrow> bool" where
  "live tbl i \<equiv> \<exists>k. e_k (tbl ! i) = Key k"

definition entry_pair :: "('k, 'v) lh_entry \<Rightarrow> 'k \<times> 'v option" where
  "entry_pair e = (key_of (e_k e), e_v e)"

text \<open>
  Probing: the key in slot \<open>i\<close> is reached from its home slot without crossing an empty slot.
\<close>

definition probe_ok :: "('k \<Rightarrow> nat) \<Rightarrow> ('k, 'v) lh_entry list \<Rightarrow> nat \<Rightarrow> bool" where
  "probe_ok h tbl i \<longleftrightarrow>
     (\<exists>d < length tbl. i = (h (key_of (e_k (tbl ! i))) + d) mod length tbl \<and>
        (\<forall>d' < d. e_k (tbl ! ((h (key_of (e_k (tbl ! i))) + d') mod length tbl)) \<noteq> LH_EMPTY))"

text \<open>
  The table \<open>t\<close> is well formed with the slots \<open>ord\<close> in insertion order; \<open>K\<close> is the set of keys
  on which \<open>equal_fn\<close> is equality (for \<open>strcmp\<close>, the strings without a NUL).
\<close>

definition lh_wf :: "'k set \<Rightarrow> ('k, 'v) lh_table \<Rightarrow> nat list \<Rightarrow> bool" where
  "lh_wf K t ord \<longleftrightarrow>
     0 < lh_size t \<and> length (table t) = lh_size t \<and>
     seg (table t) None ord None \<and> head t = first_of ord None \<and> tail t = last_of ord None \<and>
     distinct ord \<and> set ord = {i. i < lh_size t \<and> live (table t) i} \<and>
     lh_count t = int (length ord) \<and> 100 * (lh_count t - 1) \<le> 66 * int (lh_size t) \<and>
     (\<forall>a\<in>K. \<forall>b\<in>K. equal_fn t a b \<longleftrightarrow> a = b) \<and>
     (\<forall>i\<in>set ord. key_of (e_k (table t ! i)) \<in> K \<and> probe_ok (hash_fn t) (table t) i) \<and>
     distinct (map (\<lambda>i. key_of (e_k (table t ! i))) ord)"

text \<open>What the table stands for: an association list in insertion order.\<close>

definition lh_rep :: "'k set \<Rightarrow> ('k, 'v) lh_table \<Rightarrow> ('k \<times> 'v option) list \<Rightarrow> bool" where
  "lh_rep K t kvs \<longleftrightarrow> (\<exists>ord. lh_wf K t ord \<and> kvs = map (\<lambda>i. entry_pair (table t ! i)) ord)"

definition no_freed :: "('k, 'v) lh_table \<Rightarrow> bool" where
  "no_freed t \<longleftrightarrow> (\<forall>i < lh_size t. e_k (table t ! i) \<noteq> LH_FREED)"

section \<open>Links\<close>

lemma first_of_simps [simp]: "first_of [] q = q" "first_of (n # ns) q = Some n"
  by (simp_all add: first_of_def)

lemma last_of_simps [simp]: "last_of [] p = p" "last_of (ns @ [n]) p = Some n"
  by (simp_all add: last_of_def)

lemma last_of_Cons: "last_of (n # ns) p = last_of ns (Some n)"
  by (simp add: last_of_def)

lemma first_of_append: "first_of (xs @ ys) q = first_of xs (first_of ys q)"
  by (cases xs) simp_all

lemma last_of_append: "last_of (xs @ ys) p = last_of ys (last_of xs p)"
  by (simp add: last_of_def)

lemma first_of_None_iff: "first_of ns None = None \<longleftrightarrow> ns = []"
  by (cases ns) simp_all

lemma seg_append:
  "seg tbl p (xs @ ys) q \<longleftrightarrow> seg tbl p xs (first_of ys q) \<and> seg tbl (last_of xs p) ys q"
  by (induction xs arbitrary: p) (auto simp: first_of_append last_of_Cons)

lemma seg_cong:
  "(\<And>i. i \<in> set ns \<Longrightarrow> e_prev (tbl' ! i) = e_prev (tbl ! i) \<and> e_next (tbl' ! i) = e_next (tbl ! i))
   \<Longrightarrow> seg tbl' p ns q = seg tbl p ns q"
  by (induction ns arbitrary: p) auto

lemma seg_update_other:
  "n \<notin> set ns \<Longrightarrow> seg (tbl[n := e]) p ns q = seg tbl p ns q"
  by (rule seg_cong) (metis nth_list_update_neq)

lemma chain_seg:
  "seg tbl p ns None \<Longrightarrow> length ns \<le> f \<Longrightarrow> chain f tbl (first_of ns None) = Some ns"
proof (induction ns arbitrary: p f)
  case (Cons n ns)
  then obtain f' where "f = Suc f'" by (cases f) auto
  with Cons show ?case by auto
qed simp

text \<open>Redirecting the two ends of a segment.\<close>

lemma seg_set_next:
  assumes "seg tbl p xs q" and "distinct xs" and "xs \<noteq> []" and "last xs < length tbl"
  shows "seg (tbl[last xs := (tbl ! last xs)\<lparr>e_next := q'\<rparr>]) p xs q'"
proof -
  define ys l where "ys = butlast xs" and "l = last xs"
  with assms have xs: "xs = ys @ [l]" by simp
  with assms have "l \<notin> set ys" and "l < length tbl" by auto
  with assms show ?thesis
    unfolding xs by (auto simp: seg_append seg_update_other)
qed

lemma seg_set_prev:
  assumes "seg tbl p (m # ys) q" and "distinct (m # ys)" and "m < length tbl"
  shows "seg (tbl[m := (tbl ! m)\<lparr>e_prev := p'\<rparr>]) p' (m # ys) q"
  using assms by (simp add: seg_update_other)

section \<open>Probing\<close>

lemma next_slot_mod: "0 < sz \<Longrightarrow> next_slot sz (a mod sz) = Suc a mod sz"
  by (simp add: next_slot_def mod_Suc)

lemma probe_reaches:
  assumes "i < (sz :: nat)"
  shows "\<exists>d < sz. (a + d) mod sz = i"
proof -
  have "(a + (i + sz - a mod sz) mod sz) mod sz = (a mod sz + (i + sz - a mod sz)) mod sz"
    by (simp add: mod_simps)
  also have "a mod sz + (i + sz - a mod sz) = i + sz"
    using assms pos_mod_bound less_imp_le mod_less_divisor [of sz a] by linarith
  finally have "(a + (i + sz - a mod sz) mod sz) mod sz = i" using assms by simp
  moreover have "(i + sz - a mod sz) mod sz < sz" using assms by simp
  ultimately show ?thesis by blast
qed

lemma probe_inj:
  assumes "d' < d" and "d < (n :: nat)"
  shows "(h + d') mod n \<noteq> (h + d) mod n"
proof
  assume "(h + d') mod n = (h + d) mod n"
  then have "n dvd (h + d) - (h + d')" using assms by (metis add_le_cancel_left less_imp_le mod_eq_dvd_iff_nat)
  with assms show False by (auto dest: dvd_imp_le)
qed

lemma not_live_iff: "(\<forall>k. e_k (tbl ! i) \<noteq> Key k) \<longleftrightarrow> e_k (tbl ! i) = LH_EMPTY \<or> e_k (tbl ! i) = LH_FREED"
  by (cases "e_k (tbl ! i)") auto

text \<open>The insertion loop stops at the first slot of the probe sequence that is not live.\<close>

lemma find_slot_first:
  assumes "d < f" and "0 < length tbl" and "\<not> live tbl ((a + d) mod length tbl)"
    and "\<And>d'. d' < d \<Longrightarrow> live tbl ((a + d') mod length tbl)"
  shows "find_slot f tbl (a mod length tbl) c = Inr ((a + d) mod length tbl, c + d)"
  using assms
proof (induction f arbitrary: a d c)
  case (Suc f)
  show ?case
  proof (cases d)
    case 0
    with Suc.prems(3) show ?thesis by (simp add: not_live_iff)
  next
    case (Suc d1)
    with Suc.prems(4) [of 0] have "live tbl (a mod length tbl)" by simp
    moreover have "find_slot f tbl (Suc a mod length tbl) (Suc c)
        = Inr ((Suc a + d1) mod length tbl, Suc c + d1)"
    proof (rule Suc.IH)
      show "d1 < f" "0 < length tbl" "\<not> live tbl ((Suc a + d1) mod length tbl)"
        using Suc Suc.prems by simp_all
      show "live tbl ((Suc a + d') mod length tbl)" if "d' < d1" for d'
        using Suc that Suc.prems(4) [of "Suc d'"] by simp
    qed
    ultimately show ?thesis using Suc Suc.prems(2) by (auto simp: next_slot_mod)
  qed
qed simp

lemma find_slot_ok:
  assumes "i < length tbl" and "\<not> live tbl i"
  obtains d where "d < length tbl" and "\<not> live tbl ((a + d) mod length tbl)"
    and "\<And>d'. d' < d \<Longrightarrow> live tbl ((a + d') mod length tbl)"
    and "\<And>c. find_slot (length tbl) tbl (a mod length tbl) c = Inr ((a + d) mod length tbl, c + d)"
proof -
  let ?P = "\<lambda>d. \<not> live tbl ((a + d) mod length tbl)"
  obtain e where e: "e < length tbl" "?P e" using probe_reaches [of i _ a] assms by blast
  then obtain d where d: "?P d" "\<And>d'. d' < d \<Longrightarrow> live tbl ((a + d') mod length tbl)"
    using exists_least_iff [of ?P] by blast
  have "d < length tbl" using d(2) [of e] e by (metis linorder_neqE_nat order.strict_trans)
  moreover from this have "0 < length tbl" by linarith
  ultimately show ?thesis using that [OF _ d] find_slot_first [OF _ _ d] by blast
qed

text \<open>The lookup loop stops at the first empty slot or at the first slot that holds the key.\<close>

lemma lookup_loop_first:
  assumes "d < f" and "0 < length tbl"
    and "\<And>d'. d' < d \<Longrightarrow> e_k (tbl ! ((a + d') mod length tbl)) = LH_FREED \<or>
           (\<exists>k'. e_k (tbl ! ((a + d') mod length tbl)) = Key k' \<and> \<not> eq k' k)"
  shows "e_k (tbl ! ((a + d) mod length tbl)) = LH_EMPTY \<Longrightarrow>
           lookup_loop f eq tbl k (a mod length tbl) = Inr None"
    and "e_k (tbl ! ((a + d) mod length tbl)) = Key k' \<Longrightarrow> eq k' k \<Longrightarrow>
           lookup_loop f eq tbl k (a mod length tbl) = Inr (Some ((a + d) mod length tbl))"
proof -
  define goal where "goal f a r \<longleftrightarrow> lookup_loop f eq tbl k (a mod length tbl) = Inr r" for f a r
  define stop where "stop i r \<longleftrightarrow> e_k (tbl ! i) = LH_EMPTY \<and> r = None \<or>
     (\<exists>k'. e_k (tbl ! i) = Key k' \<and> eq k' k \<and> r = Some i)" for i r
  have "stop ((a + d) mod length tbl) r \<Longrightarrow> goal f a r" for r
    using assms
  proof (induction f arbitrary: a d)
    case (Suc f)
    show ?case
    proof (cases d)
      case 0
      with Suc.prems(1) show ?thesis by (auto simp: stop_def goal_def)
    next
      case (Suc d1)
      have "goal f (Suc a) r"
      proof (rule Suc.IH)
        show "stop ((Suc a + d1) mod length tbl) r" "d1 < f" "0 < length tbl"
          using Suc Suc.prems by simp_all
        show "e_k (tbl ! ((Suc a + d') mod length tbl)) = LH_FREED \<or>
           (\<exists>k'. e_k (tbl ! ((Suc a + d') mod length tbl)) = Key k' \<and> \<not> eq k' k)" if "d' < d1" for d'
          using Suc that Suc.prems(4) [of "Suc d'"] by simp
      qed
      with Suc Suc.prems(3) Suc.prems(4) [of 0] show ?thesis
        by (auto simp: goal_def next_slot_mod)
    qed
  qed simp
  then show "e_k (tbl ! ((a + d) mod length tbl)) = LH_EMPTY \<Longrightarrow>
           lookup_loop f eq tbl k (a mod length tbl) = Inr None"
    and "e_k (tbl ! ((a + d) mod length tbl)) = Key k' \<Longrightarrow> eq k' k \<Longrightarrow>
           lookup_loop f eq tbl k (a mod length tbl) = Inr (Some ((a + d) mod length tbl))"
    by (auto simp: goal_def stop_def)
qed

text \<open>Without an empty slot and without the key, the loop runs for ever.\<close>

lemma lookup_loop_diverges:
  assumes "n < length tbl"
    and "\<forall>i < length tbl. e_k (tbl ! i) \<noteq> LH_EMPTY \<and> (\<forall>k'. e_k (tbl ! i) = Key k' \<longrightarrow> \<not> eq k' k)"
  shows "lookup_loop f eq tbl k n = Inl Out_Of_Fuel"
  using assms
proof (induction f arbitrary: n)
  case (Suc f)
  moreover have "next_slot (length tbl) n < length tbl"
    using Suc.prems(1) by (auto simp: next_slot_def)
  ultimately show ?case by (auto split: slot_key.split)
qed simp

section \<open>Insertion\<close>

lemmas lh_wf_facts = lh_wf_def [THEN iffD1]

lemma lh_wf_bounds: "lh_wf K t ord \<Longrightarrow> i \<in> set ord \<Longrightarrow> i < lh_size t \<and> live (table t) i"
  by (auto simp: lh_wf_def)

lemma lh_wf_slot:
  assumes "lh_wf K t ord" and "i < lh_size t" and "e_k (table t ! i) = Key k"
  shows "i \<in> set ord" and "k \<in> K" and "probe_ok (hash_fn t) (table t) i"
proof -
  show i: "i \<in> set ord" using assms unfolding lh_wf_def by blast
  then show "k \<in> K" "probe_ok (hash_fn t) (table t) i"
    using assms unfolding lh_wf_def by (metis slot_key.sel, blast)
qed

lemma lh_wf_equal: "lh_wf K t ord \<Longrightarrow> a \<in> K \<Longrightarrow> b \<in> K \<Longrightarrow> equal_fn t a b \<longleftrightarrow> a = b"
  unfolding lh_wf_def by blast

lemma lh_wf_free_slot:
  assumes "lh_wf K t ord" and "lh_count t < int (lh_size t)"
  obtains i where "i < length (table t)" and "\<not> live (table t) i"
proof -
  have "distinct ord" and "length ord < lh_size t" using assms by (auto simp: lh_wf_def)
  then have "card (set ord) < card {..< lh_size t}" by (simp add: distinct_card)
  then have "\<not> {..< lh_size t} \<subseteq> set ord" by (metis List.finite_set card_mono linorder_not_le)
  with assms(1) that show ?thesis by (auto simp: lh_wf_def)
qed

lemma not_exceeded_free: "\<not> load_exceeded t \<Longrightarrow> 0 < lh_size t \<Longrightarrow> lh_count t < int (lh_size t)"
  by (simp add: load_exceeded_def)

text \<open>What storing into a slot changes: the key and value of that slot, and the links.\<close>

definition stored :: "nat \<Rightarrow> 'k \<Rightarrow> 'v option \<Rightarrow> ('k, 'v) lh_table \<Rightarrow> ('k, 'v) lh_table \<Rightarrow> bool" where
  "stored n k v t t' \<longleftrightarrow>
     lh_size t' = lh_size t \<and> hash_fn t' = hash_fn t \<and> equal_fn t' = equal_fn t \<and>
     free_fn t' = free_fn t \<and> lh_count t' = lh_count t + 1 \<and> length (table t') = length (table t) \<and>
     (\<forall>i < length (table t). e_k (table t' ! i) = (if i = n then Key k else e_k (table t ! i)) \<and>
                             e_v (table t' ! i) = (if i = n then v else e_v (table t ! i)))"

lemma lh_link_slot_stored:
  assumes wf: "lh_wf K t ord" and n: "n < lh_size t" "n \<notin> set ord"
  obtains t' where "lh_link_slot t n k v = Inr t'" and "stored n k v t t'"
    and "seg (table t') None (ord @ [n]) None" and "head t' = first_of (ord @ [n]) None"
    and "tail t' = Some n"
proof (cases "ord = []")
  case True
  with wf have "head t = None" by (simp add: lh_wf_def)
  with True n wf that show ?thesis
    by (simp add: lh_link_slot_def stored_def lh_wf_def)
next
  case False
  let ?l = "last ord"
  let ?tbl = "(table t)[?l := (table t ! ?l)\<lparr>e_next := Some n\<rparr>]"
  have l: "?l \<in> set ord" "?l \<noteq> n" using False n by auto
  have ht: "head t = first_of ord None" "tail t = Some ?l" "length (table t) = lh_size t"
    using wf False by (auto simp: lh_wf_def last_of_def)
  have ll: "?l < length (table t)" using lh_wf_bounds [OF wf] l ht by simp
  then have "seg ?tbl None ord (Some n)"
    using wf False by (intro seg_set_next [of _ _ _ None]) (auto simp: lh_wf_def)
  then have seg: "seg (?tbl[n := \<lparr>e_k = Key k, e_v = v, e_next = None, e_prev = Some ?l\<rparr>])
                    None (ord @ [n]) None"
    using n ht False by (simp add: seg_append seg_update_other last_of_def)
  obtain m ms where "ord = m # ms" using False by (cases ord) auto
  with ht have "lh_link_slot t n k v =
      Inr (t\<lparr>lh_count := lh_count t + 1,
             table := ?tbl[n := \<lparr>e_k = Key k, e_v = v, e_next = None, e_prev = Some ?l\<rparr>],
             tail := Some n\<rparr>)"
    by (simp add: lh_link_slot_def)
  then show ?thesis
  proof (rule that, goal_cases)
    case 1
    show ?case using n ht l ll by (auto simp: stored_def nth_list_update)
  next
    case 2
    show ?case using seg by simp
  next
    case 3
    show ?case using ht \<open>ord = m # ms\<close> by simp
  qed simp
qed

lemma stored_wf:
  assumes wf: "lh_wf K t ord" and n: "n < lh_size t" "\<not> live (table t) n"
    and st: "stored n k v t t'"
    and links: "seg (table t') None (ord @ [n]) None" "head t' = first_of (ord @ [n]) None"
      "tail t' = Some n"
    and k: "k \<in> K" "k \<notin> (\<lambda>i. key_of (e_k (table t ! i))) ` set ord"
    and load: "100 * lh_count t \<le> 66 * int (lh_size t)"
    and d: "d < lh_size t" "n = (hash_fn t k + d) mod lh_size t"
      "\<And>d'. d' < d \<Longrightarrow> live (table t) ((hash_fn t k + d') mod lh_size t)"
  shows "lh_wf K t' (ord @ [n])"
    and "map (\<lambda>i. entry_pair (table t' ! i)) (ord @ [n]) = map (\<lambda>i. entry_pair (table t ! i)) ord @ [(k, v)]"
proof -
  have len: "length (table t) = lh_size t" "0 < lh_size t" using wf by (auto simp: lh_wf_def)
  have old: "i \<in> set ord \<Longrightarrow> i < lh_size t \<and> i \<noteq> n" for i
    using lh_wf_bounds [OF wf] n(2) by auto
  have same: "i \<in> set ord \<Longrightarrow> e_k (table t' ! i) = e_k (table t ! i) \<and> e_v (table t' ! i) = e_v (table t ! i)" for i
    using old st len by (auto simp: stored_def)
  have new: "e_k (table t' ! n) = Key k" "e_v (table t' ! n) = v"
    using st n len by (auto simp: stored_def)
  show maps: "map (\<lambda>i. entry_pair (table t' ! i)) (ord @ [n]) = map (\<lambda>i. entry_pair (table t ! i)) ord @ [(k, v)]"
    using same new by (simp add: entry_pair_def)
  have keys: "map (\<lambda>i. key_of (e_k (table t' ! i))) ord = map (\<lambda>i. key_of (e_k (table t ! i))) ord"
    using same by simp
  have nonempty: "i < lh_size t \<Longrightarrow> e_k (table t ! i) \<noteq> LH_EMPTY \<Longrightarrow> e_k (table t' ! i) \<noteq> LH_EMPTY" for i
    using st len by (simp add: stored_def)
  have probe_old: "probe_ok (hash_fn t') (table t') i" if i: "i \<in> set ord" for i
  proof -
    have "probe_ok (hash_fn t) (table t) i" using wf i by (simp add: lh_wf_def)
    with same [OF i] st len nonempty show ?thesis
      unfolding probe_ok_def stored_def by (metis mod_less_divisor)
  qed
  have probe_new: "probe_ok (hash_fn t') (table t') n"
    unfolding probe_ok_def
  proof (intro exI [of _ d] conjI allI impI)
    show "d < length (table t')" using d st len by (simp add: stored_def)
    show "n = (hash_fn t' (key_of (e_k (table t' ! n))) + d) mod length (table t')"
      using d(2) new st len by (simp add: stored_def)
    fix d' assume "d' < d"
    then have "e_k (table t ! ((hash_fn t k + d') mod lh_size t)) \<noteq> LH_EMPTY" using d(3) by force
    then show "e_k (table t' ! ((hash_fn t' (key_of (e_k (table t' ! n))) + d') mod length (table t'))) \<noteq> LH_EMPTY"
      using nonempty new st len by (simp add: stored_def)
  qed
  have "\<forall>i\<in>set (ord @ [n]). key_of (e_k (table t' ! i)) \<in> K \<and> probe_ok (hash_fn t') (table t') i"
    using wf same new k(1) probe_old probe_new by (simp add: lh_wf_def)
  moreover have "set (ord @ [n]) = {i. i < lh_size t' \<and> live (table t') i}"
    using wf st n new len by (auto simp: lh_wf_def stored_def split: if_splits)
  moreover have "distinct (ord @ [n])" using old wf by (auto simp: lh_wf_def)
  moreover have "distinct (map (\<lambda>i. key_of (e_k (table t' ! i))) (ord @ [n]))"
    unfolding map_append keys using wf k(2) new by (simp add: lh_wf_def)
  moreover have "lh_count t' = int (length (ord @ [n]))" "100 * (lh_count t' - 1) \<le> 66 * int (lh_size t')"
    "0 < lh_size t'" "length (table t') = lh_size t'" "\<forall>a\<in>K. \<forall>b\<in>K. equal_fn t' a b \<longleftrightarrow> a = b"
    using wf st load by (simp_all add: lh_wf_def stored_def)
  ultimately show "lh_wf K t' (ord @ [n])"
    unfolding lh_wf_def using links last_of_simps(2) [of ord n None] by metis
qed

text \<open>The fields the abstraction does not see.\<close>

lemma lh_wf_counters [simp]:
  "lh_wf K (t\<lparr>collisions := a\<rparr>) ord = lh_wf K t ord" "lh_wf K (t\<lparr>inserts := a\<rparr>) ord = lh_wf K t ord"
  "lh_wf K (t\<lparr>lookups := a\<rparr>) ord = lh_wf K t ord"
  by (simp_all add: lh_wf_def)

lemma stored_counters [simp]: "stored n k v (t\<lparr>collisions := a\<rparr>) t' = stored n k v t t'"
  by (simp add: stored_def)

text \<open>Inserting a new key into a table with room, with the slot that is taken.\<close>

lemma lh_insert_slot_ok:
  assumes wf: "lh_wf K t ord" and k: "k \<in> K" "k \<notin> (\<lambda>i. key_of (e_k (table t ! i))) ` set ord"
    and load: "100 * lh_count t \<le> 66 * int (lh_size t)"
  obtains t' n d where "lh_insert_slot t k v = Inr t'" and "lh_wf K t' (ord @ [n])"
    and "map (\<lambda>i. entry_pair (table t' ! i)) (ord @ [n]) = map (\<lambda>i. entry_pair (table t ! i)) ord @ [(k, v)]"
    and "stored n k v t t'" and "d < lh_size t" and "n = (hash_fn t k + d) mod lh_size t"
    and "\<And>d'. d' < d \<Longrightarrow> live (table t) ((hash_fn t k + d') mod lh_size t)" and "\<not> live (table t) n"
proof -
  have len: "length (table t) = lh_size t" "0 < lh_size t" using wf by (auto simp: lh_wf_def)
  have "lh_count t < int (lh_size t)" using load len by simp
  then obtain i where i: "i < length (table t)" "\<not> live (table t) i"
    using lh_wf_free_slot [OF wf] by blast
  then obtain d where d: "d < lh_size t" "\<not> live (table t) ((hash_fn t k + d) mod lh_size t)"
      "\<And>d'. d' < d \<Longrightarrow> live (table t) ((hash_fn t k + d') mod lh_size t)"
      "\<And>c. find_slot (lh_size t) (table t) (hash_fn t k mod lh_size t) c = Inr ((hash_fn t k + d) mod lh_size t, c + d)"
    using find_slot_ok [OF i, of "hash_fn t k"] len by metis
  define n where "n = (hash_fn t k + d) mod lh_size t"
  define t1 where "t1 = t\<lparr>collisions := collisions t + d\<rparr>"
  have n: "n < lh_size t" "\<not> live (table t) n" using d(2) len by (simp_all add: n_def)
  then have nord: "n \<notin> set ord" using lh_wf_bounds [OF wf] by blast
  have wf1: "lh_wf K t1 ord" using wf by (simp add: t1_def)
  obtain t' where t': "lh_link_slot t1 n k v = Inr t'" "stored n k v t1 t'"
      "seg (table t') None (ord @ [n]) None" "head t' = first_of (ord @ [n]) None" "tail t' = Some n"
    by (rule lh_link_slot_stored [OF wf1 _ nord, of k v]) (use n in \<open>simp add: t1_def\<close>)
  have st: "stored n k v t t'" using t'(2) by (simp add: t1_def)
  note res = stored_wf [OF wf n st t'(3-5) k load d(1) n_def d(3)]
  have "lh_insert_slot t k v = Inr t'"
    using t'(1) d(4) [of 0] len by (simp add: lh_insert_slot_def n_def t1_def)
  with that res st d n_def n(2) show ?thesis by blast
qed

lemma new_table_wf:
  assumes "\<forall>a\<in>K. \<forall>b\<in>K. eq a b \<longleftrightarrow> a = b" and "0 < sz" and "lh_table_new mem sz fr hash eq = Inr t"
  shows "lh_wf K t []" and "no_freed t" and "lh_size t = sz" and "hash_fn t = hash" and "equal_fn t = eq"
  using assms by (auto simp: lh_table_new_def lh_wf_def no_freed_def empty_entry_def split: if_splits)

lemma lh_insert_slot_no_freed: "stored n k v t t' \<Longrightarrow> length (table t) = lh_size t \<Longrightarrow> no_freed t \<Longrightarrow> no_freed t'"
  by (auto simp: stored_def no_freed_def)

text \<open>Copying entries with distinct new keys into a table that never gets too full.\<close>

lemma reinsert_ok:
  assumes "lh_wf K nt ord" and "no_freed nt"
    and "\<And>i. i \<in> set is \<Longrightarrow> live tbl i \<and> key_of (e_k (tbl ! i)) \<in> K"
    and "distinct (map fst (map (\<lambda>i. entry_pair (table nt ! i)) ord @ map (\<lambda>i. entry_pair (tbl ! i)) is))"
    and "100 * (int (length ord + length is) - 1) \<le> 66 * int (lh_size nt)"
  shows "\<exists>nt' ord'. reinsert (lh_table_insert d mem) tbl is nt = Inr nt' \<and> lh_wf K nt' ord' \<and> no_freed nt' \<and>
     map (\<lambda>i. entry_pair (table nt' ! i)) ord' =
       map (\<lambda>i. entry_pair (table nt ! i)) ord @ map (\<lambda>i. entry_pair (tbl ! i)) is \<and>
     lh_size nt' = lh_size nt \<and> hash_fn nt' = hash_fn nt \<and> equal_fn nt' = equal_fn nt"
  using assms
proof (induction "is" arbitrary: nt ord)
  case (Cons i "is")
  obtain k where k: "e_k (tbl ! i) = Key k" "k \<in> K" using Cons.prems(3) [of i] by auto
  let ?nt0 = "nt\<lparr>inserts := inserts nt + 1\<rparr>"
  have load: "100 * lh_count nt \<le> 66 * int (lh_size nt)"
    using Cons.prems(1,5) by (simp add: lh_wf_def)
  then have ins: "lh_table_insert d mem nt k v = lh_insert_slot ?nt0 k v" for v
    by (cases d) (simp_all add: load_exceeded_def)
  have wf0: "lh_wf K ?nt0 ord" using Cons.prems(1) by simp
  have fresh: "k \<notin> (\<lambda>i. key_of (e_k (table ?nt0 ! i))) ` set ord"
    using Cons.prems(4) k by (force simp: entry_pair_def)
  have load0: "100 * lh_count ?nt0 \<le> 66 * int (lh_size ?nt0)" using load by simp
  obtain nt' n where nt': "lh_insert_slot ?nt0 k (e_v (tbl ! i)) = Inr nt'" "lh_wf K nt' (ord @ [n])"
      "map (\<lambda>i. entry_pair (table nt' ! i)) (ord @ [n]) = map (\<lambda>i. entry_pair (table ?nt0 ! i)) ord @ [(k, e_v (tbl ! i))]"
      "stored n k (e_v (tbl ! i)) ?nt0 nt'"
    using lh_insert_slot_ok [OF wf0 k(2) fresh load0] by metis
  have size': "lh_size nt' = lh_size nt" "hash_fn nt' = hash_fn nt" "equal_fn nt' = equal_fn nt"
    using nt'(4) by (simp_all add: stored_def)
  have nf: "no_freed nt'"
    using lh_insert_slot_no_freed [OF nt'(4)] Cons.prems(1,2) by (simp add: lh_wf_def no_freed_def)
  have pair: "entry_pair (tbl ! i) = (k, e_v (tbl ! i))" using k by (simp add: entry_pair_def)
  have dist: "distinct (map fst (map (\<lambda>i. entry_pair (table nt' ! i)) (ord @ [n]) @ map (\<lambda>i. entry_pair (tbl ! i)) is))"
    unfolding nt'(3) using Cons.prems(4) pair by simp
  have "\<exists>nt'' ord'. reinsert (lh_table_insert d mem) tbl is nt' = Inr nt'' \<and> lh_wf K nt'' ord' \<and> no_freed nt'' \<and>
     map (\<lambda>i. entry_pair (table nt'' ! i)) ord' =
       map (\<lambda>i. entry_pair (table nt' ! i)) (ord @ [n]) @ map (\<lambda>i. entry_pair (tbl ! i)) is \<and>
     lh_size nt'' = lh_size nt' \<and> hash_fn nt'' = hash_fn nt' \<and> equal_fn nt'' = equal_fn nt'"
    using Cons.prems(3,5) size' by (intro Cons.IH [OF nt'(2) nf _ dist]) simp_all
  from this [unfolded nt'(3)] show ?case using nt'(1) size' k ins pair by auto
qed auto

text \<open>
  Resizing keeps the association list and clears the freed slots; the copies never trigger a
  second resize, so any depth bound will do.
\<close>

lemma lh_wf_order: "lh_wf K t ord \<Longrightarrow> lh_order t = Some ord"
proof -
  assume wf: "lh_wf K t ord"
  have "distinct ord" and "set ord \<subseteq> {..< length (table t)}"
    using wf by (auto simp: lh_wf_def)
  then have "length ord \<le> length (table t)"
    by (metis card_lessThan card_mono distinct_card finite_lessThan)
  with wf show ?thesis
    unfolding lh_order_def using chain_seg [of "table t" None ord] by (auto simp: lh_wf_def)
qed

definition lh_room :: "allocator \<Rightarrow> ('k, 'v) lh_table \<Rightarrow> bool" where
  "lh_room mem t \<longleftrightarrow> alloc_ok mem 56 \<and> alloc_ok mem (16 * int (lh_size t * 2))"

lemma lh_table_resize_ok:
  assumes wf: "lh_wf K t ord" and mem: "lh_room mem t"
  obtains t' ord' where "lh_table_resize (lh_table_insert d mem) mem t (lh_size t * 2) = Inr t'"
    and "lh_wf K t' ord'" and "no_freed t'" and "lh_size t' = lh_size t * 2" and "hash_fn t' = hash_fn t"
    and "map (\<lambda>i. entry_pair (table t' ! i)) ord' = map (\<lambda>i. entry_pair (table t ! i)) ord"
    and "lh_count t' = lh_count t"
proof -
  have sz: "0 < lh_size t * 2" using wf by (simp add: lh_wf_def)
  obtain nt where nt: "lh_table_new mem (lh_size t * 2) False (hash_fn t) (equal_fn t)
      = Inr (nt :: ('a, 'b) lh_table)"
    using mem by (simp add: lh_table_new_def lh_room_def)
  have eq: "\<forall>a\<in>K. \<forall>b\<in>K. equal_fn t a b \<longleftrightarrow> a = b" using wf by (simp add: lh_wf_def)
  note new = new_table_wf [OF eq sz nt]
  have keys: "map fst (map (\<lambda>i. entry_pair (table t ! i)) ord) = map (\<lambda>i. key_of (e_k (table t ! i))) ord"
    by (simp add: entry_pair_def)
  have dist: "distinct (map fst (map (\<lambda>i. entry_pair (table nt ! i)) [] @ map (\<lambda>i. entry_pair (table t ! i)) ord))"
    using wf unfolding list.map append_Nil keys lh_wf_def by blast
  have "\<exists>nt' ord'. reinsert (lh_table_insert d mem) (table t) ord nt = Inr nt' \<and> lh_wf K nt' ord' \<and> no_freed nt' \<and>
     map (\<lambda>i. entry_pair (table nt' ! i)) ord' = map (\<lambda>i. entry_pair (table nt ! i)) [] @ map (\<lambda>i. entry_pair (table t ! i)) ord \<and>
     lh_size nt' = lh_size nt \<and> hash_fn nt' = hash_fn nt \<and> equal_fn nt' = equal_fn nt"
    by (rule reinsert_ok [OF new(1,2) _ dist]) (use wf new(3) in \<open>auto simp: lh_wf_def\<close>)
  then obtain nt' ord' where nt': "reinsert (lh_table_insert d mem) (table t) ord nt = Inr nt'"
      "lh_wf K nt' ord'" "no_freed nt'"
      "map (\<lambda>i. entry_pair (table nt' ! i)) ord' = map (\<lambda>i. entry_pair (table t ! i)) ord"
      "lh_size nt' = lh_size t * 2" "hash_fn nt' = hash_fn t" "equal_fn nt' = equal_fn t"
    using new by auto
  define t' where "t' = t\<lparr>table := table nt', lh_size := lh_size t * 2, head := head nt', tail := tail nt', resizes := resizes t + 1\<rparr>"
  have len: "length ord' = length ord" using nt'(4) by (metis length_map)
  have "lh_table_resize (lh_table_insert d mem) mem t (lh_size t * 2) = Inr t'"
    using nt nt'(1) lh_wf_order [OF wf] by (simp add: lh_table_resize_def t'_def)
  moreover have "lh_wf K t' ord'"
    using nt'(2,5-7) wf len unfolding lh_wf_def t'_def by simp
  moreover have "no_freed t'" using nt'(3,5) by (simp add: no_freed_def t'_def)
  ultimately show ?thesis using that nt'(4) by (simp add: t'_def)
qed

lemma double_load:
  assumes "0 < (s :: nat)" and "100 * (c - 1) \<le> 66 * int s"
  shows "100 * c \<le> 66 * int (s * 2)"
proof (cases "s = 1")
  case True
  with assms(2) have "c < 2" by simp
  with True show ?thesis by simp
next
  case False
  with assms have "2 \<le> int s" by simp
  with assms(2) show ?thesis by simp
qed

lemma lh_table_insert_ok:
  assumes wf: "lh_wf K t ord" and mem: "load_exceeded t \<Longrightarrow> lh_room mem t" and k: "k \<in> K"
    and fresh: "k \<notin> fst ` set kvs" and kvs: "kvs = map (\<lambda>i. entry_pair (table t ! i)) ord"
  obtains t' where "lh_table_insert (Suc d) mem t k v = Inr t'" and "lh_rep K t' (kvs @ [(k, v)])"
    and "lh_size t \<le> lh_size t'" and "no_freed t \<Longrightarrow> no_freed t'"
proof -
  define t0 where "t0 = t\<lparr>inserts := inserts t + 1\<rparr>"
  have t0: "lh_wf K t0 ord" "load_exceeded t0 = load_exceeded t" "lh_size t0 = lh_size t"
      "table t0 = table t" "no_freed t0 = no_freed t" "lh_room mem t0 = lh_room mem t"
    using wf by (simp_all add: t0_def load_exceeded_def no_freed_def lh_room_def)
  have "\<exists>t1 ord1. (if load_exceeded t0 then lh_table_resize (lh_table_insert d mem) mem t0 (lh_size t0 * 2)
             else Inr t0) = Inr t1 \<and> lh_wf K t1 ord1 \<and> kvs = map (\<lambda>i. entry_pair (table t1 ! i)) ord1 \<and>
          100 * lh_count t1 \<le> 66 * int (lh_size t1) \<and> lh_size t \<le> lh_size t1 \<and> (no_freed t \<longrightarrow> no_freed t1)"
  proof (cases "load_exceeded t0")
    case True
    with t0 mem have "lh_room mem t0" by simp
    then obtain t1 ord1 where t1: "lh_table_resize (lh_table_insert d mem) mem t0 (lh_size t0 * 2) = Inr t1"
      "lh_wf K t1 ord1" "no_freed t1" "lh_size t1 = lh_size t0 * 2"
      "map (\<lambda>i. entry_pair (table t1 ! i)) ord1 = map (\<lambda>i. entry_pair (table t0 ! i)) ord"
      "lh_count t1 = lh_count t0"
      using lh_table_resize_ok [OF t0(1), of mem d] by metis
    have "0 < lh_size t0" "100 * (lh_count t0 - 1) \<le> 66 * int (lh_size t0)"
      using t0(1) by (simp_all add: lh_wf_def)
    then have "100 * lh_count t1 \<le> 66 * int (lh_size t1)"
      unfolding t1(4,6) by (rule double_load)
    with True t1 kvs t0 show ?thesis by auto
  next
    case False
    with t0 kvs show ?thesis by (auto simp: load_exceeded_def)
  qed
  then obtain t1 ord1 where t1: "(if load_exceeded t0 then lh_table_resize (lh_table_insert d mem) mem t0 (lh_size t0 * 2)
             else Inr t0) = Inr t1" "lh_wf K t1 ord1" "kvs = map (\<lambda>i. entry_pair (table t1 ! i)) ord1"
      "100 * lh_count t1 \<le> 66 * int (lh_size t1)" "lh_size t \<le> lh_size t1" "no_freed t \<longrightarrow> no_freed t1"
    by blast
  have "k \<notin> (\<lambda>i. key_of (e_k (table t1 ! i))) ` set ord1"
    using fresh t1(3) by (force simp: entry_pair_def)
  then obtain t' n where t': "lh_insert_slot t1 k v = Inr t'" "lh_wf K t' (ord1 @ [n])"
      "map (\<lambda>i. entry_pair (table t' ! i)) (ord1 @ [n]) = map (\<lambda>i. entry_pair (table t1 ! i)) ord1 @ [(k, v)]"
      "stored n k v t1 t'"
    using lh_insert_slot_ok [OF t1(2) k _ t1(4), of v] by metis
  have "lh_table_insert (Suc d) mem t k v = Inr t'" using t1(1) t'(1)
    by (simp only: lh_table_insert.simps(2) Let_def t0_def [symmetric] rbind_simps)
  moreover have "lh_rep K t' (kvs @ [(k, v)])"
    unfolding lh_rep_def using t'(2,3) t1(3) by metis
  moreover have "lh_size t' = lh_size t1" using t'(4) by (simp add: stored_def)
  moreover have "no_freed t \<Longrightarrow> no_freed t'"
    using t1(2,6) t'(4) lh_insert_slot_no_freed by (metis lh_wf_def)
  ultimately show ?thesis using that t1(5) by metis
qed

section \<open>Lookup\<close>

lemma lh_wf_key_inj:
  assumes "lh_wf K t ord" and "i \<in> set ord" and "j \<in> set ord"
    and "key_of (e_k (table t ! i)) = key_of (e_k (table t ! j))"
  shows "i = j"
  using assms by (auto simp: lh_wf_def distinct_map dest: inj_onD)

text \<open>A key that is in the table is found, however many freed slots there are.\<close>

lemma lookup_entry_present:
  assumes wf: "lh_wf K t ord" and i: "i \<in> set ord" and k: "e_k (table t ! i) = Key k"
  shows "lh_table_lookup_entry t k = Inr (Some i, t\<lparr>lookups := lookups t + 1\<rparr>)"
proof -
  have len: "length (table t) = lh_size t" "0 < lh_size t" using wf by (auto simp: lh_wf_def)
  have kK: "k \<in> K" and "probe_ok (hash_fn t) (table t) i"
    using lh_wf_slot [OF wf _ k] lh_wf_bounds [OF wf i] by simp_all
  then obtain d where d: "d < lh_size t" "i = (hash_fn t k + d) mod lh_size t"
      "\<And>d'. d' < d \<Longrightarrow> e_k (table t ! ((hash_fn t k + d') mod lh_size t)) \<noteq> LH_EMPTY"
    using k len by (auto simp: probe_ok_def)
  have before: "e_k (table t ! ((hash_fn t k + d') mod lh_size t)) = LH_FREED \<or>
      (\<exists>k'. e_k (table t ! ((hash_fn t k + d') mod lh_size t)) = Key k' \<and> \<not> equal_fn t k' k)"
    if "d' < d" for d'
  proof -
    let ?j = "(hash_fn t k + d') mod lh_size t"
    have "?j \<noteq> i"
      using probe_inj [OF that d(1)] d(2) by blast
    moreover have "equal_fn t k' k = (k' = k) \<and> ?j \<in> set ord" if "e_k (table t ! ?j) = Key k'" for k'
      using lh_wf_slot [OF wf _ that] lh_wf_equal [OF wf _ kK] len by simp
    ultimately have "\<not> equal_fn t k' k" if "e_k (table t ! ?j) = Key k'" for k'
      using that lh_wf_key_inj [OF wf _ i, of ?j] k by auto
    with d(3) [OF that] show ?thesis by (cases "e_k (table t ! ?j)") auto
  qed
  have "equal_fn t k k" using wf kK by (auto simp: lh_wf_def)
  then have "lookup_loop (lh_size t) (equal_fn t) (table t) k (hash_fn t k mod lh_size t) = Inr (Some i)"
    using lookup_loop_first(2) [of d "lh_size t" "table t" "hash_fn t k" "equal_fn t" k k] d before len k by simp
  then show ?thesis using len by (simp add: lh_table_lookup_entry_def)
qed

text \<open>An absent key is reported as absent as long as some slot was never used.\<close>

definition has_empty :: "('k, 'v) lh_table \<Rightarrow> bool" where
  "has_empty t \<longleftrightarrow> (\<exists>i < lh_size t. e_k (table t ! i) = LH_EMPTY)"

lemma lookup_entry_absent:
  assumes wf: "lh_wf K t ord" and k: "k \<in> K" "k \<notin> (\<lambda>i. key_of (e_k (table t ! i))) ` set ord"
    and emp: "has_empty t"
  shows "lh_table_lookup_entry t k = Inr (None, t\<lparr>lookups := lookups t + 1\<rparr>)"
proof -
  have len: "length (table t) = lh_size t" "0 < lh_size t" using wf by (auto simp: lh_wf_def)
  let ?slot = "\<lambda>d. (hash_fn t k + d) mod lh_size t"
  obtain e where e: "e < lh_size t" "e_k (table t ! ?slot e) = LH_EMPTY"
    using emp probe_reaches unfolding has_empty_def by metis
  then obtain d where d: "e_k (table t ! ?slot d) = LH_EMPTY"
      "\<And>d'. d' < d \<Longrightarrow> e_k (table t ! ?slot d') \<noteq> LH_EMPTY"
    using exists_least_iff [of "\<lambda>d. e_k (table t ! ?slot d) = LH_EMPTY"] by blast
  have "d < lh_size t" using d(2) [of e] e by (metis linorder_neqE_nat order.strict_trans)
  moreover have "e_k (table t ! ?slot d') = LH_FREED \<or>
      (\<exists>k'. e_k (table t ! ?slot d') = Key k' \<and> \<not> equal_fn t k' k)" if "d' < d" for d'
  proof (cases "e_k (table t ! ?slot d')")
    case (Key k')
    then have "?slot d' \<in> set ord" "k' \<in> K" using lh_wf_slot [OF wf _ Key] len by simp_all
    with Key k lh_wf_equal [OF wf] show ?thesis by (auto simp: image_iff)
  qed (use d(2) [OF that] in auto)
  ultimately have "lookup_loop (lh_size t) (equal_fn t) (table t) k (hash_fn t k mod lh_size t) = Inr None"
    using lookup_loop_first(1) [of d "lh_size t" "table t" "hash_fn t k" "equal_fn t" k] d(1) len by simp
  then show ?thesis using len by (simp add: lh_table_lookup_entry_def)
qed

section \<open>Deletion\<close>

definition removed :: "nat \<Rightarrow> ('k, 'v) lh_table \<Rightarrow> ('k, 'v) lh_table \<Rightarrow> bool" where
  "removed n t t' \<longleftrightarrow>
     lh_size t' = lh_size t \<and> hash_fn t' = hash_fn t \<and> equal_fn t' = equal_fn t \<and>
     free_fn t' = free_fn t \<and> lh_count t' = lh_count t - 1 \<and> length (table t') = length (table t) \<and>
     (\<forall>i < length (table t). e_k (table t' ! i) = (if i = n then LH_FREED else e_k (table t ! i)) \<and>
                             (i \<noteq> n \<longrightarrow> e_v (table t' ! i) = e_v (table t ! i)))"

text \<open>Unlinking a slot from the middle of the list closes the gap, in each of the four cases.\<close>

lemma lh_unlink_ok:
  assumes seg: "seg (table t) None (xs @ n # ys) None" and dist: "distinct (xs @ n # ys)"
    and bnd: "set (xs @ n # ys) \<subseteq> {..< length (table t)}"
    and ht: "head t = first_of (xs @ n # ys) None" "tail t = last_of (xs @ n # ys) None"
  shows "\<exists>tbl. lh_unlink t n = Inr (t\<lparr>table := tbl, head := first_of (xs @ ys) None, tail := last_of (xs @ ys) None\<rparr>) \<and>
     seg tbl None (xs @ ys) None \<and> length tbl = length (table t) \<and>
     (\<forall>i. e_k (tbl ! i) = e_k (table t ! i) \<and> e_v (tbl ! i) = e_v (table t ! i))"
proof -
  have links: "seg (table t) None xs (Some n)" "e_prev (table t ! n) = last_of xs None"
      "e_next (table t ! n) = first_of ys None" "seg (table t) (Some n) ys None"
    using seg by (simp_all add: seg_append)
  have fix_ek: "e_k ((tbl[j := (tbl ! j)\<lparr>e_prev := p\<rparr>]) ! i) = e_k (tbl ! i)"
     "e_v ((tbl[j := (tbl ! j)\<lparr>e_prev := p\<rparr>]) ! i) = e_v (tbl ! i)"
     "e_k ((tbl[j := (tbl ! j)\<lparr>e_next := p\<rparr>]) ! i) = e_k (tbl ! i)"
     "e_v ((tbl[j := (tbl ! j)\<lparr>e_next := p\<rparr>]) ! i) = e_v (tbl ! i)" for tbl :: "('a, 'b) lh_entry list" and i j p
    by (cases "j < length tbl"; cases "i = j"; simp add: list_update_beyond)+
  show ?thesis
  proof (cases xs rule: rev_cases)
    case Nil
    show ?thesis
    proof (cases ys)
      case Nil
      with \<open>xs = []\<close> ht show ?thesis
        by (intro exI [of _ "table t"]) (simp add: lh_unlink_def last_of_def)
    next
      case (Cons m ms)
      have "tail t \<noteq> Some n" using ht(2) dist Cons by (auto simp: last_of_def)
      moreover have "seg ((table t)[m := (table t ! m)\<lparr>e_prev := None\<rparr>]) None (m # ms) None"
        using links(4) dist bnd Cons by (intro seg_set_prev) auto
      ultimately show ?thesis
        using \<open>xs = []\<close> Cons ht links
        by (simp add: lh_unlink_def upd_entry_def fix_ek last_of_Cons exI [of _ "(table t)[m := (table t ! m)\<lparr>e_prev := None\<rparr>]"])
    qed
  next
    case (snoc ws l)
    have "head t \<noteq> Some n" using ht(1) dist snoc by (cases ws) auto
    define tbl1 where "tbl1 = (table t)[l := (table t ! l)\<lparr>e_next := first_of ys None\<rparr>]"
    have seg1: "seg tbl1 None xs (first_of ys None)"
      using links(1) dist bnd snoc seg_set_next [of "table t" None xs "Some n" "first_of ys None"]
      by (auto simp: tbl1_def)
    have "l \<notin> set ys" using dist snoc by auto
    then have seg2: "seg tbl1 (Some n) ys None" using links(4) by (simp add: tbl1_def seg_update_other)
    show ?thesis
    proof (cases ys)
      case Nil
      with \<open>head t \<noteq> Some n\<close> snoc ht links seg1 show ?thesis
        by (intro exI [of _ tbl1])
           (simp add: lh_unlink_def upd_entry_def fix_ek tbl1_def last_of_def first_of_append Let_def)
    next
      case (Cons m ms)
      have "tail t \<noteq> Some n" using ht(2) dist Cons by (auto simp: last_of_def)
      define tbl2 where "tbl2 = tbl1[m := (tbl1 ! m)\<lparr>e_prev := Some l\<rparr>]"
      have "seg tbl2 (Some l) ys None"
        using seg2 dist bnd Cons seg_set_prev [of tbl1 "Some n" m ms None "Some l"]
        by (simp add: tbl2_def tbl1_def)
      moreover have "seg tbl2 None xs (Some m)"
        using seg1 dist Cons by (simp add: tbl2_def seg_update_other)
      ultimately have "seg tbl2 None (xs @ ys) None" using snoc Cons by (simp add: seg_append)
      with \<open>head t \<noteq> Some n\<close> \<open>tail t \<noteq> Some n\<close> snoc Cons ht links show ?thesis
        by (intro exI [of _ tbl2])
           (simp add: lh_unlink_def upd_entry_def fix_ek tbl1_def tbl2_def last_of_append last_of_Cons first_of_append)
    qed
  qed
qed

lemma removed_wf:
  assumes wf: "lh_wf K t (xs @ n # ys)" and rm: "removed n t t'"
    and links: "seg (table t') None (xs @ ys) None" "head t' = first_of (xs @ ys) None"
      "tail t' = last_of (xs @ ys) None"
  shows "lh_wf K t' (xs @ ys)"
    and "map (\<lambda>i. entry_pair (table t' ! i)) (xs @ ys) = map (\<lambda>i. entry_pair (table t ! i)) (xs @ ys)"
proof -
  have len: "length (table t) = lh_size t" "0 < lh_size t" "distinct (xs @ n # ys)"
    using wf by (auto simp: lh_wf_def)
  have dist: "distinct (xs @ ys)" "n \<notin> set (xs @ ys)" using len by auto
  have old: "i \<in> set (xs @ ys) \<Longrightarrow> i < lh_size t \<and> i \<noteq> n" for i
    using lh_wf_bounds [OF wf, of i] dist(2) by auto
  have same: "i \<in> set (xs @ ys) \<Longrightarrow> e_k (table t' ! i) = e_k (table t ! i) \<and> e_v (table t' ! i) = e_v (table t ! i)" for i
    using old rm len unfolding removed_def by metis
  then show "map (\<lambda>i. entry_pair (table t' ! i)) (xs @ ys) = map (\<lambda>i. entry_pair (table t ! i)) (xs @ ys)"
    by (auto simp: entry_pair_def)
  have keys: "map (\<lambda>i. key_of (e_k (table t' ! i))) (xs @ ys) = map (\<lambda>i. key_of (e_k (table t ! i))) (xs @ ys)"
    using same by auto
  have "distinct (map (\<lambda>i. key_of (e_k (table t ! i))) (xs @ n # ys))" using wf unfolding lh_wf_def by blast
  then have dkeys: "distinct (map (\<lambda>i. key_of (e_k (table t ! i))) (xs @ ys))" by auto
  have nonempty: "i < lh_size t \<Longrightarrow> e_k (table t ! i) \<noteq> LH_EMPTY \<Longrightarrow> e_k (table t' ! i) \<noteq> LH_EMPTY" for i
    using rm len by (simp add: removed_def)
  have kp: "key_of (e_k (table t ! i)) \<in> K" "probe_ok (hash_fn t) (table t) i" if "i \<in> set (xs @ ys)" for i
    using wf that unfolding lh_wf_def by auto
  have "probe_ok (hash_fn t') (table t') i" if i: "i \<in> set (xs @ ys)" for i
    using kp(2) [OF i] same [OF i] rm len nonempty
    unfolding probe_ok_def removed_def by (metis mod_less_divisor)
  then have "\<forall>i\<in>set (xs @ ys). key_of (e_k (table t' ! i)) \<in> K \<and> probe_ok (hash_fn t') (table t') i"
    using kp same by metis
  moreover have "set (xs @ ys) = {i. i < lh_size t' \<and> live (table t') i}"
  proof -
    have "set (xs @ ys) = set (xs @ n # ys) - {n}" using dist by auto
    also have "\<dots> = {i. i < lh_size t \<and> live (table t) i} - {n}" using wf unfolding lh_wf_def by blast
    also have "\<dots> = {i. i < lh_size t' \<and> live (table t') i}"
      using rm len by (auto simp: removed_def split: if_splits)
    finally show ?thesis .
  qed
  moreover have "lh_count t' = int (length (xs @ ys))" "100 * (lh_count t' - 1) \<le> 66 * int (lh_size t')"
    "0 < lh_size t'" "length (table t') = lh_size t'" "\<forall>a\<in>K. \<forall>b\<in>K. equal_fn t' a b \<longleftrightarrow> a = b"
    using wf rm by (simp_all add: lh_wf_def removed_def)
  ultimately show "lh_wf K t' (xs @ ys)"
    unfolding lh_wf_def using links keys dkeys dist(1) by metis
qed

lemma lh_table_delete_entry_ok:
  assumes wf: "lh_wf K t (xs @ n # ys)" and k: "e_k (table t ! n) = Key k"
  obtains t' where "lh_table_delete_entry t (int n) =
      Inr (0, t', if free_fn t then Some (k, e_v (table t ! n)) else None)"
    and "removed n t t'" and "seg (table t') None (xs @ ys) None"
    and "head t' = first_of (xs @ ys) None" and "tail t' = last_of (xs @ ys) None"
proof -
  define t1 where "t1 = t\<lparr>lh_count := lh_count t - 1,
                 table := upd_entry (table t) n (\<lambda>x. x\<lparr>e_v := None, e_k := LH_FREED\<rparr>)\<rparr>"
  have len: "length (table t) = lh_size t" "set (xs @ n # ys) \<subseteq> {..< lh_size t}"
    and seg0: "seg (table t) None (xs @ n # ys) None" "distinct (xs @ n # ys)"
      "head t = first_of (xs @ n # ys) None" "tail t = last_of (xs @ n # ys) None"
    using wf unfolding lh_wf_def by blast+
  have n: "n < length (table t)" using len by simp
  have links: "e_prev (table t1 ! i) = e_prev (table t ! i) \<and> e_next (table t1 ! i) = e_next (table t ! i)" for i
    using n by (simp add: t1_def upd_entry_def nth_list_update)
  have ev: "i \<noteq> n \<Longrightarrow> e_k (table t1 ! i) = e_k (table t ! i) \<and> e_v (table t1 ! i) = e_v (table t ! i)"
    "e_k (table t1 ! n) = LH_FREED" for i
    using n by (simp_all add: t1_def upd_entry_def)
  have "seg (table t1) None (xs @ n # ys) None" using seg0 seg_cong [of "xs @ n # ys" "table t1" "table t"] links by metis
  then obtain tbl where tbl: "lh_unlink t1 n = Inr (t1\<lparr>table := tbl, head := first_of (xs @ ys) None, tail := last_of (xs @ ys) None\<rparr>)"
     "seg tbl None (xs @ ys) None" "length tbl = length (table t1)"
     "\<And>i. e_k (tbl ! i) = e_k (table t1 ! i) \<and> e_v (tbl ! i) = e_v (table t1 ! i)"
    using lh_unlink_ok [of t1 xs n ys] seg0 len by (auto simp: t1_def upd_entry_def)
  define t' where "t' = t1\<lparr>table := upd_entry tbl n (\<lambda>x. x\<lparr>e_next := None, e_prev := None\<rparr>),
        head := first_of (xs @ ys) None, tail := last_of (xs @ ys) None\<rparr>"
  have "seg (table t') None (xs @ ys) None"
    using tbl(2) seg0(2) by (simp add: t'_def upd_entry_def seg_update_other)
  moreover have "removed n t t'"
    using tbl(3,4) ev n by (auto simp: removed_def t'_def t1_def upd_entry_def nth_list_update)
  moreover have "lh_table_delete_entry t (int n) = Inr (0, t', if free_fn t then Some (k, e_v (table t ! n)) else None)"
    using n k tbl(1) by (simp add: lh_table_delete_entry_def t'_def Let_def t1_def [symmetric] del: of_nat_less_iff)
  ultimately show ?thesis using that by (simp add: t'_def)
qed

section \<open>The table as an association list\<close>

text \<open>The abstract operations: removal of a key, and replacement, which moves the key to the end.\<close>

definition al_remove :: "'k \<Rightarrow> ('k \<times> 'v) list \<Rightarrow> ('k \<times> 'v) list" where
  "al_remove k kvs = filter (\<lambda>p. fst p \<noteq> k) kvs"

definition al_put :: "'k \<Rightarrow> 'v \<Rightarrow> ('k \<times> 'v) list \<Rightarrow> ('k \<times> 'v) list" where
  "al_put k v kvs = al_remove k kvs @ [(k, v)]"

lemma al_remove_absent: "k \<notin> fst ` set kvs \<Longrightarrow> al_remove k kvs = kvs"
  by (auto simp: al_remove_def filter_id_conv)

lemma al_remove_split:
  "distinct (map fst (xs @ (k, v) # ys)) \<Longrightarrow> al_remove k (xs @ (k, v) # ys) = xs @ ys"
  using al_remove_absent [of k xs] al_remove_absent [of k ys] by (simp add: al_remove_def)

lemma map_of_al_put: "map_of (al_put k v kvs) k' = (if k' = k then Some v else map_of kvs k')"
proof -
  have "map_of (al_remove k kvs) = (map_of kvs)(k := None)"
    by (induction kvs) (auto simp: al_remove_def)
  then show ?thesis by (simp add: al_put_def map_add_def split: option.split)
qed

lemma distinct_al_put: "distinct (map fst kvs) \<Longrightarrow> distinct (map fst (al_put k v kvs))"
  by (induction kvs) (auto simp: al_put_def al_remove_def)

lemma map_fst_pairs:
  "map fst (map (\<lambda>i. entry_pair (tbl ! i)) ord) = map (\<lambda>i. key_of (e_k (tbl ! i))) ord"
  by (simp add: entry_pair_def)

lemma lh_rep_distinct: "lh_rep K t kvs \<Longrightarrow> distinct (map fst kvs)"
  unfolding lh_rep_def lh_wf_def using map_fst_pairs by metis

lemma lh_rep_present:
  assumes "lh_rep K t kvs" and "map_of kvs k = Some v"
  obtains xs i ys where "lh_wf K t (xs @ i # ys)" and "kvs = map (\<lambda>i. entry_pair (table t ! i)) (xs @ i # ys)"
    and "e_k (table t ! i) = Key k" and "e_v (table t ! i) = v"
proof -
  obtain ord where ord: "lh_wf K t ord" "kvs = map (\<lambda>i. entry_pair (table t ! i)) ord"
    using assms(1) by (auto simp: lh_rep_def)
  have "(k, v) \<in> set kvs" using assms(2) by (rule map_of_SomeD)
  then obtain i where i: "i \<in> set ord" "entry_pair (table t ! i) = (k, v)" using ord(2) by auto
  then obtain xs ys where "ord = xs @ i # ys" by (meson split_list)
  moreover have "e_k (table t ! i) = Key k" "e_v (table t ! i) = v"
    using lh_wf_bounds [OF ord(1) i(1)] i(2) by (auto simp: entry_pair_def)
  ultimately show ?thesis using that ord by blast
qed

lemma lh_rep_lookup_present:
  assumes "lh_rep K t kvs" and "map_of kvs k = Some v"
  shows "\<exists>t'. lh_table_lookup t k = Inr (v, t') \<and> lh_rep K t' kvs"
proof -
  obtain xs i ys where i: "lh_wf K t (xs @ i # ys)" "kvs = map (\<lambda>i. entry_pair (table t ! i)) (xs @ i # ys)"
      "e_k (table t ! i) = Key k" "e_v (table t ! i) = v"
    using assms by (rule lh_rep_present)
  then have "lh_table_lookup t k = Inr (v, t\<lparr>lookups := lookups t + 1\<rparr>)"
    by (simp add: lh_table_lookup_def lookup_entry_present [OF i(1) _ i(3)])
  moreover have "lh_rep K (t\<lparr>lookups := lookups t + 1\<rparr>) kvs" using i unfolding lh_rep_def by auto
  ultimately show ?thesis by blast
qed

lemma lh_rep_lookup_absent:
  assumes "lh_rep K t kvs" and "k \<in> K" and "k \<notin> fst ` set kvs" and "has_empty t"
  shows "lh_table_lookup_entry t k = Inr (None, t\<lparr>lookups := lookups t + 1\<rparr>)"
proof -
  obtain ord where ord: "lh_wf K t ord" "kvs = map (\<lambda>i. entry_pair (table t ! i)) ord"
    using assms(1) by (auto simp: lh_rep_def)
  have "k \<notin> (\<lambda>i. key_of (e_k (table t ! i))) ` set ord" using assms(3) ord(2) by (force simp: entry_pair_def)
  then show ?thesis using lookup_entry_absent [OF ord(1) assms(2) _ assms(4)] by blast
qed

text \<open>Deleting a key that is there removes its pair, whatever the state of the other slots.\<close>

lemma lh_rep_delete_present:
  assumes "lh_rep K t kvs" and "map_of kvs k = Some v"
  obtains t' i where "lh_table_delete t k = Inr (0, t', if free_fn t then Some (k, v) else None)"
    and "lh_rep K t' (al_remove k kvs)" and "removed i t t'" and "i < lh_size t"
    and "e_k (table t ! i) = Key k" and "probe_ok (hash_fn t) (table t) i"
proof -
  obtain xs i ys where i: "lh_wf K t (xs @ i # ys)" "kvs = map (\<lambda>i. entry_pair (table t ! i)) (xs @ i # ys)"
      "e_k (table t ! i) = Key k" "e_v (table t ! i) = v"
    using assms by (rule lh_rep_present)
  define t1 where "t1 = t\<lparr>lookups := lookups t + 1\<rparr>"
  have t1: "lh_wf K t1 (xs @ i # ys)" "e_k (table t1 ! i) = Key k" "table t1 = table t" "free_fn t1 = free_fn t"
    using i by (simp_all add: t1_def)
  obtain t' where t': "lh_table_delete_entry t1 (int i) =
      Inr (0, t', if free_fn t1 then Some (k, e_v (table t1 ! i)) else None)"
      "removed i t1 t'" "seg (table t') None (xs @ ys) None"
      "head t' = first_of (xs @ ys) None" "tail t' = last_of (xs @ ys) None"
    using lh_table_delete_entry_ok [OF t1(1,2)] by blast
  note res = removed_wf [OF t1(1) t'(2-5)]
  have pairs: "kvs = map (\<lambda>i. entry_pair (table t ! i)) xs @ (k, v) # map (\<lambda>i. entry_pair (table t ! i)) ys"
    using i by (simp add: entry_pair_def)
  then have "al_remove k kvs = map (\<lambda>i. entry_pair (table t ! i)) (xs @ ys)"
    using lh_rep_distinct [OF assms(1)] al_remove_split by (metis map_append)
  then have "lh_rep K t' (al_remove k kvs)" unfolding lh_rep_def using res t1(3) by metis
  moreover have "lh_table_lookup_entry t k = Inr (Some i, t1)"
    unfolding t1_def by (rule lookup_entry_present [OF i(1) _ i(3)]) simp
  then have "lh_table_delete t k = Inr (0, t', if free_fn t then Some (k, v) else None)"
    using t'(1) i(4) t1(3,4) by (simp add: lh_table_delete_def)
  moreover have "removed i t t'" using t'(2) by (simp add: removed_def t1_def)
  moreover have "i < lh_size t" "probe_ok (hash_fn t) (table t) i"
    using lh_wf_bounds [OF i(1), of i] lh_wf_slot(3) [OF i(1) _ i(3)] by simp_all
  ultimately show ?thesis using that i(3) by blast
qed

section \<open>Tables that only ever replace keys\<close>

text \<open>
  \<open>json_object_object_add\<close> deletes the key and inserts the new pair. Such a table never keeps a
  freed slot, so with at least three slots it always has an empty one and no lookup runs on.
\<close>

definition lh_put ::
  "allocator \<Rightarrow> ('k, 'v) lh_table \<Rightarrow> 'k \<Rightarrow> 'v option \<Rightarrow> ('k, 'v) lh_table res" where
  "lh_put mem t k v = rbind (lh_table_delete t k) (\<lambda>(_, t1, _). lh_table_insert 1 mem t1 k v)"

definition lh_total :: "'k set \<Rightarrow> ('k, 'v) lh_table \<Rightarrow> ('k \<times> 'v option) list \<Rightarrow> bool" where
  "lh_total K t kvs \<longleftrightarrow> lh_rep K t kvs \<and> no_freed t \<and> 3 \<le> lh_size t"

lemma lh_total_has_empty:
  assumes "lh_total K t kvs"
  shows "has_empty t"
proof -
  obtain ord where wf: "lh_wf K t ord" using assms by (auto simp: lh_total_def lh_rep_def)
  have "100 * (lh_count t - 1) \<le> 66 * int (lh_size t)" using wf by (simp add: lh_wf_def)
  then have "lh_count t < int (lh_size t)" using assms by (simp add: lh_total_def)
  then obtain i where "i < length (table t)" "\<not> live (table t) i" by (rule lh_wf_free_slot [OF wf])
  then have "e_k (table t ! i) = LH_EMPTY" "i < lh_size t"
    using assms wf by (auto simp: not_live_iff lh_total_def no_freed_def lh_wf_def)
  then show ?thesis by (auto simp: has_empty_def)
qed

text \<open>A key inserted right after its deletion goes back to the slot it had.\<close>

lemma reinsert_same_slot:
  assumes nf: "no_freed t" and len: "length (table t) = lh_size t"
    and i: "i < lh_size t" "e_k (table t ! i) = Key k" "probe_ok (hash_fn t) (table t) i"
    and rm: "removed i t t1"
    and n: "n = (hash_fn t1 k + d) mod lh_size t1" "\<not> live (table t1) n"
      "\<And>d'. d' < d \<Longrightarrow> live (table t1) ((hash_fn t1 k + d') mod lh_size t1)"
  shows "n = i"
proof -
  obtain d0 where d0: "d0 < lh_size t" "i = (hash_fn t k + d0) mod lh_size t"
      "\<And>d'. d' < d0 \<Longrightarrow> e_k (table t ! ((hash_fn t k + d') mod lh_size t)) \<noteq> LH_EMPTY"
    using i len by (auto simp: probe_ok_def)
  have same: "hash_fn t1 = hash_fn t" "lh_size t1 = lh_size t" using rm by (simp_all add: removed_def)
  have "live (table t1) ((hash_fn t k + d') mod lh_size t)" if "d' < d0" for d'
  proof -
    let ?j = "(hash_fn t k + d') mod lh_size t"
    have j: "?j < lh_size t" "?j \<noteq> i" using i(1) d0(2) probe_inj [OF that d0(1)] by auto
    have "e_k (table t1 ! ?j) = e_k (table t ! ?j)" using rm j len by (simp add: removed_def)
    moreover have "e_k (table t ! ?j) \<noteq> LH_FREED" using nf j by (simp add: no_freed_def)
    ultimately show ?thesis using d0(3) [OF that] by (cases "e_k (table t ! ?j)") auto
  qed
  moreover have "\<not> live (table t1) i" using rm i(1) len by (simp add: removed_def)
  ultimately have "d = d0" using n d0(2) same by (metis linorder_neqE_nat)
  with n(1) d0(2) same show ?thesis by simp
qed

lemma lh_put_present:
  assumes tot: "lh_total K t kvs" and k: "k \<in> K" and v: "map_of kvs k = Some v0"
  shows "\<exists>t'. lh_put mem t k v = Inr t' \<and> lh_total K t' (al_put k v kvs)"
proof -
  have rep: "lh_rep K t kvs" "no_freed t" "3 \<le> lh_size t" using tot by (simp_all add: lh_total_def)
  obtain t1 i where t1: "lh_table_delete t k = Inr (0, t1, if free_fn t then Some (k, v0) else None)"
      "lh_rep K t1 (al_remove k kvs)" "removed i t t1" "i < lh_size t" "e_k (table t ! i) = Key k"
      "probe_ok (hash_fn t) (table t) i"
    using lh_rep_delete_present [OF rep(1) v] by metis
  obtain ord0 where wf0: "lh_wf K t ord0" using rep(1) by (auto simp: lh_rep_def)
  then have len: "length (table t) = lh_size t" "100 * (lh_count t - 1) \<le> 66 * int (lh_size t)"
    by (simp_all add: lh_wf_def)
  obtain ord where ord: "lh_wf K t1 ord" "al_remove k kvs = map (\<lambda>i. entry_pair (table t1 ! i)) ord"
    using t1(2) by (auto simp: lh_rep_def)
  let ?t2 = "t1\<lparr>inserts := inserts t1 + 1\<rparr>"
  have wf2: "lh_wf K ?t2 ord" using ord by simp
  have "k \<notin> fst ` set (al_remove k kvs)" by (auto simp: al_remove_def)
  then have fresh: "k \<notin> (\<lambda>i. key_of (e_k (table ?t2 ! i))) ` set ord"
    unfolding ord(2) by (force simp: entry_pair_def)
  have load: "100 * lh_count ?t2 \<le> 66 * int (lh_size ?t2)" using len(2) t1(3) by (simp add: removed_def)
  obtain t' n d where t': "lh_insert_slot ?t2 k v = Inr t'" "lh_wf K t' (ord @ [n])"
      "map (\<lambda>i. entry_pair (table t' ! i)) (ord @ [n]) = map (\<lambda>i. entry_pair (table ?t2 ! i)) ord @ [(k, v)]"
      "stored n k v ?t2 t'" "n = (hash_fn ?t2 k + d) mod lh_size ?t2"
      "\<And>d'. d' < d \<Longrightarrow> live (table ?t2) ((hash_fn ?t2 k + d') mod lh_size ?t2)" "\<not> live (table ?t2) n"
    using lh_insert_slot_ok [OF wf2 k fresh load, of v] by metis
  have "n = i"
    by (rule reinsert_same_slot [OF rep(2) len(1) t1(4-6,3), of n d]) (use t'(5-7) in simp_all)
  then have "no_freed t'"
    using rep(2) t1(3) t'(4) len(1) by (auto simp: no_freed_def removed_def stored_def)
  moreover have "lh_put mem t k v = Inr t'"
    using t1(1) t'(1) load by (simp add: lh_put_def load_exceeded_def)
  moreover have "lh_rep K t' (al_put k v kvs)"
    unfolding lh_rep_def al_put_def using t'(2,3) ord(2) by auto
  moreover have "lh_size t' = lh_size t" using t'(4) t1(3) by (simp add: stored_def removed_def)
  ultimately show ?thesis using rep(3) by (simp add: lh_total_def)
qed

lemma lh_put_absent:
  assumes tot: "lh_total K t kvs" and k: "k \<in> K" "k \<notin> fst ` set kvs" and mem: "lh_room mem t"
  shows "\<exists>t'. lh_put mem t k v = Inr t' \<and> lh_total K t' (al_put k v kvs)"
proof -
  define t1 where "t1 = t\<lparr>lookups := lookups t + 1\<rparr>"
  have rep: "lh_rep K t kvs" "no_freed t" "3 \<le> lh_size t" using tot by (simp_all add: lh_total_def)
  have del: "lh_table_delete t k = Inr (-1, t1, None)"
    using lh_rep_lookup_absent [OF rep(1) k lh_total_has_empty [OF tot]] by (simp add: lh_table_delete_def t1_def)
  obtain ord where ord: "lh_wf K t1 ord" "kvs = map (\<lambda>i. entry_pair (table t1 ! i)) ord"
    using rep(1) by (auto simp: lh_rep_def t1_def)
  have "lh_room mem t1" using mem by (simp add: lh_room_def t1_def)
  then obtain t' where t': "lh_table_insert (Suc 0) mem t1 k v = Inr t'" "lh_rep K t' (kvs @ [(k, v)])"
      "lh_size t1 \<le> lh_size t'" "no_freed t1 \<Longrightarrow> no_freed t'"
    using lh_table_insert_ok [OF ord(1) _ k(1,2) ord(2), of mem 0 v] by metis
  have "lh_put mem t k v = Inr t'" using del t'(1) by (simp add: lh_put_def)
  moreover have "no_freed t'" using t'(4) rep(2) by (simp add: t1_def no_freed_def)
  ultimately show ?thesis
    using t'(2,3) rep(3) k(2) by (simp add: lh_total_def al_put_def al_remove_absent t1_def)
qed

section \<open>The contract of an ordered map\<close>

text \<open>
  What the JSON layer relies on: a store that stands for an association list with distinct keys,
  whose \<open>put\<close> moves the key to the end and whose \<open>get\<close> gives the value or the default.
\<close>

locale ordered_map =
  fixes rep :: "'t \<Rightarrow> ('k \<times> 'v) list \<Rightarrow> bool"
    and key_ok :: "'k \<Rightarrow> bool"
    and nil :: 'v
    and put :: "'t \<Rightarrow> 'k \<Rightarrow> 'v \<Rightarrow> 't res"
    and get :: "'t \<Rightarrow> 'k \<Rightarrow> ('v \<times> 't) res"
  assumes put_law: "rep t kvs \<Longrightarrow> key_ok k \<Longrightarrow> \<exists>t'. put t k v = Inr t' \<and> rep t' (al_put k v kvs)"
    and get_law: "rep t kvs \<Longrightarrow> key_ok k \<Longrightarrow>
        \<exists>t'. get t k = Inr (case map_of kvs k of None \<Rightarrow> nil | Some v \<Rightarrow> v, t') \<and> rep t' kvs"
begin

primrec put_all :: "('k \<times> 'v) list \<Rightarrow> 't \<Rightarrow> 't res" where
  "put_all [] t = Inr t"
| "put_all (p # ps) t = rbind (put t (fst p) (snd p)) (put_all ps)"

lemma put_all_rep:
  assumes "rep t kvs" and "\<forall>p\<in>set ps. key_ok (fst p)"
  shows "\<exists>t'. put_all ps t = Inr t' \<and> rep t' (fold (\<lambda>p. al_put (fst p) (snd p)) ps kvs)"
  using assms
proof (induction ps arbitrary: t kvs)
  case (Cons p ps)
  then obtain t1 where "put t (fst p) (snd p) = Inr t1" "rep t1 (al_put (fst p) (snd p) kvs)"
    using put_law by fastforce
  with Cons show ?case by simp
qed simp

lemma map_of_fold_al_put:
  "map_of (fold (\<lambda>p. al_put (fst p) (snd p)) ps kvs) k =
     (case map_of (rev ps) k of None \<Rightarrow> map_of kvs k | Some v \<Rightarrow> Some v)"
  by (induction ps arbitrary: kvs) (auto simp: map_of_al_put map_add_def split: option.splits)

text \<open>The last value put under a key is the one found.\<close>

lemma get_after_put_all:
  assumes "rep t []" and "\<forall>p\<in>set ps. key_ok (fst p)" and "key_ok k"
  shows "\<exists>t1 t2. put_all ps t = Inr t1 \<and>
     get t1 k = Inr (case map_of (rev ps) k of None \<Rightarrow> nil | Some v \<Rightarrow> v, t2)"
proof -
  obtain t1 where t1: "put_all ps t = Inr t1" "rep t1 (fold (\<lambda>p. al_put (fst p) (snd p)) ps [])"
    using put_all_rep [OF assms(1,2)] by blast
  from get_law [OF t1(2) assms(3)] show ?thesis
    using t1(1) map_of_fold_al_put [of ps "[]" k] by (auto split: option.splits)
qed

end

definition mem_total :: "allocator \<Rightarrow> bool" where
  "mem_total mem \<longleftrightarrow> (\<forall>n \<ge> 0. mem n)"

lemma mem_total_room: "mem_total mem \<Longrightarrow> lh_room mem t"
  by (simp add: mem_total_def lh_room_def alloc_ok_def)

definition c_strings :: "string set" where
  "c_strings = {s. NUL \<notin> set s}"

lemma char_equal_c_strings: "\<forall>a\<in>c_strings. \<forall>b\<in>c_strings. lh_char_equal a b \<longleftrightarrow> a = b"
  by (simp add: c_strings_def lh_char_equal_def)

lemma lh_put_ok:
  assumes "mem_total mem" and "lh_total K t kvs" and "k \<in> K"
  shows "\<exists>t'. lh_put mem t k v = Inr t' \<and> lh_total K t' (al_put k v kvs)"
proof (cases "map_of kvs k")
  case None
  then have "k \<notin> fst ` set kvs" by (simp add: map_of_eq_None_iff)
  with assms mem_total_room show ?thesis by (intro lh_put_absent) auto
next
  case (Some v0)
  with assms show ?thesis by (intro lh_put_present) auto
qed

lemma lh_total_lookup:
  assumes "lh_total K t kvs" and "k \<in> K"
  shows "\<exists>t'. lh_table_lookup t k = Inr (case map_of kvs k of None \<Rightarrow> None | Some v \<Rightarrow> v, t') \<and> lh_total K t' kvs"
proof (cases "map_of kvs k")
  case None
  then have "k \<notin> fst ` set kvs" by (simp add: map_of_eq_None_iff)
  then have "lh_table_lookup t k = Inr (None, t\<lparr>lookups := lookups t + 1\<rparr>)"
    using lh_rep_lookup_absent [of K t kvs k] lh_total_has_empty [OF assms(1)] assms
    by (simp add: lh_table_lookup_def lh_total_def)
  moreover have "lh_total K (t\<lparr>lookups := lookups t + 1\<rparr>) kvs"
    using assms(1) by (simp add: lh_total_def lh_rep_def no_freed_def)
  ultimately show ?thesis using None by simp
next
  case (Some v)
  then obtain xs i ys where i: "lh_wf K t (xs @ i # ys)" "e_k (table t ! i) = Key k" "e_v (table t ! i) = v"
    using lh_rep_present [of K t kvs k v] assms(1) by (metis lh_total_def)
  then have "lh_table_lookup t k = Inr (v, t\<lparr>lookups := lookups t + 1\<rparr>)"
    by (simp add: lh_table_lookup_def lookup_entry_present [OF i(1) _ i(2)])
  moreover have "lh_total K (t\<lparr>lookups := lookups t + 1\<rparr>) kvs"
    using assms(1) by (simp add: lh_total_def lh_rep_def no_freed_def)
  ultimately show ?thesis using Some by simp
qed

interpretation lh: ordered_map "\<lambda>t kvs. mem_total mem \<and> lh_total K t kvs" "\<lambda>k. k \<in> K" None "lh_put mem" lh_table_lookup
  for mem :: allocator and K :: "'k set"
proof (unfold_locales, goal_cases)
  case (1 t kvs k v)
  then show ?case using lh_put_ok [of mem K t kvs k v] by blast
next
  case (2 t kvs k)
  then show ?case using lh_total_lookup [of K t kvs k] by blast
qed

section \<open>Properties\<close>

text \<open>
  C14. Inserting a new key refines appending to the association list, also when the insertion
  resizes the table: the probing loop and the copying loop end, the copies never resize again, and
  no link or slot is out of place. Any depth of nested resizing from one on gives the result.
\<close>

theorem lh_table_insert_refines_append:
  assumes "lh_rep K t kvs" and "k \<in> K" and "k \<notin> fst ` set kvs"
    and "load_exceeded t \<Longrightarrow> lh_room mem t"
  shows "\<exists>t'. lh_table_insert (Suc d) mem t k v = Inr t' \<and> lh_rep K t' (kvs @ [(k, v)])"
proof -
  obtain ord where "lh_wf K t ord" "kvs = map (\<lambda>i. entry_pair (table t ! i)) ord"
    using assms(1) by (auto simp: lh_rep_def)
  then show ?thesis using lh_table_insert_ok [OF _ assms(4,2,3)] by metis
qed

lemma kchar_new_wf:
  assumes "lh_kchar_table_new mem sz fr = Inr t" and "0 < sz"
  shows "lh_wf c_strings t []" and "no_freed t" and "lh_size t = sz" and "hash_fn t = lh_char_hash"
  using new_table_wf [OF char_equal_c_strings assms(2), of mem fr lh_char_hash t] assms(1)
  by (simp_all add: lh_kchar_table_new_def)

lemma kchar_new_rep:
  assumes "mem_total mem" and "0 < sz"
  obtains t where "lh_kchar_table_new mem sz fr = Inr t" and "lh_wf c_strings t []" and "no_freed t"
    and "lh_size t = sz" and "hash_fn t = lh_char_hash"
proof -
  obtain t where t: "lh_table_new mem sz fr lh_char_hash lh_char_equal = Inr (t :: (string, 'a) lh_table)"
    using assms by (simp add: lh_table_new_def mem_total_def alloc_ok_def)
  with new_table_wf [OF char_equal_c_strings assms(2) t] that show ?thesis
    by (simp add: lh_kchar_table_new_def)
qed

theorem lh_table_insert_refines_append_witness:
  "\<exists>t t'. lh_kchar_table_new (\<lambda>_. True) 16 True = Inr t \<and>
     lh_table_insert 1 (\<lambda>_. True) t ''ab'' (Some (5 :: nat)) = Inr t' \<and>
     lh_rep c_strings t' [(''ab'', Some 5)]"
proof -
  obtain t :: "(string, nat) lh_table" where t: "lh_kchar_table_new (\<lambda>_. True) 16 True = Inr t" "lh_wf c_strings t []"
    by (rule kchar_new_rep [of "\<lambda>_. True" 16 True]) (simp_all add: mem_total_def)
  then have "lh_rep c_strings t []" by (auto simp: lh_rep_def)
  then have "\<exists>t'. lh_table_insert (Suc 0) (\<lambda>_. True) t ''ab'' (Some 5) = Inr t' \<and> lh_rep c_strings t' ([] @ [(''ab'', Some 5)])"
    by (rule lh_table_insert_refines_append) (simp_all add: c_strings_def lh_room_def alloc_ok_def)
  with t(1) show ?thesis by auto
qed

text \<open>
  C31. Deleting a key that is in the table removes its pair and nothing else, returns 0 and hands the
  pair to \<open>free_fn\<close> if there is one; the links around the slot are closed in all four positions.
\<close>

theorem lh_table_delete_refines_remove:
  assumes "lh_rep K t kvs" and "map_of kvs k = Some v"
  shows "\<exists>t'. lh_table_delete t k = Inr (0, t', if free_fn t then Some (k, v) else None) \<and>
              lh_rep K t' (al_remove k kvs)"
  using lh_rep_delete_present [OF assms] by metis

theorem lh_table_delete_refines_remove_witness:
  "\<exists>t t' r. lh_rep c_strings t [(''a'', Some (5 :: nat)), (''b'', None)] \<and>
     lh_table_delete t ''a'' = Inr (0, t', r) \<and> lh_rep c_strings t' [(''b'', None)]"
proof -
  obtain t0 :: "(string, nat) lh_table" where t0: "lh_kchar_table_new (\<lambda>_. True) 16 True = Inr t0"
      "lh_wf c_strings t0 []" "no_freed t0" "lh_size t0 = 16"
    by (rule kchar_new_rep [of "\<lambda>_. True" 16 True]) (simp_all add: mem_total_def)
  then have "lh_total c_strings t0 []" by (auto simp: lh_total_def lh_rep_def)
  moreover have "mem_total (\<lambda>_. True)" by (simp add: mem_total_def)
  ultimately obtain t1 :: "(string, nat) lh_table" where "lh_total c_strings t1 (al_put ''a'' (Some 5) [])"
    using lh_put_ok [of "\<lambda>_. True" c_strings t0 "[]" "''a''" "Some 5"] by (auto simp: c_strings_def)
  then obtain t :: "(string, nat) lh_table" where t: "lh_total c_strings t (al_put ''b'' None (al_put ''a'' (Some 5) []))"
    using lh_put_ok [of "\<lambda>_. True" c_strings t1 _ "''b''" None] by (auto simp: c_strings_def mem_total_def)
  then have rep: "lh_rep c_strings t [(''a'', Some 5), (''b'', None)]"
    by (simp add: lh_total_def al_put_def al_remove_def)
  from lh_table_delete_refines_remove [OF rep, of "''a''" "Some 5"] rep show ?thesis
    by (auto simp: al_remove_def)
qed

text \<open>
  The table as the JSON objects use it: after any sequence of replacements (a deletion followed
  by an insertion) starting from a fresh table of at least three slots, the lookup of any key
  returns, and it returns the value put last under that key, or NULL if there is none.
\<close>

lemma lh_table_last_put_wins:
  assumes "mem_total mem" and "3 \<le> sz" and "lh_kchar_table_new mem sz fr = Inr t"
    and "\<forall>p\<in>set ps. NUL \<notin> set (fst p)" and "NUL \<notin> set k"
  shows "\<exists>t1 t2. lh.put_all mem ps t = Inr t1 \<and>
     lh_table_lookup t1 k = Inr (case map_of (rev ps) k of None \<Rightarrow> None | Some v \<Rightarrow> v, t2)"
proof -
  have "0 < sz" using assms(2) by simp
  note kchar_new_wf [OF assms(3) this]
  with assms have "mem_total mem \<and> lh_total c_strings t []" by (auto simp: lh_total_def lh_rep_def)
  with assms(4,5) show ?thesis
    by (intro lh.get_after_put_all [of mem c_strings]) (auto simp: c_strings_def)
qed

lemma lh_table_last_put_wins_instance:
  "\<exists>t t1 t2. lh_kchar_table_new (\<lambda>_. True) 16 True = Inr t \<and>
     lh.put_all (\<lambda>_. True) [(''a'', Some (1 :: nat)), (''b'', Some 2), (''a'', Some 3)] t = Inr t1 \<and>
     lh_table_lookup t1 ''a'' = Inr (Some 3, t2)"
proof -
  obtain t :: "(string, nat) lh_table" where t: "lh_kchar_table_new (\<lambda>_. True) 16 True = Inr t"
    by (rule kchar_new_rep [of "\<lambda>_. True" 16 True]) (simp_all add: mem_total_def)
  from lh_table_last_put_wins [OF _ _ t, of "[(''a'', Some 1), (''b'', Some 2), (''a'', Some 3)]" "''a''"] t
  show ?thesis by (auto simp: mem_total_def)
qed

text \<open>Inserting keys and deleting each at once.\<close>

fun churn :: "allocator \<Rightarrow> ('k, 'v) lh_table \<Rightarrow> 'k list \<Rightarrow> ('k, 'v) lh_table res" where
  "churn mem t [] = Inr t"
| "churn mem t (k # ks) =
     rbind (lh_table_insert 1 mem t k None)
       (\<lambda>t1. rbind (lh_table_delete t1 k) (\<lambda>(_, t2, _). churn mem t2 ks))"

lemma churn_step:
  assumes wf: "lh_wf K t []" and k: "k \<in> K"
  obtains t1 t2 r where "lh_table_insert 1 mem t k None = Inr t1" and "lh_table_delete t1 k = Inr (0, t2, r)"
    and "lh_wf K t2 []" and "lh_size t2 = lh_size t" and "hash_fn t2 = hash_fn t"
    and "\<forall>i < lh_size t.
           e_k (table t2 ! i) = (if i = hash_fn t k mod lh_size t then LH_FREED else e_k (table t ! i))"
proof -
  let ?t0 = "t\<lparr>inserts := inserts t + 1\<rparr>"
  have wf0: "lh_wf K ?t0 []" "100 * lh_count ?t0 \<le> 66 * int (lh_size ?t0)" "length (table t) = lh_size t"
    using wf by (simp_all add: lh_wf_def)
  have dead: "\<not> live (table t) ((hash_fn t k + d) mod lh_size t)" for d
    using wf by (auto simp: lh_wf_def)
  have "k \<notin> (\<lambda>i. key_of (e_k (table ?t0 ! i))) ` set []" by simp
  from lh_insert_slot_ok [OF wf0(1) k this wf0(2), of None]
  obtain t1 n d where ins: "lh_insert_slot ?t0 k None = Inr t1" "lh_wf K t1 ([] @ [n])"
      "map (\<lambda>i. entry_pair (table t1 ! i)) ([] @ [n]) = map (\<lambda>i. entry_pair (table ?t0 ! i)) [] @ [(k, None)]"
      "stored n k None ?t0 t1" "n = (hash_fn ?t0 k + d) mod lh_size ?t0"
      "\<And>d'. d' < d \<Longrightarrow> live (table ?t0) ((hash_fn ?t0 k + d') mod lh_size ?t0)"
    by metis
  have t1: "lh_insert_slot ?t0 k None = Inr t1" "lh_wf K t1 [n]" "entry_pair (table t1 ! n) = (k, None)"
      "stored n k None ?t0 t1" "n = (hash_fn t k + d) mod lh_size t"
    using ins(1-5) by simp_all
  have "d = 0" using ins(6) [of 0] dead [of 0] by (cases d) simp_all
  then have n: "n = hash_fn t k mod lh_size t" "n < lh_size t" using t1(5) wf by (auto simp: lh_wf_def)
  have "lh_rep K t1 [(k, None)]" unfolding lh_rep_def using t1(2,3) by (intro exI [of _ "[n]"]) simp
  then obtain t2 i where t2: "lh_table_delete t1 k = Inr (0, t2, if free_fn t1 then Some (k, None) else None)"
      "lh_rep K t2 (al_remove k [(k, None)])" "removed i t1 t2" "i < lh_size t1" "e_k (table t1 ! i) = Key k"
    by (rule lh_rep_delete_present [of K t1 "[(k, None)]" k None]) simp_all
  have "i = n" using lh_wf_slot(1) [OF t1(2) t2(4,5)] by simp
  moreover have "lh_table_insert 1 mem t k None = Inr t1" using t1(1) wf0(2) by (simp add: load_exceeded_def)
  ultimately show ?thesis
    using that [of t1 t2] t1(4) t2 n wf0(3) by (simp add: lh_rep_def al_remove_def stored_def removed_def)
qed

lemma churn_ok:
  assumes "lh_wf K t []" and "set ks \<subseteq> K"
  shows "\<exists>t'. churn mem t ks = Inr t' \<and> lh_wf K t' [] \<and> lh_size t' = lh_size t \<and> hash_fn t' = hash_fn t \<and>
     (\<forall>i < lh_size t. e_k (table t' ! i) =
        (if i \<in> (\<lambda>k. hash_fn t k mod lh_size t) ` set ks then LH_FREED else e_k (table t ! i)))"
  using assms
proof (induction ks arbitrary: t)
  case (Cons k ks)
  have k: "k \<in> K" using Cons.prems(2) by simp
  obtain t1 t2 r where t2: "lh_table_insert 1 mem t k None = Inr t1" "lh_table_delete t1 k = Inr (0, t2, r)"
    "lh_wf K t2 []" "lh_size t2 = lh_size t" "hash_fn t2 = hash_fn t"
    "\<forall>i < lh_size t.
           e_k (table t2 ! i) = (if i = hash_fn t k mod lh_size t then LH_FREED else e_k (table t ! i))"
    by (rule churn_step [OF Cons.prems(1) k, of mem])
  with Cons.IH [OF t2(3)] Cons.prems(2) show ?case by (auto simp del: lh_table_insert.simps)
qed auto

text \<open>
  Freed slots are never reclaimed except by reuse, and only live entries count for resizing.
  Inserting and deleting, one after the other, keys whose home slots cover the table leaves a
  table that holds nothing and in which the lookup of any key runs for ever: the loop has found
  neither the key nor an empty slot after any number of steps.
\<close>

lemma lh_table_lookup_diverges:
  assumes "mem_total mem" and "0 < sz" and "set ks \<subseteq> c_strings"
    and "(\<lambda>k. lh_char_hash k mod sz) ` set ks = {..< sz}"
    and "lh_kchar_table_new mem sz fr = Inr t"
  shows "\<exists>t'. churn mem t ks = Inr t' \<and> lh_rep c_strings t' [] \<and> lh_count t' = 0 \<and>
     (\<forall>k f. lookup_loop f (equal_fn t') (table t') k (hash_fn t' k mod lh_size t') = Inl Out_Of_Fuel)"
proof -
  note t = kchar_new_wf [OF assms(5,2)]
  obtain t' where t': "churn mem t ks = Inr t'" "lh_wf c_strings t' []" "lh_size t' = sz"
      "\<forall>i < sz. e_k (table t' ! i) = LH_FREED"
    using churn_ok [OF t(1) assms(3), of mem] assms(4) t(3,4) by auto
  have len: "length (table t') = sz" "lh_count t' = 0" using t'(2,3) by (simp_all add: lh_wf_def)
  have "lookup_loop f (equal_fn t') (table t') k (hash_fn t' k mod lh_size t') = Inl Out_Of_Fuel" for k f
    by (rule lookup_loop_diverges) (use t'(3,4) len assms(2) in auto)
  with t' len show ?thesis by (auto simp: lh_rep_def)
qed

lemma lh_table_lookup_diverges_instance:
  "\<exists>t t'. lh_kchar_table_new (\<lambda>_. True) 16 True = Inr (t :: (string, nat) lh_table) \<and>
     churn (\<lambda>_. True) t (map (\<lambda>c. [c]) ''abcdefghijklmnop'') = Inr t' \<and> lh_count t' = 0 \<and>
     (\<forall>f. lookup_loop f (equal_fn t') (table t') ''a'' (hash_fn t' ''a'' mod lh_size t') = Inl Out_Of_Fuel)"
proof -
  obtain t :: "(string, nat) lh_table" where t: "lh_kchar_table_new (\<lambda>_. True) 16 True = Inr t"
    by (rule kchar_new_rep [of "\<lambda>_. True" 16 True]) (simp_all add: mem_total_def)
  have cover: "(\<lambda>k. lh_char_hash k mod 16) ` set (map (\<lambda>c. [c]) ''abcdefghijklmnop'') = {..< 16}"
    by (simp add: lh_char_hash_def char_word_def LH_PRIME_def lessThan_nat_numeral lessThan_Suc)
       auto
  from lh_table_lookup_diverges [OF _ _ _ cover t] t show ?thesis
    by (auto simp: mem_total_def c_strings_def)
qed

end
