(* ===== verification/JsonObject.thy ===== *)
theory JsonObject
  imports PrintBuf ArrayList LinkHash
begin

text \<open>
  The JSON values of \<open>platform/shared/json/json_object.c\<close> and their printer. A \<open>struct json_object\<close>
  is a value of a datatype with one constructor per \<open>enum json_type\<close>; the NULL pointer, which
  stands for the JSON null, is \<open>JNull\<close>. An object holds its members as the association list the
  hash table of theory \<open>LinkHash\<close> represents, an array its elements as the list the array of theory
  \<open>ArrayList\<close> represents. The printer works on the buffer of theory \<open>PrintBuf\<close>; it is shown to
  refine a printer on strings.

  Doubles are a parameter: the type \<open>'d\<close> with the C library's conversions in a record.
\<close>

section \<open>Values\<close>

datatype 'd json =
    JNull
  | JBoolean bool
  | JDouble 'd
  | JInt int
  | JObject "(string \<times> 'd json) list"
  | JArray "'d json list"
  | JString string

datatype json_type =
    json_type_null
  | json_type_boolean
  | json_type_double
  | json_type_int
  | json_type_object
  | json_type_array
  | json_type_string

text \<open>\<open>printf\<close> and \<open>sscanf\<close> with \<open>"%lf"\<close>, the conversions between \<open>double\<close> and \<open>int64\<close>.\<close>

record 'd dbl =
  lf_print :: "'d \<Rightarrow> string"
  lf_scan :: "string \<Rightarrow> 'd option"
  d_zero :: "'d \<Rightarrow> bool"
  d_to_int :: "'d \<Rightarrow> int"
  d_of_int :: "int \<Rightarrow> 'd"

definition json_object_get_type :: "'d json \<Rightarrow> json_type res" where
  "json_object_get_type j =
     (case j of
        JNull \<Rightarrow> Inl Null_Deref
      | JBoolean _ \<Rightarrow> Inr json_type_boolean
      | JDouble _ \<Rightarrow> Inr json_type_double
      | JInt _ \<Rightarrow> Inr json_type_int
      | JObject _ \<Rightarrow> Inr json_type_object
      | JArray _ \<Rightarrow> Inr json_type_array
      | JString _ \<Rightarrow> Inr json_type_string)"

definition json_object_is_type :: "'d json \<Rightarrow> json_type \<Rightarrow> bool res" where
  "json_object_is_type j ty = rbind (json_object_get_type j) (\<lambda>t. Inr (t = ty))"

section \<open>Accessors\<close>

text \<open>
  \<open>json_object_get_boolean\<close> of a string tests its length and then falls through to the default:
  every string is true.
\<close>

definition json_object_get_boolean :: "'d dbl \<Rightarrow> 'd json \<Rightarrow> bool" where
  "json_object_get_boolean D j =
     (case j of
        JNull \<Rightarrow> False
      | JBoolean b \<Rightarrow> b
      | JInt i \<Rightarrow> i \<noteq> 0
      | JDouble d \<Rightarrow> \<not> d_zero D d
      | JString s \<Rightarrow> if cstr s \<noteq> [] then True else True
      | _ \<Rightarrow> True)"

definition json_object_get_int :: "'d dbl \<Rightarrow> 'd json \<Rightarrow> int" where
  "json_object_get_int D j =
     (case j of
        JNull \<Rightarrow> 0
      | JInt i \<Rightarrow> i
      | JDouble d \<Rightarrow> d_to_int D d
      | JBoolean b \<Rightarrow> (if b then 1 else 0)
      | JString s \<Rightarrow> (case sscanf_lli (cstr s) of Some i \<Rightarrow> i | None \<Rightarrow> 0)
      | _ \<Rightarrow> 0)"

definition json_object_get_double :: "'d dbl \<Rightarrow> 'd json \<Rightarrow> 'd" where
  "json_object_get_double D j =
     (case j of
        JNull \<Rightarrow> d_of_int D 0
      | JDouble d \<Rightarrow> d
      | JInt i \<Rightarrow> d_of_int D i
      | JBoolean b \<Rightarrow> d_of_int D (if b then 1 else 0)
      | JString s \<Rightarrow> (case lf_scan D (cstr s) of Some d \<Rightarrow> d | None \<Rightarrow> d_of_int D 0)
      | _ \<Rightarrow> d_of_int D 0)"

definition json_object_get_object :: "'d json \<Rightarrow> (string \<times> 'd json) list option" where
  "json_object_get_object j = (case j of JObject kvs \<Rightarrow> Some kvs | _ \<Rightarrow> None)"

definition json_object_get_array :: "'d json \<Rightarrow> 'd json list option" where
  "json_object_get_array j = (case j of JArray js \<Rightarrow> Some js | _ \<Rightarrow> None)"

section \<open>Constructors and members\<close>

text \<open>
  A value whose table or array could not be allocated is not a value of the datatype: where the code
  leaves a NULL pointer inside it, the model reports the dereference its first use would be.
  The copies \<open>strdup\<close> makes are assumed to get their memory.
\<close>

definition sizeof_json_object :: int where
  "sizeof_json_object = 32"

definition JSON_OBJECT_DEF_HASH_ENTIRES :: nat where
  "JSON_OBJECT_DEF_HASH_ENTIRES = 16"

definition json_object_new_object :: "allocator \<Rightarrow> 'd json res" where
  "json_object_new_object mem =
     (if \<not> alloc_ok mem sizeof_json_object then Inr JNull
      else rbind (lh_kchar_table_new mem JSON_OBJECT_DEF_HASH_ENTIRES True :: (string, 'd json) lh_table res)
             (\<lambda>_. Inr (JObject [])))"

definition json_object_new_array :: "allocator \<Rightarrow> 'd json res" where
  "json_object_new_array mem =
     (if \<not> alloc_ok mem sizeof_json_object then Inr JNull
      else (case (array_list_new mem :: 'd json array_list option) of
              None \<Rightarrow> Inl Null_Deref
            | Some _ \<Rightarrow> Inr (JArray [])))"

definition json_object_new_boolean :: "allocator \<Rightarrow> bool \<Rightarrow> 'd json" where
  "json_object_new_boolean mem b = (if alloc_ok mem sizeof_json_object then JBoolean b else JNull)"

definition json_object_new_int :: "allocator \<Rightarrow> int \<Rightarrow> 'd json" where
  "json_object_new_int mem i = (if alloc_ok mem sizeof_json_object then JInt i else JNull)"

definition json_object_new_double :: "allocator \<Rightarrow> 'd \<Rightarrow> 'd json" where
  "json_object_new_double mem d = (if alloc_ok mem sizeof_json_object then JDouble d else JNull)"

definition json_object_new_string :: "allocator \<Rightarrow> string \<Rightarrow> 'd json" where
  "json_object_new_string mem s = (if alloc_ok mem sizeof_json_object then JString (cstr s) else JNull)"

definition strndup :: "string \<Rightarrow> nat \<Rightarrow> string" where
  "strndup s n = take (min (length (cstr s)) n) (cstr s)"

definition json_object_new_string_len :: "allocator \<Rightarrow> string \<Rightarrow> nat \<Rightarrow> 'd json" where
  "json_object_new_string_len mem s n =
     (if alloc_ok mem sizeof_json_object then JString (strndup s n) else JNull)"

text \<open>
  The union member is read without looking at the type: on a value of another type the pointer
  that is followed is no table and no array.
\<close>

definition json_object_object_add :: "'d json \<Rightarrow> string \<Rightarrow> 'd json \<Rightarrow> 'd json res" where
  "json_object_object_add j key val =
     (case j of
        JNull \<Rightarrow> Inl Null_Deref
      | JObject kvs \<Rightarrow> Inr (JObject (al_put (cstr key) val kvs))
      | _ \<Rightarrow> Inl Type_Confusion)"

definition json_object_object_get :: "'d json \<Rightarrow> string \<Rightarrow> 'd json res" where
  "json_object_object_get j key =
     (case j of
        JNull \<Rightarrow> Inl Null_Deref
      | JObject kvs \<Rightarrow> Inr (case map_of kvs (cstr key) of None \<Rightarrow> JNull | Some v \<Rightarrow> v)
      | _ \<Rightarrow> Inl Type_Confusion)"

definition json_object_object_del :: "'d json \<Rightarrow> string \<Rightarrow> 'd json res" where
  "json_object_object_del j key =
     (case j of
        JNull \<Rightarrow> Inl Null_Deref
      | JObject kvs \<Rightarrow> Inr (JObject (al_remove (cstr key) kvs))
      | _ \<Rightarrow> Inl Type_Confusion)"

definition json_object_array_length :: "'d json \<Rightarrow> int res" where
  "json_object_array_length j =
     (case j of JNull \<Rightarrow> Inl Null_Deref | JArray js \<Rightarrow> Inr (int (length js)) | _ \<Rightarrow> Inl Type_Confusion)"

definition json_object_array_add :: "'d json \<Rightarrow> 'd json \<Rightarrow> 'd json res" where
  "json_object_array_add j val =
     (case j of JNull \<Rightarrow> Inl Null_Deref | JArray js \<Rightarrow> Inr (JArray (js @ [val])) | _ \<Rightarrow> Inl Type_Confusion)"

definition json_object_array_get_idx :: "'d json \<Rightarrow> int \<Rightarrow> 'd json res" where
  "json_object_array_get_idx j idx =
     (case j of
        JNull \<Rightarrow> Inl Null_Deref
      | JArray js \<Rightarrow>
          if int (length js) \<le> idx then Inr JNull
          else if idx < 0 then Inl Out_Of_Bounds
          else Inr (js ! nat idx)
      | _ \<Rightarrow> Inl Type_Confusion)"

section \<open>The printer\<close>

definition json_hex_chars :: string where
  "json_hex_chars = ''0123456789abcdef''"

definition json_number_chars :: string where
  "json_number_chars = ''0123456789.+-eE''"

definition short_escape :: "char \<Rightarrow> char option" where
  "short_escape c =
     (if c = CHR 0x08 then Some (CHR ''b'')
      else if c = CHR 0x0A then Some (CHR ''n'')
      else if c = CHR 0x0D then Some (CHR ''r'')
      else if c = CHR 0x09 then Some (CHR ''t'')
      else if c = CHR 0x22 then Some (CHR 0x22)
      else if c = CHR 0x5C then Some (CHR 0x5C)
      else if c = CHR ''/'' then Some (CHR ''/'')
      else None)"

definition unicode_escape :: "char \<Rightarrow> string" where
  "unicode_escape c =
     CHR 0x5C # ''u00'' @ [json_hex_chars ! (byte c div 16), json_hex_chars ! (byte c mod 16)]"

text \<open>
  The loop over the string: \<open>pos\<close> is the character looked at, \<open>start_offset\<close> the first one not
  yet written. Reading at the end of \<open>str\<close> gives its terminator.
\<close>

definition flush_pending ::
  "allocator \<Rightarrow> string \<Rightarrow> nat \<Rightarrow> nat \<Rightarrow> printbuf \<Rightarrow> printbuf res" where
  "flush_pending mem str pos start_offset pb =
     (if pos > start_offset then pb_append mem (take (pos - start_offset) (drop start_offset str)) pb
      else Inr pb)"

function json_escape_loop ::
  "allocator \<Rightarrow> bool \<Rightarrow> string \<Rightarrow> nat \<Rightarrow> nat \<Rightarrow> printbuf \<Rightarrow> printbuf res" where
  "json_escape_loop mem neg str pos start_offset pb =
     (let c = c_at str pos
      in if c = NUL then flush_pending mem str pos start_offset pb
         else case short_escape c of
                Some e \<Rightarrow>
                  rbind (flush_pending mem str pos start_offset pb)
                    (\<lambda>pb1. rbind (pb_append mem [CHR 0x5C, e] pb1)
                             (json_escape_loop mem neg str (Suc pos) (Suc pos)))
              | None \<Rightarrow>
                  if byte c < 32
                  then rbind (flush_pending mem str pos start_offset pb)
                         (\<lambda>pb1. rbind (pb_printf mem neg (unicode_escape c) pb1)
                                  (json_escape_loop mem neg str (Suc pos) (Suc pos)))
                  else json_escape_loop mem neg str (Suc pos) start_offset pb)"
  by pat_completeness auto

termination
  by (relation "measure (\<lambda>(_, _, str, pos, _, _). length str - pos)") (auto simp: c_at_def split: if_splits)

declare json_escape_loop.simps [simp del]

definition json_escape_str :: "allocator \<Rightarrow> bool \<Rightarrow> string \<Rightarrow> printbuf \<Rightarrow> printbuf res" where
  "json_escape_str mem neg str pb = json_escape_loop mem neg str 0 0 pb"

definition json_object_boolean_to_json_string ::
  "allocator \<Rightarrow> bool \<Rightarrow> bool \<Rightarrow> printbuf \<Rightarrow> (int \<times> printbuf) res" where
  "json_object_boolean_to_json_string mem neg b pb =
     (if b then sprintbuf mem neg pb ''true'' else sprintbuf mem neg pb ''false'')"

definition json_object_int_to_json_string ::
  "allocator \<Rightarrow> bool \<Rightarrow> int \<Rightarrow> printbuf \<Rightarrow> (int \<times> printbuf) res" where
  "json_object_int_to_json_string mem neg i pb = sprintbuf mem neg pb (show_int i)"

definition json_object_double_to_json_string ::
  "allocator \<Rightarrow> bool \<Rightarrow> 'd dbl \<Rightarrow> 'd \<Rightarrow> printbuf \<Rightarrow> (int \<times> printbuf) res" where
  "json_object_double_to_json_string mem neg D d pb = sprintbuf mem neg pb (lf_print D d)"

definition json_object_string_to_json_string ::
  "allocator \<Rightarrow> bool \<Rightarrow> string \<Rightarrow> printbuf \<Rightarrow> (int \<times> printbuf) res" where
  "json_object_string_to_json_string mem neg s pb =
     rbind (pb_printf mem neg [CHR 0x22] pb)
       (\<lambda>pb1. rbind (json_escape_str mem neg s pb1)
       (\<lambda>pb2. rbind (pb_printf mem neg [CHR 0x22] pb2) (\<lambda>pb3. Inr (0, pb3))))"

text \<open>
  The \<open>_to_json_string\<close> functions, chosen by the type, with their return values; the loops over
  the members and the elements carry whether they are at their first one.
\<close>

fun to_json_string ::
    "allocator \<Rightarrow> bool \<Rightarrow> 'd dbl \<Rightarrow> 'd json \<Rightarrow> printbuf \<Rightarrow> (int \<times> printbuf) res"
  and object_members ::
    "allocator \<Rightarrow> bool \<Rightarrow> 'd dbl \<Rightarrow> bool \<Rightarrow> (string \<times> 'd json) list \<Rightarrow> printbuf \<Rightarrow> printbuf res"
  and array_elements ::
    "allocator \<Rightarrow> bool \<Rightarrow> 'd dbl \<Rightarrow> bool \<Rightarrow> 'd json list \<Rightarrow> printbuf \<Rightarrow> printbuf res"
where
  "to_json_string mem neg D JNull pb = sprintbuf mem neg pb ''null''"
| "to_json_string mem neg D (JBoolean b) pb = json_object_boolean_to_json_string mem neg b pb"
| "to_json_string mem neg D (JDouble d) pb = json_object_double_to_json_string mem neg D d pb"
| "to_json_string mem neg D (JInt i) pb = json_object_int_to_json_string mem neg i pb"
| "to_json_string mem neg D (JObject kvs) pb =
     rbind (pb_printf mem neg ''{'' pb)
       (\<lambda>pb1. rbind (object_members mem neg D True kvs pb1) (\<lambda>pb2. sprintbuf mem neg pb2 '' }''))"
| "to_json_string mem neg D (JArray js) pb =
     rbind (pb_printf mem neg ''['' pb)
       (\<lambda>pb1. rbind (array_elements mem neg D True js pb1) (\<lambda>pb2. sprintbuf mem neg pb2 '' ]''))"
| "to_json_string mem neg D (JString s) pb =
     rbind (pb_printf mem neg [CHR 0x22] pb)
       (\<lambda>pb1. rbind (json_escape_str mem neg s pb1)
       (\<lambda>pb2. rbind (pb_printf mem neg [CHR 0x22] pb2) (\<lambda>pb3. Inr (0, pb3))))"
| "object_members mem neg D first [] pb = Inr pb"
| "object_members mem neg D first (kv # kvs) pb =
     rbind (if first then Inr pb else pb_printf mem neg '','' pb)
       (\<lambda>pb1. rbind (pb_printf mem neg [CHR '' '', CHR 0x22] pb1)
       (\<lambda>pb2. rbind (json_escape_str mem neg (fst kv) pb2)
       (\<lambda>pb3. rbind (pb_printf mem neg [CHR 0x22, CHR '':'', CHR '' ''] pb3)
       (\<lambda>pb4. rbind (to_json_string mem neg D (snd kv) pb4)
       (\<lambda>(_, pb5). object_members mem neg D False kvs pb5)))))"
| "array_elements mem neg D first [] pb = Inr pb"
| "array_elements mem neg D first (j # js) pb =
     rbind (pb_printf mem neg (if first then '' '' else '', '') pb)
       (\<lambda>pb1. rbind (to_json_string mem neg D j pb1) (\<lambda>(_, pb2). array_elements mem neg D False js pb2))"

text \<open>
  \<open>json_object_to_json_string\<close>: the buffer of the value is created or reset; \<open>None\<close> is the NULL
  result, when there is no memory for the buffer or the printer reports a failure.
\<close>

definition json_object_to_json_string ::
  "allocator \<Rightarrow> bool \<Rightarrow> 'd dbl \<Rightarrow> 'd json \<Rightarrow> printbuf option \<Rightarrow> (string option \<times> printbuf option) res" where
  "json_object_to_json_string mem neg D j cache =
     (let print = (\<lambda>pb. rbind (to_json_string mem neg D j pb)
                         (\<lambda>(r, pb1). Inr (if r < 0 then None else Some (cstr (pb_content pb1)), Some pb1)))
      in if (case j of JNull \<Rightarrow> True | _ \<Rightarrow> False) then Inr (Some ''null'', cache)
         else (case cache of
                 None \<Rightarrow> (case printbuf_new mem of None \<Rightarrow> Inr (None, None) | Some pb \<Rightarrow> print pb)
               | Some pb0 \<Rightarrow> rbind (printbuf_reset pb0) print))"

definition json_object_get_string ::
  "allocator \<Rightarrow> bool \<Rightarrow> 'd dbl \<Rightarrow> 'd json \<Rightarrow> printbuf option \<Rightarrow> (string option \<times> printbuf option) res" where
  "json_object_get_string mem neg D j cache =
     (case j of
        JNull \<Rightarrow> Inr (None, cache)
      | JString s \<Rightarrow> Inr (Some s, cache)
      | _ \<Rightarrow> json_object_to_json_string mem neg D j cache)"

section \<open>The printer on strings\<close>

definition escape_char :: "char \<Rightarrow> string" where
  "escape_char c =
     (case short_escape c of
        Some e \<Rightarrow> [CHR 0x5C, e]
      | None \<Rightarrow> if byte c < 32 then unicode_escape c else [c])"

definition escape_string :: "string \<Rightarrow> string" where
  "escape_string s = concat (map escape_char (cstr s))"

definition quoted :: "string \<Rightarrow> string" where
  "quoted s = CHR 0x22 # escape_string s @ [CHR 0x22]"

fun json_text :: "'d dbl \<Rightarrow> 'd json \<Rightarrow> string"
  and members_text :: "'d dbl \<Rightarrow> bool \<Rightarrow> (string \<times> 'd json) list \<Rightarrow> string"
  and elements_text :: "'d dbl \<Rightarrow> bool \<Rightarrow> 'd json list \<Rightarrow> string"
where
  "json_text D JNull = ''null''"
| "json_text D (JBoolean b) = (if b then ''true'' else ''false'')"
| "json_text D (JDouble d) = lf_print D d"
| "json_text D (JInt i) = show_int i"
| "json_text D (JObject kvs) = ''{'' @ members_text D True kvs @ '' }''"
| "json_text D (JArray js) = ''['' @ elements_text D True js @ '' ]''"
| "json_text D (JString s) = quoted s"
| "members_text D first [] = []"
| "members_text D first (kv # kvs) =
     (if first then [] else '','') @ '' '' @ quoted (fst kv) @ '': '' @ json_text D (snd kv) @
     members_text D False kvs"
| "elements_text D first [] = []"
| "elements_text D first (j # js) =
     (if first then '' '' else '', '') @ json_text D j @ elements_text D False js"

section \<open>Refinement of the printer\<close>

text \<open>An emission that also reports success by its return value.\<close>

definition prints :: "allocator \<Rightarrow> string \<Rightarrow> (printbuf \<Rightarrow> (int \<times> printbuf) res) \<Rightarrow> bool" where
  "prints mem s f \<longleftrightarrow> (\<forall>p m. pb_inv p \<longrightarrow> pb_room mem p (length s + m) \<longrightarrow>
      (\<exists>r p'. f p = Inr (r, p') \<and> 0 \<le> r \<and> pb_inv p' \<and> pb_content p' = pb_content p @ s \<and> pb_room mem p' m))"

lemma prints_sprintbuf: "prints mem s (\<lambda>pb. sprintbuf mem neg pb s)"
  unfolding prints_def
proof (intro allI impI)
  fix p m
  assume p: "pb_inv p" "pb_room mem p (length s + m)"
  then obtain p' where p': "pb_append mem s p = Inr p'" "pb_inv p'" "pb_content p' = pb_content p @ s"
      "pb_room mem p' m"
    using pb_append_ok by blast
  have room: "bpos p + int (length s) + 8 < 2 ^ 31" using p(2) by (simp add: pb_room_def)
  have mem: "alloc_ok mem (max (wrap32 (pb_size p * 2)) (wrap32 (bpos p + int (length s) + 8)))"
    using p room wrap32_range [of "pb_size p * 2"] wrap32_id [of "bpos p + int (length s) + 8"]
    by (auto simp: pb_room_def pb_inv_def alloc_ok_def max_def)
  obtain p'' where p'': "printbuf_memappend mem p s (int (length s)) = Inr (int (length s), p'')"
    by (rule memappend_ok [OF p(1) room mem])
  with p'(1) have "p'' = p'" by (simp add: pb_append_def)
  moreover have "alloc_ok mem (int (length s) + 1)"
    using p room by (auto simp: pb_room_def pb_inv_def alloc_ok_def)
  ultimately show "\<exists>r p'. sprintbuf mem neg p s = Inr (r, p') \<and> 0 \<le> r \<and> pb_inv p' \<and>
      pb_content p' = pb_content p @ s \<and> pb_room mem p' m"
    using p'' p' by (simp add: sprintbuf_eq_memappend)
qed

lemma emits_then_prints:
  assumes "pba.emits mem s f" and "prints mem t g"
  shows "prints mem (s @ t) (\<lambda>p. rbind (f p) g)"
  unfolding prints_def
proof (intro allI impI)
  fix p m
  assume p: "pb_inv p" and "pb_room mem p (length (s @ t) + m)"
  then have "pb_room mem p (length s + (length t + m))" by (simp add: add.assoc)
  with assms(1) p obtain p1 where p1: "f p = Inr p1" "pb_inv p1" "pb_content p1 = pb_content p @ s"
      "pb_room mem p1 (length t + m)"
    unfolding pba.emits_def by meson
  with assms(2) obtain r p2 where "g p1 = Inr (r, p2)" "0 \<le> r" "pb_inv p2" "pb_content p2 = pb_content p1 @ t"
      "pb_room mem p2 m"
    unfolding prints_def by meson
  with p1 show "\<exists>r p'. rbind (f p) g = Inr (r, p') \<and> 0 \<le> r \<and> pb_inv p' \<and>
      pb_content p' = pb_content p @ s @ t \<and> pb_room mem p' m"
    by simp
qed

lemma prints_then_emits:
  assumes "prints mem s f" and "pba.emits mem t g"
  shows "pba.emits mem (s @ t) (\<lambda>p. rbind (f p) (\<lambda>(_, p'). g p'))"
proof -
  have "pba.emits mem s (\<lambda>p. rbind (f p) (\<lambda>(_, p'). Inr p'))"
    unfolding pba.emits_def
  proof (intro allI impI)
    fix p m
    assume "pb_inv p" and "pb_room mem p (length s + m)"
    then obtain r p' where "f p = Inr (r, p')" "pb_inv p'" "pb_content p' = pb_content p @ s" "pb_room mem p' m"
      using assms(1) unfolding prints_def by meson
    then show "\<exists>p'. rbind (f p) (\<lambda>(_, p'). Inr p') = Inr p' \<and> pb_inv p' \<and> pb_content p' = pb_content p @ s \<and> pb_room mem p' m"
      by simp
  qed
  from pba.emits_bind [OF this assms(2)] have "pba.emits mem (s @ t) (\<lambda>p. rbind (rbind (f p) (\<lambda>(_, p'). Inr p')) g)" .
  moreover have "rbind (rbind (f p) (\<lambda>(_, p'). Inr p')) g = rbind (f p) (\<lambda>(_, p'). g p')" for p
    by (cases "f p") auto
  ultimately show ?thesis by simp
qed

lemma emits_ret: "pba.emits mem s f \<Longrightarrow> prints mem s (\<lambda>p. rbind (f p) (\<lambda>p'. Inr (0, p')))"
  using emits_then_prints [of mem s f "[]" "\<lambda>p'. Inr (0, p')"] by (simp add: prints_def)

text \<open>The escaping loop writes what is pending and then the escaped rest.\<close>

lemma escape_string_Nil [simp]: "escape_string [] = []"
  by (simp add: escape_string_def cstr_def)

lemma escape_string_Cons:
  "escape_string (c # s) = (if c = NUL then [] else escape_char c @ escape_string s)"
  by (simp add: escape_string_def cstr_def)

lemma escape_string_end: "c_at str pos = NUL \<Longrightarrow> escape_string (drop pos str) = []"
  by (cases "pos < length str") (auto simp: c_at_def escape_string_Cons Cons_nth_drop_Suc [symmetric])

definition pending :: "string \<Rightarrow> nat \<Rightarrow> nat \<Rightarrow> string" where
  "pending str pos start_offset = take (pos - start_offset) (drop start_offset str)"

lemma emits_flush: "pba.emits mem (pending str pos start_offset) (flush_pending mem str pos start_offset)"
  using pba.emits_emit [of mem "pending str pos start_offset"] pba.emits_Nil [of mem]
  by (cases "pos > start_offset")
     (simp_all add: flush_pending_def [abs_def] pending_def)

lemma pending_Suc:
  "start_offset \<le> pos \<Longrightarrow> c_at str pos \<noteq> NUL \<Longrightarrow>
   pending str (Suc pos) start_offset = pending str pos start_offset @ [c_at str pos]"
  by (auto simp: pending_def c_at_def take_Suc_conv_app_nth Suc_diff_le split: if_splits)

lemma pbp_emit: "pba.emits mem s (pb_printf mem neg s)"
  by (rule pbp.emits_emit)

lemma emits_escape_loop:
  "start_offset \<le> pos \<Longrightarrow>
   pba.emits mem (pending str pos start_offset @ escape_string (drop pos str))
     (json_escape_loop mem neg str pos start_offset)"
proof (induction "length str - pos" arbitrary: pos start_offset rule: less_induct)
  case less
  let ?c = "c_at str pos"
  show ?case
  proof (cases "?c = NUL")
    case True
    then show ?thesis
      using emits_flush [of mem str pos start_offset]
      by (subst ext [OF json_escape_loop.simps]) (simp add: escape_string_end)
  next
    case False
    then have lt: "length str - Suc pos < length str - pos" by (auto simp: c_at_def split: if_splits)
    have next0: "pba.emits mem (escape_string (drop (Suc pos) str)) (json_escape_loop mem neg str (Suc pos) (Suc pos))"
      using less.hyps [OF lt, of "Suc pos"] by (simp add: pending_def)
    have esc: "escape_string (drop pos str) = escape_char ?c @ escape_string (drop (Suc pos) str)"
      using False by (subst drop_c_at) (simp_all add: escape_string_Cons)
    note b = pba.emits_bind [OF emits_flush [of mem str pos start_offset] pba.emits_bind [OF _ next0]]
    show ?thesis
    proof (cases "short_escape ?c")
      case (Some e)
      then have "escape_char ?c = [CHR 0x5C, e]" by (simp add: escape_char_def)
      with Some False esc b [OF pba.emits_emit [of mem "[CHR 0x5C, e]"]] show ?thesis
        by (subst ext [OF json_escape_loop.simps]) simp
    next
      case None
      show ?thesis
      proof (cases "byte ?c < 32")
        case True
        then have "escape_char ?c = unicode_escape ?c" using None by (simp add: escape_char_def)
        with None True False esc b [OF pbp_emit [of mem "unicode_escape ?c" neg]] show ?thesis
          by (subst ext [OF json_escape_loop.simps]) simp
      next
        case big: False
        then have "escape_char ?c = [?c]" using None by (simp add: escape_char_def)
        with less.hyps [OF lt, of start_offset] less.prems None big False esc show ?thesis
          by (subst ext [OF json_escape_loop.simps]) (simp add: pending_Suc)
      qed
    qed
  qed
qed

lemma emits_escape_str: "pba.emits mem (escape_string s) (json_escape_str mem neg s)"
  using emits_escape_loop [of 0 0 mem s neg] by (simp add: json_escape_str_def [abs_def] pending_def)

lemma printer_refines:
  "prints mem (json_text D j) (to_json_string mem neg D j)"
  "pba.emits mem (members_text D first kvs) (object_members mem neg D first kvs)"
  "pba.emits mem (elements_text D first js) (array_elements mem neg D first js)"
proof (induction D j and D first kvs and D first js rule: json_text_members_text_elements_text.induct)
  case (5 D kvs)
  from emits_then_prints [OF pbp_emit [of mem "''{''" neg] emits_then_prints [OF 5 prints_sprintbuf [of mem "'' }''" neg]]]
  show ?case by (simp add: to_json_string.simps [abs_def])
next
  case (6 D js)
  from emits_then_prints [OF pbp_emit [of mem "''[''" neg] emits_then_prints [OF 6 prints_sprintbuf [of mem "'' ]''" neg]]]
  show ?case by (simp add: to_json_string.simps [abs_def])
next
  case (7 D s)
  from emits_then_prints [OF pbp_emit [of mem "[CHR 0x22]" neg]
      emits_then_prints [OF emits_escape_str [of mem s neg] emits_ret [OF pbp_emit [of mem "[CHR 0x22]" neg]]]]
  show ?case
    by (simp add: to_json_string.simps [abs_def] json_object_string_to_json_string_def [abs_def] quoted_def)
next
  case (9 D first kv kvs)
  have sep: "pba.emits mem (if first then [] else '','') (\<lambda>pb. if first then Inr pb else pb_printf mem neg '','' pb)"
    using pba.emits_Nil [of mem] pbp_emit [of mem "'',''" neg] by (cases first) simp_all
  from pba.emits_bind [OF sep pba.emits_bind [OF pbp_emit [of mem "[CHR '' '', CHR 0x22]" neg]
      pba.emits_bind [OF emits_escape_str [of mem "fst kv" neg]
      pba.emits_bind [OF pbp_emit [of mem "[CHR 0x22, CHR '':'', CHR '' '']" neg]
      prints_then_emits [OF 9]]]]]
  show ?case by (simp add: object_members.simps [abs_def] quoted_def)
next
  case (11 D first j js)
  from pba.emits_bind [OF pbp_emit [of mem "if first then '' '' else '', ''" neg] prints_then_emits [OF 11]]
  show ?case by (simp add: array_elements.simps [abs_def])
qed (use prints_sprintbuf pba.emits_Nil in \<open>simp_all add: to_json_string.simps [abs_def]
       json_object_boolean_to_json_string_def [abs_def] json_object_int_to_json_string_def [abs_def]
       json_object_double_to_json_string_def [abs_def]
       object_members.simps [abs_def] array_elements.simps [abs_def]\<close>)

section \<open>Properties\<close>

definition cache_ok :: "printbuf option \<Rightarrow> bool" where
  "cache_ok cache = (case cache of None \<Rightarrow> True | Some pb \<Rightarrow> pb_inv pb)"

lemma to_json_string_nonnull:
  assumes "j \<noteq> JNull"
  shows "json_object_to_json_string mem neg D j cache =
     (let print = (\<lambda>pb. rbind (to_json_string mem neg D j pb)
                         (\<lambda>(r, pb1). Inr (if r < 0 then None else Some (cstr (pb_content pb1)), Some pb1)))
      in (case cache of
            None \<Rightarrow> (case printbuf_new mem of None \<Rightarrow> Inr (None, None) | Some pb \<Rightarrow> print pb)
          | Some pb0 \<Rightarrow> rbind (printbuf_reset pb0) print))"
  using assms by (cases j) (simp_all add: json_object_to_json_string_def Let_def)

lemma to_json_string_text:
  assumes "\<forall>k. 0 \<le> k \<longrightarrow> k < 2 ^ 31 \<longrightarrow> mem k" and "int (length (json_text D j)) + 8 < 2 ^ 31"
    and "cache_ok cache"
  shows "\<exists>cache'. json_object_to_json_string mem neg D j cache = Inr (Some (cstr (json_text D j)), cache') \<and>
           cache_ok cache'"
proof (cases "j = JNull")
  case True
  have "cstr ''null'' = ''null''" by (simp add: cstr_def)
  with True assms(3) show ?thesis by (simp add: json_object_to_json_string_def)
next
  case False
  have main: "\<exists>r pb1. to_json_string mem neg D j pb = Inr (r, pb1) \<and> 0 \<le> r \<and> pb_inv pb1 \<and> pb_content pb1 = json_text D j"
    if "pb_inv pb" "pb_content pb = []" for pb
  proof -
    have "bpos pb = 0" using that by (auto simp: pb_inv_def pb_content_def)
    then have "pb_room mem pb (length (json_text D j) + 0)" using assms(1,2) by (simp add: pb_room_def)
    with printer_refines(1) [of mem D j neg] that show ?thesis unfolding prints_def by fastforce
  qed
  have start: "\<exists>pb. (case cache of None \<Rightarrow> printbuf_new mem = Some pb | Some pb0 \<Rightarrow> printbuf_reset pb0 = Inr pb) \<and>
      pb_inv pb \<and> pb_content pb = []"
  proof (cases cache)
    case None
    have "printbuf_new mem \<noteq> None" using assms(1) by (simp add: printbuf_new_def alloc_ok_def)
    with None printbuf_new_inv show ?thesis by fastforce
  next
    case (Some pb0)
    with assms(3) have "pb_inv pb0" by (simp add: cache_ok_def)
    then obtain pb where "printbuf_reset pb0 = Inr pb" "pb_inv pb" "pb_content pb = []"
      by (rule printbuf_reset_ok)
    with Some show ?thesis by simp
  qed
  then obtain pb where pb: "case cache of None \<Rightarrow> printbuf_new mem = Some pb | Some pb0 \<Rightarrow> printbuf_reset pb0 = Inr pb"
      "pb_inv pb" "pb_content pb = []" by blast
  obtain r pb1 where pb1: "to_json_string mem neg D j pb = Inr (r, pb1)" "0 \<le> r" "pb_inv pb1" "pb_content pb1 = json_text D j"
    using main [OF pb(2,3)] by blast
  have "json_object_to_json_string mem neg D j cache = Inr (Some (cstr (json_text D j)), Some pb1)"
    using pb(1) pb1(1,2,4) by (simp add: to_json_string_nonnull [OF False] split: option.splits)
  then show ?thesis using pb1(3) by (simp add: cache_ok_def)
qed

text \<open>
  C22. Printing refines the printer on strings: for every value whose text stays below \<open>2^31 - 8\<close>
  bytes, with an allocator that serves such sizes, \<open>json_object_to_json_string\<close> never leaves its
  buffer and returns exactly the text, whether it creates the value's buffer or reuses one that
  holds an older text.
\<close>

theorem json_printer_refines_text:
  assumes "\<forall>k. 0 \<le> k \<longrightarrow> k < 2 ^ 31 \<longrightarrow> mem k" and "int (length (json_text D j)) + 8 < 2 ^ 31"
    and "cache_ok cache"
  shows "\<exists>cache'. json_object_to_json_string mem neg D j cache = Inr (Some (cstr (json_text D j)), cache') \<and>
           cache_ok cache'"
  by (rule to_json_string_text [OF assms])

definition no_doubles :: "unit dbl" where
  "no_doubles = \<lparr>lf_print = (\<lambda>_. ''0.000000''), lf_scan = (\<lambda>_. None), d_zero = (\<lambda>_. True),
     d_to_int = (\<lambda>_. 0), d_of_int = (\<lambda>_. ())\<rparr>"

theorem json_printer_refines_text_witness:
  "\<exists>cache'. json_object_to_json_string (\<lambda>_. True) False no_doubles
     (JObject [(''a'', JArray [JInt (-7), JNull]), (''b'', JString [CHR 0x0A, CHR ''x''])]) None =
     Inr (Some (''{ '' @ [CHR 0x22, CHR ''a'', CHR 0x22] @ '': [ -7, null ], '' @ [CHR 0x22, CHR ''b'', CHR 0x22] @
                '': '' @ [CHR 0x22, CHR 0x5C, CHR ''n'', CHR ''x'', CHR 0x22] @ '' }''), cache')"
proof -
  let ?j = "JObject [(''a'', JArray [JInt (-7), JNull]), (''b'', JString [CHR 0x0A, CHR ''x''])]"
  have out: "json_text no_doubles ?j = ''{ '' @ [CHR 0x22, CHR ''a'', CHR 0x22] @ '': [ -7, null ], '' @
      [CHR 0x22, CHR ''b'', CHR 0x22] @ '': '' @ [CHR 0x22, CHR 0x5C, CHR ''n'', CHR ''x'', CHR 0x22] @ '' }''"
    by code_simp
  have c: "cstr (json_text no_doubles ?j) = json_text no_doubles ?j" unfolding out by code_simp
  have "\<exists>cache'. json_object_to_json_string (\<lambda>_. True) False no_doubles ?j None =
      Inr (Some (cstr (json_text no_doubles ?j)), cache') \<and> cache_ok cache'"
  proof (rule json_printer_refines_text)
    show "int (length (json_text no_doubles ?j)) + 8 < 2 ^ 31" unfolding out by simp
  qed (simp_all add: cache_ok_def)
  then show ?thesis unfolding c unfolding out by blast
qed

end
