(* ===== verification/JsonTokener.thy ===== *)
theory JsonTokener
  imports JsonObject
begin

text \<open>
  The incremental JSON parser of \<open>platform/shared/json/json_tokener.c\<close>: a state machine that
  eats one character at a time and keeps a stack of at most 32 levels. Every \<open>case\<close> of its
  switch is one definition; \<open>goto redo_char\<close> is the outcome \<open>Redo\<close>, \<open>break\<close> is \<open>Next\<close> and
  \<open>goto out\<close> is \<open>Out\<close>. The theory shows that the machine never follows a pointer of the wrong kind
  and never leaves its stack, that a character is redone at most a handful of times, that parsing
  what the printer wrote gives the value back, and that input may come in pieces.

  The text buffer is represented by its content, which theory \<open>PrintBuf\<close> shows \<open>printbuf.c\<close> to
  keep; reading \<open>tok->pb->buf\<close> as a C string stops at the first NUL.
\<close>

unbundle bit_operations_syntax

section \<open>States\<close>

datatype json_tokener_error =
    json_tokener_success
  | json_tokener_continue
  | json_tokener_error_depth
  | json_tokener_error_parse_eof
  | json_tokener_error_parse_unexpected
  | json_tokener_error_parse_null
  | json_tokener_error_parse_boolean
  | json_tokener_error_parse_number
  | json_tokener_error_parse_array
  | json_tokener_error_parse_object_key_name
  | json_tokener_error_parse_object_key_sep
  | json_tokener_error_parse_object_value_sep
  | json_tokener_error_parse_string
  | json_tokener_error_parse_comment

datatype json_tokener_state =
    json_tokener_state_eatws
  | json_tokener_state_start
  | json_tokener_state_finish
  | json_tokener_state_null
  | json_tokener_state_comment_start
  | json_tokener_state_comment
  | json_tokener_state_comment_eol
  | json_tokener_state_comment_end
  | json_tokener_state_string
  | json_tokener_state_string_escape
  | json_tokener_state_escape_unicode
  | json_tokener_state_boolean
  | json_tokener_state_number
  | json_tokener_state_array
  | json_tokener_state_array_add
  | json_tokener_state_array_sep
  | json_tokener_state_object_field_start
  | json_tokener_state_object_field
  | json_tokener_state_object_field_end
  | json_tokener_state_object_value
  | json_tokener_state_object_value_add
  | json_tokener_state_object_sep

record 'd json_tokener_srec =
  state :: json_tokener_state
  saved_state :: json_tokener_state
  current :: "'d json"
  obj_field_name :: "string option"

definition JSON_TOKENER_MAX_DEPTH :: nat where
  "JSON_TOKENER_MAX_DEPTH = 32"

text \<open>
  Positions and lengths are unbounded where the code has \<open>int\<close>; they differ only for texts of 2 GB and more.
\<close>

record 'd json_tokener =
  pb :: string
  depth :: nat
  is_double :: bool
  st_pos :: nat
  char_offset :: int
  err :: json_tokener_error
  ucs_char :: "32 word"
  quote_char :: char
  stack :: "'d json_tokener_srec list"

text \<open>The current level, which the macros \<open>state\<close>, \<open>saved_state\<close>, \<open>current\<close> and \<open>obj_field_name\<close> name.\<close>

definition top :: "'d json_tokener \<Rightarrow> 'd json_tokener_srec" where
  "top tok = stack tok ! depth tok"

definition upd_top :: "('d json_tokener_srec \<Rightarrow> 'd json_tokener_srec) \<Rightarrow> 'd json_tokener \<Rightarrow> 'd json_tokener" where
  "upd_top f tok = tok\<lparr>stack := (stack tok)[depth tok := f (top tok)]\<rparr>"

abbreviation set_state :: "json_tokener_state \<Rightarrow> 'd json_tokener \<Rightarrow> 'd json_tokener" where
  "set_state st \<equiv> upd_top (\<lambda>r. r\<lparr>state := st\<rparr>)"

abbreviation eat_then :: "json_tokener_state \<Rightarrow> 'd json_tokener \<Rightarrow> 'd json_tokener" where
  "eat_then st \<equiv> upd_top (\<lambda>r. r\<lparr>state := json_tokener_state_eatws, saved_state := st\<rparr>)"

abbreviation eat_with :: "json_tokener_state \<Rightarrow> 'd json \<Rightarrow> 'd json_tokener \<Rightarrow> 'd json_tokener" where
  "eat_with st v \<equiv>
     upd_top (\<lambda>r. r\<lparr>state := json_tokener_state_eatws, saved_state := st, current := v\<rparr>)"

abbreviation append_pb :: "string \<Rightarrow> 'd json_tokener \<Rightarrow> 'd json_tokener" where
  "append_pb s tok \<equiv> tok\<lparr>pb := pb tok @ s\<rparr>"

definition json_tokener_reset_level :: "'d json_tokener \<Rightarrow> nat \<Rightarrow> 'd json_tokener res" where
  "json_tokener_reset_level tok d =
     (if d < length (stack tok)
      then Inr (tok\<lparr>stack := (stack tok)[d :=
             \<lparr>state = json_tokener_state_eatws, saved_state = json_tokener_state_start,
              current = JNull, obj_field_name = None\<rparr>]\<rparr>)
      else Inl Out_Of_Bounds)"

fun reset_levels :: "nat \<Rightarrow> 'd json_tokener \<Rightarrow> 'd json_tokener res" where
  "reset_levels 0 tok = json_tokener_reset_level tok 0"
| "reset_levels (Suc i) tok = rbind (json_tokener_reset_level tok (Suc i)) (reset_levels i)"

definition json_tokener_reset :: "'d json_tokener \<Rightarrow> 'd json_tokener res" where
  "json_tokener_reset tok =
     rbind (reset_levels (depth tok) tok)
       (\<lambda>tok1. Inr (tok1\<lparr>depth := 0, err := json_tokener_success\<rparr>))"

text \<open>
  The result of \<open>calloc\<close> is used unchecked. A buffer \<open>printbuf_new\<close> could not allocate is a NULL
  pointer inside the tokener; the model reports the dereference its first use would be.
\<close>

definition json_tokener_new :: "allocator \<Rightarrow> 'd json_tokener res" where
  "json_tokener_new mem =
     (if \<not> alloc_ok mem 676 \<or> printbuf_new mem = None then Inl Null_Deref
      else json_tokener_reset
             \<lparr>pb = [], depth = 0, is_double = False, st_pos = 0, char_offset = 0,
              err = json_tokener_success, ucs_char = 0, quote_char = NUL,
              stack = replicate JSON_TOKENER_MAX_DEPTH
                \<lparr>state = json_tokener_state_eatws, saved_state = json_tokener_state_eatws,
                 current = JNull, obj_field_name = None\<rparr>\<rparr>)"

definition json_tokener_free :: "'d json_tokener \<Rightarrow> unit res" where
  "json_tokener_free tok = rbind (json_tokener_reset tok) (\<lambda>_. Inr ())"

section \<open>Library functions the machine uses\<close>

fun strncasecmp_eq :: "string \<Rightarrow> string \<Rightarrow> nat \<Rightarrow> bool" where
  "strncasecmp_eq a b 0 = True"
| "strncasecmp_eq (x # a) (y # b) (Suc n) =
     (if tolower x \<noteq> tolower y then False else x = NUL \<or> strncasecmp_eq a b n)"
| "strncasecmp_eq [] (y # b) (Suc n) = (y = NUL)"
| "strncasecmp_eq (x # a) [] (Suc n) = (x = NUL)"
| "strncasecmp_eq [] [] (Suc n) = True"

text \<open>\<open>strchr\<close> finds the terminator of its string, so a NUL is found in every string.\<close>

definition strchr_found :: "string \<Rightarrow> char \<Rightarrow> bool" where
  "strchr_found s c \<longleftrightarrow> c = NUL \<or> c \<in> set s"

definition hexdigit :: "char \<Rightarrow> 32 word" where
  "hexdigit c =
     (if byte c \<le> 57 \<or> 128 \<le> byte c then char_word c - 48 else (word_of_nat (byte c) AND 7) + 9)"

definition utf_byte :: "32 word \<Rightarrow> char" where
  "utf_byte w = char_of (unat w)"

section \<open>The cases of the switch\<close>

datatype 'd outcome =
    Redo "'d json" "'d json_tokener"
  | Next "'d json" "'d json_tokener"
  | Out "'d json_tokener"
  | Fault c_fault

definition fail :: "json_tokener_error \<Rightarrow> 'd json_tokener \<Rightarrow> 'd outcome" where
  "fail e tok = Out (tok\<lparr>err := e\<rparr>)"

definition case_eatws :: "char \<Rightarrow> 'd json \<Rightarrow> 'd json_tokener \<Rightarrow> 'd outcome" where
  "case_eatws c obj tok =
     (if isspace c then Next obj tok
      else if c = CHR ''/'' then Next obj (set_state json_tokener_state_comment_start (tok\<lparr>pb := [c]\<rparr>))
      else Redo obj (set_state (saved_state (top tok)) tok))"

definition case_start :: "allocator \<Rightarrow> char \<Rightarrow> 'd json \<Rightarrow> 'd json_tokener \<Rightarrow> 'd outcome" where
  "case_start mem c obj tok =
     (if c = CHR ''{'' then
        (case json_object_new_object mem of
           Inl e \<Rightarrow> Fault e
         | Inr v \<Rightarrow> Next obj (eat_with json_tokener_state_object_field_start v tok))
      else if c = CHR ''['' then
        (case json_object_new_array mem of
           Inl e \<Rightarrow> Fault e
         | Inr v \<Rightarrow> Next obj (eat_with json_tokener_state_array v tok))
      else if c = CHR ''N'' \<or> c = CHR ''n'' then
        Redo obj (set_state json_tokener_state_null (tok\<lparr>pb := [], st_pos := 0\<rparr>))
      else if c = CHR 0x22 \<or> c = CHR 0x27 then
        Next obj (set_state json_tokener_state_string (tok\<lparr>pb := [], quote_char := c\<rparr>))
      else if c = CHR ''T'' \<or> c = CHR ''t'' \<or> c = CHR ''F'' \<or> c = CHR ''f'' then
        Redo obj (set_state json_tokener_state_boolean (tok\<lparr>pb := [], st_pos := 0\<rparr>))
      else if isdigit c \<or> c = CHR ''-'' then
        Redo obj (set_state json_tokener_state_number (tok\<lparr>pb := [], is_double := False\<rparr>))
      else fail json_tokener_error_parse_unexpected tok)"

definition case_finish :: "'d json \<Rightarrow> 'd json_tokener \<Rightarrow> 'd outcome" where
  "case_finish obj tok =
     (if depth tok = 0 then Out tok
      else (case json_tokener_reset_level tok (depth tok) of
              Inl e \<Rightarrow> Fault e
            | Inr tok1 \<Rightarrow> Redo (current (top tok)) (tok1\<lparr>depth := depth tok - 1\<rparr>)))"

definition case_null :: "char \<Rightarrow> 'd json \<Rightarrow> 'd json_tokener \<Rightarrow> 'd outcome" where
  "case_null c obj tok =
     (let tok1 = append_pb [c] tok
      in if strncasecmp_eq ''null'' (pb tok1) (min (st_pos tok + 1) 4)
         then if st_pos tok = 4
              then Redo obj (eat_with json_tokener_state_finish JNull tok1)
              else Next obj (tok1\<lparr>st_pos := st_pos tok + 1\<rparr>)
         else fail json_tokener_error_parse_null tok1)"

definition case_comment_start :: "char \<Rightarrow> 'd json \<Rightarrow> 'd json_tokener \<Rightarrow> 'd outcome" where
  "case_comment_start c obj tok =
     (if c = CHR ''*'' then Next obj (append_pb [c] (set_state json_tokener_state_comment tok))
      else if c = CHR ''/'' then Next obj (append_pb [c] (set_state json_tokener_state_comment_eol tok))
      else fail json_tokener_error_parse_comment tok)"

definition case_comment :: "char \<Rightarrow> 'd json \<Rightarrow> 'd json_tokener \<Rightarrow> 'd outcome" where
  "case_comment c obj tok =
     Next obj (append_pb [c] (if c = CHR ''*'' then set_state json_tokener_state_comment_end tok else tok))"

definition case_comment_eol :: "char \<Rightarrow> 'd json \<Rightarrow> 'd json_tokener \<Rightarrow> 'd outcome" where
  "case_comment_eol c obj tok =
     (if c = CHR 0x0A then Next obj (set_state json_tokener_state_eatws tok)
      else Next obj (append_pb [c] tok))"

definition case_comment_end :: "char \<Rightarrow> 'd json \<Rightarrow> 'd json_tokener \<Rightarrow> 'd outcome" where
  "case_comment_end c obj tok =
     Next obj (set_state (if c = CHR ''/'' then json_tokener_state_eatws else json_tokener_state_comment)
                 (append_pb [c] tok))"

definition case_string :: "allocator \<Rightarrow> char \<Rightarrow> 'd json \<Rightarrow> 'd json_tokener \<Rightarrow> 'd outcome" where
  "case_string mem c obj tok =
     (if c = quote_char tok then
        Next obj (eat_with json_tokener_state_finish (json_object_new_string mem (pb tok)) tok)
      else if c = CHR 0x5C then
        Next obj (upd_top (\<lambda>r. r\<lparr>saved_state := json_tokener_state_string,
                                state := json_tokener_state_string_escape\<rparr>) tok)
      else Next obj (append_pb [c] tok))"

definition case_string_escape :: "char \<Rightarrow> 'd json \<Rightarrow> 'd json_tokener \<Rightarrow> 'd outcome" where
  "case_string_escape c obj tok =
     (let back = set_state (saved_state (top tok))
      in if c = CHR 0x22 \<or> c = CHR 0x5C \<or> c = CHR ''/'' then Next obj (back (append_pb [c] tok))
         else if c = CHR ''b'' then Next obj (back (append_pb [CHR 0x08] tok))
         else if c = CHR ''n'' then Next obj (back (append_pb [CHR 0x0A] tok))
         else if c = CHR ''r'' then Next obj (back (append_pb [CHR 0x0D] tok))
         else if c = CHR ''t'' then Next obj (back (append_pb [CHR 0x09] tok))
         else if c = CHR ''u'' then
           Next obj (set_state json_tokener_state_escape_unicode (tok\<lparr>ucs_char := 0, st_pos := 0\<rparr>))
         else fail json_tokener_error_parse_string tok)"

definition utf8_out :: "32 word \<Rightarrow> string" where
  "utf8_out u =
     (if u < 0x80 then [utf_byte u]
      else if u < 0x800 then [utf_byte (0xc0 OR drop_bit 6 u), utf_byte (0x80 OR (u AND 0x3f))]
      else [utf_byte (0xe0 OR drop_bit 12 u), utf_byte (0x80 OR (drop_bit 6 u AND 0x3f)),
            utf_byte (0x80 OR (u AND 0x3f))])"

definition case_escape_unicode :: "char \<Rightarrow> 'd json \<Rightarrow> 'd json_tokener \<Rightarrow> 'd outcome" where
  "case_escape_unicode c obj tok =
     (if strchr_found json_hex_chars c then
        let u = ucs_char tok + push_bit ((3 - st_pos tok) * 4) (hexdigit c);
            tok1 = tok\<lparr>ucs_char := u, st_pos := st_pos tok + 1\<rparr>
        in if st_pos tok1 = 4
           then Next obj (set_state (saved_state (top tok)) (append_pb (utf8_out u) tok1))
           else Next obj tok1
      else fail json_tokener_error_parse_string tok)"

definition case_boolean :: "allocator \<Rightarrow> char \<Rightarrow> 'd json \<Rightarrow> 'd json_tokener \<Rightarrow> 'd outcome" where
  "case_boolean mem c obj tok =
     (let tok1 = append_pb [c] tok
      in if strncasecmp_eq ''true'' (pb tok1) (min (st_pos tok + 1) 4) then
           if st_pos tok = 4
           then Redo obj (eat_with json_tokener_state_finish (json_object_new_boolean mem True) tok1)
           else Next obj (tok1\<lparr>st_pos := st_pos tok + 1\<rparr>)
         else if strncasecmp_eq ''false'' (pb tok1) (min (st_pos tok + 1) 5) then
           if st_pos tok = 5
           then Redo obj (eat_with json_tokener_state_finish (json_object_new_boolean mem False) tok1)
           else Next obj (tok1\<lparr>st_pos := st_pos tok + 1\<rparr>)
         else fail json_tokener_error_parse_boolean tok1)"

definition case_number :: "allocator \<Rightarrow> 'd dbl \<Rightarrow> char \<Rightarrow> 'd json \<Rightarrow> 'd json_tokener \<Rightarrow> 'd outcome" where
  "case_number mem D c obj tok =
     (if c \<noteq> NUL \<and> strchr_found json_number_chars c then
        Next obj ((append_pb [c] tok)
          \<lparr>is_double := is_double tok \<or> c = CHR ''.'' \<or> c = CHR ''e'' \<or> c = CHR ''E''\<rparr>)
      else
        (case (if is_double tok then map_option (json_object_new_double mem) (lf_scan D (cstr (pb tok)))
               else map_option (json_object_new_int mem) (sscanf_lli (cstr (pb tok)))) of
           None \<Rightarrow> fail json_tokener_error_parse_number tok
         | Some v \<Rightarrow> Redo obj (eat_with json_tokener_state_finish v tok)))"

text \<open>A new level: the state of the old one is set, then the depth is increased and the level reset.\<close>

definition push_level :: "json_tokener_state \<Rightarrow> 'd json \<Rightarrow> 'd json_tokener \<Rightarrow> 'd outcome" where
  "push_level st obj tok =
     (if JSON_TOKENER_MAX_DEPTH - 1 \<le> depth tok then fail json_tokener_error_depth tok
      else (case json_tokener_reset_level ((set_state st tok)\<lparr>depth := depth tok + 1\<rparr>) (depth tok + 1) of
              Inl e \<Rightarrow> Fault e
            | Inr tok1 \<Rightarrow> Redo obj tok1))"

definition case_array :: "char \<Rightarrow> 'd json \<Rightarrow> 'd json_tokener \<Rightarrow> 'd outcome" where
  "case_array c obj tok =
     (if c = CHR '']'' then Next obj (eat_then json_tokener_state_finish tok)
      else push_level json_tokener_state_array_add obj tok)"

definition case_array_add :: "'d json \<Rightarrow> 'd json_tokener \<Rightarrow> 'd outcome" where
  "case_array_add obj tok =
     (case json_object_array_add (current (top tok)) obj of
        Inl e \<Rightarrow> Fault e
      | Inr v \<Rightarrow> Redo obj (eat_with json_tokener_state_array_sep v tok))"

definition case_array_sep :: "char \<Rightarrow> 'd json \<Rightarrow> 'd json_tokener \<Rightarrow> 'd outcome" where
  "case_array_sep c obj tok =
     (if c = CHR '']'' then Next obj (eat_then json_tokener_state_finish tok)
      else if c = CHR '','' then Next obj (eat_then json_tokener_state_array tok)
      else fail json_tokener_error_parse_array tok)"

definition case_object_field_start :: "char \<Rightarrow> 'd json \<Rightarrow> 'd json_tokener \<Rightarrow> 'd outcome" where
  "case_object_field_start c obj tok =
     (if c = CHR ''}'' then Next obj (eat_then json_tokener_state_finish tok)
      else if c = CHR 0x22 \<or> c = CHR 0x27 then
        Next obj (set_state json_tokener_state_object_field (tok\<lparr>quote_char := c, pb := []\<rparr>))
      else Next obj (set_state json_tokener_state_object_field (tok\<lparr>quote_char := CHR '':'', pb := [c]\<rparr>)))"

definition case_object_field :: "char \<Rightarrow> 'd json \<Rightarrow> 'd json_tokener \<Rightarrow> 'd outcome" where
  "case_object_field c obj tok =
     (if c = quote_char tok then
        Next obj (upd_top (\<lambda>r. r\<lparr>obj_field_name := Some (cstr (pb tok)),
            saved_state := (if c = CHR '':'' then json_tokener_state_object_value
                            else json_tokener_state_object_field_end),
            state := json_tokener_state_eatws\<rparr>) tok)
      else if c = CHR 0x5C then
        Next obj (upd_top (\<lambda>r. r\<lparr>saved_state := json_tokener_state_object_field,
                                state := json_tokener_state_string_escape\<rparr>) tok)
      else Next obj (append_pb [c] tok))"

definition case_object_field_end :: "char \<Rightarrow> 'd json \<Rightarrow> 'd json_tokener \<Rightarrow> 'd outcome" where
  "case_object_field_end c obj tok =
     (if c = CHR '':'' then Next obj (eat_then json_tokener_state_object_value tok)
      else fail json_tokener_error_parse_object_key_sep tok)"

definition case_object_value_add :: "'d json \<Rightarrow> 'd json_tokener \<Rightarrow> 'd outcome" where
  "case_object_value_add obj tok =
     (case obj_field_name (top tok) of
        None \<Rightarrow> Fault Null_Deref
      | Some name \<Rightarrow>
          (case json_object_object_add (current (top tok)) name obj of
             Inl e \<Rightarrow> Fault e
           | Inr v \<Rightarrow>
               Redo obj (upd_top (\<lambda>r. r\<lparr>current := v, obj_field_name := None,
                   saved_state := json_tokener_state_object_sep, state := json_tokener_state_eatws\<rparr>) tok)))"

definition case_object_sep :: "char \<Rightarrow> 'd json \<Rightarrow> 'd json_tokener \<Rightarrow> 'd outcome" where
  "case_object_sep c obj tok =
     (if c = CHR ''}'' then Next obj (eat_then json_tokener_state_finish tok)
      else if c = CHR '','' then Next obj (eat_then json_tokener_state_object_field_start tok)
      else fail json_tokener_error_parse_object_value_sep tok)"

section \<open>The loop\<close>

definition tok_step ::
  "allocator \<Rightarrow> 'd dbl \<Rightarrow> char \<Rightarrow> 'd json \<Rightarrow> 'd json_tokener \<Rightarrow> 'd outcome" where
  "tok_step mem D c obj tok =
     (case state (top tok) of
        json_tokener_state_eatws \<Rightarrow> case_eatws c obj tok
      | json_tokener_state_start \<Rightarrow> case_start mem c obj tok
      | json_tokener_state_finish \<Rightarrow> case_finish obj tok
      | json_tokener_state_null \<Rightarrow> case_null c obj tok
      | json_tokener_state_comment_start \<Rightarrow> case_comment_start c obj tok
      | json_tokener_state_comment \<Rightarrow> case_comment c obj tok
      | json_tokener_state_comment_eol \<Rightarrow> case_comment_eol c obj tok
      | json_tokener_state_comment_end \<Rightarrow> case_comment_end c obj tok
      | json_tokener_state_string \<Rightarrow> case_string mem c obj tok
      | json_tokener_state_string_escape \<Rightarrow> case_string_escape c obj tok
      | json_tokener_state_escape_unicode \<Rightarrow> case_escape_unicode c obj tok
      | json_tokener_state_boolean \<Rightarrow> case_boolean mem c obj tok
      | json_tokener_state_number \<Rightarrow> case_number mem D c obj tok
      | json_tokener_state_array \<Rightarrow> case_array c obj tok
      | json_tokener_state_array_add \<Rightarrow> case_array_add obj tok
      | json_tokener_state_array_sep \<Rightarrow> case_array_sep c obj tok
      | json_tokener_state_object_field_start \<Rightarrow> case_object_field_start c obj tok
      | json_tokener_state_object_field \<Rightarrow> case_object_field c obj tok
      | json_tokener_state_object_field_end \<Rightarrow> case_object_field_end c obj tok
      | json_tokener_state_object_value \<Rightarrow> push_level json_tokener_state_object_value_add obj tok
      | json_tokener_state_object_value_add \<Rightarrow> case_object_value_add obj tok
      | json_tokener_state_object_sep \<Rightarrow> case_object_sep c obj tok)"

text \<open>One character, redone until it is eaten; the fuel bounds how often.\<close>

fun run_char ::
  "nat \<Rightarrow> allocator \<Rightarrow> 'd dbl \<Rightarrow> char \<Rightarrow> 'd json \<Rightarrow> 'd json_tokener \<Rightarrow> 'd outcome" where
  "run_char 0 mem D c obj tok = Fault Out_Of_Fuel"
| "run_char (Suc n) mem D c obj tok =
     (case tok_step mem D c obj tok of
        Redo obj1 tok1 \<Rightarrow> run_char n mem D c obj1 tok1
      | r \<Rightarrow> r)"

definition redo_fuel :: nat where
  "redo_fuel = 8"

definition at_len :: "'d json_tokener \<Rightarrow> 'd json_tokener" where
  "at_len tok =
     tok\<lparr>err := (if depth tok = 0 \<and> state (top tok) = json_tokener_state_eatws \<and>
                   saved_state (top tok) = json_tokener_state_finish
                then json_tokener_success else json_tokener_continue)\<rparr>"

definition at_eof :: "'d json_tokener \<Rightarrow> 'd json_tokener" where
  "at_eof tok =
     (if state (top tok) \<noteq> json_tokener_state_finish \<and> saved_state (top tok) \<noteq> json_tokener_state_finish
      then tok\<lparr>err := json_tokener_error_parse_eof\<rparr> else tok)"

text \<open>
  The \<open>do\<close> loop over the text \<open>cs\<close>, which a NUL terminates; \<open>len\<close> is the length the caller gave,
  \<open>-1\<close> for none.
\<close>

fun parse_loop ::
  "allocator \<Rightarrow> 'd dbl \<Rightarrow> int \<Rightarrow> string \<Rightarrow> 'd json \<Rightarrow> 'd json_tokener \<Rightarrow> 'd json_tokener res" where
  "parse_loop mem D len [] obj tok =
     (if char_offset tok = len then Inr (at_len tok)
      else (case run_char redo_fuel mem D NUL obj tok of
              Fault e \<Rightarrow> Inl e
            | Redo _ _ \<Rightarrow> Inl Out_Of_Fuel
            | Out tok1 \<Rightarrow> Inr tok1
            | Next obj1 tok1 \<Rightarrow> Inr (at_eof (tok1\<lparr>char_offset := char_offset tok1 + 1\<rparr>))))"
| "parse_loop mem D len (c # cs) obj tok =
     (if char_offset tok = len then Inr (at_len tok)
      else (case run_char redo_fuel mem D c obj tok of
              Fault e \<Rightarrow> Inl e
            | Redo _ _ \<Rightarrow> Inl Out_Of_Fuel
            | Out tok1 \<Rightarrow> Inr tok1
            | Next obj1 tok1 \<Rightarrow>
                (let tok2 = tok1\<lparr>char_offset := char_offset tok1 + 1\<rparr>
                 in if c = NUL then Inr (at_eof tok2) else parse_loop mem D len cs obj1 tok2)))"

text \<open>The result is the returned object, \<open>None\<close> for the NULL of an error, and the tokener.\<close>

definition json_tokener_parse_ex ::
  "allocator \<Rightarrow> 'd dbl \<Rightarrow> 'd json_tokener \<Rightarrow> string \<Rightarrow> int \<Rightarrow> ('d json option \<times> 'd json_tokener) res" where
  "json_tokener_parse_ex mem D tok str len =
     rbind (parse_loop mem D len str JNull (tok\<lparr>char_offset := 0, err := json_tokener_success\<rparr>))
       (\<lambda>tok1. Inr (if err tok1 = json_tokener_success then Some (current (top tok1)) else None, tok1))"

definition json_tokener_parse ::
  "allocator \<Rightarrow> 'd dbl \<Rightarrow> string \<Rightarrow> (json_tokener_error + 'd json) res" where
  "json_tokener_parse mem D str =
     rbind (json_tokener_new mem)
       (\<lambda>tok. rbind (json_tokener_parse_ex mem D tok str (-1))
         (\<lambda>(obj, tok1). rbind (json_tokener_free tok1)
           (\<lambda>_. case obj of Some j \<Rightarrow> Inr (Inr j) | None \<Rightarrow> Inr (Inl (err tok1)))))"

section \<open>Safety\<close>

definition is_array :: "'d json \<Rightarrow> bool" where
  "is_array j = (case j of JArray _ \<Rightarrow> True | _ \<Rightarrow> False)"

definition is_object :: "'d json \<Rightarrow> bool" where
  "is_object j = (case j of JObject _ \<Rightarrow> True | _ \<Rightarrow> False)"

text \<open>What a state relies on: the kind of the value under construction and the pending field name.\<close>

definition needs :: "json_tokener_state \<Rightarrow> 'd json_tokener_srec \<Rightarrow> bool" where
  "needs st r =
     (case st of
        json_tokener_state_array \<Rightarrow> is_array (current r)
      | json_tokener_state_array_add \<Rightarrow> is_array (current r)
      | json_tokener_state_array_sep \<Rightarrow> is_array (current r)
      | json_tokener_state_object_field_start \<Rightarrow> is_object (current r)
      | json_tokener_state_object_field \<Rightarrow> is_object (current r)
      | json_tokener_state_object_field_end \<Rightarrow> is_object (current r) \<and> obj_field_name r \<noteq> None
      | json_tokener_state_object_value \<Rightarrow> is_object (current r) \<and> obj_field_name r \<noteq> None
      | json_tokener_state_object_value_add \<Rightarrow> is_object (current r) \<and> obj_field_name r \<noteq> None
      | json_tokener_state_object_sep \<Rightarrow> is_object (current r)
      | _ \<Rightarrow> True)"

definition wait_states :: "json_tokener_state set" where
  "wait_states = {json_tokener_state_start, json_tokener_state_finish, json_tokener_state_array,
     json_tokener_state_array_sep, json_tokener_state_object_field_start,
     json_tokener_state_object_field_end, json_tokener_state_object_value, json_tokener_state_object_sep}"

definition skipping :: "json_tokener_state set" where
  "skipping = {json_tokener_state_eatws, json_tokener_state_comment_start, json_tokener_state_comment,
     json_tokener_state_comment_eol, json_tokener_state_comment_end}"

definition escaping :: "json_tokener_state set" where
  "escaping = {json_tokener_state_string_escape, json_tokener_state_escape_unicode}"

definition level_ok :: "'d json_tokener_srec \<Rightarrow> bool" where
  "level_ok r \<longleftrightarrow>
     (if state r \<in> skipping then saved_state r \<in> wait_states \<and> needs (saved_state r) r
      else if state r \<in> escaping
      then saved_state r \<in> {json_tokener_state_string, json_tokener_state_object_field} \<and> needs (saved_state r) r
      else needs (state r) r)"

definition below_ok :: "'d json_tokener_srec \<Rightarrow> bool" where
  "below_ok r \<longleftrightarrow>
     state r \<in> {json_tokener_state_array_add, json_tokener_state_object_value_add} \<and> needs (state r) r"

definition shape_ok :: "'d json_tokener \<Rightarrow> bool" where
  "shape_ok tok \<longleftrightarrow> length (stack tok) = JSON_TOKENER_MAX_DEPTH \<and> depth tok < JSON_TOKENER_MAX_DEPTH"

definition tok_inv :: "'d json_tokener \<Rightarrow> bool" where
  "tok_inv tok \<longleftrightarrow> shape_ok tok \<and> level_ok (top tok) \<and> (\<forall>i < depth tok. below_ok (stack tok ! i)) \<and>
     (state (top tok) = json_tokener_state_escape_unicode \<longrightarrow> st_pos tok < 4)"

text \<open>How often a character can still be redone.\<close>

definition wait_rank :: "json_tokener_state \<Rightarrow> nat" where
  "wait_rank st =
     (case st of
        json_tokener_state_start \<Rightarrow> 1
      | json_tokener_state_finish \<Rightarrow> 3
      | json_tokener_state_array \<Rightarrow> 3
      | json_tokener_state_object_value \<Rightarrow> 3
      | _ \<Rightarrow> 0)"

definition redo_rank :: "char \<Rightarrow> 'd json_tokener \<Rightarrow> nat" where
  "redo_rank c tok =
     (case state (top tok) of
        json_tokener_state_eatws \<Rightarrow> Suc (wait_rank (saved_state (top tok)))
      | json_tokener_state_null \<Rightarrow> if st_pos tok = 4 then 5 else 0
      | json_tokener_state_boolean \<Rightarrow> if st_pos tok = 4 \<or> st_pos tok = 5 then 5 else 0
      | json_tokener_state_number \<Rightarrow> if c \<noteq> NUL \<and> strchr_found json_number_chars c then 0 else 5
      | json_tokener_state_array_add \<Rightarrow> 2
      | json_tokener_state_object_value_add \<Rightarrow> 2
      | st \<Rightarrow> wait_rank st)"

definition step_ok :: "char \<Rightarrow> 'd json_tokener \<Rightarrow> 'd outcome \<Rightarrow> bool" where
  "step_ok c tok r =
     (case r of
        Fault _ \<Rightarrow> False
      | Out tok1 \<Rightarrow> shape_ok tok1
      | Next _ tok1 \<Rightarrow> tok_inv tok1
      | Redo _ tok1 \<Rightarrow> tok_inv tok1 \<and> redo_rank c tok1 < redo_rank c tok)"

lemma step_ok_simps [simp]:
  "step_ok c tok (Fault e) = False" "step_ok c tok (Out tok1) = shape_ok tok1"
  "step_ok c tok (Next obj tok1) = tok_inv tok1"
  "step_ok c tok (Redo obj tok1) = (tok_inv tok1 \<and> redo_rank c tok1 < redo_rank c tok)"
  by (simp_all add: step_ok_def)

lemma shape_ok_upd [simp]:
  "shape_ok (tok\<lparr>pb := x\<rparr>) = shape_ok tok" "shape_ok (tok\<lparr>st_pos := n\<rparr>) = shape_ok tok"
  "shape_ok (tok\<lparr>is_double := b\<rparr>) = shape_ok tok" "shape_ok (tok\<lparr>err := e\<rparr>) = shape_ok tok"
  "shape_ok (tok\<lparr>quote_char := q\<rparr>) = shape_ok tok" "shape_ok (tok\<lparr>ucs_char := u\<rparr>) = shape_ok tok"
  "shape_ok (tok\<lparr>char_offset := i\<rparr>) = shape_ok tok" "shape_ok (upd_top f tok) = shape_ok tok"
  by (simp_all add: shape_ok_def upd_top_def)

lemma top_upd [simp]:
  "top (tok\<lparr>pb := x\<rparr>) = top tok" "top (tok\<lparr>st_pos := n\<rparr>) = top tok" "top (tok\<lparr>is_double := b\<rparr>) = top tok"
  "top (tok\<lparr>err := e\<rparr>) = top tok" "top (tok\<lparr>quote_char := q\<rparr>) = top tok" "top (tok\<lparr>ucs_char := u\<rparr>) = top tok"
  "top (tok\<lparr>char_offset := i\<rparr>) = top tok"
  by (simp_all add: top_def)

lemma upd_top_fields [simp]:
  "pb (upd_top f tok) = pb tok" "depth (upd_top f tok) = depth tok" "st_pos (upd_top f tok) = st_pos tok"
  "is_double (upd_top f tok) = is_double tok" "err (upd_top f tok) = err tok"
  "quote_char (upd_top f tok) = quote_char tok" "ucs_char (upd_top f tok) = ucs_char tok"
  "char_offset (upd_top f tok) = char_offset tok"
  by (simp_all add: upd_top_def)

lemma top_upd_top [simp]: "shape_ok tok \<Longrightarrow> top (upd_top f tok) = f (top tok)"
  by (simp add: top_def upd_top_def shape_ok_def)

lemma tok_inv_upd [simp]:
  "tok_inv (tok\<lparr>pb := x\<rparr>) = tok_inv tok" "tok_inv (tok\<lparr>is_double := b\<rparr>) = tok_inv tok"
  "tok_inv (tok\<lparr>err := e\<rparr>) = tok_inv tok" "tok_inv (tok\<lparr>quote_char := q\<rparr>) = tok_inv tok"
  "tok_inv (tok\<lparr>ucs_char := u\<rparr>) = tok_inv tok" "tok_inv (tok\<lparr>char_offset := i\<rparr>) = tok_inv tok"
  by (simp_all add: tok_inv_def)

lemma tok_inv_st_pos:
  "tok_inv tok \<Longrightarrow> (state (top tok) = json_tokener_state_escape_unicode \<Longrightarrow> n < 4) \<Longrightarrow> tok_inv (tok\<lparr>st_pos := n\<rparr>)"
  by (simp add: tok_inv_def)

lemma tok_inv_upd_top:
  assumes "shape_ok tok" and "\<forall>i < depth tok. below_ok (stack tok ! i)" and "level_ok (f (top tok))"
    and "state (f (top tok)) = json_tokener_state_escape_unicode \<Longrightarrow> st_pos tok < 4"
  shows "tok_inv (upd_top f tok)"
  using assms by (auto simp: tok_inv_def) (simp add: upd_top_def)

lemma tok_invD:
  "tok_inv tok \<Longrightarrow> shape_ok tok" "tok_inv tok \<Longrightarrow> level_ok (top tok)"
  "tok_inv tok \<Longrightarrow> \<forall>i < depth tok. below_ok (stack tok ! i)"
  by (simp_all add: tok_inv_def)

lemmas state_sets = skipping_def escaping_def wait_states_def

lemma new_values [simp]:
  "mem_total mem \<Longrightarrow> json_object_new_object mem = Inr (JObject [])"
  "mem_total mem \<Longrightarrow> json_object_new_array mem = Inr (JArray [])"
  "mem_total mem \<Longrightarrow> json_object_new_boolean mem b = JBoolean b"
  "mem_total mem \<Longrightarrow> json_object_new_int mem i = JInt i"
  "mem_total mem \<Longrightarrow> json_object_new_double mem d = JDouble d"
  "mem_total mem \<Longrightarrow> json_object_new_string mem s = JString (cstr s)"
  by (simp_all add: mem_total_def alloc_ok_def json_object_new_object_def json_object_new_array_def
      lh_kchar_table_new_def lh_table_new_def array_list_new_def json_object_new_boolean_def
      json_object_new_int_def json_object_new_double_def json_object_new_string_def
      sizeof_json_object_def JSON_OBJECT_DEF_HASH_ENTIRES_def ARRAY_LIST_DEFAULT_SIZE_def)

text \<open>A level pushed on top, and the level popped when a value is finished.\<close>

lemma push_level_ok:
  assumes "shape_ok tok" and "\<forall>i < depth tok. below_ok (stack tok ! i)"
    and "st \<in> {json_tokener_state_array_add, json_tokener_state_object_value_add}"
    and "needs st (top tok)" and "3 \<le> redo_rank c tok"
  shows "step_ok c tok (push_level st obj tok)"
proof -
  have "needs st (r\<lparr>state := st\<rparr>) = needs st r" for r :: "'a json_tokener_srec"
    using assms(3) by (auto simp: needs_def)
  moreover have "below_ok (((stack tok)[depth tok := (top tok)\<lparr>state := st\<rparr>]) ! i)" if "i \<le> depth tok" for i
    using that assms calculation by (cases "i = depth tok") (auto simp: below_ok_def shape_ok_def)
  ultimately show ?thesis
    using assms
    by (auto simp: push_level_def fail_def json_tokener_reset_level_def shape_ok_def tok_inv_def top_def
        upd_top_def level_ok_def state_sets needs_def redo_rank_def wait_rank_def JSON_TOKENER_MAX_DEPTH_def)
qed

lemma case_finish_ok:
  assumes "shape_ok tok" and "\<forall>i < depth tok. below_ok (stack tok ! i)"
    and "state (top tok) = json_tokener_state_finish"
  shows "step_ok c tok (case_finish obj tok)"
proof (cases "depth tok")
  case (Suc d)
  let ?r = "\<lparr>state = json_tokener_state_eatws, saved_state = json_tokener_state_start,
              current = JNull, obj_field_name = None\<rparr> :: 'a json_tokener_srec"
  let ?tok = "tok\<lparr>stack := (stack tok)[depth tok := ?r], depth := d\<rparr>"
  have "top ?tok = stack tok ! d" using Suc by (simp add: top_def)
  moreover have "below_ok (stack tok ! d)" using assms(2) Suc by simp
  moreover have "level_ok r \<and> state r \<noteq> json_tokener_state_escape_unicode" if "below_ok r" for r :: "'a json_tokener_srec"
    using that by (auto simp: below_ok_def level_ok_def state_sets)
  ultimately have "tok_inv ?tok"
    using assms(1,2) Suc by (auto simp: tok_inv_def shape_ok_def)
  moreover have "redo_rank c ?tok = 2"
    using \<open>below_ok (stack tok ! d)\<close> \<open>top ?tok = stack tok ! d\<close> by (auto simp: redo_rank_def below_ok_def)
  moreover have "redo_rank c tok = 3" using assms(3) by (simp add: redo_rank_def wait_rank_def)
  ultimately show ?thesis
    using Suc assms(1) by (simp add: case_finish_def json_tokener_reset_level_def shape_ok_def)
qed (use assms in \<open>simp add: case_finish_def\<close>)

lemma needs_fields [simp]:
  "needs st (r\<lparr>state := s\<rparr>) = needs st r" "needs st (r\<lparr>saved_state := s\<rparr>) = needs st r"
  by (auto simp: needs_def split: json_tokener_state.split)

lemma fail_ok [simp]: "step_ok c tok (fail e tok1) = shape_ok tok1"
  by (simp add: fail_def)

lemmas step_ok_defs = level_ok_def state_sets redo_rank_def wait_rank_def

lemma eatws_ok:
  assumes inv: "tok_inv tok" and st: "state (top tok) = json_tokener_state_eatws"
  shows "step_ok c tok (case_eatws c obj tok)"
proof -
  note d = tok_invD [OF inv]
  have lv: "saved_state (top tok) \<in> wait_states" "needs (saved_state (top tok)) (top tok)"
    using d(2) st by (auto simp: level_ok_def skipping_def)
  have "tok_inv (set_state json_tokener_state_comment_start (tok\<lparr>pb := [c]\<rparr>))"
    using d lv by (intro tok_inv_upd_top) (auto simp: level_ok_def skipping_def)
  moreover have "tok_inv (set_state (saved_state (top tok)) tok)"
    using d lv by (intro tok_inv_upd_top) (auto simp: level_ok_def state_sets)
  moreover have "redo_rank c (set_state (saved_state (top tok)) tok) < redo_rank c tok"
    using d(1) lv(1) st by (auto simp: redo_rank_def wait_states_def)
  ultimately show ?thesis using inv by (auto simp: case_eatws_def)
qed

lemma number_char_digit:
  assumes "isdigit c"
  shows "strchr_found json_number_chars c \<and> c \<noteq> NUL"
proof -
  have "byte c \<in> set [48 ..< 58]" using assms unfolding isdigit_def set_upt by simp
  moreover have "\<forall>b \<in> set [48 ..< 58]. char_of b \<in> set json_number_chars \<and> char_of b \<noteq> NUL" by code_simp
  ultimately have "char_of (byte c) \<in> set json_number_chars \<and> char_of (byte c) \<noteq> NUL" by blast
  then show ?thesis by (simp add: strchr_found_def)
qed

lemma number_char_minus: "strchr_found json_number_chars (CHR ''-'') \<and> CHR ''-'' \<noteq> NUL"
  by code_simp

lemma set_simple_state_ok:
  assumes "shape_ok tok" and "\<forall>i < depth tok. below_ok (stack tok ! i)"
    and "st \<in> {json_tokener_state_null, json_tokener_state_string, json_tokener_state_boolean, json_tokener_state_number}"
  shows "tok_inv (set_state st tok)"
  using assms by (intro tok_inv_upd_top) (auto simp: level_ok_def state_sets needs_def)

lemma start_ok:
  assumes inv: "tok_inv tok" and st: "state (top tok) = json_tokener_state_start" and mem: "mem_total mem"
  shows "step_ok c tok (case_start mem c obj tok)"
proof -
  note d = tok_invD [OF inv]
  have "tok_inv (eat_with json_tokener_state_object_field_start (JObject []) tok)"
    "tok_inv (eat_with json_tokener_state_array (JArray []) tok)"
    using d by (auto intro!: tok_inv_upd_top simp: level_ok_def state_sets needs_def is_array_def is_object_def)
  moreover have "redo_rank c tok = 1" using st by (simp add: redo_rank_def wait_rank_def)
  moreover have "redo_rank c (set_state json_tokener_state_null (tok\<lparr>pb := [], st_pos := 0\<rparr>)) = 0"
    "redo_rank c (set_state json_tokener_state_boolean (tok\<lparr>pb := [], st_pos := 0\<rparr>)) = 0"
    using d(1) by (simp_all add: redo_rank_def)
  moreover have "redo_rank c (set_state json_tokener_state_number (tok\<lparr>pb := [], is_double := False\<rparr>)) = 0"
    if "isdigit c \<or> c = CHR ''-''"
    using d(1) that number_char_digit [of c] number_char_minus by (auto simp: redo_rank_def)
  ultimately show ?thesis
    using d mem by (auto simp: case_start_def set_simple_state_ok)
qed

lemma literal_ok:
  assumes inv: "tok_inv tok" and mem: "mem_total mem"
  shows "state (top tok) = json_tokener_state_null \<Longrightarrow> step_ok c tok (case_null c obj tok)"
    and "state (top tok) = json_tokener_state_boolean \<Longrightarrow> step_ok c tok (case_boolean mem c obj tok)"
    and "state (top tok) = json_tokener_state_number \<Longrightarrow> step_ok c tok (case_number mem D c obj tok)"
  using inv tok_invD [OF inv]
  by (auto simp: case_null_def case_boolean_def case_number_def Let_def step_ok_defs needs_def
      intro!: tok_inv_upd_top tok_inv_st_pos split: option.split)

lemma comment_ok:
  assumes inv: "tok_inv tok"
  shows "state (top tok) = json_tokener_state_comment_start \<Longrightarrow> step_ok c tok (case_comment_start c obj tok)"
    and "state (top tok) = json_tokener_state_comment \<Longrightarrow> step_ok c tok (case_comment c obj tok)"
    and "state (top tok) = json_tokener_state_comment_eol \<Longrightarrow> step_ok c tok (case_comment_eol c obj tok)"
    and "state (top tok) = json_tokener_state_comment_end \<Longrightarrow> step_ok c tok (case_comment_end c obj tok)"
  using inv tok_invD [OF inv]
  by (auto simp: case_comment_start_def case_comment_def case_comment_eol_def case_comment_end_def
      level_ok_def skipping_def intro!: tok_inv_upd_top)

lemma string_ok:
  assumes inv: "tok_inv tok" and st: "state (top tok) = json_tokener_state_string"
  shows "step_ok c tok (case_string mem c obj tok)"
  using inv st tok_invD [OF inv]
  by (auto simp: case_string_def step_ok_defs needs_def intro!: tok_inv_upd_top)

lemma back_ok:
  assumes inv: "tok_inv tok" and st: "state (top tok) \<in> escaping"
  shows "tok_inv (set_state (saved_state (top tok)) tok)"
proof (rule tok_inv_upd_top)
  have lv: "saved_state (top tok) \<in> {json_tokener_state_string, json_tokener_state_object_field}"
    "needs (saved_state (top tok)) (top tok)"
    using tok_invD(2) [OF inv] st by (auto simp: level_ok_def state_sets)
  then show "level_ok ((top tok)\<lparr>state := saved_state (top tok)\<rparr>)" by (auto simp: level_ok_def state_sets)
  show "st_pos tok < 4" if "state ((top tok)\<lparr>state := saved_state (top tok)\<rparr>) = json_tokener_state_escape_unicode"
    using that lv(1) by auto
qed (use tok_invD [OF inv] in auto)

lemma string_escape_ok:
  assumes inv: "tok_inv tok" and st: "state (top tok) = json_tokener_state_string_escape"
  shows "step_ok c tok (case_string_escape c obj tok)"
proof -
  have "tok_inv (set_state (saved_state (top tok)) (append_pb s tok))" for s
    using back_ok [of "append_pb s tok"] inv st by (simp add: escaping_def)
  moreover have "tok_inv (set_state json_tokener_state_escape_unicode (tok\<lparr>ucs_char := 0, st_pos := 0\<rparr>))"
    using tok_invD [OF inv] st by (intro tok_inv_upd_top) (auto simp: level_ok_def state_sets)
  ultimately show ?thesis
    using tok_invD(1) [OF inv] by (simp add: case_string_escape_def Let_def)
qed

lemma escape_unicode_ok:
  assumes inv: "tok_inv tok" and st: "state (top tok) = json_tokener_state_escape_unicode"
  shows "step_ok c tok (case_escape_unicode c obj tok)"
proof -
  have pos: "st_pos tok < 4" using inv st by (simp add: tok_inv_def)
  have "tok_inv (set_state (saved_state (top tok)) (tok\<lparr>ucs_char := u, st_pos := 4, pb := s\<rparr>))" for u s
  proof (rule tok_inv_upd_top)
    have lv: "saved_state (top tok) \<in> {json_tokener_state_string, json_tokener_state_object_field}"
      "needs (saved_state (top tok)) (top tok)"
      using tok_invD(2) [OF inv] st by (auto simp: level_ok_def state_sets)
    then show "level_ok ((top (tok\<lparr>ucs_char := u, st_pos := 4, pb := s\<rparr>))\<lparr>state := saved_state (top tok)\<rparr>)"
      by (auto simp: level_ok_def state_sets)
  qed (use tok_invD [OF inv] st in \<open>auto simp: level_ok_def state_sets\<close>)
  moreover have "tok_inv (tok\<lparr>ucs_char := u, st_pos := Suc (st_pos tok)\<rparr>)" if "Suc (st_pos tok) \<noteq> 4" for u
    using inv that pos by (intro tok_inv_st_pos) auto
  ultimately show ?thesis
    using tok_invD(1) [OF inv] pos by (auto simp: case_escape_unicode_def Let_def)
qed

lemma array_ok:
  assumes inv: "tok_inv tok"
  shows "state (top tok) = json_tokener_state_array \<Longrightarrow> step_ok c tok (case_array c obj tok)"
    and "state (top tok) = json_tokener_state_array_add \<Longrightarrow> step_ok c tok (case_array_add obj tok)"
    and "state (top tok) = json_tokener_state_array_sep \<Longrightarrow> step_ok c tok (case_array_sep c obj tok)"
proof -
  note d = tok_invD [OF inv]
  have fin: "tok_inv (eat_then json_tokener_state_finish tok)"
    using d by (intro tok_inv_upd_top) (auto simp: level_ok_def state_sets needs_def)
  {
    assume st: "state (top tok) = json_tokener_state_array"
    then have "needs json_tokener_state_array (top tok)" using d(2) by (auto simp: level_ok_def state_sets)
    then have "step_ok c tok (push_level json_tokener_state_array_add obj tok)"
      using d st by (intro push_level_ok) (auto simp: needs_def redo_rank_def wait_rank_def)
    with fin show "step_ok c tok (case_array c obj tok)" by (simp add: case_array_def)
  }
  {
    assume st: "state (top tok) = json_tokener_state_array_add"
    then obtain js where js: "current (top tok) = JArray js"
      using d(2) by (auto simp: level_ok_def state_sets needs_def is_array_def split: json.splits)
    have "tok_inv (eat_with json_tokener_state_array_sep (JArray (js @ [obj])) tok)"
      using d by (intro tok_inv_upd_top) (auto simp: level_ok_def state_sets needs_def is_array_def)
    with js st d(1) show "step_ok c tok (case_array_add obj tok)"
      by (simp add: case_array_add_def json_object_array_add_def redo_rank_def wait_rank_def)
  }
  {
    assume st: "state (top tok) = json_tokener_state_array_sep"
    then have "needs json_tokener_state_array (top tok)"
      using d(2) by (auto simp: level_ok_def state_sets needs_def)
    then have "tok_inv (eat_then json_tokener_state_array tok)"
      using d by (intro tok_inv_upd_top) (auto simp: level_ok_def state_sets needs_def)
    with fin d(1) show "step_ok c tok (case_array_sep c obj tok)" by (simp add: case_array_sep_def)
  }
qed

lemma object_ok:
  assumes inv: "tok_inv tok" and obj: "is_object (current (top tok))"
  shows "step_ok c tok (case_object_field_start c obj tok)"
    and "step_ok c tok (case_object_field c obj tok)"
    and "step_ok c tok (case_object_sep c obj tok)"
    and "obj_field_name (top tok) \<noteq> None \<Longrightarrow> step_ok c tok (case_object_field_end c obj tok)"
    and "obj_field_name (top tok) \<noteq> None \<Longrightarrow> state (top tok) = json_tokener_state_object_value_add \<Longrightarrow>
           step_ok c tok (case_object_value_add obj tok)"
    and "obj_field_name (top tok) \<noteq> None \<Longrightarrow> state (top tok) = json_tokener_state_object_value \<Longrightarrow>
           step_ok c tok (push_level json_tokener_state_object_value_add obj tok)"
proof -
  note d = tok_invD [OF inv]
  have fin: "tok_inv (eat_then json_tokener_state_finish tok)"
    using d by (intro tok_inv_upd_top) (auto simp: level_ok_def state_sets needs_def)
  have field: "tok_inv (set_state json_tokener_state_object_field (tok\<lparr>quote_char := q, pb := s\<rparr>))" for q s
    using d obj by (intro tok_inv_upd_top) (auto simp: level_ok_def state_sets needs_def)
  show "step_ok c tok (case_object_field_start c obj tok)"
    using fin field by (simp add: case_object_field_start_def)
  show "step_ok c tok (case_object_field c obj tok)"
    using d obj inv
    by (auto simp: case_object_field_def level_ok_def state_sets needs_def intro!: tok_inv_upd_top)
  have "tok_inv (eat_then json_tokener_state_object_field_start tok)"
    using d obj by (intro tok_inv_upd_top) (auto simp: level_ok_def state_sets needs_def)
  with fin d(1) show "step_ok c tok (case_object_sep c obj tok)" by (simp add: case_object_sep_def)
  assume name: "obj_field_name (top tok) \<noteq> None"
  have "tok_inv (eat_then json_tokener_state_object_value tok)"
    using d obj name by (intro tok_inv_upd_top) (auto simp: level_ok_def state_sets needs_def)
  with d(1) show "step_ok c tok (case_object_field_end c obj tok)" by (simp add: case_object_field_end_def)
  {
    assume st: "state (top tok) = json_tokener_state_object_value_add"
    obtain kvs n where kvs: "current (top tok) = JObject kvs" "obj_field_name (top tok) = Some n"
      using obj name by (auto simp: is_object_def split: json.splits)
    have "tok_inv (upd_top (\<lambda>r. r\<lparr>current := JObject v, obj_field_name := None,
        saved_state := json_tokener_state_object_sep, state := json_tokener_state_eatws\<rparr>) tok)" for v
      using d by (intro tok_inv_upd_top) (auto simp: level_ok_def state_sets needs_def is_object_def)
    with kvs st d(1) show "step_ok c tok (case_object_value_add obj tok)"
      by (simp add: case_object_value_add_def json_object_object_add_def redo_rank_def wait_rank_def)
  }
  assume st: "state (top tok) = json_tokener_state_object_value"
  show "step_ok c tok (push_level json_tokener_state_object_value_add obj tok)"
    using d obj name st by (intro push_level_ok) (auto simp: needs_def redo_rank_def wait_rank_def)
qed

text \<open>One step never faults, keeps the invariant, and a redone character comes closer to being eaten.\<close>

lemma tok_step_ok:
  assumes inv: "tok_inv tok" and mem: "mem_total mem"
  shows "step_ok c tok (tok_step mem D c obj tok)"
proof -
  have needs: "needs (state (top tok)) (top tok)" if "state (top tok) \<notin> skipping" "state (top tok) \<notin> escaping"
    using tok_invD(2) [OF inv] that by (simp add: level_ok_def)
  have obj: "is_object (current (top tok))"
    if "state (top tok) \<in> {json_tokener_state_object_field_start, json_tokener_state_object_field,
       json_tokener_state_object_field_end, json_tokener_state_object_value,
       json_tokener_state_object_value_add, json_tokener_state_object_sep}"
    using needs that by (auto simp: state_sets needs_def)
  have name: "obj_field_name (top tok) \<noteq> None"
    if "state (top tok) \<in> {json_tokener_state_object_field_end, json_tokener_state_object_value,
       json_tokener_state_object_value_add}"
    using needs that by (auto simp: state_sets needs_def)
  note ok = eatws_ok [OF inv] start_ok [OF inv _ mem] case_finish_ok [OF tok_invD(1) [OF inv] tok_invD(3) [OF inv]]
    literal_ok [OF inv mem] comment_ok [OF inv] string_ok [OF inv] string_escape_ok [OF inv]
    escape_unicode_ok [OF inv] array_ok [OF inv] object_ok [OF inv obj]
  show ?thesis
    by (cases "state (top tok)") (simp_all add: tok_step_def ok name)
qed

lemma run_char_ok:
  assumes "tok_inv tok" and "mem_total mem" and "redo_rank c tok < n"
  shows "(\<exists>tok1. run_char n mem D c obj tok = Out tok1 \<and> shape_ok tok1) \<or>
         (\<exists>obj1 tok1. run_char n mem D c obj tok = Next obj1 tok1 \<and> tok_inv tok1)"
  using assms
proof (induction n arbitrary: obj tok)
  case (Suc n)
  from tok_step_ok [OF Suc.prems(1,2), of c D obj]
  show ?case
  proof (cases "tok_step mem D c obj tok")
    case (Redo obj1 tok1)
    with tok_step_ok [OF Suc.prems(1,2), of c D obj] Suc.prems(3) have "tok_inv tok1" "redo_rank c tok1 < n" by auto
    with Suc.IH [of tok1 obj1] Suc.prems(2) Redo show ?thesis by simp
  qed auto
qed simp

lemma redo_rank_bound: "redo_rank c tok < redo_fuel"
  by (auto simp: redo_rank_def wait_rank_def redo_fuel_def split: json_tokener_state.split)

lemma parse_loop_ok:
  assumes "tok_inv tok" and "mem_total mem"
  shows "\<exists>tok1. parse_loop mem D len cs obj tok = Inr tok1 \<and> shape_ok tok1"
  using assms
proof (induction cs arbitrary: obj tok)
  case Nil
  from run_char_ok [OF Nil redo_rank_bound, of D NUL obj] tok_invD(1) [OF Nil(1)] show ?case
    by (auto simp: at_len_def at_eof_def tok_invD(1))
next
  case (Cons c cs)
  from run_char_ok [OF Cons.prems redo_rank_bound, of D c obj] tok_invD(1) [OF Cons.prems(1)] show ?case
    by (auto simp: at_len_def at_eof_def tok_invD(1) Let_def intro!: Cons.IH Cons.prems(2))
qed

lemma reset_levels_ok:
  "i < length (stack tok) \<Longrightarrow> \<exists>tok1. reset_levels i tok = Inr tok1 \<and> length (stack tok1) = length (stack tok) \<and>
     stack tok1 ! 0 = \<lparr>state = json_tokener_state_eatws, saved_state = json_tokener_state_start,
              current = JNull, obj_field_name = None\<rparr>"
proof (induction i arbitrary: tok)
  case (Suc i)
  then show ?case
    using Suc.IH [of "tok\<lparr>stack := (stack tok)[Suc i := \<lparr>state = json_tokener_state_eatws,
      saved_state = json_tokener_state_start, current = JNull, obj_field_name = None\<rparr>]\<rparr>"]
    by (simp add: json_tokener_reset_level_def)
qed (simp add: json_tokener_reset_level_def)

lemma json_tokener_reset_ok:
  assumes "shape_ok tok"
  shows "\<exists>tok1. json_tokener_reset tok = Inr tok1 \<and> tok_inv tok1 \<and> depth tok1 = 0 \<and>
     top tok1 = \<lparr>state = json_tokener_state_eatws, saved_state = json_tokener_state_start,
              current = JNull, obj_field_name = None\<rparr>"
proof -
  obtain tok1 where t: "reset_levels (depth tok) tok = Inr tok1" "length (stack tok1) = length (stack tok)"
     "stack tok1 ! 0 = \<lparr>state = json_tokener_state_eatws, saved_state = json_tokener_state_start,
              current = JNull, obj_field_name = None\<rparr>"
    using reset_levels_ok [of "depth tok" tok] assms by (auto simp: shape_ok_def)
  then show ?thesis
    using assms
    by (auto simp: json_tokener_reset_def tok_inv_def shape_ok_def top_def level_ok_def state_sets needs_def
        JSON_TOKENER_MAX_DEPTH_def)
qed

lemma json_tokener_new_ok:
  assumes "mem_total mem"
  shows "\<exists>tok. json_tokener_new mem = Inr tok \<and> tok_inv tok \<and> depth tok = 0 \<and>
     top tok = \<lparr>state = json_tokener_state_eatws, saved_state = json_tokener_state_start,
              current = JNull, obj_field_name = None\<rparr>"
  using assms json_tokener_reset_ok
  by (auto simp: json_tokener_new_def mem_total_def alloc_ok_def printbuf_new_def
      JSON_TOKENER_MAX_DEPTH_def shape_ok_def intro!: json_tokener_reset_ok)

section \<open>Fuel\<close>

text \<open>More fuel never changes the outcome of a character that was eaten.\<close>

lemma run_char_mono:
  "run_char n mem D c obj tok = r \<Longrightarrow> r \<noteq> Fault Out_Of_Fuel \<Longrightarrow> n \<le> m \<Longrightarrow> run_char m mem D c obj tok = r"
proof (induction n arbitrary: m obj tok)
  case (Suc n)
  then obtain m' where "m = Suc m'" "n \<le> m'" by (cases m) auto
  with Suc show ?case by (auto split: outcome.splits)
qed auto

text \<open>The outcome of a character with any sufficient fuel.\<close>

definition eats ::
  "allocator \<Rightarrow> 'd dbl \<Rightarrow> char \<Rightarrow> 'd json \<times> 'd json_tokener \<Rightarrow> 'd outcome \<Rightarrow> bool" where
  "eats mem D c s r \<longleftrightarrow> (\<exists>n. run_char n mem D c (fst s) (snd s) = r) \<and> r \<noteq> Fault Out_Of_Fuel"

lemma eats_run_char:
  assumes "eats mem D c (obj, tok) r" and "tok_inv tok" and "mem_total mem"
  shows "run_char redo_fuel mem D c obj tok = r"
proof -
  obtain n where n: "run_char n mem D c obj tok = r" "r \<noteq> Fault Out_Of_Fuel"
    using assms(1) by (auto simp: eats_def)
  have "run_char redo_fuel mem D c obj tok \<noteq> Fault Out_Of_Fuel"
    using run_char_ok [OF assms(2,3) redo_rank_bound, of D c obj] by auto
  with n show ?thesis by (metis nle_le run_char_mono)
qed

lemma eats_redo:
  assumes "tok_step mem D c obj tok = Redo obj1 tok1" and "eats mem D c (obj1, tok1) r"
  shows "eats mem D c (obj, tok) r"
proof -
  obtain n where "run_char n mem D c obj1 tok1 = r" "r \<noteq> Fault Out_Of_Fuel"
    using assms(2) by (auto simp: eats_def)
  with assms(1) have "run_char (Suc n) mem D c obj tok = r" by simp
  with \<open>r \<noteq> Fault Out_Of_Fuel\<close> show ?thesis unfolding eats_def by (metis fst_conv snd_conv)
qed

lemma eats_step:
  assumes "tok_step mem D c obj tok = r" and "\<And>o1 t1. r \<noteq> Redo o1 t1" and "r \<noteq> Fault Out_Of_Fuel"
  shows "eats mem D c (obj, tok) r"
proof -
  have "run_char (Suc 0) mem D c obj tok = r" using assms(1,2) by (auto split: outcome.split)
  with assms(3) show ?thesis unfolding eats_def by (metis fst_conv snd_conv)
qed

text \<open>Eating a whole text, without stopping.\<close>

fun eats_all ::
  "allocator \<Rightarrow> 'd dbl \<Rightarrow> string \<Rightarrow> 'd json \<times> 'd json_tokener \<Rightarrow> 'd json \<times> 'd json_tokener \<Rightarrow> bool" where
  "eats_all mem D [] s s' \<longleftrightarrow> s = s'"
| "eats_all mem D (c # cs) s s' \<longleftrightarrow>
     (\<exists>obj1 tok1. eats mem D c s (Next obj1 tok1) \<and>
        eats_all mem D cs (obj1, tok1\<lparr>char_offset := char_offset tok1 + 1\<rparr>) s')"

lemma eats_all_append:
  "eats_all mem D cs s s1 \<Longrightarrow> eats_all mem D ds s1 s2 \<Longrightarrow> eats_all mem D (cs @ ds) s s2"
  by (induction cs arbitrary: s) auto

section \<open>The stack seen from its top\<close>

text \<open>\<open>tok_at B r tok\<close>: the levels below the top are \<open>B\<close>, the top is \<open>r\<close>; the registers are free.\<close>

definition tok_at :: "'d json_tokener_srec list \<Rightarrow> 'd json_tokener_srec \<Rightarrow> 'd json_tokener \<Rightarrow> bool" where
  "tok_at B r tok \<longleftrightarrow> shape_ok tok \<and> depth tok = length B \<and> take (depth tok) (stack tok) = B \<and> top tok = r"

definition fresh_level :: "'d json_tokener_srec" where
  "fresh_level = \<lparr>state = json_tokener_state_eatws, saved_state = json_tokener_state_start,
              current = JNull, obj_field_name = None\<rparr>"

lemma tok_at_upd [simp]:
  "tok_at B r (tok\<lparr>pb := x\<rparr>) = tok_at B r tok" "tok_at B r (tok\<lparr>st_pos := n\<rparr>) = tok_at B r tok"
  "tok_at B r (tok\<lparr>is_double := b\<rparr>) = tok_at B r tok" "tok_at B r (tok\<lparr>err := e\<rparr>) = tok_at B r tok"
  "tok_at B r (tok\<lparr>quote_char := q\<rparr>) = tok_at B r tok" "tok_at B r (tok\<lparr>ucs_char := u\<rparr>) = tok_at B r tok"
  "tok_at B r (tok\<lparr>char_offset := i\<rparr>) = tok_at B r tok"
  by (simp_all add: tok_at_def)

lemma tok_at_top: "tok_at B r tok \<Longrightarrow> top tok = r"
  by (simp add: tok_at_def)

lemma tok_at_upd_top: "tok_at B r tok \<Longrightarrow> tok_at B (f r) (upd_top f tok)"
  by (auto simp: tok_at_def) (simp add: upd_top_def)

lemma tok_at_push:
  assumes "tok_at B r tok" and "length B < 31"
  obtains tok1 where "push_level st obj tok = Redo obj tok1" and "tok_at (B @ [r\<lparr>state := st\<rparr>]) fresh_level tok1"
    and "char_offset tok1 = char_offset tok"
proof -
  let ?t = "(set_state st tok)\<lparr>depth := depth tok + 1\<rparr>"
  let ?tok1 = "?t\<lparr>stack := (stack ?t)[depth tok + 1 := fresh_level]\<rparr>"
  have "push_level st obj tok = Redo obj ?tok1"
    using assms
    by (simp add: push_level_def json_tokener_reset_level_def tok_at_def shape_ok_def JSON_TOKENER_MAX_DEPTH_def
        fresh_level_def upd_top_def)
  moreover have "tok_at (B @ [r\<lparr>state := st\<rparr>]) fresh_level ?tok1"
    using assms by (auto simp: tok_at_def shape_ok_def JSON_TOKENER_MAX_DEPTH_def upd_top_def top_def take_Suc_conv_app_nth)
  ultimately show ?thesis using that by simp
qed

lemma tok_at_pop:
  assumes "tok_at (B @ [r']) r tok"
  obtains tok1 where "case_finish obj tok = Redo (current r) tok1" and "tok_at B r' tok1"
    and "char_offset tok1 = char_offset tok"
proof -
  let ?tok1 = "tok\<lparr>stack := (stack tok)[depth tok := fresh_level], depth := depth tok - 1\<rparr>"
  have at: "shape_ok tok" "depth tok = Suc (length B)" "take (Suc (length B)) (stack tok) = B @ [r']" "top tok = r"
    using assms by (auto simp: tok_at_def)
  have "length B < length (stack tok)" using at(1,2) by (simp add: shape_ok_def)
  with at(3) have "take (length B) (stack tok) = B \<and> stack tok ! length B = r'"
    by (simp add: take_Suc_conv_app_nth)
  with at have "tok_at B r' ?tok1" by (auto simp: tok_at_def shape_ok_def top_def)
  moreover have "case_finish obj tok = Redo (current r) ?tok1"
    using at by (simp add: case_finish_def json_tokener_reset_level_def shape_ok_def fresh_level_def)
  ultimately show ?thesis using that by simp
qed

text \<open>Steps by the state of the top level.\<close>

lemma tok_step_at:
  assumes "tok_at B r tok"
  shows "state r = json_tokener_state_eatws \<Longrightarrow> tok_step mem D c obj tok = case_eatws c obj tok"
    and "state r = json_tokener_state_start \<Longrightarrow> tok_step mem D c obj tok = case_start mem c obj tok"
    and "state r = json_tokener_state_finish \<Longrightarrow> tok_step mem D c obj tok = case_finish obj tok"
    and "state r = json_tokener_state_null \<Longrightarrow> tok_step mem D c obj tok = case_null c obj tok"
    and "state r = json_tokener_state_boolean \<Longrightarrow> tok_step mem D c obj tok = case_boolean mem c obj tok"
    and "state r = json_tokener_state_number \<Longrightarrow> tok_step mem D c obj tok = case_number mem D c obj tok"
    and "state r = json_tokener_state_string \<Longrightarrow> tok_step mem D c obj tok = case_string mem c obj tok"
    and "state r = json_tokener_state_string_escape \<Longrightarrow> tok_step mem D c obj tok = case_string_escape c obj tok"
    and "state r = json_tokener_state_escape_unicode \<Longrightarrow> tok_step mem D c obj tok = case_escape_unicode c obj tok"
    and "state r = json_tokener_state_array \<Longrightarrow> tok_step mem D c obj tok = case_array c obj tok"
    and "state r = json_tokener_state_array_add \<Longrightarrow> tok_step mem D c obj tok = case_array_add obj tok"
    and "state r = json_tokener_state_array_sep \<Longrightarrow> tok_step mem D c obj tok = case_array_sep c obj tok"
    and "state r = json_tokener_state_object_field_start \<Longrightarrow> tok_step mem D c obj tok = case_object_field_start c obj tok"
    and "state r = json_tokener_state_object_field \<Longrightarrow> tok_step mem D c obj tok = case_object_field c obj tok"
    and "state r = json_tokener_state_object_field_end \<Longrightarrow> tok_step mem D c obj tok = case_object_field_end c obj tok"
    and "state r = json_tokener_state_object_value \<Longrightarrow>
           tok_step mem D c obj tok = push_level json_tokener_state_object_value_add obj tok"
    and "state r = json_tokener_state_object_value_add \<Longrightarrow> tok_step mem D c obj tok = case_object_value_add obj tok"
    and "state r = json_tokener_state_object_sep \<Longrightarrow> tok_step mem D c obj tok = case_object_sep c obj tok"
  using assms by (simp_all add: tok_step_def tok_at_def)

text \<open>White space is skipped; anything else wakes the saved state.\<close>

lemma eats_space:
  assumes "tok_at B r tok" and "state r = json_tokener_state_eatws" and "isspace c"
  shows "eats mem D c (obj, tok) (Next obj tok)"
  using assms by (intro eats_step) (simp_all add: tok_step_at case_eatws_def)

lemma eats_wake:
  assumes at: "tok_at B r tok" and st: "state r = json_tokener_state_eatws" and c: "\<not> isspace c" "c \<noteq> CHR ''/''"
    and next_step: "\<And>tok1. tok_at B (r\<lparr>state := saved_state r\<rparr>) tok1 \<Longrightarrow>
        tok1 = set_state (saved_state r) tok \<Longrightarrow> eats mem D c (obj, tok1) R"
  shows "eats mem D c (obj, tok) R"
proof (rule eats_redo)
  show "tok_step mem D c obj tok = Redo obj (set_state (saved_state r) tok)"
    using at st c by (simp add: tok_step_at case_eatws_def tok_at_top)
  show "eats mem D c (obj, set_state (saved_state r) tok) R"
    by (rule next_step) (use tok_at_upd_top [OF at, of "\<lambda>r'. r'\<lparr>state := saved_state r\<rparr>"] in simp_all)
qed

section \<open>Reading back strings\<close>

text \<open>The two states that collect a quoted text.\<close>

definition in_text :: "json_tokener_state \<Rightarrow> bool" where
  "in_text st \<longleftrightarrow> st = json_tokener_state_string \<or> st = json_tokener_state_object_field"

text \<open>Inside a text: the level up to its saved state, the quote and the characters collected.\<close>

definition text_at ::
  "'d json_tokener_srec list \<Rightarrow> 'd json_tokener_srec \<Rightarrow> string \<Rightarrow> 'd json_tokener \<Rightarrow> bool" where
  "text_at B r s tok \<longleftrightarrow> (\<exists>sv. tok_at B (r\<lparr>saved_state := sv\<rparr>) tok) \<and> quote_char tok = CHR 0x22 \<and> pb tok = s"

lemma eats_all_Cons:
  "eats mem D c s (Next obj1 tok1) \<Longrightarrow> eats_all mem D cs (obj1, tok1\<lparr>char_offset := char_offset tok1 + 1\<rparr>) s' \<Longrightarrow>
   eats_all mem D (c # cs) s s'"
  by auto

lemma eats_all_single:
  "eats mem D c s (Next obj1 tok1) \<Longrightarrow> eats_all mem D [c] s (obj1, tok1\<lparr>char_offset := char_offset tok1 + 1\<rparr>)"
  by auto

declare eats_all.simps(2) [simp del]

lemma text_at_offset [simp]: "text_at B r s (tok\<lparr>char_offset := i\<rparr>) = text_at B r s tok"
  by (simp add: text_at_def)

text \<open>A plain character is collected as it is.\<close>

lemma text_plain:
  assumes at: "text_at B r s tok" and st: "in_text (state r)" and c: "c \<noteq> CHR 0x22" "c \<noteq> CHR 0x5C"
  shows "\<exists>tok'. eats_all mem D [c] (obj, tok) (obj, tok') \<and> text_at B r (s @ [c]) tok'"
proof -
  obtain sv where sv: "tok_at B (r\<lparr>saved_state := sv\<rparr>) tok" "quote_char tok = CHR 0x22" "pb tok = s"
    using at by (auto simp: text_at_def)
  have "eats mem D c (obj, tok) (Next obj (append_pb [c] tok))"
  proof (rule eats_step)
    show "tok_step mem D c obj tok = Next obj (append_pb [c] tok)"
      using st c sv tok_step_at(7,14) [OF sv(1), of mem D c obj]
      by (auto simp: in_text_def case_string_def case_object_field_def)
  qed simp_all
  moreover have "text_at B r (s @ [c]) (append_pb [c] tok)" using sv by (auto simp: text_at_def)
  ultimately show ?thesis using eats_all_single text_at_offset by blast
qed

text \<open>A backslash opens an escape that remembers the state to go back to.\<close>

lemma text_backslash:
  assumes at: "text_at B r s tok" and st: "in_text (state r)"
  shows "\<exists>tok'. eats mem D (CHR 0x5C) (obj, tok) (Next obj tok') \<and>
     tok_at B (r\<lparr>saved_state := state r, state := json_tokener_state_string_escape\<rparr>) tok' \<and>
     quote_char tok' = CHR 0x22 \<and> pb tok' = s"
proof -
  obtain sv where sv: "tok_at B (r\<lparr>saved_state := sv\<rparr>) tok" "quote_char tok = CHR 0x22" "pb tok = s"
    using at by (auto simp: text_at_def)
  let ?f = "\<lambda>r'. r'\<lparr>saved_state := state r, state := json_tokener_state_string_escape\<rparr>"
  have "eats mem D (CHR 0x5C) (obj, tok) (Next obj (upd_top ?f tok))"
  proof (rule eats_step)
    show "tok_step mem D (CHR 0x5C) obj tok = Next obj (upd_top ?f tok)"
      using st sv tok_step_at(7,14) [OF sv(1), of mem D "CHR 0x5C" obj]
      by (auto simp: in_text_def case_string_def case_object_field_def)
  qed simp_all
  moreover have "tok_at B (?f (r\<lparr>saved_state := sv\<rparr>)) (upd_top ?f tok)" using sv(1) by (rule tok_at_upd_top)
  ultimately show ?thesis using sv(2,3) by (intro exI [of _ "upd_top ?f tok"]) simp
qed

lemma text_back:
  assumes "tok_at B (r\<lparr>saved_state := state r, state := st\<rparr>) tok"
  shows "tok_at B (r\<lparr>saved_state := state r\<rparr>) (set_state (state r) tok)"
  using tok_at_upd_top [OF assms, of "\<lambda>r'. r'\<lparr>state := state r\<rparr>"] by simp

lemma case_string_escape_short:
  "short_escape c = Some e \<Longrightarrow>
   case_string_escape e obj tok = Next obj (set_state (saved_state (top tok)) (append_pb [c] tok))"
proof -
  assume "short_escape c = Some e"
  then have "c = CHR 0x08 \<and> e = CHR ''b'' \<or> c = CHR 0x0A \<and> e = CHR ''n'' \<or> c = CHR 0x0D \<and> e = CHR ''r'' \<or>
      c = CHR 0x09 \<and> e = CHR ''t'' \<or> c = CHR 0x22 \<and> e = CHR 0x22 \<or> c = CHR 0x5C \<and> e = CHR 0x5C \<or>
      c = CHR ''/'' \<and> e = CHR ''/''"
    unfolding short_escape_def by (metis option.inject option.distinct(1))
  then show ?thesis by (elim disjE conjE) (simp_all add: case_string_escape_def Let_def)
qed

lemma text_short_escape:
  assumes at: "text_at B r s tok" and st: "in_text (state r)" and e: "short_escape c = Some e"
  shows "\<exists>tok'. eats_all mem D [CHR 0x5C, e] (obj, tok) (obj, tok') \<and> text_at B r (s @ [c]) tok'"
proof -
  obtain tok1 where tok1: "eats mem D (CHR 0x5C) (obj, tok) (Next obj tok1)"
      "tok_at B (r\<lparr>saved_state := state r, state := json_tokener_state_string_escape\<rparr>) tok1"
      "quote_char tok1 = CHR 0x22" "pb tok1 = s"
    using text_backslash [OF at st] by blast
  let ?tok2 = "tok1\<lparr>char_offset := char_offset tok1 + 1\<rparr>"
  let ?tok3 = "set_state (state r) (append_pb [c] ?tok2)"
  have at2: "tok_at B (r\<lparr>saved_state := state r, state := json_tokener_state_string_escape\<rparr>) ?tok2"
    using tok1(2) by simp
  have sv: "saved_state (top ?tok2) = state r" using at2 by (simp add: tok_at_def)
  have "eats mem D e (obj, ?tok2) (Next obj ?tok3)"
  proof (rule eats_step)
    show "tok_step mem D e obj ?tok2 = Next obj ?tok3"
      using sv tok_step_at(8) [OF at2, of mem D e obj] by (simp add: case_string_escape_short [OF e])
  qed simp_all
  moreover have "tok_at B (r\<lparr>saved_state := state r\<rparr>) ?tok3"
    by (rule text_back) (use at2 in simp)
  then have "text_at B r (s @ [c]) ?tok3" using tok1(3,4) by (auto simp: text_at_def)
  ultimately show ?thesis
    using eats_all_Cons [OF tok1(1) eats_all_single] text_at_offset by blast
qed

text \<open>A control character is written with four hexadecimal digits and read back from them.\<close>

lemma hex_digit_read:
  assumes "k < 16"
  shows "strchr_found json_hex_chars (json_hex_chars ! k)" and "hexdigit (json_hex_chars ! k) = word_of_nat k"
proof -
  have "\<forall>k \<in> set [0 ..< 16]. strchr_found json_hex_chars (json_hex_chars ! k) \<and>
      hexdigit (json_hex_chars ! k) = word_of_nat k"
    by (simp add: upt_rec json_hex_chars_def strchr_found_def hexdigit_def char_word_def take_bit_eq_mod)
  with assms show "strchr_found json_hex_chars (json_hex_chars ! k)" "hexdigit (json_hex_chars ! k) = word_of_nat k"
    by simp_all
qed

lemma eats_hex_digit:
  assumes at: "tok_at B r tok" and st: "state r = json_tokener_state_escape_unicode"
    and k: "k < 16" and pos: "st_pos tok < 3"
  shows "eats mem D (json_hex_chars ! k) (obj, tok)
     (Next obj (tok\<lparr>ucs_char := ucs_char tok + push_bit ((3 - st_pos tok) * 4) (word_of_nat k),
                    st_pos := st_pos tok + 1\<rparr>))"
proof (rule eats_step)
  show "tok_step mem D (json_hex_chars ! k) obj tok =
     Next obj (tok\<lparr>ucs_char := ucs_char tok + push_bit ((3 - st_pos tok) * 4) (word_of_nat k),
                    st_pos := st_pos tok + 1\<rparr>)"
    using pos tok_step_at(9) [OF at st] hex_digit_read [OF k] by (simp add: case_escape_unicode_def Let_def)
qed simp_all

lemma eats_last_hex_digit:
  assumes at: "tok_at B r tok" and st: "state r = json_tokener_state_escape_unicode"
    and k: "k < 16" and pos: "st_pos tok = 3"
  shows "eats mem D (json_hex_chars ! k) (obj, tok)
     (Next obj (set_state (saved_state r) (append_pb (utf8_out (ucs_char tok + word_of_nat k))
        (tok\<lparr>ucs_char := ucs_char tok + word_of_nat k, st_pos := 4\<rparr>))))"
proof (rule eats_step)
  show "tok_step mem D (json_hex_chars ! k) obj tok =
     Next obj (set_state (saved_state r) (append_pb (utf8_out (ucs_char tok + word_of_nat k))
        (tok\<lparr>ucs_char := ucs_char tok + word_of_nat k, st_pos := 4\<rparr>)))"
    using pos tok_step_at(9) [OF at st] hex_digit_read [OF k] tok_at_top [OF at]
    by (simp add: case_escape_unicode_def Let_def)
qed simp_all

lemma utf8_out_ascii:
  assumes "byte c < 128"
  shows "utf8_out (word_of_nat (byte c)) = [c]"
proof -
  have "unat (word_of_nat (byte c) :: 32 word) = byte c"
    using assms by (simp add: unat_of_nat take_bit_eq_mod)
  then show ?thesis
    using assms by (simp add: utf8_out_def utf_byte_def word_less_nat_alt)
qed

lemma text_unicode_escape:
  assumes at: "text_at B r s tok" and st: "in_text (state r)" and c: "byte c < 32"
  shows "\<exists>tok'. eats_all mem D (unicode_escape c) (obj, tok) (obj, tok') \<and> text_at B r (s @ [c]) tok'"
proof -
  let ?r = "\<lambda>x. r\<lparr>saved_state := state r, state := x\<rparr>"
  obtain t0 where t0: "eats mem D (CHR 0x5C) (obj, tok) (Next obj t0)"
      "tok_at B (?r json_tokener_state_string_escape) t0" "quote_char t0 = CHR 0x22" "pb t0 = s"
    using text_backslash [OF at st] by blast
  let ?step = "\<lambda>t :: 'a json_tokener. t\<lparr>char_offset := char_offset t + 1\<rparr>"
  define u where "u = set_state json_tokener_state_escape_unicode ((?step t0)\<lparr>ucs_char := 0, st_pos := 0\<rparr>)"
  have at0: "tok_at B (?r json_tokener_state_string_escape) (?step t0)" using t0(2) by simp
  have e1: "eats mem D (CHR ''u'') (obj, ?step t0) (Next obj u)"
    by (rule eats_step) (simp_all add: tok_step_at(8) [OF at0] case_string_escape_def Let_def u_def)
  have at1: "tok_at B (?r json_tokener_state_escape_unicode) u"
    using tok_at_upd_top [of B "?r json_tokener_state_string_escape" "(?step t0)\<lparr>ucs_char := 0, st_pos := 0\<rparr>"
        "\<lambda>x. x\<lparr>state := json_tokener_state_escape_unicode\<rparr>"] at0
    by (simp add: u_def)
  have regs: "ucs_char u = 0" "st_pos u = 0" "quote_char u = CHR 0x22" "pb u = s"
    using t0(3,4) by (simp_all add: u_def)
  have zero: "CHR ''0'' = json_hex_chars ! 0" by (simp add: json_hex_chars_def)
  define v1 where "v1 = (?step u)\<lparr>ucs_char := 0, st_pos := 1\<rparr>"
  have e2: "eats mem D (CHR ''0'') (obj, ?step u) (Next obj v1)"
    using eats_hex_digit [of B _ "?step u" 0 mem D obj] at1 regs unfolding zero v1_def by simp
  define v2 where "v2 = (?step v1)\<lparr>ucs_char := 0, st_pos := 2\<rparr>"
  have e3: "eats mem D (CHR ''0'') (obj, ?step v1) (Next obj v2)"
    using eats_hex_digit [of B _ "?step v1" 0 mem D obj] at1 unfolding zero v2_def v1_def by (simp add: numeral_2_eq_2)
  define hi lo where "hi = byte c div 16" and "lo = byte c mod 16"
  have hl: "hi < 16" "lo < 16" "hi * 16 + lo = byte c" using c by (auto simp: hi_def lo_def)
  define v3 where "v3 = (?step v2)\<lparr>ucs_char := push_bit 4 (word_of_nat hi), st_pos := 3\<rparr>"
  have e4: "eats mem D (json_hex_chars ! hi) (obj, ?step v2) (Next obj v3)"
    using eats_hex_digit [of B _ "?step v2" hi mem D obj] at1 hl unfolding v3_def v2_def v1_def
    by (simp add: numeral_3_eq_3)
  have sum: "push_bit 4 (word_of_nat hi) + word_of_nat lo = (word_of_nat (byte c) :: 32 word)"
    unfolding hl(3) [symmetric] by (simp add: push_bit_eq_mult)
  define v4 where "v4 = set_state (state r) (append_pb [c] ((?step v3)\<lparr>ucs_char := word_of_nat (byte c), st_pos := 4\<rparr>))"
  have at3: "tok_at B (?r json_tokener_state_escape_unicode) (?step v3)"
    using at1 by (simp add: v3_def v2_def v1_def)
  have e5: "eats mem D (json_hex_chars ! lo) (obj, ?step v3) (Next obj v4)"
    using eats_last_hex_digit [OF at3 _ hl(2), of mem D obj] sum utf8_out_ascii [of c] c
    by (simp add: v4_def v3_def)
  have "tok_at B (r\<lparr>saved_state := state r\<rparr>) v4"
    unfolding v4_def by (rule text_back [where st = json_tokener_state_escape_unicode]) (use at3 in simp)
  moreover have "quote_char v4 = CHR 0x22" "pb v4 = s @ [c]"
    using regs by (simp_all add: v4_def v3_def v2_def v1_def)
  ultimately have "text_at B r (s @ [c]) v4" by (auto simp: text_at_def)
  moreover have "unicode_escape c = [CHR 0x5C, CHR ''u'', CHR ''0'', CHR ''0'', json_hex_chars ! hi, json_hex_chars ! lo]"
    by (simp add: unicode_escape_def hi_def lo_def)
  moreover note eats_all_Cons [OF t0(1) eats_all_Cons [OF e1 eats_all_Cons [OF e2 eats_all_Cons [OF e3
      eats_all_Cons [OF e4 eats_all_single [OF e5]]]]]]
  ultimately show ?thesis using text_at_offset by metis
qed

lemma text_escaped_char:
  assumes "text_at B r s tok" and "in_text (state r)"
  shows "\<exists>tok'. eats_all mem D (escape_char c) (obj, tok) (obj, tok') \<and> text_at B r (s @ [c]) tok'"
proof (cases "short_escape c")
  case (Some e)
  with text_short_escape [OF assms Some] show ?thesis by (simp add: escape_char_def)
next
  case None
  then have "c \<noteq> CHR 0x22" "c \<noteq> CHR 0x5C" by (auto simp: short_escape_def split: if_splits)
  with None text_plain [OF assms] text_unicode_escape [OF assms] show ?thesis
    by (simp add: escape_char_def)
qed

lemma text_escaped_string:
  assumes "text_at B r s tok" and "in_text (state r)" and "NUL \<notin> set t"
  shows "\<exists>tok'. eats_all mem D (escape_string t) (obj, tok) (obj, tok') \<and> text_at B r (s @ t) tok'"
  using assms
proof (induction t arbitrary: s tok)
  case (Cons c t)
  obtain tok1 where tok1: "eats_all mem D (escape_char c) (obj, tok) (obj, tok1)" "text_at B r (s @ [c]) tok1"
    using text_escaped_char [OF Cons.prems(1,2)] by blast
  obtain tok2 where tok2: "eats_all mem D (escape_string t) (obj, tok1) (obj, tok2)" "text_at B r ((s @ [c]) @ t) tok2"
    using Cons.IH [OF tok1(2) Cons.prems(2)] Cons.prems(3) by auto
  moreover have "escape_string (c # t) = escape_char c @ escape_string t"
    using Cons.prems(3) by (auto simp: escape_string_Cons)
  ultimately show ?case using eats_all_append [OF tok1(1) tok2(1)] by auto
qed auto

section \<open>Reading back values\<close>

text \<open>
  A value has been read when any following character that does not continue a number is treated
  as if the level were waiting, with the value, to finish. Numbers and literals only notice their
  end at that character.
\<close>

definition number_char :: "char \<Rightarrow> bool" where
  "number_char c \<longleftrightarrow> c \<noteq> NUL \<and> strchr_found json_number_chars c"

definition settled ::
  "allocator \<Rightarrow> 'd dbl \<Rightarrow> 'd json \<Rightarrow> 'd json_tokener_srec list \<Rightarrow> 'd json \<times> 'd json_tokener \<Rightarrow> bool" where
  "settled mem D v B s \<longleftrightarrow>
     (\<forall>c. \<not> number_char c \<longrightarrow>
        (\<exists>r tok. tok_at B r tok \<and> state r = json_tokener_state_eatws \<and>
           saved_state r = json_tokener_state_finish \<and> current r = v \<and> err tok = err (snd s) \<and>
           (\<forall>R. eats mem D c (fst s, tok) R \<longrightarrow> eats mem D c s R)))"

lemma settled_now:
  assumes "tok_at B r tok" and "state r = json_tokener_state_eatws"
    and "saved_state r = json_tokener_state_finish" and "current r = v"
  shows "settled mem D v B (obj, tok)"
  using assms by (auto simp: settled_def)

lemma settled_redo:
  assumes "\<And>c. \<not> number_char c \<Longrightarrow> \<exists>tok1. tok_step mem D c obj tok = Redo obj (eat_with json_tokener_state_finish v tok1) \<and>
      tok_at B r tok1 \<and> err tok1 = err tok"
  shows "settled mem D v B (obj, tok)"
  unfolding settled_def
proof (intro allI impI)
  fix c
  assume "\<not> number_char c"
  then obtain tok1 where tok1: "tok_step mem D c obj tok = Redo obj (eat_with json_tokener_state_finish v tok1)"
      "tok_at B r tok1" "err tok1 = err tok"
    using assms by blast
  show "\<exists>r tok'. tok_at B r tok' \<and> state r = json_tokener_state_eatws \<and>
           saved_state r = json_tokener_state_finish \<and> current r = v \<and> err tok' = err (snd (obj, tok)) \<and>
           (\<forall>R. eats mem D c (fst (obj, tok), tok') R \<longrightarrow> eats mem D c (obj, tok) R)"
  proof (intro exI conjI allI impI)
    show "tok_at B (r\<lparr>state := json_tokener_state_eatws, saved_state := json_tokener_state_finish, current := v\<rparr>)
        (eat_with json_tokener_state_finish v tok1)"
      using tok_at_upd_top [OF tok1(2)] by fast
    show "eats mem D c (obj, tok) R" if "eats mem D c (fst (obj, tok), eat_with json_tokener_state_finish v tok1) R" for R
      using eats_redo [OF tok1(1)] that by simp
  qed (simp_all add: tok1(3))
qed

abbreviation level ::
  "json_tokener_state \<Rightarrow> json_tokener_state \<Rightarrow> 'd json \<Rightarrow> string option \<Rightarrow> 'd json_tokener_srec" where
  "level st sv v nm \<equiv> \<lparr>state = st, saved_state = sv, current = v, obj_field_name = nm\<rparr>"

lemma settled_level:
  "tok_at B (level json_tokener_state_eatws json_tokener_state_finish v nm) tok \<Longrightarrow>
   settled mem D v B (obj, tok\<lparr>char_offset := i\<rparr>)"
  using settled_now [of B "level json_tokener_state_eatws json_tokener_state_finish v nm" "tok\<lparr>char_offset := i\<rparr>"]
  by simp

text \<open>
  The character after a value: the level is popped, and the level below, which is waiting to add
  the value, sees the character.
\<close>

lemma settled_pop:
  assumes set: "settled mem D v (B @ [r]) (obj, tok)"
    and c: "\<not> number_char c" "\<not> isspace c" "c \<noteq> CHR ''/''"
    and step: "\<And>tok1. tok_at B r tok1 \<Longrightarrow> \<exists>x. P x \<and> eats mem D c (v, tok1) (Next v (f x))"
  shows "\<exists>x. P x \<and> eats mem D c (obj, tok) (Next v (f x))"
proof -
  obtain r1 t1 where t1: "tok_at (B @ [r]) r1 t1" "state r1 = json_tokener_state_eatws"
      "saved_state r1 = json_tokener_state_finish" "current r1 = v"
      "\<And>R. eats mem D c (obj, t1) R \<Longrightarrow> eats mem D c (obj, tok) R"
    using set c(1) unfolding settled_def by fastforce
  define t2 where "t2 = set_state json_tokener_state_finish t1"
  have at2: "tok_at (B @ [r]) (r1\<lparr>state := json_tokener_state_finish\<rparr>) t2"
    unfolding t2_def using t1(1) by (rule tok_at_upd_top)
  obtain t3 where t3: "case_finish obj t2 = Redo (current (r1\<lparr>state := json_tokener_state_finish\<rparr>)) t3" "tok_at B r t3"
    using tok_at_pop [OF at2] by blast
  obtain x where x: "P x" "eats mem D c (v, t3) (Next v (f x))" using step [OF t3(2)] by blast
  have "tok_step mem D c obj t2 = Redo v t3"
    using tok_step_at(3) [OF at2] t3(1) t1(4) by simp
  then have "eats mem D c (obj, t2) (Next v (f x))" using x(2) by (rule eats_redo)
  then have "eats mem D c (obj, t1) (Next v (f x))"
    using c t1(2,3) by (intro eats_wake [OF t1(1)]) (simp_all add: t2_def)
  with x(1) t1(5) show ?thesis by blast
qed

lemma settled_space:
  assumes "settled mem D v B (obj, tok)"
  shows "\<exists>r tok1. eats mem D (CHR '' '') (obj, tok) (Next obj tok1) \<and> tok_at B r tok1 \<and>
     state r = json_tokener_state_eatws \<and> saved_state r = json_tokener_state_finish \<and> current r = v"
proof -
  have "\<not> number_char (CHR '' '')" by code_simp
  then obtain r tok1 where t: "tok_at B r tok1" "state r = json_tokener_state_eatws"
      "saved_state r = json_tokener_state_finish" "current r = v"
      "\<And>R. eats mem D (CHR '' '') (obj, tok1) R \<Longrightarrow> eats mem D (CHR '' '') (obj, tok) R"
    using assms unfolding settled_def by fastforce
  moreover have "isspace (CHR '' '')" by (simp add: isspace_def)
  ultimately show ?thesis using eats_space [OF t(1,2)] by metis
qed

text \<open>In an array the level below appends the value and looks for a separator.\<close>

lemma eats_array_add:
  assumes at: "tok_at B (level json_tokener_state_array_add sv (JArray js) nm) tok"
    and c: "\<not> isspace c" "c \<noteq> CHR ''/''"
    and step: "\<And>tok1. tok_at B (level json_tokener_state_array_sep json_tokener_state_array_sep (JArray (js @ [v])) nm) tok1 \<Longrightarrow>
       tok_step mem D c v tok1 = Next v (f tok1)"
  shows "\<exists>tok1. tok_at B (level json_tokener_state_array_sep json_tokener_state_array_sep (JArray (js @ [v])) nm) tok1 \<and>
     eats mem D c (v, tok) (Next v (f tok1))"
proof -
  define t1 where "t1 = eat_with json_tokener_state_array_sep (JArray (js @ [v])) tok"
  have s1: "tok_step mem D c v tok = Redo v t1"
    using tok_step_at(11) [OF at] tok_at_top [OF at]
    by (simp add: case_array_add_def json_object_array_add_def t1_def)
  have at1: "tok_at B (level json_tokener_state_eatws json_tokener_state_array_sep (JArray (js @ [v])) nm) t1"
    using tok_at_upd_top [OF at, of "\<lambda>r. r\<lparr>state := json_tokener_state_eatws,
      saved_state := json_tokener_state_array_sep, current := JArray (js @ [v])\<rparr>"] by (simp add: t1_def)
  define t2 where "t2 = set_state json_tokener_state_array_sep t1"
  have at2: "tok_at B (level json_tokener_state_array_sep json_tokener_state_array_sep (JArray (js @ [v])) nm) t2"
    using tok_at_upd_top [OF at1, of "\<lambda>r. r\<lparr>state := json_tokener_state_array_sep\<rparr>"] by (simp add: t2_def)
  have "eats mem D c (v, t2) (Next v (f t2))" using step [OF at2] by (rule eats_step) simp_all
  then have "eats mem D c (v, t1) (Next v (f t2))"
    using c by (intro eats_wake [OF at1]) (simp_all add: t2_def)
  with s1 have "eats mem D c (v, tok) (Next v (f t2))" by (rule eats_redo)
  with at2 show ?thesis by blast
qed

lemma eats_object_add:
  assumes at: "tok_at B (level json_tokener_state_object_value_add sv (JObject kvs) (Some k)) tok"
    and k: "NUL \<notin> set k" and c: "\<not> isspace c" "c \<noteq> CHR ''/''"
    and step: "\<And>tok1. tok_at B (level json_tokener_state_object_sep json_tokener_state_object_sep (JObject (al_put k v kvs)) None) tok1 \<Longrightarrow>
       tok_step mem D c v tok1 = Next v (f tok1)"
  shows "\<exists>tok1. tok_at B (level json_tokener_state_object_sep json_tokener_state_object_sep (JObject (al_put k v kvs)) None) tok1 \<and>
     eats mem D c (v, tok) (Next v (f tok1))"
proof -
  let ?g = "\<lambda>r. r\<lparr>current := JObject (al_put k v kvs), obj_field_name := None,
      saved_state := json_tokener_state_object_sep, state := json_tokener_state_eatws\<rparr>"
  define t1 where "t1 = upd_top ?g tok"
  have s1: "tok_step mem D c v tok = Redo v t1"
    using tok_step_at(17) [OF at] tok_at_top [OF at] k
    by (simp add: case_object_value_add_def json_object_object_add_def t1_def)
  have at1: "tok_at B (level json_tokener_state_eatws json_tokener_state_object_sep (JObject (al_put k v kvs)) None) t1"
    using tok_at_upd_top [OF at, of ?g] by (simp add: t1_def)
  define t2 where "t2 = set_state json_tokener_state_object_sep t1"
  have at2: "tok_at B (level json_tokener_state_object_sep json_tokener_state_object_sep (JObject (al_put k v kvs)) None) t2"
    using tok_at_upd_top [OF at1, of "\<lambda>r. r\<lparr>state := json_tokener_state_object_sep\<rparr>"] by (simp add: t2_def)
  have "eats mem D c (v, t2) (Next v (f t2))" using step [OF at2] by (rule eats_step) simp_all
  then have "eats mem D c (v, t1) (Next v (f t2))"
    using c by (intro eats_wake [OF at1]) (simp_all add: t2_def)
  with s1 have "eats mem D c (v, tok) (Next v (f t2))" by (rule eats_redo)
  with at2 show ?thesis by blast
qed

text \<open>How deep a value nests: an empty array or object opens no level.\<close>

fun jdepth :: "'d json \<Rightarrow> nat" where
  "jdepth (JArray js) = (if js = [] then 0 else Suc (Max (set (map jdepth js))))"
| "jdepth (JObject kvs) = (if kvs = [] then 0 else Suc (Max (set (map (\<lambda>kv. jdepth (snd kv)) kvs))))"
| "jdepth _ = 0"

definition reads :: "allocator \<Rightarrow> 'd dbl \<Rightarrow> 'd json \<Rightarrow> bool" where
  "reads mem D v \<longleftrightarrow> (\<forall>B sv w nm tok obj. tok_at B (level json_tokener_state_start sv w nm) tok \<longrightarrow>
     length B + jdepth v \<le> 31 \<longrightarrow>
     (\<exists>obj' tok'. eats_all mem D (json_text D v) (obj, tok) (obj', tok') \<and> settled mem D v B (obj', tok')))"

text \<open>Numbers.\<close>

definition is_dotted :: "string \<Rightarrow> bool" where
  "is_dotted s \<longleftrightarrow> (\<exists>c\<in>set s. c = CHR ''.'' \<or> c = CHR ''e'' \<or> c = CHR ''E'')"

lemma eats_number_chars:
  assumes "tok_at B r tok" and "state r = json_tokener_state_number" and "\<forall>c\<in>set cs. number_char c"
  shows "\<exists>tok'. eats_all mem D cs (obj, tok) (obj, tok') \<and> tok_at B r tok' \<and> pb tok' = pb tok @ cs \<and>
     is_double tok' = (is_double tok \<or> is_dotted cs)"
  using assms
proof (induction cs arbitrary: tok)
  case (Cons c cs)
  define t where "t = (append_pb [c] tok)\<lparr>is_double := is_double tok \<or> c = CHR ''.'' \<or> c = CHR ''e'' \<or> c = CHR ''E''\<rparr>"
  have step: "tok_step mem D c obj tok = Next obj t"
    using Cons.prems(3) tok_step_at(6) [OF Cons.prems(1,2)] by (simp add: case_number_def number_char_def t_def)
  have e: "eats mem D c (obj, tok) (Next obj t)" using step by (rule eats_step) simp_all
  have "tok_at B r (t\<lparr>char_offset := char_offset t + 1\<rparr>)" using Cons.prems(1) by (simp add: t_def)
  from Cons.IH [OF this Cons.prems(2)] Cons.prems(3)
  obtain tok' where tok': "eats_all mem D cs (obj, t\<lparr>char_offset := char_offset t + 1\<rparr>) (obj, tok')"
      "tok_at B r tok'" "pb tok' = pb t @ cs" "is_double tok' = (is_double t \<or> is_dotted cs)"
    by auto
  have "is_double tok' = (is_double tok \<or> is_dotted (c # cs))"
    using tok'(4) by (auto simp: t_def is_dotted_def)
  moreover have "pb tok' = pb tok @ c # cs" using tok'(3) by (simp add: t_def)
  ultimately show ?case using eats_all_Cons [OF e tok'(1)] tok'(2) by blast
qed (simp add: is_dotted_def)

lemma reads_number:
  assumes s: "json_text D v = s" "s = c # cs" "isdigit c \<or> c = CHR ''-''" "\<forall>c\<in>set s. number_char c"
    and scan: "(if is_dotted s then map_option JDouble (lf_scan D s) else map_option JInt (sscanf_lli s)) = Some v"
    and mem: "mem_total mem"
  shows "reads mem D v"
  unfolding reads_def
proof (intro allI impI)
  fix B :: "'a json_tokener_srec list" and sv w nm tok obj
  assume at: "tok_at B (level json_tokener_state_start sv w nm) tok"
  let ?r = "level json_tokener_state_number sv w nm"
  define t1 where "t1 = set_state json_tokener_state_number (tok\<lparr>pb := [], is_double := False\<rparr>)"
  have at1: "tok_at B ?r t1"
    using tok_at_upd_top [of B "level json_tokener_state_start sv w nm" "tok\<lparr>pb := [], is_double := False\<rparr>"
        "\<lambda>r. r\<lparr>state := json_tokener_state_number\<rparr>"] at by (simp add: t1_def)
  have not_special: "c \<noteq> CHR ''{'' \<and> c \<noteq> CHR ''['' \<and> c \<noteq> CHR ''N'' \<and> c \<noteq> CHR ''n'' \<and> c \<noteq> CHR 0x22 \<and> c \<noteq> CHR 0x27 \<and>
      c \<noteq> CHR ''T'' \<and> c \<noteq> CHR ''t'' \<and> c \<noteq> CHR ''F'' \<and> c \<noteq> CHR ''f''"
    using s(3) by (auto simp: isdigit_def)
  have redo: "tok_step mem D c obj tok = Redo obj t1"
    using s(3) not_special tok_step_at(2) [OF at] by (simp add: case_start_def t1_def)
  obtain tok' where tok': "eats_all mem D s (obj, t1) (obj, tok')" "tok_at B ?r tok'" "pb tok' = s"
      "is_double tok' = is_dotted s"
    using eats_number_chars [OF at1 _ s(4), of mem D obj] by (auto simp: t1_def)
  have "eats_all mem D s (obj, tok) (obj, tok')"
    using tok'(1) unfolding s(2) eats_all.simps by (meson eats_redo [OF redo])
  moreover have "settled mem D v B (obj, tok')"
  proof (rule settled_redo)
    fix x
    assume "\<not> number_char x"
    moreover have "NUL \<notin> set s" using s(4) by (auto simp: number_char_def)
    ultimately have "tok_step mem D x obj tok' = Redo obj (eat_with json_tokener_state_finish v tok')"
      using tok_step_at(6) [OF tok'(2)] tok'(3,4) scan mem
      by (auto simp: case_number_def number_char_def split: if_splits)
    with tok'(2) show "\<exists>tok1. tok_step mem D x obj tok' = Redo obj (eat_with json_tokener_state_finish v tok1) \<and>
        tok_at B ?r tok1 \<and> err tok1 = err tok'"
      by blast
  qed
  ultimately show "\<exists>obj' tok'. eats_all mem D (json_text D v) (obj, tok) (obj', tok') \<and> settled mem D v B (obj', tok')"
    using s(1) by blast
qed

text \<open>Literals: the text collected so far is a prefix of the literal.\<close>

lemma eats_literal:
  assumes step: "\<And>k t. k < length L \<Longrightarrow> tok_at B r t \<Longrightarrow> pb t = take k L \<Longrightarrow> st_pos t = k \<Longrightarrow>
      tok_step mem D (L ! k) obj t = Next obj (t\<lparr>pb := take (Suc k) L, st_pos := Suc k\<rparr>)"
  shows "k \<le> length L \<Longrightarrow> tok_at B r t \<Longrightarrow> pb t = take k L \<Longrightarrow> st_pos t = k \<Longrightarrow>
     \<exists>t'. eats_all mem D (drop k L) (obj, t) (obj, t') \<and> tok_at B r t' \<and> pb t' = L \<and> st_pos t' = length L"
proof (induction "length L - k" arbitrary: k t)
  case (Suc n)
  then have lt: "k < length L" by simp
  define t1 where "t1 = t\<lparr>pb := take (Suc k) L, st_pos := Suc k\<rparr>"
  have "eats mem D (L ! k) (obj, t) (Next obj t1)"
    using step [OF lt Suc.prems(2-4)] unfolding t1_def by (rule eats_step) simp_all
  moreover have "\<exists>t'. eats_all mem D (drop (Suc k) L) (obj, t1\<lparr>char_offset := char_offset t1 + 1\<rparr>) (obj, t') \<and>
      tok_at B r t' \<and> pb t' = L \<and> st_pos t' = length L"
    using Suc.hyps(2) Suc.prems lt by (intro Suc.hyps(1)) (simp_all add: t1_def)
  ultimately show ?case using eats_all_Cons Cons_nth_drop_Suc [OF lt] by metis
qed simp

lemma upd_start:
  assumes "tok_at B (level json_tokener_state_start sv w nm) tok"
  shows "tok_at B (level st sv w nm) (set_state st tok)"
  using tok_at_upd_top [OF assms, of "\<lambda>r. r\<lparr>state := st\<rparr>"] by simp

lemma reads_literal:
  assumes L: "json_text D v = c # cs"
    and start: "\<And>B sv w nm tok obj. tok_at B (level json_tokener_state_start sv w nm) tok \<Longrightarrow>
        tok_step mem D c obj tok = Redo obj (set_state st (tok\<lparr>pb := [], st_pos := 0\<rparr>))"
    and step: "\<And>B r t k obj. k < length (c # cs) \<Longrightarrow> tok_at B r t \<Longrightarrow> state r = st \<Longrightarrow> pb t = take k (c # cs) \<Longrightarrow> st_pos t = k \<Longrightarrow>
      tok_step mem D ((c # cs) ! k) obj t = Next obj (t\<lparr>pb := take (Suc k) (c # cs), st_pos := Suc k\<rparr>)"
    and finish: "\<And>B r t x obj. tok_at B r t \<Longrightarrow> state r = st \<Longrightarrow> pb t = c # cs \<Longrightarrow> st_pos t = length (c # cs) \<Longrightarrow>
      tok_step mem D x obj t = Redo obj (eat_with json_tokener_state_finish v (append_pb [x] t))"
  shows "reads mem D v"
  unfolding reads_def
proof (intro allI impI)
  fix B :: "'a json_tokener_srec list" and sv w nm tok obj
  assume at: "tok_at B (level json_tokener_state_start sv w nm) tok"
  let ?r = "level st sv w nm"
  define t1 where "t1 = set_state st (tok\<lparr>pb := [], st_pos := 0\<rparr>)"
  have at1: "tok_at B ?r t1" using upd_start [of B sv w nm "tok\<lparr>pb := [], st_pos := 0\<rparr>" st] at by (simp add: t1_def)
  have "\<exists>t'. eats_all mem D (drop 0 (c # cs)) (obj, t1) (obj, t') \<and> tok_at B ?r t' \<and> pb t' = c # cs \<and>
      st_pos t' = length (c # cs)"
  proof (rule eats_literal)
    show "tok_step mem D ((c # cs) ! k) obj t = Next obj (t\<lparr>pb := take (Suc k) (c # cs), st_pos := Suc k\<rparr>)"
      if "k < length (c # cs)" "tok_at B ?r t" "pb t = take k (c # cs)" "st_pos t = k" for k t
      by (rule step [OF that(1,2) _ that(3,4)]) simp
  qed (use at1 in \<open>simp_all add: t1_def\<close>)
  then obtain t' where t': "eats_all mem D (c # cs) (obj, t1) (obj, t')" "tok_at B ?r t'" "pb t' = c # cs"
      "st_pos t' = length (c # cs)"
    by auto
  have "eats_all mem D (c # cs) (obj, tok) (obj, t')"
    using t'(1) start [OF at, of obj] unfolding eats_all.simps t1_def by (meson eats_redo)
  moreover have "settled mem D v B (obj, t')"
  proof (rule settled_redo)
    fix x
    have "tok_step mem D x obj t' = Redo obj (eat_with json_tokener_state_finish v (append_pb [x] t'))"
      by (rule finish [OF t'(2) _ t'(3,4)]) simp
    moreover have "tok_at B ?r (append_pb [x] t')" "err (append_pb [x] t') = err t'" using t'(2) by simp_all
    ultimately show "\<exists>tok1. tok_step mem D x obj t' = Redo obj (eat_with json_tokener_state_finish v tok1) \<and>
        tok_at B ?r tok1 \<and> err tok1 = err t'"
      by blast
  qed
  ultimately show "\<exists>obj' tok'. eats_all mem D (json_text D v) (obj, tok) (obj', tok') \<and> settled mem D v B (obj', tok')"
    using L by auto
qed

lemma less_4_cases: "(k::nat) < 4 \<Longrightarrow> k = 0 \<or> k = 1 \<or> k = 2 \<or> k = 3" by auto

lemma less_5_cases: "(k::nat) < 5 \<Longrightarrow> k = 0 \<or> k = 1 \<or> k = 2 \<or> k = 3 \<or> k = 4" by auto

lemma reads_null: "reads mem D JNull"
proof (rule reads_literal [where c = "CHR ''n''" and cs = "''ull''" and st = json_tokener_state_null])
  fix B :: "'a json_tokener_srec list" and r t k obj
  assume k: "k < length ''null''" "tok_at B r t" "state r = json_tokener_state_null" "pb t = take k ''null''" "st_pos t = k"
  then have "k = 0 \<or> k = 1 \<or> k = 2 \<or> k = 3" using less_4_cases by simp
  with k show "tok_step mem D (''null'' ! k) obj t = Next obj (t\<lparr>pb := take (Suc k) ''null'', st_pos := Suc k\<rparr>)"
    by (elim disjE) (simp_all add: tok_step_at(4) case_null_def Let_def numeral_2_eq_2 numeral_3_eq_3)
next
  fix B :: "'a json_tokener_srec list" and r t x obj
  assume "tok_at B r t" "state r = json_tokener_state_null" "pb t = ''null''" "st_pos t = length ''null''"
  then show "tok_step mem D x obj t = Redo obj (eat_with json_tokener_state_finish JNull (append_pb [x] t))"
    by (simp add: tok_step_at(4) case_null_def Let_def eval_nat_numeral)
qed (simp_all add: tok_step_at(2) case_start_def)

lemma reads_true: "mem_total mem \<Longrightarrow> reads mem D (JBoolean True)"
proof (rule reads_literal [where c = "CHR ''t''" and cs = "''rue''" and st = json_tokener_state_boolean])
  fix B :: "'a json_tokener_srec list" and r t k obj
  assume k: "k < length ''true''" "tok_at B r t" "state r = json_tokener_state_boolean" "pb t = take k ''true''" "st_pos t = k"
  then have "k = 0 \<or> k = 1 \<or> k = 2 \<or> k = 3" using less_4_cases by simp
  with k show "tok_step mem D (''true'' ! k) obj t = Next obj (t\<lparr>pb := take (Suc k) ''true'', st_pos := Suc k\<rparr>)"
    by (elim disjE) (simp_all add: tok_step_at(5) case_boolean_def Let_def numeral_2_eq_2 numeral_3_eq_3)
next
  fix B :: "'a json_tokener_srec list" and r t x obj
  assume "mem_total mem" "tok_at B r t" "state r = json_tokener_state_boolean" "pb t = ''true''" "st_pos t = length ''true''"
  then show "tok_step mem D x obj t = Redo obj (eat_with json_tokener_state_finish (JBoolean True) (append_pb [x] t))"
    by (simp add: tok_step_at(5) case_boolean_def Let_def eval_nat_numeral)
qed (simp_all add: tok_step_at(2) case_start_def)

lemma reads_false: "mem_total mem \<Longrightarrow> reads mem D (JBoolean False)"
proof (rule reads_literal [where c = "CHR ''f''" and cs = "''alse''" and st = json_tokener_state_boolean])
  fix B :: "'a json_tokener_srec list" and r t k obj
  assume k: "k < length ''false''" "tok_at B r t" "state r = json_tokener_state_boolean" "pb t = take k ''false''" "st_pos t = k"
  then have "k = 0 \<or> k = 1 \<or> k = 2 \<or> k = 3 \<or> k = 4" using less_5_cases by simp
  with k show "tok_step mem D (''false'' ! k) obj t = Next obj (t\<lparr>pb := take (Suc k) ''false'', st_pos := Suc k\<rparr>)"
    by (elim disjE) (simp_all add: tok_step_at(5) case_boolean_def Let_def eval_nat_numeral tolower_def)
next
  fix B :: "'a json_tokener_srec list" and r t x obj
  assume "mem_total mem" "tok_at B r t" "state r = json_tokener_state_boolean" "pb t = ''false''" "st_pos t = length ''false''"
  then show "tok_step mem D x obj t = Redo obj (eat_with json_tokener_state_finish (JBoolean False) (append_pb [x] t))"
    by (simp add: tok_step_at(5) case_boolean_def Let_def eval_nat_numeral tolower_def)
qed (simp_all add: tok_step_at(2) case_start_def)

text \<open>Strings.\<close>

lemma reads_string:
  assumes s: "NUL \<notin> set s" and mem: "mem_total mem"
  shows "reads mem D (JString s)"
  unfolding reads_def
proof (intro allI impI)
  fix B :: "'a json_tokener_srec list" and sv w nm tok obj
  assume at: "tok_at B (level json_tokener_state_start sv w nm) tok"
  let ?r = "level json_tokener_state_string sv w nm"
  define t1 where "t1 = set_state json_tokener_state_string (tok\<lparr>pb := [], quote_char := CHR 0x22\<rparr>)"
  have e1: "eats mem D (CHR 0x22) (obj, tok) (Next obj t1)"
    by (rule eats_step) (simp_all add: tok_step_at(2) [OF at] case_start_def t1_def)
  have "tok_at B ?r t1"
    using upd_start [of B sv w nm "tok\<lparr>pb := [], quote_char := CHR 0x22\<rparr>"] at by (simp add: t1_def)
  then have "tok_at B (?r\<lparr>saved_state := sv\<rparr>) t1" by simp
  then have "text_at B ?r [] (t1\<lparr>char_offset := char_offset t1 + 1\<rparr>)"
    unfolding text_at_def by (auto simp: t1_def)
  then obtain t2 where t2: "eats_all mem D (escape_string s) (obj, t1\<lparr>char_offset := char_offset t1 + 1\<rparr>) (obj, t2)"
      "text_at B ?r s t2"
    using text_escaped_string [of B ?r "[]" "t1\<lparr>char_offset := char_offset t1 + 1\<rparr>" s mem D obj] s
    by (auto simp: in_text_def simp del: text_at_offset)
  then obtain sv2 where sv2: "tok_at B (level json_tokener_state_string sv2 w nm) t2" "quote_char t2 = CHR 0x22" "pb t2 = s"
    by (auto simp: text_at_def)
  define t3 where "t3 = eat_with json_tokener_state_finish (JString s) t2"
  have e3: "eats mem D (CHR 0x22) (obj, t2) (Next obj t3)"
    using sv2 s mem by (intro eats_step) (simp_all add: tok_step_at(7) [OF sv2(1)] case_string_def t3_def)
  have "tok_at B (level json_tokener_state_eatws json_tokener_state_finish (JString s) nm) (t3\<lparr>char_offset := char_offset t3 + 1\<rparr>)"
    using tok_at_upd_top [OF sv2(1), of "\<lambda>r. r\<lparr>state := json_tokener_state_eatws, saved_state := json_tokener_state_finish, current := JString s\<rparr>"]
    by (simp add: t3_def)
  then have "settled mem D (JString s) B (obj, t3\<lparr>char_offset := char_offset t3 + 1\<rparr>)"
    by (rule settled_now) simp_all
  moreover have "eats_all mem D (json_text D (JString s)) (obj, tok) (obj, t3\<lparr>char_offset := char_offset t3 + 1\<rparr>)"
    using eats_all_Cons [OF e1 eats_all_append [OF t2(1) eats_all_single [OF e3]]] by (simp add: quoted_def)
  ultimately show "\<exists>obj' tok'. eats_all mem D (json_text D (JString s)) (obj, tok) (obj', tok') \<and>
      settled mem D (JString s) B (obj', tok')"
    by blast
qed

text \<open>A value inside an array or object: its first character opens a level for it.\<close>

definition opens :: "char \<Rightarrow> bool" where
  "opens c \<longleftrightarrow> \<not> isspace c \<and> c \<noteq> CHR ''/'' \<and> c \<noteq> CHR '']''"

lemma read_pushed:
  assumes reads: "reads mem D v" and first: "json_text D v = c # cs" "opens c"
    and d: "length B + 1 + jdepth v \<le> 31"
    and at: "tok_at B r tok" and st: "state r = json_tokener_state_eatws"
    and push: "\<And>t. tok_at B (r\<lparr>state := saved_state r\<rparr>) t \<Longrightarrow> tok_step mem D c obj t = push_level st obj t"
  shows "\<exists>obj' tok'. eats_all mem D (json_text D v) (obj, tok) (obj', tok') \<and>
     settled mem D v (B @ [r\<lparr>state := st\<rparr>]) (obj', tok')"
proof -
  have c: "\<not> isspace c" "c \<noteq> CHR ''/''" using first(2) by (auto simp: opens_def)
  define t1 where "t1 = set_state (saved_state r) tok"
  have at1: "tok_at B (r\<lparr>state := saved_state r\<rparr>) t1" unfolding t1_def using at by (rule tok_at_upd_top)
  obtain t2 where t2: "push_level st obj t1 = Redo obj t2"
      "tok_at (B @ [r\<lparr>state := saved_state r, state := st\<rparr>]) fresh_level t2"
    using tok_at_push [OF at1, of st obj] d by auto
  define t3 where "t3 = set_state json_tokener_state_start t2"
  have at3: "tok_at (B @ [r\<lparr>state := st\<rparr>]) (level json_tokener_state_start json_tokener_state_start JNull None) t3"
    using tok_at_upd_top [OF t2(2), of "\<lambda>r. r\<lparr>state := json_tokener_state_start\<rparr>"] by (simp add: t3_def fresh_level_def)
  have "length (B @ [r\<lparr>state := st\<rparr>]) + jdepth v \<le> 31" using d by simp
  with reads at3 obtain obj' tok' where r: "eats_all mem D (c # cs) (obj, t3) (obj', tok')"
      "settled mem D v (B @ [r\<lparr>state := st\<rparr>]) (obj', tok')"
    unfolding reads_def first(1) by metis
  have "eats mem D c (obj, tok) R" if R: "eats mem D c (obj, t3) R" for R
  proof -
    have "eats mem D c (obj, t2) R"
      by (rule eats_wake [OF t2(2)]) (use R c in \<open>simp_all add: t3_def fresh_level_def\<close>)
    moreover have "tok_step mem D c obj t1 = Redo obj t2" using push [OF at1] t2(1) by simp
    ultimately have "eats mem D c (obj, t1) R" by (rule eats_redo [rotated])
    then show ?thesis by (intro eats_wake [OF at st c]) (simp add: t1_def)
  qed
  with r(1) have "eats_all mem D (c # cs) (obj, tok) (obj', tok')"
    unfolding eats_all.simps by blast
  with r(2) first(1) show ?thesis by auto
qed

lemma read_in_array:
  assumes "reads mem D v" and "json_text D v = c # cs" and "opens c" and "length B + 1 + jdepth v \<le> 31"
    and at: "tok_at B (level json_tokener_state_eatws json_tokener_state_array (JArray js) nm) tok"
  shows "\<exists>obj' tok'. eats_all mem D (json_text D v) (obj, tok) (obj', tok') \<and>
     settled mem D v (B @ [level json_tokener_state_array_add json_tokener_state_array (JArray js) nm]) (obj', tok')"
proof -
  have "\<exists>obj' tok'. eats_all mem D (json_text D v) (obj, tok) (obj', tok') \<and> settled mem D v
      (B @ [(level json_tokener_state_eatws json_tokener_state_array (JArray js) nm)\<lparr>state := json_tokener_state_array_add\<rparr>]) (obj', tok')"
  proof (rule read_pushed [OF assms(1-4) at])
    show "tok_step mem D c obj t = push_level json_tokener_state_array_add obj t"
      if "tok_at B ((level json_tokener_state_eatws json_tokener_state_array (JArray js) nm)
         \<lparr>state := saved_state (level json_tokener_state_eatws json_tokener_state_array (JArray js) nm)\<rparr>) t" for t
      using tok_step_at(10) [OF that, of mem D c obj] assms(3) by (simp add: case_array_def opens_def)
  qed simp
  then show ?thesis by simp
qed

text \<open>The separators of an array and of an object.\<close>

lemma array_separator:
  assumes set: "settled mem D v (B @ [level json_tokener_state_array_add sv (JArray js) nm]) (obj, tok)"
    and c: "\<not> number_char c" "\<not> isspace c" "c \<noteq> CHR ''/''"
    and step: "\<And>t. case_array_sep c v t = Next v (eat_then st t)"
  shows "\<exists>t. eats mem D c (obj, tok) (Next v t) \<and>
     tok_at B (level json_tokener_state_eatws st (JArray (js @ [v])) nm) t"
proof -
  let ?sep = "level json_tokener_state_array_sep json_tokener_state_array_sep (JArray (js @ [v])) nm"
  have sep: "tok_step mem D c v t = Next v (eat_then st t)" if "tok_at B ?sep t" for t
    using tok_step_at(12) [OF that] step by simp
  have "\<exists>x. tok_at B ?sep x \<and> eats mem D c (obj, tok) (Next v (eat_then st x))"
  proof (rule settled_pop [OF set c])
    fix t1
    assume "tok_at B (level json_tokener_state_array_add sv (JArray js) nm) t1"
    then show "\<exists>x. tok_at B ?sep x \<and> eats mem D c (v, t1) (Next v (eat_then st x))"
      using c(2,3) sep by (rule eats_array_add)
  qed
  then obtain t where t: "tok_at B ?sep t" "eats mem D c (obj, tok) (Next v (eat_then st t))" by blast
  moreover have "tok_at B (level json_tokener_state_eatws st (JArray (js @ [v])) nm) (eat_then st t)"
    using tok_at_upd_top [OF t(1), of "\<lambda>r. r\<lparr>state := json_tokener_state_eatws, saved_state := st\<rparr>"] by simp
  ultimately show ?thesis by blast
qed

lemma object_separator:
  assumes set: "settled mem D v (B @ [level json_tokener_state_object_value_add sv (JObject kvs) (Some k)]) (obj, tok)"
    and k: "NUL \<notin> set k" and c: "\<not> number_char c" "\<not> isspace c" "c \<noteq> CHR ''/''"
    and step: "\<And>t. case_object_sep c v t = Next v (eat_then st t)"
  shows "\<exists>t. eats mem D c (obj, tok) (Next v t) \<and>
     tok_at B (level json_tokener_state_eatws st (JObject (al_put k v kvs)) None) t"
proof -
  let ?sep = "level json_tokener_state_object_sep json_tokener_state_object_sep (JObject (al_put k v kvs)) None"
  have sep: "tok_step mem D c v t = Next v (eat_then st t)" if "tok_at B ?sep t" for t
    using tok_step_at(18) [OF that] step by simp
  have "\<exists>x. tok_at B ?sep x \<and> eats mem D c (obj, tok) (Next v (eat_then st x))"
  proof (rule settled_pop [OF set c])
    fix t1
    assume "tok_at B (level json_tokener_state_object_value_add sv (JObject kvs) (Some k)) t1"
    then show "\<exists>x. tok_at B ?sep x \<and> eats mem D c (v, t1) (Next v (eat_then st x))"
      using k c(2,3) sep by (rule eats_object_add)
  qed
  then obtain t where t: "tok_at B ?sep t" "eats mem D c (obj, tok) (Next v (eat_then st t))" by blast
  moreover have "tok_at B (level json_tokener_state_eatws st (JObject (al_put k v kvs)) None) (eat_then st t)"
    using tok_at_upd_top [OF t(1), of "\<lambda>r. r\<lparr>state := json_tokener_state_eatws, saved_state := st\<rparr>"] by simp
  ultimately show ?thesis by blast
qed

lemma separators:
  "\<not> number_char (CHR '','')" "\<not> isspace (CHR '','')" "\<not> number_char (CHR '']'')" "\<not> isspace (CHR '']'')"
  "\<not> number_char (CHR ''}'')" "\<not> isspace (CHR ''}'')" "isspace (CHR '' '')"
  by code_simp+

lemma next_space:
  assumes "tok_at B r t" and "state r = json_tokener_state_eatws"
  shows "\<exists>t'. eats_all mem D '' '' (obj, t\<lparr>char_offset := i\<rparr>) (obj, t') \<and> tok_at B r t'"
proof -
  have "tok_at B r (t\<lparr>char_offset := i\<rparr>)" using assms(1) by simp
  moreover have "tok_at B r (t\<lparr>char_offset := i + 1\<rparr>)" using assms(1) by simp
  ultimately show ?thesis
    using eats_all_single [OF eats_space [OF _ assms(2) separators(7), of B "t\<lparr>char_offset := i\<rparr>" mem D obj]] by auto
qed

lemma array_comma:
  assumes "settled mem D v (B @ [level json_tokener_state_array_add sv (JArray js) nm]) (obj, tok)"
  shows "\<exists>obj' tok'. eats_all mem D '', '' (obj, tok) (obj', tok') \<and>
     tok_at B (level json_tokener_state_eatws json_tokener_state_array (JArray (js @ [v])) nm) tok'"
proof -
  obtain t where t: "eats mem D (CHR '','') (obj, tok) (Next v t)"
      "tok_at B (level json_tokener_state_eatws json_tokener_state_array (JArray (js @ [v])) nm) t"
    using array_separator [OF assms separators(1,2)] by (auto simp: case_array_sep_def)
  obtain t' where "eats_all mem D '' '' (v, t\<lparr>char_offset := char_offset t + 1\<rparr>) (v, t')"
      "tok_at B (level json_tokener_state_eatws json_tokener_state_array (JArray (js @ [v])) nm) t'"
    using next_space [OF t(2)] by fastforce
  with eats_all_Cons [OF t(1)] show ?thesis by blast
qed

text \<open>The closing bracket comes after a space, which a waiting level skips.\<close>

lemma settled_after_space:
  assumes "settled mem D v B (obj, tok)"
  shows "\<exists>t. eats_all mem D '' '' (obj, tok) (obj, t) \<and> settled mem D v B (obj, t)"
proof -
  obtain r t where t: "eats mem D (CHR '' '') (obj, tok) (Next obj t)" "tok_at B r t"
      "state r = json_tokener_state_eatws" "saved_state r = json_tokener_state_finish" "current r = v"
    using settled_space [OF assms] by blast
  have "settled mem D v B (obj, t\<lparr>char_offset := char_offset t + 1\<rparr>)"
    using t by (intro settled_now [of B r]) simp_all
  with eats_all_single [OF t(1)] show ?thesis by blast
qed

lemma array_close:
  assumes "settled mem D v (B @ [level json_tokener_state_array_add sv (JArray js) nm]) (obj, tok)"
  shows "\<exists>obj' tok'. eats_all mem D '' ]'' (obj, tok) (obj', tok') \<and> settled mem D (JArray (js @ [v])) B (obj', tok')"
proof -
  obtain t1 where t1: "eats_all mem D '' '' (obj, tok) (obj, t1)"
      "settled mem D v (B @ [level json_tokener_state_array_add sv (JArray js) nm]) (obj, t1)"
    using settled_after_space [OF assms] by blast
  obtain t where t: "eats mem D (CHR '']'') (obj, t1) (Next v t)"
      "tok_at B (level json_tokener_state_eatws json_tokener_state_finish (JArray (js @ [v])) nm) t"
    using array_separator [OF t1(2) separators(3,4)] by (auto simp: case_array_sep_def)
  have "settled mem D (JArray (js @ [v])) B (v, t\<lparr>char_offset := char_offset t + 1\<rparr>)"
    using t(2) by (rule settled_level)
  with eats_all_append [OF t1(1) eats_all_single [OF t(1)]] show ?thesis by auto
qed

lemma array_close_empty:
  assumes at: "tok_at B (level json_tokener_state_eatws json_tokener_state_array (JArray js) nm) tok"
  shows "\<exists>obj' tok'. eats_all mem D '' ]'' (obj, tok) (obj', tok') \<and> settled mem D (JArray js) B (obj', tok')"
proof -
  obtain t1 where t1: "eats_all mem D '' '' (obj, tok) (obj, t1)"
      "tok_at B (level json_tokener_state_eatws json_tokener_state_array (JArray js) nm) t1"
    using next_space [OF at, of mem D obj "char_offset tok"] by auto
  define t2 where "t2 = eat_then json_tokener_state_finish (set_state json_tokener_state_array t1)"
  have at2: "tok_at B (level json_tokener_state_array json_tokener_state_array (JArray js) nm) (set_state json_tokener_state_array t1)"
    using tok_at_upd_top [OF t1(2), of "\<lambda>r. r\<lparr>state := json_tokener_state_array\<rparr>"] by simp
  have "eats mem D (CHR '']'') (obj, set_state json_tokener_state_array t1) (Next obj t2)"
    by (rule eats_step) (simp_all add: tok_step_at(10) [OF at2] case_array_def t2_def)
  then have e: "eats mem D (CHR '']'') (obj, t1) (Next obj t2)"
    by (intro eats_wake [OF t1(2) _ separators(4)]) simp_all
  have "tok_at B (level json_tokener_state_eatws json_tokener_state_finish (JArray js) nm) t2"
    using tok_at_upd_top [OF at2, of "\<lambda>r. r\<lparr>state := json_tokener_state_eatws, saved_state := json_tokener_state_finish\<rparr>"]
    by (simp add: t2_def)
  then have "settled mem D (JArray js) B (obj, t2\<lparr>char_offset := char_offset t2 + 1\<rparr>)"
    by (rule settled_level)
  with eats_all_append [OF t1(1) eats_all_single [OF e]] show ?thesis by auto
qed

lemma reads_elements:
  assumes "\<forall>j\<in>set js. reads mem D j \<and> (\<exists>c cs. json_text D j = c # cs \<and> opens c) \<and> length B + 1 + jdepth j \<le> 31"
    and "settled mem D v (B @ [level json_tokener_state_array_add sv (JArray js0) nm]) (obj, tok)"
  shows "\<exists>obj' tok'. eats_all mem D (elements_text D False js @ '' ]'') (obj, tok) (obj', tok') \<and>
     settled mem D (JArray (js0 @ v # js)) B (obj', tok')"
  using assms
proof (induction js arbitrary: v js0 obj tok sv)
  case Nil
  from array_close [OF Nil(2)] show ?case by simp
next
  case (Cons j js)
  obtain obj1 tok1 where t1: "eats_all mem D '', '' (obj, tok) (obj1, tok1)"
      "tok_at B (level json_tokener_state_eatws json_tokener_state_array (JArray (js0 @ [v])) nm) tok1"
    using array_comma [OF Cons.prems(2)] by blast
  obtain c cs where c: "json_text D j = c # cs" "opens c" using Cons.prems(1) by auto
  have "reads mem D j" "length B + 1 + jdepth j \<le> 31" using Cons.prems(1) by simp_all
  from read_in_array [OF this(1) c this(2) t1(2)]
  obtain obj2 tok2 where t2: "eats_all mem D (json_text D j) (obj1, tok1) (obj2, tok2)"
      "settled mem D j (B @ [level json_tokener_state_array_add json_tokener_state_array (JArray (js0 @ [v])) nm]) (obj2, tok2)"
    by blast
  obtain obj3 tok3 where t3: "eats_all mem D (elements_text D False js @ '' ]'') (obj2, tok2) (obj3, tok3)"
      "settled mem D (JArray ((js0 @ [v]) @ j # js)) B (obj3, tok3)"
    using Cons.IH [OF _ t2(2)] Cons.prems(1) by auto
  from eats_all_append [OF t1(1) eats_all_append [OF t2(1) t3(1)]] t3(2) show ?case
    by (intro exI [of _ obj3] exI [of _ tok3]) simp
qed

lemma reads_array:
  assumes js: "\<forall>j\<in>set js. reads mem D j \<and> (\<exists>c cs. json_text D j = c # cs \<and> opens c)" and mem: "mem_total mem"
  shows "reads mem D (JArray js)"
  unfolding reads_def
proof (intro allI impI)
  fix B :: "'a json_tokener_srec list" and sv w nm tok obj
  assume at: "tok_at B (level json_tokener_state_start sv w nm) tok" and d: "length B + jdepth (JArray js) \<le> 31"
  define t1 where "t1 = eat_with json_tokener_state_array (JArray []) tok"
  have e1: "eats mem D (CHR ''['') (obj, tok) (Next obj t1)"
    using mem by (intro eats_step) (simp_all add: tok_step_at(2) [OF at] case_start_def t1_def)
  have at1: "tok_at B (level json_tokener_state_eatws json_tokener_state_array (JArray []) nm) (t1\<lparr>char_offset := char_offset t1 + 1\<rparr>)"
    using tok_at_upd_top [OF at, of "\<lambda>r. r\<lparr>state := json_tokener_state_eatws, saved_state := json_tokener_state_array, current := JArray []\<rparr>"]
    by (simp add: t1_def)
  have "\<exists>obj' tok'. eats_all mem D (elements_text D True js @ '' ]'') (obj, t1\<lparr>char_offset := char_offset t1 + 1\<rparr>) (obj', tok') \<and>
      settled mem D (JArray js) B (obj', tok')"
  proof (cases js)
    case Nil
    then show ?thesis using array_close_empty [OF at1] by simp
  next
    case (Cons j js')
    have depth: "length B + 1 + jdepth x \<le> 31" if "x \<in> set js" for x
    proof -
      have "jdepth x \<le> Max (set (map jdepth js))" using that by (intro Max_ge) auto
      moreover have "jdepth (JArray js) = Suc (Max (set (map jdepth js)))" using Cons by simp
      ultimately show ?thesis using d by linarith
    qed
    obtain t2 where t2: "eats_all mem D '' '' (obj, t1\<lparr>char_offset := char_offset t1 + 1\<rparr>) (obj, t2)"
        "tok_at B (level json_tokener_state_eatws json_tokener_state_array (JArray []) nm) t2"
      using next_space [OF at1, of mem D obj "char_offset t1 + 1"] by auto
    obtain c cs where c: "json_text D j = c # cs" "opens c" and "reads mem D j" using js Cons by auto
    moreover have "length B + 1 + jdepth j \<le> 31" using depth Cons by simp
    ultimately obtain obj3 t3 where t3: "eats_all mem D (json_text D j) (obj, t2) (obj3, t3)"
        "settled mem D j (B @ [level json_tokener_state_array_add json_tokener_state_array (JArray []) nm]) (obj3, t3)"
      using read_in_array [of mem D j c cs B "[]" nm t2 obj] t2(2) by blast
    obtain obj4 t4 where t4: "eats_all mem D (elements_text D False js' @ '' ]'') (obj3, t3) (obj4, t4)"
        "settled mem D (JArray ([] @ j # js')) B (obj4, t4)"
      using reads_elements [OF _ t3(2), of js'] js depth Cons by auto
    from eats_all_append [OF t2(1) eats_all_append [OF t3(1) t4(1)]] t4(2) Cons show ?thesis
      by (intro exI [of _ obj4] exI [of _ t4]) simp
  qed
  then obtain obj' tok' where "eats_all mem D (elements_text D True js @ '' ]'') (obj, t1\<lparr>char_offset := char_offset t1 + 1\<rparr>) (obj', tok')"
      "settled mem D (JArray js) B (obj', tok')" by blast
  with eats_all_Cons [OF e1 this(1)]
  show "\<exists>obj' tok'. eats_all mem D (json_text D (JArray js)) (obj, tok) (obj', tok') \<and> settled mem D (JArray js) B (obj', tok')"
    by auto
qed

text \<open>Objects: the member name, the colon, and the value at a new level.\<close>

lemma read_member:
  assumes reads: "reads mem D v" and first: "json_text D v = c # cs" "opens c"
    and d: "length B + 1 + jdepth v \<le> 31" and k: "NUL \<notin> set k"
    and at: "tok_at B (level json_tokener_state_eatws json_tokener_state_object_field_start (JObject kvs) nm) tok"
  shows "\<exists>obj' tok'. eats_all mem D (quoted k @ '': '' @ json_text D v) (obj, tok) (obj', tok') \<and>
     settled mem D v (B @ [level json_tokener_state_object_value_add json_tokener_state_object_value (JObject kvs) (Some k)]) (obj', tok')"
proof -
  let ?q = "CHR 0x22" and ?f = "json_tokener_state_object_field"
  define t1 where "t1 = set_state json_tokener_state_object_field_start tok"
  have at1: "tok_at B (level json_tokener_state_object_field_start json_tokener_state_object_field_start (JObject kvs) nm) t1"
    using tok_at_upd_top [OF at, of "\<lambda>r. r\<lparr>state := json_tokener_state_object_field_start\<rparr>"] by (simp add: t1_def)
  define t2 where "t2 = set_state ?f (t1\<lparr>quote_char := ?q, pb := []\<rparr>)"
  have "eats mem D ?q (obj, t1) (Next obj t2)"
    by (rule eats_step) (simp_all add: tok_step_at(13) [OF at1] case_object_field_start_def t2_def)
  then have e1: "eats mem D ?q (obj, tok) (Next obj t2)"
    by (intro eats_wake [OF at]) (simp_all add: isspace_def t1_def)
  have "tok_at B (level json_tokener_state_object_field_start json_tokener_state_object_field_start (JObject kvs) nm)
      (t1\<lparr>quote_char := ?q, pb := []\<rparr>)"
    using at1 by simp
  from tok_at_upd_top [OF this, of "\<lambda>r. r\<lparr>state := ?f\<rparr>"]
  have at2: "tok_at B (level ?f json_tokener_state_object_field_start (JObject kvs) nm) t2" by (simp add: t2_def)
  define t2' where "t2' = t2\<lparr>char_offset := char_offset t2 + 1\<rparr>"
  have "text_at B (level ?f json_tokener_state_object_field_start (JObject kvs) nm) [] t2'"
    using at2 unfolding text_at_def t2'_def
    by (intro conjI exI [of _ json_tokener_state_object_field_start]) (simp_all add: t2_def)
  then obtain t3 where t3: "eats_all mem D (escape_string k) (obj, t2') (obj, t3)"
      "text_at B (level ?f json_tokener_state_object_field_start (JObject kvs) nm) k t3"
    using text_escaped_string [of B _ "[]" t2' k mem D obj] k by (fastforce simp: in_text_def)
  then obtain sv where sv: "tok_at B (level ?f sv (JObject kvs) nm) t3" "quote_char t3 = ?q" "pb t3 = k"
    by (auto simp: text_at_def)
  let ?g = "\<lambda>r. r\<lparr>obj_field_name := Some k, saved_state := json_tokener_state_object_field_end, state := json_tokener_state_eatws\<rparr>"
  define t4 where "t4 = upd_top ?g t3"
  have e3: "eats mem D ?q (obj, t3) (Next obj t4)"
    using sv k by (intro eats_step) (simp_all add: tok_step_at(14) [OF sv(1)] case_object_field_def t4_def)
  have at4: "tok_at B (level json_tokener_state_eatws json_tokener_state_object_field_end (JObject kvs) (Some k)) (t4\<lparr>char_offset := char_offset t4 + 1\<rparr>)"
    using tok_at_upd_top [OF sv(1), of ?g] by (simp add: t4_def)
  define t5 where "t5 = set_state json_tokener_state_object_field_end (t4\<lparr>char_offset := char_offset t4 + 1\<rparr>)"
  have at5: "tok_at B (level json_tokener_state_object_field_end json_tokener_state_object_field_end (JObject kvs) (Some k)) t5"
    using tok_at_upd_top [OF at4, of "\<lambda>r. r\<lparr>state := json_tokener_state_object_field_end\<rparr>"] by (simp add: t5_def)
  define t6 where "t6 = eat_then json_tokener_state_object_value t5"
  have "eats mem D (CHR '':'') (obj, t5) (Next obj t6)"
    by (rule eats_step) (simp_all add: tok_step_at(15) [OF at5] case_object_field_end_def t6_def)
  then have e5: "eats mem D (CHR '':'') (obj, t4\<lparr>char_offset := char_offset t4 + 1\<rparr>) (Next obj t6)"
    by (intro eats_wake [OF at4]) (simp_all add: isspace_def t5_def)
  have "tok_at B (level json_tokener_state_eatws json_tokener_state_object_value (JObject kvs) (Some k)) t6"
    using tok_at_upd_top [OF at5, of "\<lambda>r. r\<lparr>state := json_tokener_state_eatws, saved_state := json_tokener_state_object_value\<rparr>"]
    by (simp add: t6_def)
  then obtain t7 where t7: "eats_all mem D '' '' (obj, t6\<lparr>char_offset := char_offset t6 + 1\<rparr>) (obj, t7)"
      "tok_at B (level json_tokener_state_eatws json_tokener_state_object_value (JObject kvs) (Some k)) t7"
    using next_space [of B _ t6 mem D obj] by fastforce
  have "\<exists>obj' tok'. eats_all mem D (json_text D v) (obj, t7) (obj', tok') \<and> settled mem D v
      (B @ [(level json_tokener_state_eatws json_tokener_state_object_value (JObject kvs) (Some k))\<lparr>state := json_tokener_state_object_value_add\<rparr>]) (obj', tok')"
  proof (rule read_pushed [OF reads first d t7(2)])
    show "tok_step mem D c obj t = push_level json_tokener_state_object_value_add obj t"
      if "tok_at B ((level json_tokener_state_eatws json_tokener_state_object_value (JObject kvs) (Some k))
         \<lparr>state := saved_state (level json_tokener_state_eatws json_tokener_state_object_value (JObject kvs) (Some k))\<rparr>) t" for t
      using tok_step_at(16) [OF that, of mem D c obj] by simp
  qed simp
  then obtain obj' tok' where v: "eats_all mem D (json_text D v) (obj, t7) (obj', tok')"
      "settled mem D v (B @ [level json_tokener_state_object_value_add json_tokener_state_object_value (JObject kvs) (Some k)]) (obj', tok')"
    by auto
  note eats_all_Cons [OF e1 eats_all_append [OF t3(1) [unfolded t2'_def] eats_all_Cons [OF e3 eats_all_Cons [OF e5
      eats_all_append [OF t7(1) v(1)]]]]]
  with v(2) show ?thesis by (intro exI [of _ obj'] exI [of _ tok']) (simp add: quoted_def)
qed

lemma object_close_empty:
  assumes at: "tok_at B (level json_tokener_state_eatws json_tokener_state_object_field_start (JObject kvs) nm) tok"
  shows "\<exists>obj' tok'. eats_all mem D '' }'' (obj, tok) (obj', tok') \<and> settled mem D (JObject kvs) B (obj', tok')"
proof -
  obtain t1 where t1: "eats_all mem D '' '' (obj, tok) (obj, t1)"
      "tok_at B (level json_tokener_state_eatws json_tokener_state_object_field_start (JObject kvs) nm) t1"
    using next_space [OF at, of mem D obj "char_offset tok"] by auto
  let ?t = "set_state json_tokener_state_object_field_start t1"
  define t2 where "t2 = eat_then json_tokener_state_finish ?t"
  have at2: "tok_at B (level json_tokener_state_object_field_start json_tokener_state_object_field_start (JObject kvs) nm) ?t"
    using tok_at_upd_top [OF t1(2), of "\<lambda>r. r\<lparr>state := json_tokener_state_object_field_start\<rparr>"] by simp
  have "eats mem D (CHR ''}'') (obj, ?t) (Next obj t2)"
    by (rule eats_step) (simp_all add: tok_step_at(13) [OF at2] case_object_field_start_def t2_def)
  then have e: "eats mem D (CHR ''}'') (obj, t1) (Next obj t2)"
    by (intro eats_wake [OF t1(2) _ separators(6)]) simp_all
  have "tok_at B (level json_tokener_state_eatws json_tokener_state_finish (JObject kvs) nm) t2"
    using tok_at_upd_top [OF at2, of "\<lambda>r. r\<lparr>state := json_tokener_state_eatws, saved_state := json_tokener_state_finish\<rparr>"]
    by (simp add: t2_def)
  then have "settled mem D (JObject kvs) B (obj, t2\<lparr>char_offset := char_offset t2 + 1\<rparr>)"
    by (rule settled_level)
  with eats_all_append [OF t1(1) eats_all_single [OF e]] show ?thesis by auto
qed

lemma object_close:
  assumes "settled mem D v (B @ [level json_tokener_state_object_value_add sv (JObject kvs) (Some k)]) (obj, tok)"
    and k: "NUL \<notin> set k"
  shows "\<exists>obj' tok'. eats_all mem D '' }'' (obj, tok) (obj', tok') \<and> settled mem D (JObject (al_put k v kvs)) B (obj', tok')"
proof -
  obtain t1 where t1: "eats_all mem D '' '' (obj, tok) (obj, t1)"
      "settled mem D v (B @ [level json_tokener_state_object_value_add sv (JObject kvs) (Some k)]) (obj, t1)"
    using settled_after_space [OF assms(1)] by blast
  obtain t where t: "eats mem D (CHR ''}'') (obj, t1) (Next v t)"
      "tok_at B (level json_tokener_state_eatws json_tokener_state_finish (JObject (al_put k v kvs)) None) t"
    using object_separator [OF t1(2) k separators(5,6)] by (auto simp: case_object_sep_def)
  have "settled mem D (JObject (al_put k v kvs)) B (v, t\<lparr>char_offset := char_offset t + 1\<rparr>)"
    using t(2) by (rule settled_level)
  with eats_all_append [OF t1(1) eats_all_single [OF t(1)]] show ?thesis by auto
qed

lemma object_comma:
  assumes "settled mem D v (B @ [level json_tokener_state_object_value_add sv (JObject kvs) (Some k)]) (obj, tok)"
    and k: "NUL \<notin> set k"
  shows "\<exists>obj' tok'. eats_all mem D '', '' (obj, tok) (obj', tok') \<and>
     tok_at B (level json_tokener_state_eatws json_tokener_state_object_field_start (JObject (al_put k v kvs)) None) tok'"
proof -
  let ?r = "level json_tokener_state_eatws json_tokener_state_object_field_start (JObject (al_put k v kvs)) None"
  obtain t where t: "eats mem D (CHR '','') (obj, tok) (Next v t)" "tok_at B ?r t"
    using object_separator [OF assms separators(1,2)] by (auto simp: case_object_sep_def)
  obtain t' where "eats_all mem D '' '' (v, t\<lparr>char_offset := char_offset t + 1\<rparr>) (v, t')" "tok_at B ?r t'"
    using next_space [OF t(2)] by fastforce
  with eats_all_Cons [OF t(1)] show ?thesis by blast
qed

definition member_ok :: "allocator \<Rightarrow> 'd dbl \<Rightarrow> nat \<Rightarrow> string \<times> 'd json \<Rightarrow> bool" where
  "member_ok mem D n kv \<longleftrightarrow> NUL \<notin> set (fst kv) \<and> reads mem D (snd kv) \<and>
     (\<exists>c cs. json_text D (snd kv) = c # cs \<and> opens c) \<and> n + 1 + jdepth (snd kv) \<le> 31"

lemma read_member_ok:
  assumes "member_ok mem D (length B) kv"
    and "tok_at B (level json_tokener_state_eatws json_tokener_state_object_field_start (JObject kvs) nm) tok"
  shows "\<exists>obj' tok'. eats_all mem D (quoted (fst kv) @ '': '' @ json_text D (snd kv)) (obj, tok) (obj', tok') \<and>
     settled mem D (snd kv) (B @ [level json_tokener_state_object_value_add json_tokener_state_object_value (JObject kvs) (Some (fst kv))]) (obj', tok')"
  using assms(1) read_member [OF _ _ _ _ _ assms(2), of mem D "snd kv" _ _ "fst kv" obj]
  unfolding member_ok_def by blast

lemma reads_members:
  assumes "\<forall>kv\<in>set kvs. member_ok mem D (length B) kv" and "NUL \<notin> set k"
    and "distinct (map fst (kvs0 @ (k, v) # kvs))"
    and "settled mem D v (B @ [level json_tokener_state_object_value_add sv (JObject kvs0) (Some k)]) (obj, tok)"
  shows "\<exists>obj' tok'. eats_all mem D (members_text D False kvs @ '' }'') (obj, tok) (obj', tok') \<and>
     settled mem D (JObject (kvs0 @ (k, v) # kvs)) B (obj', tok')"
  using assms
proof (induction kvs arbitrary: k v kvs0 obj tok sv)
  case Nil
  then have "al_put k v kvs0 = kvs0 @ [(k, v)]" by (simp add: al_put_def al_remove_absent)
  with object_close [OF Nil(4,2)] show ?case by simp
next
  case (Cons kv kvs)
  have put: "al_put k v kvs0 = kvs0 @ [(k, v)]" using Cons.prems(3) by (simp add: al_put_def al_remove_absent)
  obtain obj1 tok1 where t1: "eats_all mem D '', '' (obj, tok) (obj1, tok1)"
      "tok_at B (level json_tokener_state_eatws json_tokener_state_object_field_start (JObject (kvs0 @ [(k, v)])) None) tok1"
    using object_comma [OF Cons.prems(4,2)] put by auto
  have kv: "member_ok mem D (length B) kv" using Cons.prems(1) by simp
  obtain obj2 tok2 where t2: "eats_all mem D (quoted (fst kv) @ '': '' @ json_text D (snd kv)) (obj1, tok1) (obj2, tok2)"
      "settled mem D (snd kv) (B @ [level json_tokener_state_object_value_add json_tokener_state_object_value (JObject (kvs0 @ [(k, v)])) (Some (fst kv))]) (obj2, tok2)"
    using read_member_ok [OF kv t1(2)] by blast
  have "distinct (map fst ((kvs0 @ [(k, v)]) @ (fst kv, snd kv) # kvs))" using Cons.prems(3) by simp
  moreover have "NUL \<notin> set (fst kv)" using kv by (simp add: member_ok_def)
  ultimately obtain obj3 tok3 where t3: "eats_all mem D (members_text D False kvs @ '' }'') (obj2, tok2) (obj3, tok3)"
      "settled mem D (JObject ((kvs0 @ [(k, v)]) @ (fst kv, snd kv) # kvs)) B (obj3, tok3)"
    using Cons.IH [OF _ _ _ t2(2)] Cons.prems(1) by auto
  from eats_all_append [OF t1(1) eats_all_append [OF t2(1) t3(1)]] t3(2) show ?case
    by (intro exI [of _ obj3] exI [of _ tok3]) simp
qed

lemma reads_object:
  assumes kvs: "\<forall>kv\<in>set kvs. NUL \<notin> set (fst kv) \<and> reads mem D (snd kv) \<and> (\<exists>c cs. json_text D (snd kv) = c # cs \<and> opens c)"
    and dist: "distinct (map fst kvs)" and mem: "mem_total mem"
  shows "reads mem D (JObject kvs)"
  unfolding reads_def
proof (intro allI impI)
  fix B :: "'a json_tokener_srec list" and sv w nm tok obj
  assume at: "tok_at B (level json_tokener_state_start sv w nm) tok" and d: "length B + jdepth (JObject kvs) \<le> 31"
  let ?r = "level json_tokener_state_eatws json_tokener_state_object_field_start (JObject []) nm"
  define t1 where "t1 = eat_with json_tokener_state_object_field_start (JObject []) tok"
  have e1: "eats mem D (CHR ''{'') (obj, tok) (Next obj t1)"
    using mem by (intro eats_step) (simp_all add: tok_step_at(2) [OF at] case_start_def t1_def)
  have at1: "tok_at B ?r (t1\<lparr>char_offset := char_offset t1 + 1\<rparr>)"
    using tok_at_upd_top [OF at, of "\<lambda>r. r\<lparr>state := json_tokener_state_eatws, saved_state := json_tokener_state_object_field_start, current := JObject []\<rparr>"]
    by (simp add: t1_def)
  have "\<exists>obj' tok'. eats_all mem D (members_text D True kvs @ '' }'') (obj, t1\<lparr>char_offset := char_offset t1 + 1\<rparr>) (obj', tok') \<and>
      settled mem D (JObject kvs) B (obj', tok')"
  proof (cases kvs)
    case Nil
    then show ?thesis using object_close_empty [OF at1] by simp
  next
    case (Cons kv kvs')
    have ok: "member_ok mem D (length B) x" if "x \<in> set kvs" for x
    proof -
      have "jdepth (snd x) \<le> Max (set (map (\<lambda>kv. jdepth (snd kv)) kvs))" using that by (intro Max_ge) auto
      moreover have "jdepth (JObject kvs) = Suc (Max (set (map (\<lambda>kv. jdepth (snd kv)) kvs)))" using Cons by simp
      ultimately have "length B + 1 + jdepth (snd x) \<le> 31" using d by linarith
      then show ?thesis using kvs that unfolding member_ok_def by blast
    qed
    obtain t2 where t2: "eats_all mem D '' '' (obj, t1\<lparr>char_offset := char_offset t1 + 1\<rparr>) (obj, t2)" "tok_at B ?r t2"
      using next_space [OF at1, of mem D obj "char_offset t1 + 1"] by auto
    obtain obj3 t3 where t3: "eats_all mem D (quoted (fst kv) @ '': '' @ json_text D (snd kv)) (obj, t2) (obj3, t3)"
        "settled mem D (snd kv) (B @ [level json_tokener_state_object_value_add json_tokener_state_object_value (JObject []) (Some (fst kv))]) (obj3, t3)"
      using read_member_ok [OF ok t2(2), of kv obj] Cons by (metis list.set_intros(1))
    obtain obj4 t4 where t4: "eats_all mem D (members_text D False kvs' @ '' }'') (obj3, t3) (obj4, t4)"
        "settled mem D (JObject ([] @ (fst kv, snd kv) # kvs')) B (obj4, t4)"
      using reads_members [OF _ _ _ t3(2), of kvs'] ok kvs dist Cons by auto
    from eats_all_append [OF t2(1) eats_all_append [OF t3(1) t4(1)]] t4(2) Cons show ?thesis
      by (intro exI [of _ obj4] exI [of _ t4]) simp
  qed
  then obtain obj' tok' where "eats_all mem D (members_text D True kvs @ '' }'') (obj, t1\<lparr>char_offset := char_offset t1 + 1\<rparr>) (obj', tok')"
      "settled mem D (JObject kvs) B (obj', tok')" by blast
  with eats_all_Cons [OF e1 this(1)]
  show "\<exists>obj' tok'. eats_all mem D (json_text D (JObject kvs)) (obj, tok) (obj', tok') \<and> settled mem D (JObject kvs) B (obj', tok')"
    by auto
qed

text \<open>
  The values that survive printing: integers of 64 bits, strings and member names without NUL,
  distinct member names, and doubles whose six-digit text scans back to them.
\<close>

definition dbl_ok :: "'d dbl \<Rightarrow> 'd \<Rightarrow> bool" where
  "dbl_ok D d \<longleftrightarrow>
     (case lf_print D d of [] \<Rightarrow> False | c # _ \<Rightarrow> isdigit c \<or> c = CHR ''-'') \<and>
     (\<forall>c\<in>set (lf_print D d). number_char c) \<and> is_dotted (lf_print D d) \<and>
     lf_scan D (lf_print D d) = Some d"

fun printable :: "'d dbl \<Rightarrow> 'd json \<Rightarrow> bool" where
  "printable D JNull = True"
| "printable D (JBoolean b) = True"
| "printable D (JDouble d) = dbl_ok D d"
| "printable D (JInt i) = int64 i"
| "printable D (JObject kvs) =
     (distinct (map fst kvs) \<and> (\<forall>kv\<in>set kvs. NUL \<notin> set (fst kv) \<and> printable D (snd kv)))"
| "printable D (JArray js) = (\<forall>j\<in>set js. printable D j)"
| "printable D (JString s) = (NUL \<notin> set s)"

lemma show_int_text:
  shows "\<exists>c cs. show_int i = c # cs \<and> (isdigit c \<or> c = CHR ''-'')" and "\<forall>c\<in>set (show_int i). number_char c"
    and "\<not> is_dotted (show_int i)"
proof -
  have chars: "isdigit c \<or> c = CHR ''-''" if "c \<in> set (show_int i)" for c
    using that isdigit_dec by (auto simp: show_int_def split: if_splits)
  show "\<exists>c cs. show_int i = c # cs \<and> (isdigit c \<or> c = CHR ''-'')"
    using dec_Cons [of "nat i"] by (auto simp: show_int_def)
  show "\<forall>c\<in>set (show_int i). number_char c"
    using chars number_char_digit number_char_minus by (auto simp: number_char_def)
  have "\<not> isdigit (CHR ''.'')" "\<not> isdigit (CHR ''e'')" "\<not> isdigit (CHR ''E'')" by (simp_all add: isdigit_def)
  then show "\<not> is_dotted (show_int i)" using chars by (auto simp: is_dotted_def)
qed

lemma opens_number: "isdigit c \<or> c = CHR ''-'' \<Longrightarrow> opens c"
  by (auto simp: opens_def isspace_def isdigit_def)

lemma text_opens: "printable D v \<Longrightarrow> \<exists>c cs. json_text D v = c # cs \<and> opens c"
proof (cases v)
  case (JInt i)
  then show ?thesis using show_int_text(1) [of i] opens_number by auto
next
  case (JDouble d)
  moreover assume "printable D v"
  ultimately show ?thesis using opens_number by (auto simp: dbl_ok_def split: list.splits)
qed (auto simp: opens_def isspace_def quoted_def)

lemma printable_reads: "printable D v \<Longrightarrow> mem_total mem \<Longrightarrow> reads mem D v"
proof (induction v)
  case JNull
  show ?case by (rule reads_null)
next
  case (JBoolean b)
  then show ?case using reads_true reads_false by (cases b) auto
next
  case (JDouble d)
  then obtain c cs where "lf_print D d = c # cs" "isdigit c \<or> c = CHR ''-''"
    by (auto simp: dbl_ok_def split: list.splits)
  with JDouble show ?case by (intro reads_number [of D _ "lf_print D d" c cs]) (auto simp: dbl_ok_def)
next
  case (JInt i)
  obtain c cs where "show_int i = c # cs" "isdigit c \<or> c = CHR ''-''" using show_int_text(1) by blast
  with JInt show_int_text(2,3) [of i] sscanf_lli_show_int [of i] show ?case
    by (intro reads_number [of D _ "show_int i" c cs]) auto
next
  case (JObject kvs)
  then have "\<forall>kv\<in>set kvs. NUL \<notin> set (fst kv) \<and> reads mem D (snd kv) \<and> (\<exists>c cs. json_text D (snd kv) = c # cs \<and> opens c)"
    using text_opens by (fastforce intro: snds.intros)
  with JObject.prems show ?case by (intro reads_object) auto
next
  case (JArray js)
  then have "\<forall>j\<in>set js. reads mem D j \<and> (\<exists>c cs. json_text D j = c # cs \<and> opens c)"
    using text_opens by fastforce
  with JArray.prems show ?case by (intro reads_array) auto
next
  case (JString s)
  then show ?case by (intro reads_string) auto
qed

text \<open>The printed text is a C string.\<close>

lemma escape_char_no_NUL:
  assumes "c \<noteq> NUL"
  shows "NUL \<notin> set (escape_char c)"
proof -
  have hex: "json_hex_chars ! k \<noteq> NUL" if "k < 16" for k
  proof -
    have "\<forall>k \<in> set [0 ..< 16]. json_hex_chars ! k \<noteq> NUL" by (simp add: upt_rec json_hex_chars_def)
    with that show ?thesis by simp
  qed
  have "short_escape c \<noteq> Some NUL" by (auto simp: short_escape_def)
  moreover have "NUL \<notin> set (unicode_escape c)" if "byte c < 32"
    using hex [of "byte c div 16"] hex [of "byte c mod 16"] less_mult_imp_div_less [of "byte c" 16 16] that
    by (auto simp: unicode_escape_def)
  ultimately show ?thesis using assms by (auto simp: escape_char_def split: option.splits)
qed

lemma quoted_no_NUL: "NUL \<notin> set (quoted s)"
proof -
  have "\<forall>c\<in>set (cstr s). NUL \<notin> set (escape_char c)" using escape_char_no_NUL NUL_notin_cstr by metis
  then have "NUL \<notin> set (escape_string s)" by (auto simp: escape_string_def)
  then show ?thesis by (simp add: quoted_def)
qed

lemma json_text_no_NUL:
  "printable D v \<Longrightarrow> NUL \<notin> set (json_text D v)"
  "(\<forall>kv\<in>set kvs. printable D (snd kv)) \<Longrightarrow> NUL \<notin> set (members_text D first kvs)"
  "(\<forall>j\<in>set js. printable D j) \<Longrightarrow> NUL \<notin> set (elements_text D first js)"
proof (induction D v and D first kvs and D first js rule: json_text_members_text_elements_text.induct)
  case (3 D d)
  then show ?case by (auto simp: dbl_ok_def number_char_def)
next
  case (4 D i)
  then show ?case using show_int_text(2) [of i] by (auto simp: number_char_def)
qed (auto simp: quoted_no_NUL)

section \<open>From characters to the whole text\<close>

definition keeps_progress :: "'d json_tokener \<Rightarrow> 'd outcome \<Rightarrow> bool" where
  "keeps_progress tok r =
     (case r of
        Next _ t \<Rightarrow> char_offset t = char_offset tok \<and> err t = err tok
      | Redo _ t \<Rightarrow> char_offset t = char_offset tok \<and> err t = err tok
      | Out t \<Rightarrow> err t = err tok \<or> err t \<notin> {json_tokener_success, json_tokener_continue}
      | Fault _ \<Rightarrow> True)"

lemma keeps_progress_simps [simp]:
  "keeps_progress tok (Next obj t) = (char_offset t = char_offset tok \<and> err t = err tok)"
  "keeps_progress tok (Redo obj t) = (char_offset t = char_offset tok \<and> err t = err tok)"
  "keeps_progress tok (Out t) = (err t = err tok \<or> err t \<notin> {json_tokener_success, json_tokener_continue})"
  "keeps_progress tok (Fault e)"
  "er \<notin> {json_tokener_success, json_tokener_continue} \<Longrightarrow> keeps_progress tok (fail er t)"
  by (simp_all add: keeps_progress_def fail_def)

lemma keeps_progress_start: "keeps_progress tok (case_start mem c obj tok)"
  by (simp add: case_start_def split: sum.split)

lemma keeps_progress_levels:
  "keeps_progress tok (case_finish obj tok)" "keeps_progress tok (push_level st obj tok)" "keeps_progress tok (case_array c obj tok)"
  by (simp_all add: case_finish_def push_level_def case_array_def json_tokener_reset_level_def)

lemma keeps_progress_adds:
  "keeps_progress tok (case_array_add obj tok)" "keeps_progress tok (case_object_value_add obj tok)"
  by (simp_all add: case_array_add_def case_object_value_add_def split: sum.split option.split)

lemma keeps_progress_literals:
  "keeps_progress tok (case_null c obj tok)" "keeps_progress tok (case_boolean mem c obj tok)" "keeps_progress tok (case_number mem D c obj tok)"
  by (simp_all add: case_null_def case_boolean_def case_number_def Let_def split: option.split)

lemma keeps_progress_texts:
  "keeps_progress tok (case_string mem c obj tok)" "keeps_progress tok (case_string_escape c obj tok)"
  "keeps_progress tok (case_escape_unicode c obj tok)" "keeps_progress tok (case_object_field c obj tok)"
  by (simp_all add: case_string_def case_string_escape_def case_escape_unicode_def case_object_field_def Let_def)

lemma keeps_progress_rest:
  "keeps_progress tok (case_eatws c obj tok)" "keeps_progress tok (case_comment_start c obj tok)" "keeps_progress tok (case_comment c obj tok)"
  "keeps_progress tok (case_comment_eol c obj tok)" "keeps_progress tok (case_comment_end c obj tok)"
  "keeps_progress tok (case_array_sep c obj tok)" "keeps_progress tok (case_object_field_start c obj tok)"
  "keeps_progress tok (case_object_field_end c obj tok)" "keeps_progress tok (case_object_sep c obj tok)"
  by (simp_all add: case_eatws_def case_comment_start_def case_comment_def case_comment_eol_def case_comment_end_def
      case_array_sep_def case_object_field_start_def case_object_field_end_def case_object_sep_def)

lemma keeps_progress_step: "keeps_progress tok (tok_step mem D c obj tok)"
  by (cases "state (top tok)")
     (simp_all add: tok_step_def keeps_progress_start keeps_progress_levels keeps_progress_adds keeps_progress_literals
      keeps_progress_texts keeps_progress_rest)

lemma keeps_progress_run: "keeps_progress tok (run_char n mem D c obj tok)"
proof (induction n arbitrary: obj tok)
  case (Suc n)
  show ?case
  proof (cases "tok_step mem D c obj tok")
    case (Redo obj1 tok1)
    with keeps_progress_step [of tok mem D c obj] have same: "char_offset tok1 = char_offset tok" "err tok1 = err tok"
      by simp_all
    have "keeps_progress tok1 (run_char n mem D c obj1 tok1)" by (rule Suc.IH)
    with Redo same show ?thesis by (cases "run_char n mem D c obj1 tok1") simp_all
  qed (use keeps_progress_step [of tok mem D c obj] in simp_all)
qed simp

lemma parse_loop_eats:
  assumes "eats_all mem D cs (obj, tok) (obj', tok')" and "tok_inv tok" and "0 \<le> char_offset tok"
    and "NUL \<notin> set cs" and "mem_total mem"
  shows "parse_loop mem D (-1) (cs @ ds) obj tok = parse_loop mem D (-1) ds obj' tok' \<and>
     tok_inv tok' \<and> 0 \<le> char_offset tok' \<and> err tok' = err tok"
  using assms(1-4)
proof (induction cs arbitrary: obj tok)
  case (Cons c cs)
  obtain obj1 tok1 where e: "eats mem D c (obj, tok) (Next obj1 tok1)"
      "eats_all mem D cs (obj1, tok1\<lparr>char_offset := char_offset tok1 + 1\<rparr>) (obj', tok')"
    using Cons.prems(1) by (auto simp: eats_all.simps)
  have run: "run_char redo_fuel mem D c obj tok = Next obj1 tok1"
    using eats_run_char [OF e(1) Cons.prems(2) assms(5)] .
  then have "tok_inv tok1"
    using run_char_ok [OF Cons.prems(2) assms(5) redo_rank_bound, of D c obj] by auto
  moreover have "char_offset tok1 = char_offset tok" "err tok1 = err tok"
    using run keeps_progress_run [of tok redo_fuel mem D c obj] by simp_all
  ultimately show ?case
    using Cons.IH [OF e(2)] Cons.prems run by auto
qed simp

section \<open>Properties\<close>

lemma parse_json_text:
  fixes v :: "'d json"
  assumes "printable D v" and "jdepth v \<le> 31" and mem: "mem_total mem"
  shows "json_tokener_parse mem D (json_text D v) = Inr (Inr v)"
proof -
  obtain tok0 :: "'d json_tokener" where tok0: "json_tokener_new mem = Inr tok0" "tok_inv tok0" "depth tok0 = 0" "top tok0 = fresh_level"
    using json_tokener_new_ok [OF mem] unfolding fresh_level_def by metis
  define tok where "tok = tok0\<lparr>char_offset := 0, err := json_tokener_success\<rparr>"
  have inv: "tok_inv tok" "0 \<le> char_offset tok" "err tok = json_tokener_success" using tok0(2) by (simp_all add: tok_def)
  have at: "tok_at [] fresh_level tok"
    using tok0 tok_invD(1) [OF tok0(2)] by (simp add: tok_at_def tok_def)
  define t1 where "t1 = set_state json_tokener_state_start tok"
  have at1: "tok_at [] (level json_tokener_state_start json_tokener_state_start JNull None) t1"
    using tok_at_upd_top [OF at, of "\<lambda>r. r\<lparr>state := json_tokener_state_start\<rparr>"] by (simp add: t1_def fresh_level_def)
  obtain c cs where c: "json_text D v = c # cs" "opens c" using text_opens [OF assms(1)] by blast
  obtain obj' tok' where r: "eats_all mem D (json_text D v) (JNull, t1) (obj', tok')" "settled mem D v [] (obj', tok')"
    using printable_reads [OF assms(1) mem] at1 assms(2) unfolding reads_def by fastforce
  have "eats mem D c (JNull, tok) R" if "eats mem D c (JNull, t1) R" for R
    using that c(2) by (intro eats_wake [OF at]) (simp_all add: fresh_level_def t1_def opens_def)
  with r(1) have all: "eats_all mem D (json_text D v) (JNull, tok) (obj', tok')"
    unfolding c(1) eats_all.simps by blast
  note loop = parse_loop_eats [OF all inv(1,2) json_text_no_NUL(1) [OF assms(1)] mem, of "[]"]
  have "\<not> number_char NUL" by (simp add: number_char_def)
  then obtain rr t where t: "tok_at [] rr t" "state rr = json_tokener_state_eatws"
      "saved_state rr = json_tokener_state_finish" "current rr = v" "err t = err tok'"
      "\<And>R. eats mem D NUL (obj', t) R \<Longrightarrow> eats mem D NUL (obj', tok') R"
    using r(2) unfolding settled_def by fastforce
  define t2 where "t2 = set_state json_tokener_state_finish t"
  have at2: "tok_at [] (rr\<lparr>state := json_tokener_state_finish\<rparr>) t2" unfolding t2_def using t(1) by (rule tok_at_upd_top)
  then have d2: "depth t2 = 0" "top t2 = rr\<lparr>state := json_tokener_state_finish\<rparr>" "shape_ok t2" by (simp_all add: tok_at_def)
  have "eats mem D NUL (obj', t2) (Out t2)"
    using d2(1) tok_step_at(3) [OF at2] by (intro eats_step) (simp_all add: case_finish_def)
  then have "eats mem D NUL (obj', t) (Out t2)"
    by (intro eats_wake [OF t(1,2)]) (simp_all add: isspace_def t(3) t2_def)
  then have "run_char redo_fuel mem D NUL obj' tok' = Out t2"
    using t(6) loop mem by (intro eats_run_char) blast+
  then have "parse_loop mem D (-1) (json_text D v) JNull tok = Inr t2"
    using loop by simp
  moreover have "err t2 = json_tokener_success" using t(5) loop inv(3) by (simp add: t2_def)
  ultimately have "json_tokener_parse_ex mem D tok0 (json_text D v) (-1) = Inr (Some v, t2)"
    using d2(2) t(4) by (simp add: json_tokener_parse_ex_def tok_def)
  moreover obtain t3 where "json_tokener_reset t2 = Inr t3" using json_tokener_reset_ok [OF d2(3)] by blast
  ultimately show ?thesis using tok0(1) by (simp add: json_tokener_parse_def json_tokener_free_def)
qed

text \<open>
  C1. Parsing is the inverse of printing: for every value nested at most 31 deep whose integers fit
  64 bits, whose strings and member names hold no NUL, whose member names are distinct and whose
  doubles print in a form that scans back, parsing the printed text gives exactly that value.
\<close>

theorem json_parse_print_roundtrip:
  assumes "printable D v" and "jdepth v \<le> 31" and "mem_total mem"
  shows "json_tokener_parse mem D (json_text D v) = Inr (Inr v)"
  by (rule parse_json_text [OF assms])

theorem json_parse_print_roundtrip_witness:
  "json_tokener_parse (\<lambda>_. True) no_doubles
     (json_text no_doubles (JObject [(''k'', JArray [JInt (-12), JBoolean False, JNull]),
        (''e'', JString [CHR 0x09, CHR 0x01, CHR 0x22, CHR ''z''])])) =
   Inr (Inr (JObject [(''k'', JArray [JInt (-12), JBoolean False, JNull]),
        (''e'', JString [CHR 0x09, CHR 0x01, CHR 0x22, CHR ''z''])]))"
  by (rule json_parse_print_roundtrip) (simp_all add: int64_def mem_total_def)

text \<open>
  C8. The tokener is total and memory safe: on a well-formed tokener, whatever the text and the given
  length, \<open>json_tokener_parse_ex\<close> returns. No character is redone more than the eight times the loop
  has fuel for, the stack of 32 levels is never left, and no union member is used as a table or an
  array that is not one. A tokener that asks for more input is well formed again.
\<close>

theorem json_tokener_parse_ex_safe:
  assumes "tok_inv tok" and "mem_total mem"
  shows "\<exists>obj tok'. json_tokener_parse_ex mem D tok str len = Inr (obj, tok') \<and> shape_ok tok' \<and>
           (obj = None \<longleftrightarrow> err tok' \<noteq> json_tokener_success) \<and>
           (err tok' = json_tokener_continue \<longrightarrow> tok_inv tok')"
proof -
  have "\<exists>tok1. parse_loop mem D len str obj t = Inr tok1 \<and> shape_ok tok1 \<and>
      (err tok1 = json_tokener_continue \<longrightarrow> tok_inv tok1)"
    if "tok_inv t" "err t = json_tokener_success" for obj t
    using that
  proof (induction str arbitrary: obj t)
    case Nil
    from run_char_ok [OF Nil(1) assms(2) redo_rank_bound, of D NUL obj] keeps_progress_run [of t redo_fuel mem D NUL obj]
    show ?case using Nil tok_invD(1) by (fastforce simp: at_len_def at_eof_def)
  next
    case (Cons c cs)
    from run_char_ok [OF Cons.prems(1) assms(2) redo_rank_bound, of D c obj] keeps_progress_run [of t redo_fuel mem D c obj]
    show ?case using Cons.prems tok_invD(1) Cons.IH by (fastforce simp: at_len_def at_eof_def Let_def)
  qed
  from this [of "tok\<lparr>char_offset := 0, err := json_tokener_success\<rparr>" JNull] assms(1) show ?thesis
    by (auto simp: json_tokener_parse_ex_def)
qed

lemma new_tokener:
  obtains tok where "json_tokener_new (\<lambda>_. True) = Inr (tok :: unit json_tokener)" and "tok_inv tok"
  using json_tokener_new_ok [of "\<lambda>_. True"] by (auto simp: mem_total_def)

theorem json_tokener_parse_ex_safe_witness:
  "\<exists>tok obj tok'. json_tokener_new (\<lambda>_. True) = Inr tok \<and>
     json_tokener_parse_ex (\<lambda>_. True) no_doubles tok ''[[[{'' 4 = Inr (obj, tok') \<and> shape_ok tok'"
proof -
  obtain tok :: "unit json_tokener" where tok: "json_tokener_new (\<lambda>_. True) = Inr tok" "tok_inv tok"
    by (rule new_tokener)
  from json_tokener_parse_ex_safe [OF tok(2), of "\<lambda>_. True" no_doubles "''[[[{''" 4] tok(1) show ?thesis
    by (auto simp: mem_total_def)
qed

text \<open>
  Text that ends inside a comment is accepted: the check at the end of the text only asks whether
  the current level was waiting to finish. For an array cut off by an open comment the parser
  reports success and returns the last element instead of the array.
\<close>

lemma json_unterminated_comment_accepted:
  "json_tokener_parse (\<lambda>_. True) no_doubles ''[7, 8 /* '' = Inr (Inr (JInt 8))"
  by code_simp

text \<open>
  Integers are scanned with \<open>"%lli"\<close>, which takes its base from the prefix, although JSON has
  decimal numbers only: a leading zero makes the number octal.
\<close>

lemma json_leading_zero_is_octal:
  "json_tokener_parse (\<lambda>_. True) no_doubles ''[010, 9]'' = Inr (Inr (JArray [JInt 8, JInt 9]))"
  by code_simp

end
