(* ===== verification/JsonRefs.thy ===== *)
theory JsonRefs
  imports JsonObject "HOL-Library.Multiset"
begin

text \<open>
  The JSON values of \<open>json_object.c\<close> as the code keeps them: objects in memory that point to each
  other and are freed by reference counting. A heap maps addresses to objects; the tables and arrays
  inside them are the ones of theories \<open>LinkHash\<close> and \<open>ArrayList\<close>, holding addresses. Using an address
  that is not in the heap is \<open>Use_After_Free\<close>.
\<close>

section \<open>Objects in memory\<close>

type_synonym addr = nat

datatype delete_fn = generic_delete | object_delete | array_delete | string_delete

datatype string_fn =
    object_to_string | boolean_to_string | int_to_string | double_to_string | string_to_string | array_to_string

text \<open>\<open>c_zero\<close> is the union as \<open>calloc\<close> leaves it.\<close>

datatype 'd json_data =
    c_zero
  | c_boolean bool
  | c_double 'd
  | c_int int
  | c_object "(string, addr) lh_table"
  | c_array "addr array_list"
  | c_string string

record 'd json_object =
  o_type :: json_type
  delete_ptr :: delete_fn
  string_ptr :: "string_fn option"
  ref_count :: int
  o_pb :: "printbuf option"
  o_data :: "'d json_data"

type_synonym 'd jheap = "addr \<rightharpoonup> 'd json_object"

definition deref :: "'d jheap \<Rightarrow> addr option \<Rightarrow> (addr \<times> 'd json_object) res" where
  "deref h ptr = (case ptr of None \<Rightarrow> Inl Null_Deref
      | Some p \<Rightarrow> (case h p of None \<Rightarrow> Inl Use_After_Free | Some ob \<Rightarrow> Inr (p, ob)))"

section \<open>Construction\<close>

text \<open>\<open>new\<close> is \<open>calloc\<close>: the address of the new block, or NULL.\<close>

definition json_object_new ::
  "('d jheap \<Rightarrow> addr option) \<Rightarrow> json_type \<Rightarrow> 'd jheap \<Rightarrow> addr option \<times> 'd jheap" where
  "json_object_new new ty h =
     (case new h of
        None \<Rightarrow> (None, h)
      | Some p \<Rightarrow> (Some p, h(p \<mapsto> \<lparr>o_type = ty, delete_ptr = generic_delete, string_ptr = None, ref_count = 1,
                                     o_pb = None, o_data = c_zero\<rparr>)))"

text \<open>What every constructor does after \<open>json_object_new\<close>: set the functions and the union.\<close>

definition set_data ::
  "delete_fn \<Rightarrow> string_fn \<Rightarrow> 'd json_data \<Rightarrow> addr option \<times> 'd jheap \<Rightarrow> addr option \<times> 'd jheap" where
  "set_data del str dat r =
     (case r of
        (None, h) \<Rightarrow> (None, h)
      | (Some p, h) \<Rightarrow> (Some p, h(p := map_option (\<lambda>ob. ob\<lparr>delete_ptr := del, string_ptr := Some str, o_data := dat\<rparr>) (h p))))"

definition ref_new_boolean where
  "ref_new_boolean new b h = set_data generic_delete boolean_to_string (c_boolean b) (json_object_new new json_type_boolean h)"

definition ref_new_int where
  "ref_new_int new i h = set_data generic_delete int_to_string (c_int i) (json_object_new new json_type_int h)"

definition ref_new_double where
  "ref_new_double new d h = set_data generic_delete double_to_string (c_double d) (json_object_new new json_type_double h)"

definition ref_new_string where
  "ref_new_string new s h = set_data string_delete string_to_string (c_string (cstr s)) (json_object_new new json_type_string h)"

definition ref_new_string_len where
  "ref_new_string_len new s len h =
     set_data string_delete string_to_string (c_string (strndup s len)) (json_object_new new json_type_string h)"

definition ref_new_object ::
  "allocator \<Rightarrow> ('d jheap \<Rightarrow> addr option) \<Rightarrow> 'd jheap \<Rightarrow> (addr option \<times> 'd jheap) res" where
  "ref_new_object mem new h =
     (case json_object_new new json_type_object h of
        (None, h1) \<Rightarrow> Inr (None, h1)
      | (Some p, h1) \<Rightarrow>
          rbind (lh_kchar_table_new mem JSON_OBJECT_DEF_HASH_ENTIRES True) (\<lambda>t.
            Inr (set_data object_delete object_to_string (c_object t) (Some p, h1))))"

definition ref_new_array ::
  "allocator \<Rightarrow> ('d jheap \<Rightarrow> addr option) \<Rightarrow> 'd jheap \<Rightarrow> (addr option \<times> 'd jheap) res" where
  "ref_new_array mem new h =
     (case json_object_new new json_type_array h of
        (None, h1) \<Rightarrow> Inr (None, h1)
      | (Some p, h1) \<Rightarrow>
          (case array_list_new mem of
             None \<Rightarrow> Inl Null_Deref
           | Some a \<Rightarrow> Inr (set_data array_delete array_to_string (c_array a) (Some p, h1))))"

section \<open>Reference counts and deletion\<close>

definition json_object_get :: "'d jheap \<Rightarrow> addr option \<Rightarrow> (addr option \<times> 'd jheap) res" where
  "json_object_get h this =
     (case this of
        None \<Rightarrow> Inr (None, h)
      | Some _ \<Rightarrow> rbind (deref h this) (\<lambda>(p, ob).
          Inr (Some p, h(p \<mapsto> ob\<lparr>ref_count := wrap32 (ref_count ob + 1)\<rparr>))))"

definition json_object_generic_delete :: "addr \<Rightarrow> 'd jheap \<Rightarrow> 'd jheap res" where
  "json_object_generic_delete p h = rbind (deref h (Some p)) (\<lambda>_. Inr (h(p := None)))"

definition json_object_string_delete :: "addr \<Rightarrow> 'd jheap \<Rightarrow> 'd jheap res" where
  "json_object_string_delete p h =
     rbind (deref h (Some p)) (\<lambda>(_, ob).
       case o_data ob of c_string _ \<Rightarrow> json_object_generic_delete p h | _ \<Rightarrow> Inl Type_Confusion)"

text \<open>
  \<open>json_object_put\<close> and the functions it reaches through \<open>_delete\<close>: \<open>json_object_object_delete\<close> hands
  every entry to \<open>json_object_lh_entry_free\<close>, \<open>json_object_array_delete\<close> every element that is not NULL to
  \<open>json_object_array_entry_free\<close>, and both put the value. The fuel bounds the depth of nested deletions.
\<close>

function (sequential) json_object_put :: "nat \<Rightarrow> addr option \<Rightarrow> 'd jheap \<Rightarrow> 'd jheap res"
  and json_object_delete :: "nat \<Rightarrow> addr \<Rightarrow> 'd json_object \<Rightarrow> 'd jheap \<Rightarrow> 'd jheap res"
  and json_object_object_delete :: "nat \<Rightarrow> addr \<Rightarrow> 'd json_object \<Rightarrow> 'd jheap \<Rightarrow> 'd jheap res"
  and json_object_array_delete :: "nat \<Rightarrow> addr \<Rightarrow> 'd json_object \<Rightarrow> 'd jheap \<Rightarrow> 'd jheap res"
  and free_entries :: "nat \<Rightarrow> (string slot_key \<times> addr option) list \<Rightarrow> 'd jheap \<Rightarrow> 'd jheap res"
  and free_elements :: "nat \<Rightarrow> addr list \<Rightarrow> 'd jheap \<Rightarrow> 'd jheap res"
where
  "json_object_put n None h = Inr h"
| "json_object_put 0 (Some p) h = Inl Out_Of_Fuel"
| "json_object_put (Suc n) (Some p) h =
     rbind (deref h (Some p)) (\<lambda>(_, ob).
       let ob1 = ob\<lparr>ref_count := wrap32 (ref_count ob - 1)\<rparr>; h1 = h(p \<mapsto> ob1)
       in if ref_count ob1 = 0 then json_object_delete n p ob1 h1 else Inr h1)"
| "json_object_delete n p ob h =
     (case delete_ptr ob of
        generic_delete \<Rightarrow> json_object_generic_delete p h
      | string_delete \<Rightarrow> json_object_string_delete p h
      | object_delete \<Rightarrow> json_object_object_delete n p ob h
      | array_delete \<Rightarrow> json_object_array_delete n p ob h)"
| "json_object_object_delete n p ob h =
     (case o_data ob of
        c_object t \<Rightarrow> rbind (lh_table_free t) (\<lambda>es.
          rbind (free_entries n es h) (json_object_generic_delete p))
      | _ \<Rightarrow> Inl Type_Confusion)"
| "json_object_array_delete n p ob h =
     (case o_data ob of
        c_array a \<Rightarrow> rbind (free_elements n (array_list_free a) h) (json_object_generic_delete p)
      | _ \<Rightarrow> Inl Type_Confusion)"
| "free_entries n [] h = Inr h"
| "free_entries n (e # es) h = rbind (json_object_put n (snd e) h) (free_entries n es)"
| "free_elements n [] h = Inr h"
| "free_elements n (x # xs) h = rbind (json_object_put n (Some x) h) (free_elements n xs)"
  by pat_completeness auto

termination
  by (relation "inv_image (less_than <*lex*> less_than <*lex*> less_than) (\<lambda>x. case x of
        Inl (Inl (n, _)) \<Rightarrow> (n, 0 :: nat, 0 :: nat)
      | Inl (Inr (Inl (n, _))) \<Rightarrow> (n, 3, 0)
      | Inl (Inr (Inr (n, _))) \<Rightarrow> (n, 2, 0)
      | Inr (Inl (n, _)) \<Rightarrow> (n, 2, 0)
      | Inr (Inr (Inl (n, es, _))) \<Rightarrow> (n, 1, length es)
      | Inr (Inr (Inr (n, xs, _))) \<Rightarrow> (n, 1, length xs))") auto

section \<open>Members and elements\<close>

text \<open>
  Deleting a member: \<open>free_fn\<close> runs while the entry is still in the table, which is unlinked afterwards.
\<close>

definition ref_object_del :: "nat \<Rightarrow> 'd jheap \<Rightarrow> addr option \<Rightarrow> string \<Rightarrow> 'd jheap res" where
  "ref_object_del n h this key =
     rbind (deref h this) (\<lambda>(p, ob).
       case o_data ob of
         c_object t \<Rightarrow>
           rbind (lh_table_delete t (cstr key)) (\<lambda>(_, t1, freed).
           rbind (case freed of None \<Rightarrow> Inr h | Some (_, v) \<Rightarrow> json_object_put n v h) (\<lambda>h1.
           rbind (deref h1 (Some p)) (\<lambda>(_, ob1). Inr (h1(p \<mapsto> ob1\<lparr>o_data := c_object t1\<rparr>)))))
       | _ \<Rightarrow> Inl Type_Confusion)"

definition ref_object_add ::
  "nat \<Rightarrow> allocator \<Rightarrow> 'd jheap \<Rightarrow> addr option \<Rightarrow> string \<Rightarrow> addr option \<Rightarrow> 'd jheap res" where
  "ref_object_add n mem h this key val =
     rbind (ref_object_del n h this key) (\<lambda>h1.
     rbind (deref h1 this) (\<lambda>(p, ob).
       case o_data ob of
         c_object t \<Rightarrow>
           rbind (lh_table_insert 1 mem t (cstr key) val) (\<lambda>t1. Inr (h1(p \<mapsto> ob\<lparr>o_data := c_object t1\<rparr>)))
       | _ \<Rightarrow> Inl Type_Confusion))"

definition ref_object_get ::
  "'d jheap \<Rightarrow> addr option \<Rightarrow> string \<Rightarrow> (addr option \<times> 'd jheap) res" where
  "ref_object_get h this key =
     rbind (deref h this) (\<lambda>(p, ob).
       case o_data ob of
         c_object t \<Rightarrow>
           rbind (lh_table_lookup t (cstr key)) (\<lambda>(v, t1). Inr (v, h(p \<mapsto> ob\<lparr>o_data := c_object t1\<rparr>)))
       | _ \<Rightarrow> Inl Type_Confusion)"

definition ref_array_put_idx ::
  "nat \<Rightarrow> allocator \<Rightarrow> 'd jheap \<Rightarrow> addr option \<Rightarrow> int \<Rightarrow> addr option \<Rightarrow> (int \<times> 'd jheap) res" where
  "ref_array_put_idx n mem h this idx val =
     rbind (deref h this) (\<lambda>(p, ob).
       case o_data ob of
         c_array a \<Rightarrow>
           rbind (array_list_put_idx mem a idx val) (\<lambda>(rc, a1, freed).
           rbind (json_object_put n freed h) (\<lambda>h1.
           rbind (deref h1 (Some p)) (\<lambda>(_, ob1). Inr (rc, h1(p \<mapsto> ob1\<lparr>o_data := c_array a1\<rparr>)))))
       | _ \<Rightarrow> Inl Type_Confusion)"

definition ref_array_length :: "'d jheap \<Rightarrow> addr option \<Rightarrow> int res" where
  "ref_array_length h this =
     rbind (deref h this) (\<lambda>(p, ob).
       case o_data ob of c_array a \<Rightarrow> Inr (array_list_length a) | _ \<Rightarrow> Inl Type_Confusion)"

definition ref_array_add ::
  "nat \<Rightarrow> allocator \<Rightarrow> 'd jheap \<Rightarrow> addr option \<Rightarrow> addr option \<Rightarrow> (int \<times> 'd jheap) res" where
  "ref_array_add n mem h this val =
     rbind (ref_array_length h this) (\<lambda>len. ref_array_put_idx n mem h this len val)"

definition ref_array_get_idx :: "'d jheap \<Rightarrow> addr option \<Rightarrow> int \<Rightarrow> addr option res" where
  "ref_array_get_idx h this idx =
     rbind (deref h this) (\<lambda>(p, ob).
       case o_data ob of c_array a \<Rightarrow> array_list_get_idx a idx | _ \<Rightarrow> Inl Type_Confusion)"

section \<open>The invariant\<close>

text \<open>The pointers an object holds, in the order in which deletion puts them.\<close>

definition kids :: "'d json_object \<Rightarrow> addr list" where
  "kids ob =
     (case o_data ob of
        c_object t \<Rightarrow> (case lh_order t of None \<Rightarrow> [] | Some is \<Rightarrow> List.map_filter (\<lambda>i. e_v (table t ! i)) is)
      | c_array a \<Rightarrow> array_list_free a
      | _ \<Rightarrow> [])"

text \<open>The type tag, the deletion and printing functions and the member of the union agree; tables and arrays are well formed.\<close>

definition data_ok :: "'d json_object \<Rightarrow> bool" where
  "data_ok ob =
     (case o_data ob of
        c_zero \<Rightarrow> False
      | c_boolean _ \<Rightarrow> o_type ob = json_type_boolean \<and> delete_ptr ob = generic_delete \<and> string_ptr ob = Some boolean_to_string
      | c_double _ \<Rightarrow> o_type ob = json_type_double \<and> delete_ptr ob = generic_delete \<and> string_ptr ob = Some double_to_string
      | c_int _ \<Rightarrow> o_type ob = json_type_int \<and> delete_ptr ob = generic_delete \<and> string_ptr ob = Some int_to_string
      | c_object t \<Rightarrow> o_type ob = json_type_object \<and> delete_ptr ob = object_delete \<and> string_ptr ob = Some object_to_string \<and> free_fn t \<and>
          (\<exists>ord. lh_wf c_strings t ord)
      | c_array a \<Rightarrow> o_type ob = json_type_array \<and> delete_ptr ob = array_delete \<and> string_ptr ob = Some array_to_string \<and> al_inv a
      | c_string _ \<Rightarrow> o_type ob = json_type_string \<and> delete_ptr ob = string_delete \<and> string_ptr ob = Some string_to_string)"

definition kids_at :: "'d jheap \<Rightarrow> addr \<Rightarrow> addr multiset" where
  "kids_at h q = (case h q of None \<Rightarrow> {#} | Some ob \<Rightarrow> mset (kids ob))"

text \<open>How many pointers lead to \<open>p\<close>, from outside and from the objects \<open>L\<close>.\<close>

definition pointers :: "addr multiset \<Rightarrow> addr set \<Rightarrow> 'd jheap \<Rightarrow> addr \<Rightarrow> nat" where
  "pointers ext L h p = count ext p + (\<Sum>q \<in> L. count (kids_at h q) p)"

text \<open>
  \<open>refs_ok ext Z K h\<close>: \<open>ext\<close> are the references held outside the heap. The objects of \<open>Z\<close> are being deleted
  and those of \<open>K\<close> are being changed, so their pointers are not counted. Every other pointer leads to an
  object, and the count of an object is the number of pointers to it.
\<close>

definition refs_ok :: "addr multiset \<Rightarrow> addr set \<Rightarrow> addr set \<Rightarrow> 'd jheap \<Rightarrow> bool" where
  "refs_ok ext Z K h \<longleftrightarrow>
     finite (dom h) \<and> set_mset ext \<subseteq> dom h - Z \<and>
     (\<forall>q \<in> dom h - Z - K. set_mset (kids_at h q) \<subseteq> dom h - Z) \<and>
     (\<forall>p ob. h p = Some ob \<longrightarrow> p \<notin> Z \<longrightarrow>
        data_ok ob \<and> 0 < ref_count ob \<and> ref_count ob < 2 ^ 31 \<and>
        ref_count ob = int (pointers ext (dom h - Z - K) h p))"

abbreviation heap_ok :: "addr multiset \<Rightarrow> 'd jheap \<Rightarrow> bool" where
  "heap_ok ext h \<equiv> refs_ok ext {} {} h"

lemma kids_at_upd:
  "kids_at (h(p \<mapsto> ob)) q = (if q = p then mset (kids ob) else kids_at h q)"
  "kids_at (h(p := None)) q = (if q = p then {#} else kids_at h q)"
  by (simp_all add: kids_at_def)

lemma kids_ref_count [simp]: "kids (ob\<lparr>ref_count := r\<rparr>) = kids ob"
  by (simp add: kids_def)

lemma data_ok_ref_count [simp]: "data_ok (ob\<lparr>ref_count := r\<rparr>) = data_ok ob"
  by (simp add: data_ok_def split: json_data.split)

lemma pointers_zero_iff:
  "finite L \<Longrightarrow> pointers ext L h p = 0 \<longleftrightarrow> p \<notin># ext \<and> (\<forall>q \<in> L. p \<notin># kids_at h q)"
  by (auto simp: pointers_def not_in_iff)

lemma pointers_add_mset: "pointers (add_mset x ext) L h p = (if x = p then 1 else 0) + pointers ext L h p"
  by (simp add: pointers_def)

lemma pointers_cong: "(\<And>q. q \<in> L \<Longrightarrow> kids_at h' q = kids_at h q) \<Longrightarrow> pointers ext L h' p = pointers ext L h p"
  by (simp add: pointers_def)

lemma pointers_remove:
  "finite L \<Longrightarrow> q \<in> L \<Longrightarrow> pointers ext L h p = pointers (kids_at h q + ext) (L - {q}) h p"
  by (simp add: pointers_def sum.remove)

lemma refs_okD:
  assumes "refs_ok ext Z K h"
  shows "finite (dom h)" and "p \<in># ext \<Longrightarrow> p \<in> dom h - Z"
    and "q \<in> dom h - Z - K \<Longrightarrow> p \<in># kids_at h q \<Longrightarrow> p \<in> dom h - Z"
    and "h p = Some ob \<Longrightarrow> p \<notin> Z \<Longrightarrow> data_ok ob" and "h p = Some ob \<Longrightarrow> p \<notin> Z \<Longrightarrow> 0 < ref_count ob"
    and "h p = Some ob \<Longrightarrow> p \<notin> Z \<Longrightarrow> ref_count ob < 2 ^ 31"
    and "h p = Some ob \<Longrightarrow> p \<notin> Z \<Longrightarrow> ref_count ob = int (pointers ext (dom h - Z - K) h p)"
  using assms unfolding refs_ok_def by blast+

lemma refs_okI:
  assumes "finite (dom h)" and "\<And>p. p \<in># ext \<Longrightarrow> p \<in> dom h - Z"
    and "\<And>p q. q \<in> dom h - Z - K \<Longrightarrow> p \<in># kids_at h q \<Longrightarrow> p \<in> dom h - Z"
    and "\<And>p ob. h p = Some ob \<Longrightarrow> p \<notin> Z \<Longrightarrow>
      data_ok ob \<and> 0 < ref_count ob \<and> ref_count ob < 2 ^ 31 \<and> ref_count ob = int (pointers ext (dom h - Z - K) h p)"
  shows "refs_ok ext Z K h"
  using assms unfolding refs_ok_def by blast

text \<open>A change of counts does not touch the pointers.\<close>

lemma kids_at_same_ref:
  assumes "h p = Some ob"
  shows "kids_at (h(p \<mapsto> ob\<lparr>ref_count := r\<rparr>)) = kids_at h"
  using assms by (auto simp: kids_at_def fun_eq_iff)

lemma refs_ok_dec:
  assumes ok: "refs_ok (add_mset p ext) Z K h" and p: "h p = Some ob" and rc: "ref_count ob \<noteq> 1"
  shows "refs_ok ext Z K (h(p \<mapsto> ob\<lparr>ref_count := ref_count ob - 1\<rparr>))"
proof (rule refs_okI)
  let ?h = "h(p \<mapsto> ob\<lparr>ref_count := ref_count ob - 1\<rparr>)"
  have dom: "dom ?h = dom h" using p by auto
  have ptr: "pointers ext L ?h = pointers ext L h" for L
    by (rule ext, rule pointers_cong) (simp add: kids_at_same_ref [of h p ob, OF p])
  show "finite (dom ?h)" using refs_okD(1) [OF ok] dom by simp
  show "q \<in> dom ?h - Z" if "q \<in># ext" for q using refs_okD(2) [OF ok, of q] that dom by simp
  show "x \<in> dom ?h - Z" if "q \<in> dom ?h - Z - K" "x \<in># kids_at ?h q" for x q
    using refs_okD(3) [OF ok, of q x] that unfolding dom kids_at_same_ref [of h p ob, OF p] by blast
  fix q ob1 assume q: "?h q = Some ob1" "q \<notin> Z"
  then obtain ob2 where "h q = Some ob2" "ob1 = (if q = p then ob2\<lparr>ref_count := ref_count ob2 - 1\<rparr> else ob2)"
    "q = p \<Longrightarrow> ob2 = ob" using p by (cases "q = p") auto
  with refs_okD(4-7) [OF ok, of q ob2] q(2) rc
  show "data_ok ob1 \<and> 0 < ref_count ob1 \<and> ref_count ob1 < 2 ^ 31 \<and>
      ref_count ob1 = int (pointers ext (dom ?h - Z - K) ?h q)"
    unfolding dom ptr by (auto simp: pointers_add_mset)
qed

text \<open>The last reference goes: the object's pointers become references to be given up.\<close>

lemma refs_ok_die:
  assumes ok: "refs_ok (add_mset p ext) Z K h" and p: "h p = Some ob" and rc: "ref_count ob = 1" and K: "p \<notin> K"
  shows "refs_ok (mset (kids ob) + ext) (insert p Z) K (h(p \<mapsto> ob\<lparr>ref_count := 0\<rparr>))"
proof (rule refs_okI)
  let ?h = "h(p \<mapsto> ob\<lparr>ref_count := 0\<rparr>)" and ?L = "dom h - Z - K"
  have dom: "dom ?h = dom h" using p by auto
  have fin: "finite ?L" and pZ: "p \<notin> Z" using refs_okD(1,2) [OF ok] by auto
  have "pointers ext ?L h p = 0" using refs_okD(7) [OF ok p pZ] rc by (simp add: pointers_add_mset)
  then have none: "p \<notin># ext" "\<And>q. q \<in> ?L \<Longrightarrow> p \<notin># kids_at h q" using fin by (auto simp: pointers_zero_iff)
  have L: "dom h - insert p Z - K = ?L - {p}" "p \<in> ?L" using p pZ K by auto
  have kp: "kids_at h p = mset (kids ob)" using p by (simp add: kids_at_def)
  have ptr: "pointers (mset (kids ob) + ext) (?L - {p}) ?h q = pointers ext ?L h q" for q
    using pointers_remove [OF fin L(2), of ext h q] kp
      pointers_cong [of "?L - {p}" ?h h "mset (kids ob) + ext" q] by (simp add: kids_at_same_ref [of h p ob, OF p])
  show "finite (dom ?h)" using refs_okD(1) [OF ok] dom by simp
  show "x \<in> dom ?h - insert p Z" if "x \<in># mset (kids ob) + ext" for x
    using that none(1) none(2) [OF L(2)] refs_okD(2) [OF ok, of x] refs_okD(3) [OF ok L(2), of x] dom kp
    by (auto simp del: set_mset_mset)
  show "x \<in> dom ?h - insert p Z" if "q \<in> dom ?h - insert p Z - K" "x \<in># kids_at ?h q" for x q
    using refs_okD(3) [OF ok, of q x] none(2) [of q] that dom by (auto simp: kids_at_same_ref [of h p ob, OF p])
  fix q ob1 assume q: "?h q = Some ob1" "q \<notin> insert p Z"
  then have "h q = Some ob1" "q \<noteq> p" "q \<notin> Z" by auto
  with refs_okD(4-7) [OF ok, of q ob1]
  show "data_ok ob1 \<and> 0 < ref_count ob1 \<and> ref_count ob1 < 2 ^ 31 \<and>
      ref_count ob1 = int (pointers (mset (kids ob) + ext) (dom ?h - insert p Z - K) ?h q)"
    unfolding dom L(1) ptr by (simp add: pointers_add_mset)
qed

lemma refs_ok_free:
  assumes ok: "refs_ok ext (insert p Z) K h" and "p \<notin> Z"
  shows "refs_ok ext Z K (h(p := None))"
proof (rule refs_okI)
  have dom: "dom (h(p := None)) - Z - K = dom h - insert p Z - K" "dom (h(p := None)) - Z = dom h - insert p Z"
    using assms(2) by auto
  have kids: "q \<in> dom h - insert p Z - K \<Longrightarrow> kids_at (h(p := None)) q = kids_at h q" for q
    by (auto simp: kids_at_def)
  show "finite (dom (h(p := None)))" using refs_okD(1) [OF ok] by simp
  show "x \<in> dom (h(p := None)) - Z" if "x \<in># ext" for x using refs_okD(2) [OF ok that] dom by blast
  show "x \<in> dom (h(p := None)) - Z" if "q \<in> dom (h(p := None)) - Z - K" "x \<in># kids_at (h(p := None)) q" for x q
    using refs_okD(3) [OF ok, of q x] that kids [of q] dom by metis
  fix q ob assume q: "(h(p := None)) q = Some ob" "q \<notin> Z"
  then have "h q = Some ob" "q \<notin> insert p Z" by (auto split: if_splits)
  with refs_okD(4-7) [OF ok, of q ob]
  show "data_ok ob \<and> 0 < ref_count ob \<and> ref_count ob < 2 ^ 31 \<and>
      ref_count ob = int (pointers ext (dom (h(p := None)) - Z - K) (h(p := None)) q)"
    using pointers_cong [of "dom h - insert p Z - K" "h(p := None)" h ext q, OF kids] dom by simp
qed

section \<open>Giving up a reference\<close>

text \<open>What deletions may do to a heap: remove objects outside \<open>Z\<close> and lower counts.\<close>

definition frees_only :: "addr set \<Rightarrow> 'd jheap \<Rightarrow> 'd jheap \<Rightarrow> bool" where
  "frees_only Z h h' \<longleftrightarrow> (\<forall>z \<in> Z. h' z = h z) \<and>
     (\<forall>q ob'. h' q = Some ob' \<longrightarrow> (\<exists>ob. h q = Some ob \<and> ob' = ob\<lparr>ref_count := ref_count ob'\<rparr>))"

lemma frees_only_refl [simp]: "frees_only Z h h"
  by (simp add: frees_only_def)

lemma frees_only_trans: "frees_only Z h1 h2 \<Longrightarrow> frees_only Z h2 h3 \<Longrightarrow> frees_only Z h1 h3"
  unfolding frees_only_def by (metis (no_types, lifting) json_object.update_convs(4) json_object.surjective)

lemma frees_only_dom: "frees_only Z h h' \<Longrightarrow> dom h' \<subseteq> dom h"
  unfolding frees_only_def by fastforce

lemma frees_only_card:
  "frees_only Z h h' \<Longrightarrow> finite (dom h) \<Longrightarrow> card (dom h' - Z) \<le> card (dom h - Z)"
  by (intro card_mono) (auto dest: frees_only_dom)

lemma free_entries_elements:
  "free_entries n es = free_elements n (List.map_filter snd es)"
proof (induction es)
  case (Cons e es)
  show ?case by (rule ext, cases "snd e") (simp_all add: List.map_filter_simps Cons)
qed (simp add: List.map_filter_simps fun_eq_iff)

text \<open>Whatever the type, deletion puts the pointers of the object and frees it.\<close>

lemma json_object_delete_kids:
  assumes "data_ok ob" and "h p = Some ob"
  shows "json_object_delete n p ob h = rbind (free_elements n (kids ob) h) (json_object_generic_delete p)"
proof (cases "o_data ob")
  case (c_object t)
  with assms(1) obtain ord where ord: "lh_wf c_strings t ord" "free_fn t" "delete_ptr ob = object_delete"
    by (auto simp: data_ok_def)
  have "List.map_filter snd (map (\<lambda>i. (e_k (table t ! i), e_v (table t ! i))) ord) =
        List.map_filter (\<lambda>i. e_v (table t ! i)) ord"
    by (simp add: List.map_filter_map_filter [symmetric] List.map_filter_def filter_map comp_def)
  then show ?thesis
    using ord c_object lh_wf_order [OF ord(1)] by (simp add: kids_def lh_table_free_def free_entries_elements)
qed (use assms in \<open>simp_all add: data_ok_def kids_def json_object_string_delete_def deref_def\<close>)

definition puts :: "nat \<Rightarrow> addr set \<Rightarrow> addr set \<Rightarrow> addr multiset \<Rightarrow> 'd jheap \<Rightarrow> 'd jheap res \<Rightarrow> bool" where
  "puts n Z K ext h r \<longleftrightarrow> (\<exists>h'. r = Inr h' \<and> refs_ok ext Z K h' \<and> frees_only Z h h')"

lemma free_elements_puts:
  fixes h :: "'d jheap"
  assumes one: "\<And>p ext (h :: 'd jheap). refs_ok (add_mset p ext) Z K h \<Longrightarrow> K \<subseteq> set_mset ext \<Longrightarrow> card (dom h - Z) \<le> n \<Longrightarrow>
      puts n Z K ext h (json_object_put n (Some p) h)"
    and "refs_ok (mset ps + ext) Z K h" and "K \<subseteq> set_mset ext" and "card (dom h - Z) \<le> n"
  shows "puts n Z K ext h (free_elements n ps h)"
  using assms(2,4)
proof (induction ps arbitrary: h)
  case (Cons p ps)
  have "puts n Z K (mset ps + ext) h (json_object_put n (Some p) h)"
    using one [of p "mset ps + ext" h] Cons.prems assms(3) by auto
  then obtain h1 where h1: "json_object_put n (Some p) h = Inr h1" "refs_ok (mset ps + ext) Z K h1" "frees_only Z h h1"
    by (auto simp: puts_def)
  have "finite (dom h)" using Cons.prems(1) by (simp add: refs_ok_def)
  with h1(3) Cons.prems(2) have "card (dom h1 - Z) \<le> n" using frees_only_card [of Z h h1] by linarith
  from Cons.IH [OF h1(2) this] h1 show ?case by (auto simp: puts_def intro: frees_only_trans)
qed (simp add: puts_def)

lemma json_object_put_puts:
  assumes "refs_ok (add_mset p ext) Z K h" and "K \<subseteq> set_mset ext" and "card (dom h - Z) \<le> n"
  shows "puts n Z K ext h (json_object_put n (Some p) h)"
  using assms
proof (induction n arbitrary: p ext Z h)
  case 0
  then show ?case by (auto simp: refs_ok_def)
next
  case (Suc n)
  have fin: "finite (dom h)" and pd: "p \<in> dom h - Z" using refs_okD(1,2) [OF Suc.prems(1)] by auto
  then obtain ob where p: "h p = Some ob" by auto
  with pd have ob: "data_ok ob" "0 < ref_count ob" "ref_count ob < 2 ^ 31"
      "ref_count ob = int (pointers (add_mset p ext) (dom h - Z - K) h p)"
    using refs_okD(4-7) [OF Suc.prems(1) p] by simp_all
  have w: "wrap32 (ref_count ob - 1) = ref_count ob - 1" using ob by (intro wrap32_id) auto
  show ?case
  proof (cases "ref_count ob = 1")
    case False
    with refs_ok_dec [OF Suc.prems(1) p] p pd show ?thesis
      by (auto simp: puts_def deref_def w frees_only_def)
  next
    case True
    let ?h = "h(p \<mapsto> ob\<lparr>ref_count := 0\<rparr>)"
    from ob(4) True fin have "p \<notin># ext" by (simp add: pointers_add_mset pointers_zero_iff)
    with Suc.prems(2) have "p \<notin> K" by auto
    with refs_ok_die [OF Suc.prems(1) p True] have die: "refs_ok (mset (kids ob) + ext) (insert p Z) K ?h" by blast
    have "dom ?h - insert p Z = (dom h - Z) - {p}" using p by auto
    with pd fin Suc.prems(3) have "card (dom ?h - insert p Z) \<le> n" by simp
    then have "puts n (insert p Z) K ext ?h (free_elements n (kids ob) ?h)"
      using Suc.IH Suc.prems(2) die by (intro free_elements_puts) auto
    then obtain h2 where h2: "free_elements n (kids ob) ?h = Inr h2" "refs_ok ext (insert p Z) K h2"
        "frees_only (insert p Z) ?h h2" by (auto simp: puts_def)
    have del: "json_object_put (Suc n) (Some p) h = Inr (h2(p := None))"
      using p True h2 json_object_delete_kids [of "ob\<lparr>ref_count := 0\<rparr>" ?h p n] ob(1)
      by (simp add: deref_def wrap32_def Let_def json_object_generic_delete_def frees_only_def
          del: json_object_delete.simps)
    have "frees_only Z h (h2(p := None))"
      using h2(3) pd by (auto simp: frees_only_def split: if_splits)
    with del refs_ok_free [OF h2(2)] pd show ?thesis by (simp add: puts_def)
  qed
qed

section \<open>New objects and references\<close>

lemma refs_ok_new:
  assumes ok: "heap_ok ext h" and p: "h p = None"
    and ob: "data_ok ob" "kids ob = []" "ref_count ob = 1"
  shows "heap_ok (add_mset p ext) (h(p \<mapsto> ob))"
proof (rule refs_okI)
  let ?h = "h(p \<mapsto> ob)"
  have notin: "p \<notin># ext" "\<And>q. q \<in> dom h \<Longrightarrow> p \<notin># kids_at h q"
    using refs_okD(2,3) [OF ok] p by blast+
  have kids: "kids_at ?h = (kids_at h)(p := {#})" using ob(2) by (auto simp: kids_at_def fun_eq_iff)
  have fin: "finite (dom h)" using refs_okD(1) [OF ok] .
  have "p \<notin> dom h" using p by auto
  then have ptr: "pointers ext (insert p (dom h)) ?h q = pointers ext (dom h) h q" for q
    using fin kids by (auto simp: pointers_def intro!: sum.cong)
  show "finite (dom ?h)" using fin by simp
  show "x \<in> dom ?h - {}" if "x \<in># add_mset p ext" for x using that refs_okD(2) [OF ok, of x] by auto
  show "x \<in> dom ?h - {}" if "q \<in> dom ?h - {} - {}" "x \<in># kids_at ?h q" for x q
    using that refs_okD(3) [OF ok, of q x] kids by (auto split: if_splits)
  have zero: "pointers ext (dom h) h p = 0" using notin fin by (simp add: pointers_zero_iff)
  fix q ob1 assume q: "?h q = Some ob1"
  show "data_ok ob1 \<and> 0 < ref_count ob1 \<and> ref_count ob1 < 2 ^ 31 \<and>
      ref_count ob1 = int (pointers (add_mset p ext) (dom ?h - {} - {}) ?h q)"
  proof (cases "q = p")
    case True
    with q ob zero ptr [of p] show ?thesis by (auto simp: pointers_add_mset)
  next
    case False
    with q have "h q = Some ob1" by simp
    with refs_okD(4-7) [OF ok, of q ob1] False show ?thesis
      by (simp add: pointers_add_mset ptr)
  qed
qed

lemma json_object_get_ok:
  assumes ok: "heap_ok ext h" and p: "h p = Some ob" and rc: "ref_count ob < 2 ^ 31 - 1"
  shows "\<exists>h'. json_object_get h (Some p) = Inr (Some p, h') \<and> heap_ok (add_mset p ext) h'"
proof -
  let ?h = "h(p \<mapsto> ob\<lparr>ref_count := ref_count ob + 1\<rparr>)"
  have dom: "dom ?h = dom h" using p by auto
  have kids: "kids_at ?h = kids_at h" by (rule kids_at_same_ref [of h p ob, OF p])
  have "wrap32 (ref_count ob + 1) = ref_count ob + 1"
    using rc refs_okD(5) [OF ok p] by (intro wrap32_id) auto
  then have "json_object_get h (Some p) = Inr (Some p, ?h)" using p by (simp add: json_object_get_def deref_def)
  moreover have "heap_ok (add_mset p ext) ?h"
  proof (rule refs_okI)
    show "finite (dom ?h)" using refs_okD(1) [OF ok] by simp
    show "x \<in> dom ?h - {}" if "x \<in># add_mset p ext" for x using that refs_okD(2) [OF ok, of x] by auto
    show "x \<in> dom ?h - {}" if "q \<in> dom ?h - {} - {}" "x \<in># kids_at ?h q" for x q
      using that refs_okD(3) [OF ok, of q x] unfolding dom kids by blast
    fix q ob1 assume q: "?h q = Some ob1"
    have ptr: "pointers (add_mset p ext) L ?h q = (if p = q then 1 else 0) + pointers ext L h q" for L
      using pointers_cong [of L ?h h "add_mset p ext" q] kids by (simp add: pointers_add_mset)
    show "data_ok ob1 \<and> 0 < ref_count ob1 \<and> ref_count ob1 < 2 ^ 31 \<and>
        ref_count ob1 = int (pointers (add_mset p ext) (dom ?h - {} - {}) ?h q)"
      unfolding dom ptr using q refs_okD(4-7) [OF ok p] refs_okD(4-7) [OF ok, of q ob1] rc
      by (cases "q = p") auto
  qed
  ultimately show ?thesis by blast
qed

section \<open>Changing an object\<close>

text \<open>While an object is changed its pointers count as external; afterwards the new ones are its own.\<close>

lemma refs_ok_freeze:
  assumes ok: "heap_ok ext h" and p: "h p = Some ob"
  shows "refs_ok (mset (kids ob) + ext) {} {p} h"
proof (rule refs_okI)
  have kp: "kids_at h p = mset (kids ob)" "p \<in> dom h" using p by (auto simp: kids_at_def)
  have fin: "finite (dom h)" using refs_okD(1) [OF ok] .
  show "finite (dom h)" by (rule fin)
  show "x \<in> dom h - {}" if "x \<in># mset (kids ob) + ext" for x
    using that refs_okD(2) [OF ok, of x] refs_okD(3) [OF ok, of p x] kp by auto
  show "x \<in> dom h - {}" if "q \<in> dom h - {} - {p}" "x \<in># kids_at h q" for x q
    using that refs_okD(3) [OF ok, of q x] by auto
  fix q ob1 assume "h q = Some ob1"
  with refs_okD(4-7) [OF ok, of q ob1] pointers_remove [OF fin kp(2), of ext h q] kp(1)
  show "data_ok ob1 \<and> 0 < ref_count ob1 \<and> ref_count ob1 < 2 ^ 31 \<and>
      ref_count ob1 = int (pointers (mset (kids ob) + ext) (dom h - {} - {p}) h q)" by simp
qed

lemma refs_ok_unfreeze:
  assumes ok: "refs_ok (mset (kids ob1) + ext) {} {p} h" and p: "h p = Some ob"
    and ob1: "data_ok ob1" "ref_count ob1 = ref_count ob"
  shows "heap_ok ext (h(p \<mapsto> ob1))"
proof (rule refs_okI)
  let ?h = "h(p \<mapsto> ob1)"
  have dom: "dom ?h = dom h" using p by auto
  have fin: "finite (dom h)" using refs_okD(1) [OF ok] .
  have kids: "kids_at ?h p = mset (kids ob1)" "\<And>q. q \<noteq> p \<Longrightarrow> kids_at ?h q = kids_at h q"
    by (simp_all add: kids_at_def)
  have ptr: "pointers ext (dom h) ?h q = pointers (mset (kids ob1) + ext) (dom h - {p}) h q" for q
    using pointers_remove [OF fin, of p ext ?h q] kids p
      pointers_cong [of "dom h - {p}" ?h h "mset (kids ob1) + ext" q] by auto
  show "finite (dom ?h)" using fin by simp
  show "x \<in> dom ?h - {}" if "x \<in># ext" for x using that refs_okD(2) [OF ok, of x] by auto
  show "x \<in> dom ?h - {}" if "q \<in> dom ?h - {} - {}" "x \<in># kids_at ?h q" for x q
    using that refs_okD(2) [OF ok, of x] refs_okD(3) [OF ok, of q x] kids unfolding dom by (cases "q = p") auto
  fix q ob2 assume q: "?h q = Some ob2"
  show "data_ok ob2 \<and> 0 < ref_count ob2 \<and> ref_count ob2 < 2 ^ 31 \<and>
      ref_count ob2 = int (pointers ext (dom ?h - {} - {}) ?h q)"
  proof (cases "q = p")
    case True
    with q ob1 refs_okD(4-7) [OF ok p] ptr [of p] dom show ?thesis by simp
  next
    case False
    with q have "h q = Some ob2" by simp
    with refs_okD(4-7) [OF ok, of q ob2] ptr [of q] dom show ?thesis by simp
  qed
qed

section \<open>Tables and arrays of pointers\<close>

lemma lh_insert_free_fn: "lh_table_insert d mem t k v = Inr t1 \<Longrightarrow> free_fn t1 = free_fn t"
proof -
  have slot: "lh_insert_slot t k v = Inr t1 \<Longrightarrow> free_fn t1 = free_fn t" for t t1 :: "('a, 'b) lh_table" and k v
    by (auto simp: lh_insert_slot_def lh_link_slot_def rbind_Inr_iff Let_def split: if_splits option.splits)
  have resize: "lh_table_resize ins mem t n = Inr t1 \<Longrightarrow> free_fn t1 = free_fn t" for ins n and t t1 :: "('a, 'b) lh_table"
    by (auto simp: lh_table_resize_def rbind_Inr_iff split: option.splits)
  show "lh_table_insert d mem t k v = Inr t1 \<Longrightarrow> free_fn t1 = free_fn t"
    by (cases d) (auto simp: Let_def rbind_Inr_iff split: if_splits dest!: slot resize)
qed

lemma lh_delete_result:
  assumes rep: "lh_rep K t kvs" and k: "k \<in> K" and fr: "free_fn t"
    and del: "lh_table_delete t k = Inr (rc, t1, freed)"
  shows "lh_rep K t1 (al_remove k kvs) \<and> free_fn t1 \<and> freed = map_option (Pair k) (map_of kvs k)"
proof (cases "map_of kvs k")
  case (Some v)
  then show ?thesis using lh_rep_delete_present [OF rep Some] del fr by (auto simp: removed_def)
next
  case None
  then have notin: "k \<notin> fst ` set kvs" by (simp add: map_of_eq_None_iff)
  obtain ord where ord: "lh_wf K t ord" "kvs = map (\<lambda>i. entry_pair (table t ! i)) ord"
    using rep by (auto simp: lh_rep_def)
  have "has_empty t"
  proof (rule ccontr)
    assume no: "\<not> has_empty t"
    have wf: "0 < lh_size t" "length (table t) = lh_size t" "set ord = {i. i < lh_size t \<and> live (table t) i}"
        "\<And>a b. a \<in> K \<Longrightarrow> b \<in> K \<Longrightarrow> equal_fn t a b \<longleftrightarrow> a = b"
        "\<And>i. i \<in> set ord \<Longrightarrow> key_of (e_k (table t ! i)) \<in> K"
      using ord(1) by (auto simp: lh_wf_def)
    have "\<not> equal_fn t k' k" if "i < lh_size t" "e_k (table t ! i) = Key k'" for i k'
    proof -
      have i: "i \<in> set ord" using wf(3) that by auto
      then have "k' \<in> fst ` set kvs" using ord(2) that(2) by (force simp: entry_pair_def)
      then show ?thesis using wf(4) [of k' k] wf(5) [OF i] that(2) k notin by auto
    qed
    then have "lookup_loop (lh_size t) (equal_fn t) (table t) k (hash_fn t k mod lh_size t) = Inl Out_Of_Fuel"
      using wf(1,2) no by (intro lookup_loop_diverges) (auto simp: has_empty_def)
    then show False using del wf(1) by (simp add: lh_table_delete_def lh_table_lookup_entry_def)
  qed
  from lh_rep_lookup_absent [OF rep k notin this] have "t1 = t\<lparr>lookups := lookups t + 1\<rparr>" "freed = None"
    using del by (auto simp: lh_table_delete_def)
  then show ?thesis using rep fr None notin by (auto simp: lh_rep_def al_remove_absent)
qed

lemma lh_insert_result:
  assumes rep: "lh_rep K t kvs" and k: "k \<in> K" "k \<notin> fst ` set kvs"
    and ins: "lh_table_insert 1 mem t k v = Inr t1"
  shows "lh_rep K t1 (kvs @ [(k, v)])"
proof -
  obtain ord where ord: "lh_wf K t ord" "kvs = map (\<lambda>i. entry_pair (table t ! i)) ord"
    using rep by (auto simp: lh_rep_def)
  have "lh_room mem t" if "load_exceeded t"
  proof -
    have "load_exceeded (t\<lparr>inserts := inserts t + 1\<rparr>)" using that by (simp add: load_exceeded_def)
    moreover have "0 < lh_size t" using ord(1) by (simp add: lh_wf_def)
    ultimately show ?thesis using ins
      by (auto simp: rbind_Inr_iff Let_def lh_table_resize_def lh_table_new_def lh_room_def split: if_splits)
  qed
  then show ?thesis using lh_table_insert_ok [OF ord(1) _ k ord(2), of mem 0 v] ins by auto
qed

lemma kids_table: "o_data ob = c_object t \<Longrightarrow> lh_rep K t kvs \<Longrightarrow> kids ob = List.map_filter snd kvs"
  by (auto simp: lh_rep_def kids_def lh_wf_order entry_pair_def List.map_filter_def filter_map comp_def)

definition mopt :: "addr option \<Rightarrow> addr multiset" where
  "mopt v = (case v of None \<Rightarrow> {#} | Some a \<Rightarrow> {#a#})"

lemma mopt_simps [simp]: "mopt None = {#}" "mopt (Some a) = {#a#}"
  by (simp_all add: mopt_def)

lemma mset_remove_member:
  "distinct (map fst kvs) \<Longrightarrow> map_of kvs k = Some v \<Longrightarrow>
   mset (List.map_filter snd kvs) = mopt v + mset (List.map_filter snd (al_remove k kvs))"
proof (induction kvs)
  case (Cons kv kvs)
  show ?case
  proof (cases "fst kv = k")
    case True
    with Cons.prems have "v = snd kv" "al_remove k kvs = kvs" by (auto intro: al_remove_absent)
    with True show ?thesis by (cases "snd kv") (simp_all add: al_remove_def List.map_filter_simps)
  next
    case False
    with Cons show ?thesis by (cases "snd kv") (auto simp: al_remove_def List.map_filter_simps)
  qed
qed simp

lemma al_free_all: "al_inv a \<Longrightarrow> array_list_free a = List.map_filter id (al_array a)"
proof -
  assume a: "al_inv a"
  have "\<forall>x \<in> set (drop (nat (al_length a)) (al_array a)). x = None"
    using a by (auto simp: al_inv_def in_set_conv_nth)
  then have "filter (\<lambda>e. e \<noteq> None) (drop (nat (al_length a)) (al_array a)) = []" by (simp add: filter_empty_conv)
  then have "filter (\<lambda>e. e \<noteq> None) (al_array a) = filter (\<lambda>e. e \<noteq> None) (take (nat (al_length a)) (al_array a))"
    by (metis append_Nil2 append_take_drop_id filter_append)
  then show ?thesis by (simp add: array_list_free_def List.map_filter_def)
qed

lemma mset_map_filter_update:
  "i < length xs \<Longrightarrow> mset (List.map_filter id (xs[i := v])) + mopt (xs ! i) = mset (List.map_filter id xs) + mopt v"
proof (induction xs arbitrary: i)
  case (Cons x xs)
  then show ?case
    by (cases i; cases x; cases v) (auto simp: List.map_filter_simps add.commute)
qed simp

lemma al_put_within:
  assumes a: "al_inv a" and i: "0 \<le> idx" "idx < al_size a"
    and a1: "a1 = a\<lparr>al_array := (al_array a)[nat idx := v], al_length := (if al_length a \<le> idx then idx + 1 else al_length a)\<rparr>"
  shows "al_inv a1" and "mset (array_list_free a1) + mopt (al_array a ! nat idx) = mset (array_list_free a) + mopt v"
proof -
  show inv: "al_inv a1" using a i a1 by (auto simp: al_inv_def nth_list_update)
  have "nat idx < length (al_array a)" using a i by (auto simp: al_inv_def)
  then show "mset (array_list_free a1) + mopt (al_array a ! nat idx) = mset (array_list_free a) + mopt v"
    using mset_map_filter_update al_free_all [OF a] al_free_all [OF inv] a1 by simp
qed

lemma al_expand_result:
  assumes a: "al_inv a" and e: "array_list_expand_internal mem a idx = (0, t)" and idx: "idx < int (length (al_array t))"
  shows "al_inv t" and "idx < al_size t" and "array_list_free t = array_list_free a"
proof -
  have "al_inv t \<and> idx < al_size t \<and> array_list_free t = array_list_free a"
  proof (cases "idx < al_size a")
    case True
    with e a show ?thesis by (simp add: array_list_expand_internal_def)
  next
    case False
    define new where "new = max (wrap32 (al_size a * 2)) idx"
    have t: "t = a\<lparr>al_array := al_array a @ replicate (nat (new - al_size a)) None, al_size := new\<rparr>"
      using e False a by (auto simp: array_list_expand_internal_def new_def Let_def al_inv_def split: if_splits)
    have "int (length (al_array t)) = new" using t a False by (auto simp: al_inv_def new_def)
    with idx have "new = wrap32 (al_size a * 2)" "idx < new" by (auto simp: new_def max_def split: if_splits)
    moreover from this have "new < 2 ^ 31" using wrap32_range by simp
    ultimately have "al_inv t" using t a False by (auto simp: al_inv_def nth_append)
    moreover have "array_list_free t = array_list_free a"
      using t a by (simp add: array_list_free_def al_inv_def)
    ultimately show ?thesis using t \<open>idx < new\<close> by simp
  qed
  then show "al_inv t" and "idx < al_size t" and "array_list_free t = array_list_free a" by simp_all
qed

lemma array_put_result:
  assumes inv: "al_inv a" and put: "array_list_put_idx mem a idx v = Inr (rc, a1, freed)"
  shows "al_inv a1 \<and> (rc = -1 \<and> a1 = a \<and> freed = None \<or>
     rc = 0 \<and> mset (array_list_free a1) + mopt freed = mset (array_list_free a) + mopt v)"
proof -
  obtain rc0 t where e: "array_list_expand_internal mem a idx = (rc0, t)" by fastforce
  show ?thesis
  proof (cases "rc0 = 0")
    case False
    then have "t = a" using e by (auto simp: array_list_expand_internal_def Let_def split: if_splits)
    with False put e inv show ?thesis by (simp add: array_list_put_idx_def)
  next
    case True
    with put e have idx: "0 \<le> idx" "idx < int (length (al_array t))"
      by (auto simp: array_list_put_idx_def split: if_splits)
    note t = al_expand_result [OF inv e [unfolded True] idx(2)]
    have "wrap32 (idx + 1) = idx + 1" using idx t(1,2) by (intro wrap32_id) (auto simp: al_inv_def)
    with put e True idx have r: "rc = 0" "freed = al_array t ! nat idx"
        "a1 = t\<lparr>al_array := (al_array t)[nat idx := v], al_length := (if al_length t \<le> idx then idx + 1 else al_length t)\<rparr>"
      by (auto simp: array_list_put_idx_def)
    from al_put_within [OF t(1) idx(1) t(2) r(3)] r(1,2) t(3) show ?thesis by simp
  qed
qed

section \<open>Every operation keeps the invariant\<close>

text \<open>
  An operation on the object \<open>p\<close>, to which the caller holds a reference: the pointers \<open>R\<close> it drops are put
  while the object still has its old content, then the new content \<open>dat\<close> is stored.
\<close>

lemma json_object_put_opt:
  assumes "refs_ok (mopt v + ext) {} K h" and "K \<subseteq> set_mset ext" and "card (dom h) \<le> n"
  shows "puts n {} K ext h (json_object_put n v h)"
  using assms json_object_put_puts [of _ ext "{}" K h n] by (cases v) (auto simp: puts_def)

lemma data_ok_update:
  "data_ok ob \<Longrightarrow> o_data ob = c_object t \<Longrightarrow> free_fn t1 \<Longrightarrow> lh_rep c_strings t1 kvs \<Longrightarrow> data_ok (ob\<lparr>o_data := c_object t1\<rparr>)"
  "data_ok ob \<Longrightarrow> o_data ob = c_array a \<Longrightarrow> al_inv a1 \<Longrightarrow> data_ok (ob\<lparr>o_data := c_array a1\<rparr>)"
  by (auto simp: data_ok_def lh_rep_def)

lemma change_object:
  assumes ok: "heap_ok (add_mset p ext) h" and p: "h p = Some ob" and n: "card (dom h) \<le> n"
    and dat: "\<And>ob1. o_data ob1 = o_data ob \<Longrightarrow> data_ok ob1 \<Longrightarrow> data_ok (ob1\<lparr>o_data := dat\<rparr>)"
    and ptr: "mset (kids (ob\<lparr>o_data := dat\<rparr>)) + mopt R = mset (kids ob) + A" and A: "A \<subseteq># ext"
  shows "\<exists>h1 ob1. json_object_put n R h = Inr h1 \<and> h1 p = Some ob1 \<and> o_data ob1 = o_data ob \<and>
     heap_ok (add_mset p (ext - A)) (h1(p \<mapsto> ob1\<lparr>o_data := dat\<rparr>)) \<and> frees_only {} h h1"
proof -
  let ?new = "mset (kids (ob\<lparr>o_data := dat\<rparr>)) + add_mset p (ext - A)"
  obtain B where B: "ext = A + B" using A by (auto simp: mset_subset_eq_exists_conv)
  have "mset (kids ob) + add_mset p ext = add_mset p ((mset (kids ob) + A) + B)" by (simp add: B add.assoc)
  also have "\<dots> = mopt R + ?new" unfolding ptr [symmetric] by (simp add: B ac_simps)
  finally have "mset (kids ob) + add_mset p ext = mopt R + ?new" .
  with refs_ok_freeze [OF ok p] have "refs_ok (mopt R + ?new) {} {p} h" by simp
  with n have "puts n {} {p} ?new h (json_object_put n R h)" by (intro json_object_put_opt) auto
  then obtain h1 where h1: "json_object_put n R h = Inr h1" "refs_ok ?new {} {p} h1" "frees_only {} h h1"
    by (auto simp: puts_def)
  from refs_okD(2) [OF h1(2), of p] obtain ob1 where ob1: "h1 p = Some ob1" by auto
  with h1(3) p have same: "ob1 = ob\<lparr>ref_count := ref_count ob1\<rparr>" by (fastforce simp: frees_only_def)
  then have o: "o_data ob1 = o_data ob" by (metis json_object.ext_inject json_object.surjective json_object.update_convs(4))
  have "kids (ob1\<lparr>o_data := dat\<rparr>) = kids (ob\<lparr>o_data := dat\<rparr>)" by (simp add: kids_def)
  then have "heap_ok (add_mset p (ext - A)) (h1(p \<mapsto> ob1\<lparr>o_data := dat\<rparr>))"
    using refs_ok_unfreeze [of "ob1\<lparr>o_data := dat\<rparr>" "add_mset p (ext - A)" p h1 ob1] h1(2) ob1 dat [OF o refs_okD(4) [OF h1(2) ob1]] by simp
  with h1 ob1 o show ?thesis by blast
qed

lemma cstr_c_string [simp]: "cstr s \<in> c_strings"
  by (auto simp: c_strings_def cstr_def dest: set_takeWhileD)

lemma data_ok_table:
  assumes "data_ok ob" and "o_data ob = c_object t"
  obtains kvs where "free_fn t" and "lh_rep c_strings t kvs"
  using assms by (auto simp: data_ok_def lh_rep_def)

lemma ref_object_del_runs:
  assumes ok: "heap_ok (add_mset p ext) h" and n: "card (dom h) \<le> n"
    and p: "h p = Some ob" "o_data ob = c_object t" and rep: "lh_rep c_strings t kvs"
    and del: "lh_table_delete t (cstr key) = Inr (rc, t1, freed)"
  shows "\<exists>h1 ob1. ref_object_del n h (Some p) key = Inr (h1(p \<mapsto> ob1\<lparr>o_data := c_object t1\<rparr>)) \<and> h1 p = Some ob1 \<and>
     heap_ok (add_mset p ext) (h1(p \<mapsto> ob1\<lparr>o_data := c_object t1\<rparr>)) \<and> frees_only {} h h1 \<and>
     lh_rep c_strings t1 (al_remove (cstr key) kvs)"
proof -
  have fr: "free_fn t" using refs_okD(4) [OF ok p(1)] p(2) by (simp add: data_ok_def)
  note d = lh_delete_result [OF rep cstr_c_string fr del]
  define R where "R = (case map_of kvs (cstr key) of None \<Rightarrow> None | Some v \<Rightarrow> v)"
  have put: "(case freed of None \<Rightarrow> Inr h | Some (_, v) \<Rightarrow> json_object_put n v h) = json_object_put n R h"
    using d by (auto simp: R_def split: option.splits)
  have "mset (kids (ob\<lparr>o_data := c_object t1\<rparr>)) + mopt R = mset (kids ob) + {#}"
    using kids_table [OF p(2) rep] kids_table [of "ob\<lparr>o_data := c_object t1\<rparr>" t1 c_strings "al_remove (cstr key) kvs"] d
      mset_remove_member [OF lh_rep_distinct [OF rep], of "cstr key"]
    by (auto simp: R_def map_of_eq_None_iff al_remove_absent split: option.splits)
  with change_object [OF ok p(1) n, of "c_object t1" R "{#}"] data_ok_update(1) d p(2)
  obtain h1 ob1 where h1: "json_object_put n R h = Inr h1" "h1 p = Some ob1"
      "heap_ok (add_mset p ext) (h1(p \<mapsto> ob1\<lparr>o_data := c_object t1\<rparr>))" "frees_only {} h h1"
    by fastforce
  then have "ref_object_del n h (Some p) key = Inr (h1(p \<mapsto> ob1\<lparr>o_data := c_object t1\<rparr>))"
    using p del put by (simp add: ref_object_del_def deref_def)
  with h1 d show ?thesis by blast
qed

lemma ref_object_del_ok:
  assumes ok: "heap_ok (add_mset p ext) h" and n: "card (dom h) \<le> n" and del: "ref_object_del n h (Some p) key = Inr h'"
  shows "heap_ok (add_mset p ext) h'"
proof -
  from del obtain ob t where p: "h p = Some ob" "o_data ob = c_object t"
    by (auto simp: ref_object_del_def deref_def rbind_Inr_iff split: option.splits json_data.splits)
  with del obtain r where r: "lh_table_delete t (cstr key) = Inr r"
    by (auto simp: ref_object_del_def deref_def elim!: rbind_InrE)
  obtain kvs where "lh_rep c_strings t kvs" by (rule data_ok_table [OF refs_okD(4) [OF ok p(1)] p(2)]) auto
  with ref_object_del_runs [OF ok n p] r del show ?thesis by (cases r) fastforce
qed

text \<open>Adding a member takes over the caller's reference to the value.\<close>

lemma store_member:
  assumes ok: "heap_ok (add_mset p (mopt val + ext)) h" and p: "h p = Some ob" "o_data ob = c_object t"
    and rep: "lh_rep c_strings t kvs" "cstr key \<notin> fst ` set kvs"
    and ins: "lh_table_insert 1 mem t (cstr key) val = Inr t1"
  shows "heap_ok (add_mset p ext) (h(p \<mapsto> ob\<lparr>o_data := c_object t1\<rparr>)) \<and> lh_rep c_strings t1 (kvs @ [(cstr key, val)])"
proof -
  have rep1: "lh_rep c_strings t1 (kvs @ [(cstr key, val)])" using rep ins by (intro lh_insert_result) auto
  have fr: "free_fn t1" using lh_insert_free_fn [OF ins] refs_okD(4) [OF ok p(1)] p(2) by (simp add: data_ok_def)
  have "mset (kids (ob\<lparr>o_data := c_object t1\<rparr>)) + mopt None = mset (kids ob) + mopt val"
    using kids_table [OF p(2) rep(1)] kids_table [of "ob\<lparr>o_data := c_object t1\<rparr>" t1, OF _ rep1]
    by (cases val) (simp_all add: List.map_filter_def)
  with change_object [OF ok p(1) order_refl, of "c_object t1" None "mopt val"] data_ok_update(1) fr rep1 p
  have "heap_ok (add_mset p ext) (h(p \<mapsto> ob\<lparr>o_data := c_object t1\<rparr>))" by fastforce
  with rep1 show ?thesis by blast
qed

lemma ref_object_add_ok:
  assumes ok: "heap_ok (add_mset p (mopt val + ext)) h" and n: "card (dom h) \<le> n"
    and add: "ref_object_add n mem h (Some p) key val = Inr h'"
  shows "heap_ok (add_mset p ext) h'"
proof -
  from add obtain ob t where p: "h p = Some ob" "o_data ob = c_object t"
    by (auto simp: ref_object_add_def ref_object_del_def deref_def rbind_Inr_iff split: option.splits json_data.splits)
  with add obtain rc t1 freed where r: "lh_table_delete t (cstr key) = Inr (rc, t1, freed)"
    by (auto simp: ref_object_add_def ref_object_del_def deref_def elim!: rbind_InrE)
  obtain kvs where kvs: "lh_rep c_strings t kvs" by (rule data_ok_table [OF refs_okD(4) [OF ok p(1)] p(2)]) auto
  from ref_object_del_runs [OF ok n p kvs r] obtain h1 ob1 where
    h1: "ref_object_del n h (Some p) key = Inr (h1(p \<mapsto> ob1\<lparr>o_data := c_object t1\<rparr>))"
      "heap_ok (add_mset p (mopt val + ext)) (h1(p \<mapsto> ob1\<lparr>o_data := c_object t1\<rparr>))"
      "lh_rep c_strings t1 (al_remove (cstr key) kvs)" by blast
  from add h1(1) obtain t2 where t2: "lh_table_insert 1 mem t1 (cstr key) val = Inr t2"
      "h' = h1(p \<mapsto> ob1\<lparr>o_data := c_object t2\<rparr>)"
    by (auto simp: ref_object_add_def deref_def elim!: rbind_InrE)
  have "cstr key \<notin> fst ` set (al_remove (cstr key) kvs)" by (auto simp: al_remove_def)
  from store_member [OF h1(2) _ _ h1(3) this t2(1), of "ob1\<lparr>o_data := c_object t1\<rparr>"] t2(2) show ?thesis by simp
qed

lemma ref_object_get_ok:
  assumes ok: "heap_ok ext h" and get: "ref_object_get h (Some p) key = Inr (v, h')"
  shows "heap_ok ext h'"
proof -
  from get obtain ob t t1 where p: "h p = Some ob" "o_data ob = c_object t"
      "lh_table_lookup t (cstr key) = Inr (v, t1)" "h' = h(p \<mapsto> ob\<lparr>o_data := c_object t1\<rparr>)"
    by (auto simp: ref_object_get_def deref_def rbind_Inr_iff split: option.splits json_data.splits)
  then have t1: "t1 = t\<lparr>lookups := lookups t + 1\<rparr>"
    by (auto simp: lh_table_lookup_def lh_table_lookup_entry_def rbind_Inr_iff split: if_splits option.splits)
  obtain kvs where kvs: "free_fn t" "lh_rep c_strings t kvs"
    by (rule data_ok_table [OF refs_okD(4) [OF ok p(1)] p(2)]) auto
  then have rep1: "lh_rep c_strings t1 kvs" by (auto simp: t1 lh_rep_def)
  have "kids (ob\<lparr>o_data := c_object t1\<rparr>) = kids ob"
    using kids_table [OF p(2) kvs(2)] kids_table [of "ob\<lparr>o_data := c_object t1\<rparr>" t1, OF _ rep1] by simp
  moreover have "data_ok (ob\<lparr>o_data := c_object t1\<rparr>)"
    using data_ok_update(1) [OF refs_okD(4) [OF ok p(1)] p(2) _ rep1] kvs(1) by (simp add: t1)
  ultimately show ?thesis
    using refs_ok_unfreeze [of "ob\<lparr>o_data := c_object t1\<rparr>" ext p h ob] refs_ok_freeze [OF ok p(1)] p by simp
qed

lemma ref_array_put_ok:
  assumes ok: "heap_ok (add_mset p (mopt val + ext)) h" and n: "card (dom h) \<le> n"
    and put: "ref_array_put_idx n mem h (Some p) idx val = Inr (rc, h')"
  shows "heap_ok (add_mset p (if rc = 0 then ext else mopt val + ext)) h'"
proof -
  from put obtain ob a where p: "h p = Some ob" "o_data ob = c_array a"
    by (auto simp: ref_array_put_idx_def deref_def rbind_Inr_iff split: option.splits json_data.splits)
  with put obtain rc1 a1 freed where r: "array_list_put_idx mem a idx val = Inr (rc1, a1, freed)"
    by (auto simp: ref_array_put_idx_def deref_def elim!: rbind_InrE)
  have inv: "al_inv a" using refs_okD(4) [OF ok p(1)] p(2) by (simp add: data_ok_def)
  define A where "A = (if rc1 = 0 then mopt val else {#})"
  note a1 = array_put_result [OF inv r]
  have "mset (kids (ob\<lparr>o_data := c_array a1\<rparr>)) + mopt freed = mset (kids ob) + A"
    using a1 p(2) by (auto simp: kids_def A_def)
  moreover have "A \<subseteq># mopt val + ext" by (auto simp: A_def)
  ultimately obtain h1 ob1 where h1: "json_object_put n freed h = Inr h1" "h1 p = Some ob1"
      "heap_ok (add_mset p (mopt val + ext - A)) (h1(p \<mapsto> ob1\<lparr>o_data := c_array a1\<rparr>))"
    using change_object [OF ok p(1) n, of "c_array a1" freed A] data_ok_update(2) a1 p(2) by fastforce
  with put p r have "rc = rc1" "h' = h1(p \<mapsto> ob1\<lparr>o_data := c_array a1\<rparr>)"
    by (simp_all add: ref_array_put_idx_def deref_def)
  with h1(3) show ?thesis by (auto simp: A_def split: if_splits)
qed

section \<open>Clients\<close>

text \<open>
  What a client that follows the ownership rules can do. The state holds the references of the client:
  a constructor and \<open>json_object_get\<close> give it one, \<open>json_object_put\<close> and adding to a container take one
  away, and it only changes containers it holds a reference to. The fuel is the number of objects.
\<close>

inductive json_step ::
  "allocator \<Rightarrow> ('d jheap \<Rightarrow> addr option) \<Rightarrow> addr multiset \<times> 'd jheap \<Rightarrow> addr multiset \<times> 'd jheap \<Rightarrow> bool"
  for mem new where
  new_boolean: "ref_new_boolean new b h = (v, h') \<Longrightarrow> json_step mem new (ext, h) (mopt v + ext, h')"
| new_int: "ref_new_int new i h = (v, h') \<Longrightarrow> json_step mem new (ext, h) (mopt v + ext, h')"
| new_double: "ref_new_double new d h = (v, h') \<Longrightarrow> json_step mem new (ext, h) (mopt v + ext, h')"
| new_string: "ref_new_string new s h = (v, h') \<Longrightarrow> json_step mem new (ext, h) (mopt v + ext, h')"
| new_string_len: "ref_new_string_len new s len h = (v, h') \<Longrightarrow> json_step mem new (ext, h) (mopt v + ext, h')"
| new_object: "ref_new_object mem new h = Inr (v, h') \<Longrightarrow> json_step mem new (ext, h) (mopt v + ext, h')"
| new_array: "ref_new_array mem new h = Inr (v, h') \<Longrightarrow> json_step mem new (ext, h) (mopt v + ext, h')"
| get: "h p = Some ob \<Longrightarrow> ref_count ob < 2 ^ 31 - 1 \<Longrightarrow> json_object_get h (Some p) = Inr (v, h') \<Longrightarrow>
    json_step mem new (ext, h) (mopt v + ext, h')"
| put: "json_object_put (card (dom h)) v h = Inr h' \<Longrightarrow> json_step mem new (mopt v + ext, h) (ext, h')"
| object_add: "ref_object_add (card (dom h)) mem h (Some p) key val = Inr h' \<Longrightarrow>
    json_step mem new (add_mset p (mopt val + ext), h) (add_mset p ext, h')"
| object_del: "ref_object_del (card (dom h)) h (Some p) key = Inr h' \<Longrightarrow>
    json_step mem new (add_mset p ext, h) (add_mset p ext, h')"
| object_get: "ref_object_get h (Some p) key = Inr (v, h') \<Longrightarrow>
    json_step mem new (add_mset p ext, h) (add_mset p ext, h')"
| array_add: "ref_array_add (card (dom h)) mem h (Some p) val = Inr (rc, h') \<Longrightarrow>
    json_step mem new (add_mset p (mopt val + ext), h) (add_mset p (if rc = 0 then ext else mopt val + ext), h')"
| array_put_idx: "ref_array_put_idx (card (dom h)) mem h (Some p) idx val = Inr (rc, h') \<Longrightarrow>
    json_step mem new (add_mset p (mopt val + ext), h) (add_mset p (if rc = 0 then ext else mopt val + ext), h')"

definition fresh :: "('d jheap \<Rightarrow> addr option) \<Rightarrow> bool" where
  "fresh new \<longleftrightarrow> (\<forall>h p. new h = Some p \<longrightarrow> h p = None)"

text \<open>The object a constructor leaves behind.\<close>

lemma constructor_ok:
  assumes "heap_ok ext h" and "fresh new" and "set_data del str dat (json_object_new new ty h) = (v, h')"
    and "data_ok \<lparr>o_type = ty, delete_ptr = del, string_ptr = Some str, ref_count = 1, o_pb = None, o_data = dat\<rparr>"
    and "kids \<lparr>o_type = ty, delete_ptr = del, string_ptr = Some str, ref_count = 1, o_pb = None, o_data = dat\<rparr> = []"
  shows "heap_ok (mopt v + ext) h'"
proof (cases "new h")
  case None
  with assms show ?thesis by (auto simp: json_object_new_def set_data_def)
next
  case (Some p)
  with assms(2) have "h p = None" by (simp add: fresh_def)
  note new = refs_ok_new [OF assms(1) this assms(4,5)]
  have "v = Some p" "h' = h(p \<mapsto> \<lparr>o_type = ty, delete_ptr = del, string_ptr = Some str, ref_count = 1, o_pb = None, o_data = dat\<rparr>)"
    using assms(3) by (simp_all add: Some json_object_new_def set_data_def)
  with new show ?thesis by simp
qed

lemma new_object_ok:
  assumes "heap_ok ext h" and "fresh new" and "ref_new_object mem new h = Inr (v, h')"
  shows "heap_ok (mopt v + ext) h'"
proof (cases "new h")
  case None
  with assms show ?thesis by (auto simp: ref_new_object_def json_object_new_def)
next
  case (Some p)
  with assms(3) obtain t where t: "lh_kchar_table_new mem JSON_OBJECT_DEF_HASH_ENTIRES True = Inr t"
      "set_data object_delete object_to_string (c_object t) (json_object_new new json_type_object h) = (v, h')"
    by (auto simp: ref_new_object_def json_object_new_def elim!: rbind_InrE)
  have wf: "lh_wf c_strings t []"
    by (rule kchar_new_wf(1) [OF t(1)]) (simp add: JSON_OBJECT_DEF_HASH_ENTIRES_def)
  have "free_fn t" using t(1) by (auto simp: lh_kchar_table_new_def lh_table_new_def split: if_splits)
  with wf lh_wf_order [OF wf] show ?thesis
    by (intro constructor_ok [OF assms(1,2) t(2)]) (auto simp: data_ok_def kids_def List.map_filter_simps)
qed

lemma new_array_ok:
  assumes "heap_ok ext h" and "fresh new" and "ref_new_array mem new h = Inr (v, h')"
  shows "heap_ok (mopt v + ext) h'"
proof (cases "new h")
  case None
  with assms show ?thesis by (auto simp: ref_new_array_def json_object_new_def)
next
  case (Some p)
  with assms(3) obtain a where a: "array_list_new mem = Some a"
      "set_data array_delete array_to_string (c_array a) (json_object_new new json_type_array h) = (v, h')"
    by (auto simp: ref_new_array_def json_object_new_def split: option.splits)
  with array_list_new_inv [OF a(1)] show ?thesis
    by (intro constructor_ok [OF assms(1,2) a(2)]) (auto simp: data_ok_def kids_def array_list_free_def al_elems_def)
qed

lemma json_step_ok:
  assumes "json_step mem new s s'" and "fresh new" and "heap_ok (fst s) (snd s)"
  shows "heap_ok (fst s') (snd s')"
  using assms(1)
proof cases
  case (get h p ob v h' ext)
  with json_object_get_ok [of ext h p ob] assms(3) show ?thesis by auto
next
  case (put h v h' ext)
  with json_object_put_opt [of v ext "{}" h "card (dom h)"] assms(3) show ?thesis by (auto simp: puts_def)
next
  case (array_add h p val rc h' ext)
  then obtain len where "ref_array_put_idx (card (dom h)) mem h (Some p) len val = Inr (rc, h')"
    by (auto simp: ref_array_add_def elim: rbind_InrE)
  from ref_array_put_ok [OF _ order_refl this, of ext] array_add assms(3) show ?thesis by simp
next
  case (array_put_idx h p idx val rc h' ext)
  from ref_array_put_ok [OF _ order_refl array_put_idx(3)] array_put_idx(1,2) assms(3) show ?thesis by simp
qed (use assms(2,3) in \<open>auto intro: new_object_ok new_array_ok ref_object_add_ok ref_object_del_ok
    ref_object_get_ok constructor_ok simp: ref_new_boolean_def ref_new_int_def
    ref_new_double_def ref_new_string_def ref_new_string_len_def data_ok_def kids_def\<close>)

lemma heap_ok_empty: "heap_ok {#} Map.empty"
  by (simp add: refs_ok_def)

lemma json_steps_ok:
  assumes "(json_step mem new)\<^sup>*\<^sup>* s s'" and "fresh new" and "heap_ok (fst s) (snd s)"
  shows "heap_ok (fst s') (snd s')"
  using assms(1) by (induction rule: rtranclp_induct) (auto intro: assms(3) json_step_ok [OF _ assms(2)])

text \<open>An example: an array of one number, the only reference to it held by the client.\<close>

definition sample_new :: "nat jheap \<Rightarrow> addr option" where
  "sample_new h = (if h 0 = None then Some 0 else if h 1 = None then Some 1 else None)"

definition sample_array :: "nat json_object" where
  "sample_array = \<lparr>o_type = json_type_array, delete_ptr = array_delete, string_ptr = Some array_to_string, ref_count = 1, o_pb = None,
     o_data = c_array \<lparr>al_array = Some 1 # replicate 31 None, al_length = 1, al_size = 32\<rparr>\<rparr>"

definition sample_int :: "nat json_object" where
  "sample_int = \<lparr>o_type = json_type_int, delete_ptr = generic_delete, string_ptr = Some int_to_string, ref_count = 1, o_pb = None, o_data = c_int 5\<rparr>"

definition sample_heap :: "nat jheap" where
  "sample_heap = [0 \<mapsto> sample_array, 1 \<mapsto> sample_int]"

lemma fresh_sample_new: "fresh sample_new"
  by (simp add: fresh_def sample_new_def)

lemma replicate_32: "replicate 32 x = x # replicate 31 x"
  using replicate_Suc [of 31 x] by simp

lemma sample_run: "(json_step (\<lambda>_. True) sample_new)\<^sup>*\<^sup>* ({#}, Map.empty) ({#0#}, sample_heap)"
proof -
  define h1 :: "nat jheap" where "h1 = [0 \<mapsto> sample_array\<lparr>o_data := c_array \<lparr>al_array = None # replicate 31 None, al_length = 0, al_size = 32\<rparr>\<rparr>]"
  have "ref_new_array (\<lambda>_. True) sample_new Map.empty = Inr (Some 0, h1)"
    by (simp add: ref_new_array_def json_object_new_def sample_new_def array_list_new_def ARRAY_LIST_DEFAULT_SIZE_def
        alloc_ok_def set_data_def h1_def sample_array_def replicate_32)
  from json_step.new_array [OF this, of "{#}"]
  have 1: "json_step (\<lambda>_. True) sample_new ({#}, Map.empty) ({#0#}, h1)" by simp
  have "ref_new_int sample_new 5 h1 = (Some 1, h1(1 \<mapsto> sample_int))"
    by (simp add: ref_new_int_def json_object_new_def sample_new_def h1_def set_data_def sample_int_def)
  from json_step.new_int [OF this, of "\<lambda>_. True" "{#0#}"]
  have 2: "json_step (\<lambda>_. True) sample_new ({#0#}, h1) ({#0, 1#}, h1(1 \<mapsto> sample_int))" by (simp add: add_mset_commute)
  have put: "array_list_put_idx (\<lambda>_. True) \<lparr>al_array = None # replicate 31 None, al_length = 0, al_size = 32\<rparr> 0 x
      = Inr (0, \<lparr>al_array = x # replicate 31 None, al_length = 1, al_size = 32\<rparr>, None)" for x :: "addr option"
    by (simp add: array_list_put_idx_def array_list_expand_internal_def wrap32_def)
  have "ref_array_add n (\<lambda>_. True) (h1(1 \<mapsto> sample_int)) (Some 0) (Some 1) = Inr (0, (h1(1 \<mapsto> sample_int))(0 \<mapsto> sample_array))" for n
    by (simp add: ref_array_add_def ref_array_length_def ref_array_put_idx_def deref_def h1_def array_list_length_def
        sample_array_def put)
  moreover have "(h1(1 \<mapsto> sample_int))(0 \<mapsto> sample_array) = sample_heap"
    by (rule ext) (simp add: h1_def sample_heap_def)
  ultimately have "ref_array_add n (\<lambda>_. True) (h1(1 \<mapsto> sample_int)) (Some 0) (Some 1) = Inr (0, sample_heap)" for n
    by simp
  from json_step.array_add [OF this, of sample_new "{#}"]
  have 3: "json_step (\<lambda>_. True) sample_new ({#0, 1#}, h1(1 \<mapsto> sample_int)) ({#0#}, sample_heap)" by simp
  show ?thesis
    by (rule rtranclp.rtrancl_into_rtrancl [OF rtranclp.rtrancl_into_rtrancl [OF r_into_rtranclp [of "json_step (\<lambda>_. True) sample_new", OF 1] 2] 3])
qed

text \<open>
  C9. Every state a client can reach from an empty heap is well formed: type tag, deletion and printing function and
  union member of every object agree, no pointer dangles, and every count is the number of pointers to its object.
\<close>

theorem json_heap_invariant:
  assumes "(json_step mem new)\<^sup>*\<^sup>* ({#}, Map.empty) (ext, h)" and "fresh new"
  shows "heap_ok ext h"
  using json_steps_ok [OF assms] heap_ok_empty by simp

theorem json_heap_invariant_witness: "heap_ok {#0#} sample_heap"
  by (rule json_heap_invariant [OF sample_run fresh_sample_new])

section \<open>What is freed\<close>

definition points :: "'d jheap \<Rightarrow> (addr \<times> addr) set" where
  "points h = {(q, x). x \<in># kids_at h q}"

text \<open>In a heap without cycles every object is reached from an external reference.\<close>

lemma heap_ok_reached:
  assumes ok: "heap_ok ext h" and ac: "acyclic (points h)" and p: "p \<in> dom h"
  shows "\<exists>r \<in># ext. (r, p) \<in> (points h)\<^sup>*"
proof -
  have fin: "finite (dom h)" using refs_okD(1) [OF ok] .
  have "x \<in> dom h \<and> y \<in> dom h" if "(x, y) \<in> points h" for x y
  proof -
    have "x \<in> dom h" using that by (cases "h x") (auto simp: points_def kids_at_def)
    then show ?thesis using that refs_okD(3) [OF ok, of x y] by (simp add: points_def)
  qed
  then have "points h \<subseteq> dom h \<times> dom h" by auto
  then have "wf (points h)" using fin ac by (meson finite_SigmaI finite_acyclic_wf finite_subset)
  then show ?thesis using p
  proof (induction p)
    case (less x)
    then obtain ob where "h x = Some ob" by auto
    with refs_okD(5,7) [OF ok, of x ob] have "pointers ext (dom h) h x \<noteq> 0" by simp
    then consider "x \<in># ext" | q where "q \<in> dom h" "x \<in># kids_at h q" using fin by (auto simp: pointers_zero_iff)
    then show ?case
    proof cases
      case (2 q)
      then have "(q, x) \<in> points h" by (simp add: points_def)
      with less 2 show ?thesis by (meson rtrancl.rtrancl_into_rtrancl)
    qed auto
  qed
qed

lemma frees_only_kids: "frees_only Z h h' \<Longrightarrow> q \<in> dom h' \<Longrightarrow> kids_at h' q = kids_at h q"
proof -
  assume fr: "frees_only Z h h'" and q: "q \<in> dom h'"
  then obtain ob' where "h' q = Some ob'" by auto
  moreover from this fr obtain ob where "h q = Some ob" "ob' = ob\<lparr>ref_count := ref_count ob'\<rparr>"
    unfolding frees_only_def by blast
  then have "h q = Some ob" "kids ob' = kids ob" using kids_ref_count by metis+
  ultimately show ?thesis by (simp add: kids_at_def)
qed

lemma frees_only_points:
  assumes "frees_only Z h h'"
  shows "points h' \<subseteq> points h"
proof clarify
  fix x y assume xy: "(x, y) \<in> points h'"
  then have "x \<in> dom h'" by (cases "h' x") (auto simp: points_def kids_at_def)
  with xy show "(x, y) \<in> points h" using frees_only_kids [OF assms] by (simp add: points_def)
qed

lemma survivors:
  assumes ok: "heap_ok ext h'" and fr: "frees_only {} h h'" and ac: "acyclic (points h)"
  shows "dom h' = {q. \<exists>r \<in># ext. (r, q) \<in> (points h)\<^sup>*}"
proof -
  have sub: "points h' \<subseteq> points h" by (rule frees_only_points [OF fr])
  have "q \<in> dom h'" if "r \<in># ext" "(r, q) \<in> (points h)\<^sup>*" for r q
    using that(2)
  proof (induction rule: rtrancl_induct)
    case base
    then show ?case using refs_okD(2) [OF ok that(1)] by simp
  next
    case (step y z)
    then have "z \<in># kids_at h' y" using frees_only_kids [OF fr step(3)] by (simp add: points_def)
    then show ?case using refs_okD(3) [OF ok, of y z] step(3) by simp
  qed
  moreover have "\<exists>r \<in># ext. (r, q) \<in> (points h)\<^sup>*" if "q \<in> dom h'" for q
    using heap_ok_reached [OF ok acyclic_subset [OF ac sub] that] rtrancl_mono [OF sub] by blast
  ultimately show ?thesis by blast
qed

text \<open>
  C2. Giving up a reference never fails: no object is used after it was freed or freed twice, and the recursion
  ends. The objects that are left are unchanged but for their counts, and in a heap without cycles they are exactly
  those the remaining references reach: nothing in use is freed and nothing else is kept.
\<close>

theorem json_object_put_correct:
  assumes "heap_ok (add_mset p ext) h"
  shows "\<exists>h'. json_object_put (card (dom h)) (Some p) h = Inr h' \<and> heap_ok ext h' \<and> frees_only {} h h' \<and>
     (acyclic (points h) \<longrightarrow> dom h' = {q. \<exists>r \<in># ext. (r, q) \<in> (points h)\<^sup>*})"
proof -
  obtain h' where "json_object_put (card (dom h)) (Some p) h = Inr h'" "heap_ok ext h'" "frees_only {} h h'"
    using json_object_put_puts [OF assms, of "card (dom h)"] by (auto simp: puts_def)
  with survivors show ?thesis by blast
qed

lemma sample_heap_ok: "heap_ok {#0#} sample_heap"
  using json_steps_ok [OF sample_run fresh_sample_new] heap_ok_empty by simp

theorem json_object_put_correct_witness:
  "\<exists>h'. json_object_put 2 (Some 0) sample_heap = Inr h' \<and> dom h' = {}"
proof -
  have "dom sample_heap = {0, 1}" by (auto simp: sample_heap_def)
  then have card: "card (dom sample_heap) = 2" by simp
  have "points sample_heap = {(0, 1)}"
    by (auto simp: points_def kids_at_def sample_heap_def kids_def sample_array_def sample_int_def array_list_free_def
        split: if_splits)
  then have "acyclic (points sample_heap)" by (simp add: acyclic_def) (auto elim: tranclE)
  with json_object_put_correct [OF sample_heap_ok] card show ?thesis by auto
qed

section \<open>The contract of counted references\<close>

text \<open>
  What an owner of references relies on: giving one up succeeds and leaves the others valid. Giving up all of
  them, in any order, succeeds.
\<close>

locale counted_refs =
  fixes ok :: "'a multiset \<Rightarrow> 'h \<Rightarrow> bool"
    and put :: "'a \<Rightarrow> 'h \<Rightarrow> 'h res"
  assumes put_law: "ok (add_mset p ext) h \<Longrightarrow> \<exists>h'. put p h = Inr h' \<and> ok ext h'"
begin

primrec put_each :: "'a list \<Rightarrow> 'h \<Rightarrow> 'h res" where
  "put_each [] h = Inr h"
| "put_each (p # ps) h = rbind (put p h) (put_each ps)"

lemma put_each_ok: "ok (mset ps + ext) h \<Longrightarrow> \<exists>h'. put_each ps h = Inr h' \<and> ok ext h'"
proof (induction ps arbitrary: h)
  case (Cons p ps)
  then obtain h1 where "put p h = Inr h1" "ok (mset ps + ext) h1" using put_law [of p "mset ps + ext" h] by auto
  with Cons.IH show ?case by simp
qed simp

end

interpretation jh: counted_refs "\<lambda>ext h. heap_ok ext h \<and> acyclic (points h)" "\<lambda>p h. json_object_put (card (dom h)) (Some p) h"
proof (unfold_locales, goal_cases)
  case (1 p ext h)
  then have "puts (card (dom h)) {} {} ext h (json_object_put (card (dom h)) (Some p) h)"
    by (intro json_object_put_puts) auto
  with 1 show ?case
    using acyclic_subset [OF _ frees_only_points] by (auto simp: puts_def)
qed

text \<open>A client that gives back all its references leaves no object behind.\<close>

lemma json_no_leak:
  assumes "heap_ok (mset ps) h" and "acyclic (points h)"
  shows "jh.put_each ps h = Inr Map.empty"
proof -
  obtain h' where h': "jh.put_each ps h = Inr h'" "heap_ok {#} h'" "acyclic (points h')"
    using jh.put_each_ok [of ps "{#}" h] assms by auto
  have "dom h' = {}" by (rule equals0I) (use heap_ok_reached [OF h'(2,3)] in simp)
  with h'(1) show ?thesis by simp
qed

section \<open>Objects in memory and values\<close>

text \<open>The value of theory \<open>JsonObject\<close> a pointer stands for.\<close>

inductive denotes :: "'d jheap \<Rightarrow> addr option \<Rightarrow> 'd json \<Rightarrow> bool" for h where
  d_null: "denotes h None JNull"
| d_boolean: "h p = Some ob \<Longrightarrow> o_data ob = c_boolean b \<Longrightarrow> denotes h (Some p) (JBoolean b)"
| d_double: "h p = Some ob \<Longrightarrow> o_data ob = c_double d \<Longrightarrow> denotes h (Some p) (JDouble d)"
| d_int: "h p = Some ob \<Longrightarrow> o_data ob = c_int i \<Longrightarrow> denotes h (Some p) (JInt i)"
| d_string: "h p = Some ob \<Longrightarrow> o_data ob = c_string s \<Longrightarrow> denotes h (Some p) (JString s)"
| d_object: "h p = Some ob \<Longrightarrow> o_data ob = c_object t \<Longrightarrow> lh_rep c_strings t kvs \<Longrightarrow>
    list_all2 (\<lambda>kv kj. fst kv = fst kj \<and> denotes h (snd kv) (snd kj)) kvs kjs \<Longrightarrow> denotes h (Some p) (JObject kjs)"
| d_array: "h p = Some ob \<Longrightarrow> o_data ob = c_array a \<Longrightarrow> list_all2 (denotes h) (al_elems a) js \<Longrightarrow>
    denotes h (Some p) (JArray js)"

inductive_cases denotes_SomeE: "denotes h (Some p) j"

text \<open>A value that does not contain the object \<open>p\<close> is still there after \<open>p\<close> was changed and others were freed.\<close>

definition apart :: "'d jheap \<Rightarrow> addr \<Rightarrow> addr option \<Rightarrow> bool" where
  "apart h p v \<longleftrightarrow> (case v of None \<Rightarrow> True | Some q \<Rightarrow> (q, p) \<notin> (points h)\<^sup>*)"

lemma apart_kid: "apart h p (Some q) \<Longrightarrow> x \<in># kids_at h q \<Longrightarrow> apart h p (Some x)"
  using converse_rtrancl_into_rtrancl [of q x "points h" p] by (auto simp: apart_def points_def)

lemma denotes_kept:
  assumes "denotes h v j" and "apart h p v" and "set_mset (mopt v) \<subseteq> dom h'"
    and ok: "heap_ok ext h'" and keep: "\<And>q ob'. q \<noteq> p \<Longrightarrow> h' q = Some ob' \<Longrightarrow> \<exists>ob. h q = Some ob \<and> o_data ob' = o_data ob"
  shows "denotes h' v j"
  using assms(1-3)
proof (induction rule: denotes.induct)
  case (d_object q ob t kvs kjs)
  from d_object.prems have "q \<noteq> p" "q \<in> dom h'" by (auto simp: apart_def)
  with keep d_object.hyps(1,2) obtain ob' where q: "h' q = Some ob'" "o_data ob' = c_object t" by fastforce
  have "kids ob = List.map_filter snd kvs" "kids ob' = List.map_filter snd kvs"
    using kids_table d_object.hyps(2,3) q(2) by blast+
  then have kq: "kids_at h q = mset (List.map_filter snd kvs)" "kids_at h' q = mset (List.map_filter snd kvs)"
    using d_object.hyps(1) q(1) by (simp_all add: kids_at_def)
  have "denotes h' (snd kv) (snd kj)"
    if "kv \<in> set kvs" "fst kv = fst kj \<and> denotes h (snd kv) (snd kj) \<and>
        (apart h p (snd kv) \<longrightarrow> set_mset (mopt (snd kv)) \<subseteq> dom h' \<longrightarrow> denotes h' (snd kv) (snd kj))" for kv kj
  proof (cases "snd kv")
    case None
    with that(2) show ?thesis by (simp add: apart_def)
  next
    case (Some x)
    with that(1) have "x \<in># kids_at h q" "x \<in># kids_at h' q" unfolding kq by (force simp: List.map_filter_def)+
    with that(2) Some apart_kid [OF d_object.prems(1)] refs_okD(3) [OF ok, of q x] q(1) show ?thesis by auto
  qed
  with d_object.IH have "list_all2 (\<lambda>kv kj. fst kv = fst kj \<and> denotes h' (snd kv) (snd kj)) kvs kjs"
    unfolding list_all2_conv_all_nth by (metis nth_mem)
  with q d_object.hyps(3) show ?case by (blast intro: denotes.d_object)
next
  case (d_array q ob a js)
  from d_array.prems have "q \<noteq> p" "q \<in> dom h'" by (auto simp: apart_def)
  with keep d_array.hyps(1,2) obtain ob' where q: "h' q = Some ob'" "o_data ob' = c_array a" by fastforce
  have kq: "kids_at h q = mset (array_list_free a)" "kids_at h' q = mset (array_list_free a)"
    using d_array.hyps(1,2) q by (simp_all add: kids_at_def kids_def)
  have "denotes h' e j"
    if "e \<in> set (al_elems a)" "denotes h e j \<and> (apart h p e \<longrightarrow> set_mset (mopt e) \<subseteq> dom h' \<longrightarrow> denotes h' e j)" for e j
  proof (cases e)
    case None
    with that(2) show ?thesis by (simp add: apart_def)
  next
    case (Some x)
    with that(1) have "x \<in># kids_at h q" "x \<in># kids_at h' q"
      unfolding kq by (force simp: array_list_free_def al_elems_def)+
    with that(2) Some apart_kid [OF d_array.prems(1)] refs_okD(3) [OF ok, of q x] q(1) show ?thesis by auto
  qed
  with d_array.IH have "list_all2 (denotes h') (al_elems a) js"
    unfolding list_all2_conv_all_nth by (metis nth_mem)
  with q show ?case by (blast intro: denotes.d_array)
qed (use keep in \<open>fastforce intro: denotes.intros simp: apart_def\<close>)+

text \<open>
  C15. Adding a member to an object in memory implements \<open>json_object_object_add\<close> on values: the object stands for
  the value with the member, also when an old value of the key is freed, provided the new value and the other
  members do not contain the object itself. With memory and a table nothing was deleted from, it always returns.
\<close>

theorem ref_object_add_refines:
  assumes ok: "heap_ok (add_mset p (mopt val + ext)) h" and p: "denotes h (Some p) (JObject kjs)" and val: "denotes h val jv"
    and acyc: "apart h p val" "\<And>x. x \<in># kids_at h p \<Longrightarrow> apart h p (Some x)"
    and tot: "h p = Some ob" "o_data ob = c_object t" "no_freed t" "3 \<le> lh_size t" "mem_total mem"
  shows "\<exists>h' j. ref_object_add (card (dom h)) mem h (Some p) key val = Inr h' \<and> heap_ok (add_mset p ext) h' \<and>
     json_object_object_add (JObject kjs) key jv = Inr j \<and> denotes h' (Some p) j"
proof -
  obtain kvs where kvs: "lh_rep c_strings t kvs"
      "list_all2 (\<lambda>kv kj. fst kv = fst kj \<and> denotes h (snd kv) (snd kj)) kvs kjs"
    using p tot(1,2) by (auto elim: denotes_SomeE)
  let ?k = "cstr key" let ?kvs = "al_remove ?k kvs"
  have total: "lh_total c_strings t kvs" using kvs(1) tot(3,4) by (simp add: lh_total_def)
  obtain t2 where t2: "lh_put mem t ?k val = Inr t2" "lh_total c_strings t2 (al_put ?k val kvs)"
    using lh_put_ok [OF tot(5) total cstr_c_string] by blast
  then obtain rc t1 freed where t1: "lh_table_delete t ?k = Inr (rc, t1, freed)" "lh_table_insert 1 mem t1 ?k val = Inr t2"
    by (auto simp: lh_put_def elim!: rbind_InrE)
  obtain h1 ob1 where h1: "ref_object_del (card (dom h)) h (Some p) key = Inr (h1(p \<mapsto> ob1\<lparr>o_data := c_object t1\<rparr>))" "h1 p = Some ob1"
      "heap_ok (add_mset p (mopt val + ext)) (h1(p \<mapsto> ob1\<lparr>o_data := c_object t1\<rparr>))" "frees_only {} h h1"
      "lh_rep c_strings t1 ?kvs"
    using ref_object_del_runs [OF ok order_refl tot(1,2) kvs(1) t1(1)] by blast
  let ?h = "h1(p \<mapsto> ob1\<lparr>o_data := c_object t2\<rparr>)"
  have "?k \<notin> fst ` set ?kvs" by (auto simp: al_remove_def)
  from store_member [OF h1(3) _ _ h1(5) this t1(2), of "ob1\<lparr>o_data := c_object t1\<rparr>"]
  have h': "heap_ok (add_mset p ext) ?h" and rep2: "lh_rep c_strings t2 (?kvs @ [(?k, val)])" by simp_all
  have run: "ref_object_add (card (dom h)) mem h (Some p) key val = Inr ?h"
    using h1(1) t1(2) by (simp add: ref_object_add_def deref_def)
  have keep: "\<exists>ob. h q = Some ob \<and> o_data ob' = o_data ob" if "q \<noteq> p" "?h q = Some ob'" for q ob'
    using that h1(4) unfolding frees_only_def by (metis fun_upd_other json_object.select_convs(6) json_object.surjective json_object.update_convs(4))
  have kp: "kids_at ?h p = mset (List.map_filter snd (?kvs @ [(?k, val)]))"
    using kids_table [of "ob1\<lparr>o_data := c_object t2\<rparr>" t2, OF _ rep2] by (simp add: kids_at_def)
  have live: "set_mset (mopt v) \<subseteq> dom ?h" if "(k, v) \<in> set (?kvs @ [(?k, val)])" for k v
  proof (cases v)
    case (Some x)
    with that have "x \<in># kids_at ?h p" unfolding kp by (force simp: List.map_filter_def)
    with refs_okD(3) [OF h', of p x] Some show ?thesis by simp
  qed simp
  have new: "denotes ?h val jv" using denotes_kept [OF val acyc(1) _ h' keep] live by force
  have old: "denotes ?h (snd kv) j" if kv: "kv \<in> set kvs" "fst kv \<noteq> ?k" "denotes h (snd kv) j" for kv j
  proof (rule denotes_kept [OF kv(3) _ _ h' keep])
    show "set_mset (mopt (snd kv)) \<subseteq> dom ?h" using live [of "fst kv" "snd kv"] kv by (simp add: al_remove_def)
    show "apart h p (snd kv)"
    proof (cases "snd kv")
      case (Some x)
      then have "x \<in># kids_at h p"
        using kv(1) kids_table [OF tot(2) kvs(1)] tot(1) by (force simp: kids_at_def List.map_filter_def)
      with acyc(2) Some show ?thesis by simp
    qed (simp add: apart_def)
  qed
  have "list_all2 (\<lambda>kv kj. fst kv = fst kj \<and> denotes ?h (snd kv) (snd kj)) ?kvs (al_remove ?k kjs)"
    using kvs(2) old
  proof (induction rule: list_all2_induct)
    case (Cons kv kvs kj kjs)
    then show ?case by (auto simp: al_remove_def)
  qed (simp add: al_remove_def)
  with new have "list_all2 (\<lambda>kv kj. fst kv = fst kj \<and> denotes ?h (snd kv) (snd kj)) (?kvs @ [(?k, val)]) (al_put ?k jv kjs)"
    by (simp add: al_put_def list_all2_appendI)
  with rep2 have "denotes ?h (Some p) (JObject (al_put ?k jv kjs))" by (intro denotes.d_object) auto
  with run h' show ?thesis by (simp add: json_object_object_add_def)
qed

definition sample_object :: "(string, addr) lh_table \<Rightarrow> nat json_object" where
  "sample_object t = \<lparr>o_type = json_type_object, delete_ptr = object_delete, string_ptr = Some object_to_string, ref_count = 1, o_pb = None, o_data = c_object t\<rparr>"

theorem ref_object_add_refines_witness:
  "\<exists>t h'. lh_kchar_table_new (\<lambda>_. True) 16 True = Inr t \<and>
     ref_object_add 2 (\<lambda>_. True) [0 \<mapsto> sample_object t, 1 \<mapsto> sample_int] (Some 0) ''a'' (Some 1) = Inr h' \<and>
     denotes h' (Some 0) (JObject [(''a'', JInt 5)])"
proof -
  obtain t :: "(string, addr) lh_table" where t: "lh_kchar_table_new (\<lambda>_. True) 16 True = Inr t"
      "lh_wf c_strings t []" "no_freed t" "lh_size t = 16"
    by (rule kchar_new_rep [of "\<lambda>_. True" 16 True]) (simp_all add: mem_total_def)
  let ?h = "[0 \<mapsto> sample_object t, 1 \<mapsto> sample_int] :: nat jheap"
  have fr: "free_fn t" using t(1) by (auto simp: lh_kchar_table_new_def lh_table_new_def alloc_ok_def)
  have ko: "kids (sample_object t) = []" "kids sample_int = []"
    using lh_wf_order [OF t(2)] by (simp_all add: kids_def sample_object_def sample_int_def List.map_filter_simps)
  have "heap_ok (add_mset 0 {#}) [0 \<mapsto> sample_object t]"
    using fr t(2) ko by (intro refs_ok_new heap_ok_empty) (auto simp: data_ok_def sample_object_def)
  from refs_ok_new [OF this, of 1 sample_int] ko(2)
  have "heap_ok (add_mset 1 (add_mset 0 {#})) ?h" by (simp add: data_ok_def sample_int_def)
  then have ok: "heap_ok (add_mset 0 (mopt (Some 1) + {#})) ?h" by (simp add: add_mset_commute)
  have none: "kids_at ?h q = {#}" for q using ko by (auto simp: kids_at_def)
  then have pts: "points ?h = {}" by (simp add: points_def)
  have "lh_rep c_strings t []" using t(2) by (auto simp: lh_rep_def)
  then have obj: "denotes ?h (Some 0) (JObject [])" by (intro denotes.d_object) (auto simp: sample_object_def)
  have int: "denotes ?h (Some 1) (JInt 5)" by (intro denotes.d_int) (auto simp: sample_int_def)
  have "\<exists>h' j. ref_object_add (card (dom ?h)) (\<lambda>_. True) ?h (Some 0) ''a'' (Some 1) = Inr h' \<and>
      heap_ok (add_mset 0 {#}) h' \<and> json_object_object_add (JObject []) ''a'' (JInt 5) = Inr j \<and> denotes h' (Some 0) j"
  proof (rule ref_object_add_refines [OF ok obj int])
    show "apart ?h 0 (Some 1)" "\<And>x. x \<in># kids_at ?h 0 \<Longrightarrow> apart ?h 0 (Some x)" using none pts by (simp_all add: apart_def)
    show "?h 0 = Some (sample_object t)" "o_data (sample_object t) = c_object t" by (simp_all add: sample_object_def)
    show "no_freed t" "3 \<le> lh_size t" "mem_total (\<lambda>_. True)" using t by (simp_all add: mem_total_def)
  qed
  moreover have "card (dom ?h) = 2" by simp
  ultimately show ?thesis
    using t(1) by (auto simp: json_object_object_add_def al_put_def al_remove_def cstr_def numeral_2_eq_2)
qed

end
