(* ===== verification/JsonFile.thy ===== *)
theory JsonFile
  imports JsonTokener
begin

text \<open>
  JSON values in files (\<open>platform/shared/json/json_util.c\<close>): reading a whole file into a buffer and parsing
  it, printing a value and writing the text. Files are a parameter; \<open>read_law\<close>, \<open>write_law\<close> and \<open>failure_law\<close>
  state what the code relies on of \<open>open\<close>, \<open>read\<close>, \<open>write\<close> and \<open>close\<close>.
\<close>

section \<open>Files\<close>

text \<open>A negative descriptor is a failed \<open>open\<close>; \<open>fs_read\<close> gives the bytes read or \<open>None\<close> for an error.\<close>

record 'w files =
  fs_open_read :: "string \<Rightarrow> 'w \<Rightarrow> int \<times> 'w"
  fs_open_write :: "string \<Rightarrow> 'w \<Rightarrow> int \<times> 'w"
  fs_read :: "int \<Rightarrow> nat \<Rightarrow> 'w \<Rightarrow> string option \<times> 'w"
  fs_write :: "int \<Rightarrow> string \<Rightarrow> 'w \<Rightarrow> int \<times> 'w"
  fs_close :: "int \<Rightarrow> 'w \<Rightarrow> 'w"

definition JSON_FILE_BUF_SIZE :: nat where
  "JSON_FILE_BUF_SIZE = 4096"

section \<open>Reading\<close>

text \<open>The string a \<open>char *\<close> into a block stands for.\<close>

fun block_cstr :: "char block \<Rightarrow> string res" where
  "block_cstr [] = Inl Out_Of_Bounds"
| "block_cstr (None # b) = Inl Uninitialised_Read"
| "block_cstr (Some c # b) = (if c = NUL then Inr [] else rbind (block_cstr b) (\<lambda>s. Inr (c # s)))"

text \<open>
  The loop: every block that was read is appended, whatever \<open>printbuf_memappend\<close> returns. The result is
  whether the last \<open>read\<close> ended at the end of the file.
\<close>

fun read_file :: "nat \<Rightarrow> 'w files \<Rightarrow> allocator \<Rightarrow> int \<Rightarrow> printbuf \<Rightarrow> 'w \<Rightarrow> (bool \<times> printbuf \<times> 'w) res" where
  "read_file 0 fs mem fd out w = Inl Out_Of_Fuel"
| "read_file (Suc n) fs mem fd out w =
     (case fs_read fs fd JSON_FILE_BUF_SIZE w of
        (None, w1) \<Rightarrow> Inr (False, out, w1)
      | (Some buf, w1) \<Rightarrow>
          if buf = [] then Inr (True, out, w1)
          else rbind (pb_append mem buf out) (\<lambda>out1. read_file n fs mem fd out1 w1))"

text \<open>\<open>None\<close> is \<open>error_ptr(-1)\<close>.\<close>

definition json_object_from_file ::
  "nat \<Rightarrow> 'w files \<Rightarrow> allocator \<Rightarrow> 'd dbl \<Rightarrow> string \<Rightarrow> 'w \<Rightarrow> ((json_tokener_error + 'd json) option \<times> 'w) res" where
  "json_object_from_file n fs mem D filename w =
     (case fs_open_read fs filename w of
        (fd, w1) \<Rightarrow>
          if fd < 0 then Inr (None, w1)
          else (case printbuf_new mem of
                  None \<Rightarrow> Inr (None, w1)
                | Some out \<Rightarrow>
                    rbind (read_file n fs mem fd out w1) (\<lambda>(complete, out1, w2).
                      let w3 = fs_close fs fd w2
                      in if \<not> complete then Inr (None, w3)
                         else rbind (block_cstr (pb_buf out1)) (\<lambda>s.
                              rbind (json_tokener_parse mem D s) (\<lambda>r. Inr (Some r, w3))))))"

section \<open>Writing\<close>

text \<open>\<open>wpos\<close> bytes of \<open>s\<close> are written; a \<open>write\<close> that returns 0 is repeated.\<close>

fun write_file :: "nat \<Rightarrow> 'w files \<Rightarrow> int \<Rightarrow> string \<Rightarrow> nat \<Rightarrow> 'w \<Rightarrow> (int \<times> 'w) res" where
  "write_file 0 fs fd s wpos w = Inl Out_Of_Fuel"
| "write_file (Suc n) fs fd s wpos w =
     (if wpos < length s then
        (case fs_write fs fd (drop wpos s) w of
           (ret, w1) \<Rightarrow> if ret < 0 then Inr (-1, fs_close fs fd w1) else write_file n fs fd s (wpos + nat ret) w1)
      else Inr (0, fs_close fs fd w))"

text \<open>The NULL object is refused; when there is no memory for the text the file stays open.\<close>

definition json_object_to_file ::
  "nat \<Rightarrow> 'w files \<Rightarrow> allocator \<Rightarrow> bool \<Rightarrow> 'd dbl \<Rightarrow> string \<Rightarrow> 'd json \<Rightarrow> printbuf option \<Rightarrow> 'w \<Rightarrow> (int \<times> 'w) res" where
  "json_object_to_file n fs mem neg D filename obj cache w =
     (case obj of
        JNull \<Rightarrow> Inr (-1, w)
      | _ \<Rightarrow>
        (case fs_open_write fs filename w of
           (fd, w1) \<Rightarrow>
             if fd < 0 then Inr (-1, w1)
             else rbind (json_object_to_json_string mem neg D obj cache) (\<lambda>(json_str, _).
                    case json_str of None \<Rightarrow> Inr (-1, w1) | Some s \<Rightarrow> write_file n fs fd s 0 w1)))"

section \<open>What the operating system promises\<close>

text \<open>
  \<open>rest w fd\<close> are the bytes behind the position of a descriptor open for reading, \<open>wrote w fd\<close> those written
  through one open for writing, \<open>target w fd\<close> is its file name, \<open>on_disk w f\<close> the content of a file. A read
  gives a non-empty prefix of the rest until the end, a write takes a non-empty prefix of what it is given; both can
  fail, and \<open>failed w\<close> counts the calls that did. Closing stores what was written.
\<close>

record 'w file_view =
  rest :: "'w \<Rightarrow> int \<Rightarrow> string"
  wrote :: "'w \<Rightarrow> int \<Rightarrow> string"
  target :: "'w \<Rightarrow> int \<Rightarrow> string"
  on_disk :: "'w \<Rightarrow> string \<Rightarrow> string"
  failed :: "'w \<Rightarrow> nat"

definition read_law :: "'w files \<Rightarrow> 'w file_view \<Rightarrow> bool" where
  "read_law fs V \<longleftrightarrow> (\<forall>f w fd w1. fs_open_read fs f w = (fd, w1) \<longrightarrow> 0 \<le> fd \<longrightarrow> rest V w1 fd = on_disk V w f) \<and>
     (\<forall>fd n w buf w1. fs_read fs fd n w = (Some buf, w1) \<longrightarrow>
        rest V w fd = buf @ rest V w1 fd \<and> length buf \<le> n \<and> (buf = [] \<longrightarrow> 0 < n \<longrightarrow> rest V w fd = []))"

definition write_law :: "'w files \<Rightarrow> 'w file_view \<Rightarrow> bool" where
  "write_law fs V \<longleftrightarrow> (\<forall>f w fd w1. fs_open_write fs f w = (fd, w1) \<longrightarrow> 0 \<le> fd \<longrightarrow> wrote V w1 fd = [] \<and> target V w1 fd = f) \<and>
     (\<forall>fd s w ret w1. fs_write fs fd s w = (ret, w1) \<longrightarrow> s \<noteq> [] \<longrightarrow> 0 \<le> ret \<longrightarrow>
        0 < ret \<and> ret \<le> int (length s) \<and> target V w1 fd = target V w fd \<and> wrote V w1 fd = wrote V w fd @ take (nat ret) s) \<and>
     (\<forall>fd w. on_disk V (fs_close fs fd w) (target V w fd) = wrote V w fd)"

definition failure_law :: "'w files \<Rightarrow> 'w file_view \<Rightarrow> bool" where
  "failure_law fs V \<longleftrightarrow>
     (\<forall>f w fd w1. fs_open_read fs f w = (fd, w1) \<longrightarrow> failed V w1 = failed V w + of_bool (fd < 0)) \<and>
     (\<forall>f w fd w1. fs_open_write fs f w = (fd, w1) \<longrightarrow> failed V w1 = failed V w + of_bool (fd < 0)) \<and>
     (\<forall>fd n w r w1. fs_read fs fd n w = (r, w1) \<longrightarrow> failed V w1 = failed V w + of_bool (r = None)) \<and>
     (\<forall>fd s w ret w1. fs_write fs fd s w = (ret, w1) \<longrightarrow> failed V w1 = failed V w + of_bool (ret < 0)) \<and>
     (\<forall>fd w. failed V (fs_close fs fd w) = failed V w)"

lemma failure_lawD:
  assumes "failure_law fs V"
  shows "fs_open_read fs f w = (fd, w1) \<Longrightarrow> failed V w1 = failed V w + of_bool (fd < 0)"
    "fs_open_write fs f w = (fd, w1) \<Longrightarrow> failed V w1 = failed V w + of_bool (fd < 0)"
    "fs_read fs fd n w = (r, w1) \<Longrightarrow> failed V w1 = failed V w + of_bool (r = None)"
    "fs_write fs fd s w = (ret, w1) \<Longrightarrow> failed V w1 = failed V w + of_bool (ret < 0)"
    "failed V (fs_close fs fd w) = failed V w"
  using assms by (simp_all add: failure_law_def)

section \<open>Reading and writing whole files\<close>

lemma block_cstr_append:
  "block_cstr (map Some s @ Some NUL # b) = Inr (cstr s)"
  by (induction s) (simp_all add: cstr_def)

lemma pb_terminated_cstr:
  assumes "pb_inv p" and "pb_terminated p"
  shows "block_cstr (pb_buf p) = Inr (cstr (pb_content p))"
proof -
  let ?k = "nat (bpos p)"
  have k: "?k < length (pb_buf p)" "pb_buf p ! ?k = Some NUL"
    using assms by (auto simp: pb_inv_def pb_terminated_def mem_read_def split: if_splits)
  have "map Some (pb_content p) = take ?k (pb_buf p)"
    using assms(1) by (auto simp: pb_content_def pb_inv_def comp_def intro!: map_idI) (metis option.collapse)
  then have "pb_buf p = map Some (pb_content p) @ Some NUL # drop (Suc ?k) (pb_buf p)"
    using k id_take_nth_drop [OF k(1)] by simp
  then show ?thesis using block_cstr_append by metis
qed

text \<open>
  Reading to the end: with fuel for every byte the loop ends, at the first \<open>read\<close> that fails; if none fails the
  buffer has got the rest of the file, terminated unless there was nothing to read.
\<close>

lemma read_file_ok:
  assumes "read_law fs V" and "failure_law fs V" and "pb_inv out" and "pb_room mem out (length (rest V w fd))"
    and "length (rest V w fd) < n"
  shows "\<exists>complete out1 w1. read_file n fs mem fd out w = Inr (complete, out1, w1) \<and>
     failed V w1 = failed V w + of_bool (\<not> complete) \<and>
     (complete \<longrightarrow> pb_inv out1 \<and> pb_content out1 = pb_content out @ rest V w fd \<and>
        (pb_terminated out1 \<or> rest V w fd = [] \<and> out1 = out))"
  using assms(3-)
proof (induction n arbitrary: out w)
  case (Suc n)
  show ?case
  proof (cases "fs_read fs fd JSON_FILE_BUF_SIZE w")
    case (Pair r w1)
    note fl = failure_lawD(3) [OF assms(2) Pair]
    show ?thesis
    proof (cases r)
      case None
      with Pair fl show ?thesis by auto
    next
      case (Some buf)
      with Pair assms(1) have "rest V w fd = buf @ rest V w1 fd \<and> (buf = [] \<longrightarrow> rest V w fd = [])"
        unfolding read_law_def JSON_FILE_BUF_SIZE_def by (metis zero_less_numeral)
      then have b: "rest V w fd = buf @ rest V w1 fd" "buf = [] \<Longrightarrow> rest V w fd = []" by blast+
      show ?thesis
      proof (cases "buf = []")
        case True
        with b Pair Some Suc.prems fl show ?thesis by auto
      next
        case False
        from Suc.prems(2) b(1) have "pb_room mem out (length buf + length (rest V w1 fd))" by simp
        from pb_append_terminated [OF Suc.prems(1) this] obtain p1 where p1: "pb_append mem buf out = Inr p1" "pb_inv p1"
            "pb_content p1 = pb_content out @ buf" "pb_room mem p1 (length (rest V w1 fd))" "pb_terminated p1" by blast
        have "length (rest V w1 fd) < n" using Suc.prems(3) b(1) False by (cases buf) auto
        from Suc.IH [OF p1(2,4) this] obtain complete out1 w2 where
          "read_file n fs mem fd p1 w1 = Inr (complete, out1, w2)" "failed V w2 = failed V w1 + of_bool (\<not> complete)"
          "complete \<longrightarrow> pb_inv out1 \<and> pb_content out1 = pb_content p1 @ rest V w1 fd \<and>
             (pb_terminated out1 \<or> rest V w1 fd = [] \<and> out1 = p1)" by blast
        with p1 False Pair Some b(1) fl show ?thesis by auto
      qed
    qed
  qed
qed simp

lemma write_file_ok:
  assumes "write_law fs V" and "failure_law fs V" and "length s - wpos < n" and "wpos \<le> length s" and "wrote V w fd = take wpos s"
  shows "\<exists>ret w1. write_file n fs fd s wpos w = Inr (ret, w1) \<and> (ret = 0 \<longrightarrow> on_disk V w1 (target V w fd) = s) \<and>
     ret = (if failed V w1 = failed V w then 0 else -1)"
  using assms(3-)
proof (induction n arbitrary: wpos w)
  case (Suc n)
  show ?case
  proof (cases "wpos < length s")
    case False
    with Suc.prems assms(1) failure_lawD(5) [OF assms(2)] show ?thesis by (simp add: write_law_def)
  next
    case True
    obtain ret w1 where r: "fs_write fs fd (drop wpos s) w = (ret, w1)" by fastforce
    note fl = failure_lawD(4) [OF assms(2) r]
    show ?thesis
    proof (cases "ret < 0")
      case True
      with r Suc.prems \<open>wpos < length s\<close> fl failure_lawD(5) [OF assms(2)] show ?thesis by simp
    next
      case False
      moreover have "drop wpos s \<noteq> []" using True by simp
      ultimately have "0 < ret \<and> ret \<le> int (length (drop wpos s)) \<and> target V w1 fd = target V w fd \<and>
          wrote V w1 fd = wrote V w fd @ take (nat ret) (drop wpos s)"
        using assms(1) r unfolding write_law_def by (meson leI)
      then have w: "0 < ret" "ret \<le> int (length s - wpos)" "target V w1 fd = target V w fd"
          "wrote V w1 fd = wrote V w fd @ take (nat ret) (drop wpos s)" by simp_all
      have "wrote V w1 fd = take (wpos + nat ret) s" using w(4) Suc.prems(3) by (simp add: take_add)
      moreover have "length s - (wpos + nat ret) < n" "wpos + nat ret \<le> length s"
        using Suc.prems(1) w(1,2) True by auto
      ultimately show ?thesis using Suc.IH [of "wpos + nat ret" w1] r False True w(3) fl by auto
    qed
  qed
qed simp

section \<open>Properties\<close>

lemma to_file_result:
  assumes law: "write_law fs V" "failure_law fs V" and v: "v \<noteq> JNull" "printable D v" and mem: "mem_total mem"
    and len: "int (length (json_text D v)) + 8 < 2 ^ 31" "length (json_text D v) < n" and cache: "cache_ok cache"
  shows "\<exists>ret w1. json_object_to_file n fs mem neg D f v cache w = Inr (ret, w1) \<and>
     (ret = 0 \<longrightarrow> on_disk V w1 f = json_text D v) \<and> ret = (if failed V w1 = failed V w then 0 else -1)"
proof -
  obtain fd w1 where o: "fs_open_write fs f w = (fd, w1)" by fastforce
  have "cstr (json_text D v) = json_text D v"
    using json_text_no_NUL(1) [OF v(2)] by (simp add: cstr_def takeWhile_eq_all_conv) metis
  moreover have "\<forall>k. 0 \<le> k \<longrightarrow> k < 2 ^ 31 \<longrightarrow> mem k" using mem by (simp add: mem_total_def)
  ultimately obtain cache' where "json_object_to_json_string mem neg D v cache = Inr (Some (json_text D v), cache')"
    using to_json_string_text [of mem D v cache neg] len(1) cache by auto
  moreover have "\<exists>ret w2. write_file n fs fd (json_text D v) 0 w1 = Inr (ret, w2) \<and>
      (ret = 0 \<longrightarrow> on_disk V w2 f = json_text D v) \<and> ret = (if failed V w2 = failed V w1 then 0 else -1)" if "0 \<le> fd"
    using write_file_ok [OF law, of "json_text D v" 0 n w1 fd] law(1) o that len(2) by (simp add: write_law_def)
  ultimately show ?thesis
    using v(1) o failure_lawD(2) [OF law(2) o] by (cases "fd < 0"; cases v) (simp_all add: json_object_to_file_def)
qed

lemma from_file_result:
  assumes law: "read_law fs V" "failure_law fs V" and v: "printable D v" "jdepth v \<le> 31" and mem: "mem_total mem"
    and len: "int (length (json_text D v)) + 8 < 2 ^ 31" "length (json_text D v) < n" and disk: "on_disk V w f = json_text D v"
  shows "\<exists>r w1. json_object_from_file n fs mem D f w = Inr (r, w1) \<and>
     r = (if failed V w1 = failed V w then Some (Inr v) else None)"
proof -
  obtain fd w1 where o: "fs_open_read fs f w = (fd, w1)" by fastforce
  obtain out where out: "printbuf_new mem = Some out" using mem by (auto simp: printbuf_new_def mem_total_def alloc_ok_def)
  note new = printbuf_new_inv [OF out]
  have cs: "cstr (json_text D v) = json_text D v"
    using json_text_no_NUL(1) [OF v(1)] by (simp add: cstr_def takeWhile_eq_all_conv) metis
  show ?thesis
  proof (cases "fd < 0")
    case False
    then have rest: "rest V w1 fd = json_text D v" using law(1) o disk by (simp add: read_law_def)
    have "bpos out = 0" using out by (auto simp: printbuf_new_def split: if_splits)
    then have "pb_room mem out (length (rest V w1 fd))" using len(1) mem by (simp add: rest pb_room_def mem_total_def)
    from read_file_ok [OF law conjunct1 [OF new] this, of n] new rest len(2) obtain complete out1 w2 where
      r: "read_file n fs mem fd out w1 = Inr (complete, out1, w2)" "failed V w2 = failed V w1 + of_bool (\<not> complete)"
         "complete \<longrightarrow> pb_inv out1 \<and> pb_content out1 = json_text D v \<and> (pb_terminated out1 \<or> json_text D v = [])" by auto
    have "json_text D v \<noteq> []" using text_opens [OF v(1)] by auto
    with r(3) cs have "complete \<Longrightarrow> block_cstr (pb_buf out1) = Inr (json_text D v)" using pb_terminated_cstr by metis
    with r(1,2) o out False parse_json_text [OF v mem] failure_lawD(1,5) [OF law(2)] show ?thesis
      by (cases complete) (auto simp: json_object_from_file_def)
  qed (use o failure_lawD(1) [OF law(2) o] in \<open>simp add: json_object_from_file_def\<close>)
qed

text \<open>
  C17. A value written to a file is read back: both functions return; writing reports 0 if every call of \<open>open\<close>
  and \<open>write\<close> it made succeeded and -1 if one of them failed; after a success, reading the file gives exactly
  the value if every call of \<open>open\<close> and \<open>read\<close> it made succeeded, and the error result if one of them failed. The
  fuel, one step per byte of text, is enough since every successful \<open>read\<close> or \<open>write\<close> makes progress.
\<close>

theorem json_file_roundtrip:
  assumes "read_law fs V" and "write_law fs V" and "failure_law fs V"
    and "v \<noteq> JNull" and "printable D v" and "jdepth v \<le> 31" and "mem_total mem"
    and "int (length (json_text D v)) + 8 < 2 ^ 31" and "length (json_text D v) < n" and "cache_ok cache"
  shows "\<exists>ret w1. json_object_to_file n fs mem neg D f v cache w = Inr (ret, w1) \<and>
     ret = (if failed V w1 = failed V w then 0 else -1) \<and>
     (ret = 0 \<longrightarrow> (\<exists>r w2. json_object_from_file n fs mem D f w1 = Inr (r, w2) \<and>
        r = (if failed V w2 = failed V w1 then Some (Inr v) else None)))"
  using to_file_result [OF assms(2-5,7-10)] from_file_result [OF assms(1,3,5-9)] by meson

text \<open>A disk of one file: its name, its content, and the bytes its reader has not seen.\<close>

definition one_file :: "(string \<times> string \<times> string) files" where
  "one_file =
     \<lparr>fs_open_read = (\<lambda>f (nm, d, r). (3, (nm, d, if f = nm then d else []))),
      fs_open_write = (\<lambda>f _. (3, (f, [], []))),
      fs_read = (\<lambda>fd n (nm, d, r). (Some (take n r), (nm, d, drop n r))),
      fs_write = (\<lambda>fd s (nm, d, r). (int (length s), (nm, d @ s, r))),
      fs_close = (\<lambda>fd w. w)\<rparr>"

definition one_view :: "(string \<times> string \<times> string) file_view" where
  "one_view =
     \<lparr>rest = (\<lambda>(nm, d, r) fd. r), wrote = (\<lambda>(nm, d, r) fd. d), target = (\<lambda>(nm, d, r) fd. nm),
      on_disk = (\<lambda>(nm, d, r) f. if f = nm then d else []), failed = (\<lambda>_. 0)\<rparr>"

lemma one_file_laws: "read_law one_file one_view" "write_law one_file one_view" "failure_law one_file one_view"
  by (auto simp: read_law_def write_law_def failure_law_def one_file_def one_view_def split: if_splits)

theorem json_file_roundtrip_witness:
  "\<exists>w1 w2. json_object_to_file 100 one_file (\<lambda>_. True) False no_doubles ''c'' (JArray [JInt 7, JNull]) None ([], [], []) = Inr (0, w1) \<and>
     json_object_from_file 100 one_file (\<lambda>_. True) no_doubles ''c'' w1 = Inr (Some (Inr (JArray [JInt 7, JNull])), w2)"
proof -
  let ?v = "JArray [JInt 7, JNull] :: unit json"
  have txt_eq: "json_text no_doubles ?v = ''[ 7, null ]''" by code_simp
  have pr: "printable no_doubles ?v" by (simp add: int64_def)
  have len: "int (length (json_text no_doubles ?v)) + 8 < 2 ^ 31" "length (json_text no_doubles ?v) < 100"
    unfolding txt_eq by simp_all
  have none: "failed one_view w = 0" for w by (simp add: one_view_def)
  have "\<exists>ret w1. json_object_to_file 100 one_file (\<lambda>_. True) False no_doubles ''c'' ?v None ([], [], []) = Inr (ret, w1) \<and>
      ret = (if failed one_view w1 = failed one_view ([], [], []) then 0 else -1) \<and>
      (ret = 0 \<longrightarrow> (\<exists>r w2. json_object_from_file 100 one_file (\<lambda>_. True) no_doubles ''c'' w1 = Inr (r, w2) \<and>
        r = (if failed one_view w2 = failed one_view w1 then Some (Inr ?v) else None)))"
    by (rule json_file_roundtrip [OF one_file_laws _ pr _ _ len]) (simp_all add: mem_total_def cache_ok_def)
  then show ?thesis unfolding none by auto
qed

text \<open>
  Nothing terminates the buffer when the file is empty: \<open>printbuf_new\<close> does not write to it, and the parser reads
  uninitialised memory.
\<close>

lemma json_from_empty_file:
  assumes "read_law fs V" and "fs_open_read fs f w = (fd, w1)" and "0 \<le> fd" and "on_disk V w f = []"
    and "fs_read fs fd JSON_FILE_BUF_SIZE w1 = (Some buf, w2)" and "mem_total mem"
  shows "json_object_from_file (Suc n) fs mem D f w = Inl Uninitialised_Read"
proof -
  have "rest V w1 fd = []" using assms(1-4) by (simp add: read_law_def)
  then have "buf = []" using assms(1,5) unfolding read_law_def by (metis append_is_Nil_conv)
  then show ?thesis
    using assms by (simp add: json_object_from_file_def printbuf_new_def mem_total_def alloc_ok_def numeral_eq_Suc)
qed

end
