(* ===== verification/HttpText.thy ===== *)
theory HttpText
  imports Prelude
begin

text \<open>
  The text routines of the embedded HTTP server (\<open>shttpd/src/string.c\<close> and the string level of
  \<open>shttpd.c\<close>): bounded copies, case-insensitive comparison, comma-separated option lists, URL
  decoding, path clean-up, recognition of the end of the request headers, dates and MIME types.
  The routines that write into a caller's buffer work on an explicit byte buffer, source and
  destination may lie in the same one, and every access is checked.
\<close>

lemma rbind_cong [fundef_cong]:
  "r = r' \<Longrightarrow> (\<And>x. r' = Inr x \<Longrightarrow> f x = g x) \<Longrightarrow> rbind r f = rbind r' g"
  by (cases r') simp_all

lemma rd_Inr [simp]: "a < length m \<Longrightarrow> rd m a = Inr (m ! a)"
  by (simp add: rd_def)

lemma wr_Inr [simp]: "a < length m \<Longrightarrow> wr m a c = Inr (m[a := c])"
  by (simp add: wr_def)

lemma rd_Inr_iff: "rd m a = Inr c \<longleftrightarrow> a < length m \<and> c = m ! a"
  by (auto simp: rd_def)

section \<open>string.c\<close>

text \<open>
  \<open>_shttpd_strlcpy\<close>: \<open>src\<close> is a C string, the destination starts at \<open>dst\<close> in the buffer \<open>m\<close>.
\<close>

function strlcpy_loop :: "char list \<Rightarrow> nat \<Rightarrow> string \<Rightarrow> nat \<Rightarrow> nat \<Rightarrow> char list res" where
  "strlcpy_loop m dst src sp n =
     (if c_at src sp \<noteq> NUL \<and> n > 1
      then rbind (wr m dst (c_at src sp))
             (\<lambda>m1. strlcpy_loop m1 (Suc dst) src (Suc sp) (n - 1))
      else wr m dst NUL)"
  by pat_completeness auto

termination
  by (relation "measure (\<lambda>(_, _, _, _, n). n)") auto

declare strlcpy_loop.simps [simp del]

definition shttpd_strlcpy :: "char list \<Rightarrow> nat \<Rightarrow> string \<Rightarrow> nat \<Rightarrow> char list res" where
  "shttpd_strlcpy m dst src n = strlcpy_loop m dst src 0 n"

text \<open>
  \<open>_shttpd_strncasecmp\<close>: the loop index \<open>i\<close> is the distance both pointers have moved; the bound
  \<open>e = s1 + len - 1\<close> is the last character looked at.
\<close>

function strncasecmp_loop :: "string \<Rightarrow> string \<Rightarrow> nat \<Rightarrow> nat \<Rightarrow> int" where
  "strncasecmp_loop s1 s2 len i =
     (if i + 1 < len \<and> c_at s1 i \<noteq> NUL \<and> c_at s2 i \<noteq> NUL \<and> tolower (c_at s1 i) = tolower (c_at s2 i)
      then strncasecmp_loop s1 s2 len (Suc i)
      else int (byte (tolower (c_at s1 i))) - int (byte (tolower (c_at s2 i))))"
  by pat_completeness auto

termination
  by (relation "measure (\<lambda>(_, _, len, i). len - i)") auto

declare strncasecmp_loop.simps [simp del]

definition shttpd_strncasecmp :: "string \<Rightarrow> string \<Rightarrow> nat \<Rightarrow> int" where
  "shttpd_strncasecmp s1 s2 len = strncasecmp_loop s1 s2 len 0"

text \<open>The copy lives in a fresh block of \<open>len + 1\<close> bytes; the result is the C string in it.\<close>

definition shttpd_strndup :: "allocator \<Rightarrow> string \<Rightarrow> nat \<Rightarrow> (string option) res" where
  "shttpd_strndup mem ptr len =
     (if alloc_ok mem (int len + 1)
      then rbind (shttpd_strlcpy (replicate (len + 1) NUL) 0 ptr (len + 1)) (\<lambda>p. Inr (Some (cstr p)))
      else Inr None)"

definition shttpd_strdup :: "allocator \<Rightarrow> string \<Rightarrow> (string option) res" where
  "shttpd_strdup mem str = shttpd_strndup mem str (strlen str)"

text \<open>
  \<open>vsnprintf\<close> given the complete formatted text \<open>out\<close>: the returned count and the bytes stored.
  \<open>neg\<close> is the Microsoft library, which reports an output that does not fit as \<open>-1\<close> and then
  stores no terminator.
\<close>

definition vsnprintf :: "bool \<Rightarrow> nat \<Rightarrow> string \<Rightarrow> int \<times> string" where
  "vsnprintf neg buflen out =
     (if length out < buflen then (int (length out), out @ [NUL])
      else if neg then (-1, take buflen out)
      else (int (length out), take (buflen - 1) out @ [NUL]))"

definition shttpd_snprintf ::
  "bool \<Rightarrow> char list \<Rightarrow> nat \<Rightarrow> nat \<Rightarrow> string \<Rightarrow> (nat \<times> char list) res" where
  "shttpd_snprintf neg m buf buflen out =
     (if buflen = 0 then Inr (0, m)
      else
        let (n, bs) = vsnprintf neg buflen out;
            n' = (if n < 0 \<or> nat n \<ge> buflen then buflen - 1 else nat n)
        in rbind (wr_all m buf bs) (\<lambda>m1. rbind (wr m1 (buf + n') NUL) (\<lambda>m2. Inr (n', m2))))"

text \<open>
  \<open>FOR_EACH_WORD_IN_LIST\<close>: the iterations of the loop, each as the pointer \<open>s\<close> (the rest of the
  list from there) and the length \<open>len\<close> of the word. The loop ends at the first empty word.
\<close>

definition DELIM_CHAR :: char where "DELIM_CHAR = CHR '',''"

definition strcspn_delim :: "string \<Rightarrow> nat" where
  "strcspn_delim s = length (takeWhile (\<lambda>c. c \<noteq> DELIM_CHAR) (cstr s))"

definition strspn_delim :: "string \<Rightarrow> nat" where
  "strspn_delim s = length (takeWhile (\<lambda>c. c = DELIM_CHAR) s)"

lemma strcspn_delim_le: "strcspn_delim s \<le> length s"
  unfolding strcspn_delim_def cstr_def by (metis length_takeWhile_le order_trans)

lemma words_from_step: "0 < strcspn_delim s \<Longrightarrow> length s - (k + strcspn_delim s) < length s"
  using strcspn_delim_le [of s] by linarith

function words_from :: "string \<Rightarrow> (string \<times> nat) list" where
  "words_from s =
     (let len = strcspn_delim s
      in if len = 0 then []
         else (s, len) # words_from (drop (strspn_delim (drop len s)) (drop len s)))"
  by pat_completeness auto

termination
  by (relation "measure length") (auto intro: words_from_step)

declare words_from.simps [simp del]

definition for_each_word :: "string option \<Rightarrow> (string \<times> nat) list" where
  "for_each_word so = (case so of None \<Rightarrow> [] | Some s \<Rightarrow> words_from s)"

definition shttpd_match_extension :: "string \<Rightarrow> string option \<Rightarrow> bool" where
  "shttpd_match_extension path ext_list =
     (let path_len = strlen path
      in list_ex (\<lambda>(s, len). len < path_len \<and> c_at path (path_len - len - 1) = CHR ''.'' \<and>
                            shttpd_strncasecmp (drop (path_len - len) path) s len = 0)
           (for_each_word ext_list))"

section \<open>Option values and URLs (shttpd.c)\<close>

definition trues :: "string list" where
  "trues = [''1'', ''yes'', ''true'', ''jawohl'']"

definition shttpd_is_true :: "string option \<Rightarrow> bool" where
  "shttpd_is_true str = list_ex (\<lambda>p. case str of None \<Rightarrow> False | Some s \<Rightarrow> cstr s = p) trues"

text \<open>\<open>HEXTOI\<close> on a lower-case hexadecimal digit.\<close>

definition HEXTOI :: "char \<Rightarrow> nat" where
  "HEXTOI x = (if isdigit x then byte x - 48 else byte x - 87)"

text \<open>\<open>(HEXTOI(a) << 4) | HEXTOI(b)\<close>; both digits are below 16, so the bits do not overlap.\<close>

definition hex_pair :: "char \<Rightarrow> char \<Rightarrow> char" where
  "hex_pair x y = char_of (HEXTOI (tolower x) * 16 + HEXTOI (tolower y))"

text \<open>
  The loop of \<open>_shttpd_url_decode\<close>; \<open>src\<close> and \<open>dst\<close> are positions in the same buffer \<open>m\<close>, so that
  decoding in place, as the server does, is covered. The second digit is only read when the first
  one is a digit.
\<close>

definition pct_digits :: "char list \<Rightarrow> nat \<Rightarrow> ((char \<times> char) option) res" where
  "pct_digits m p =
     rbind (rd m (p + 1)) (\<lambda>x.
       if isxdigit x
       then rbind (rd m (p + 2)) (\<lambda>y. Inr (if isxdigit y then Some (x, y) else None))
       else Inr None)"

function url_decode_loop ::
  "nat \<Rightarrow> nat \<Rightarrow> nat \<Rightarrow> nat \<Rightarrow> nat \<Rightarrow> nat \<Rightarrow> char list \<Rightarrow> (nat \<times> char list) res" where
  "url_decode_loop src src_len dst dst_len i j m =
     (if i < src_len \<and> j + 1 < dst_len
      then rbind (rd m (src + i)) (\<lambda>c.
             if c = CHR ''%''
             then rbind (pct_digits m (src + i)) (\<lambda>d.
                    case d of
                      Some (x, y) \<Rightarrow>
                        rbind (wr m (dst + j) (hex_pair x y))
                          (url_decode_loop src src_len dst dst_len (i + 3) (j + 1))
                    | None \<Rightarrow>
                        rbind (wr m (dst + j) (CHR ''%''))
                          (url_decode_loop src src_len dst dst_len (i + 1) (j + 1)))
             else rbind (wr m (dst + j) c)
                    (url_decode_loop src src_len dst dst_len (i + 1) (j + 1)))
      else rbind (wr m (dst + j) NUL) (\<lambda>m1. Inr (j, m1)))"
  by pat_completeness auto

termination
  by (relation "measure (\<lambda>(_, src_len, _, _, i, _, _). src_len - i)") auto

declare url_decode_loop.simps [simp del]

definition shttpd_url_decode ::
  "char list \<Rightarrow> nat \<Rightarrow> nat \<Rightarrow> nat \<Rightarrow> nat \<Rightarrow> (nat \<times> char list) res" where
  "shttpd_url_decode m src src_len dst dst_len = url_decode_loop src src_len dst dst_len 0 0 m"

text \<open>
  \<open>is_alias\<close>: the list is \<open>uri=path,uri=path,...\<close>; the result is the alias prefix and the path it
  stands for. \<open>memchr\<close> and \<open>memcmp\<close> look at bytes, and an alias never contains a NUL, so the
  comparison with the URI is decided at the URI's terminator at the latest.
\<close>

definition memchr :: "string \<Rightarrow> char \<Rightarrow> nat \<Rightarrow> nat option" where
  "memchr s c n =
     (let k = length (takeWhile (\<lambda>x. x \<noteq> c) (take n s))
      in if k < length (take n s) then Some k else None)"

definition memcmp_eq :: "string \<Rightarrow> string \<Rightarrow> nat \<Rightarrow> bool" where
  "memcmp_eq a b n = list_all (\<lambda>i. c_at a i = c_at b i) [0..<n]"

fun alias_scan :: "string \<Rightarrow> (string \<times> nat) list \<Rightarrow> (string \<times> string) option" where
  "alias_scan uri [] = None"
| "alias_scan uri ((s, len) # ws) =
     (case memchr s (CHR ''='') len of
        None \<Rightarrow> alias_scan uri ws
      | Some p \<Rightarrow>
          if p = 0 then alias_scan uri ws
          else if memcmp_eq uri s p
               then Some (take p s, take (len - (p + 1)) (drop (p + 1) s))
               else alias_scan uri ws)"

definition is_alias :: "string option \<Rightarrow> string \<Rightarrow> (string \<times> string) option" where
  "is_alias aliases uri = alias_scan uri (for_each_word aliases)"

section \<open>End of headers\<close>

text \<open>\<open>_shttpd_get_headers_len\<close>: \<open>s\<close> runs below \<open>e = buflen - 1\<close>; \<open>0\<close> is "not complete yet", \<open>-1\<close> is a control character.\<close>

definition ctl_char :: "char \<Rightarrow> bool" where
  "ctl_char c \<longleftrightarrow> \<not> isprint c \<and> c \<noteq> CHR 0x0D \<and> c \<noteq> CHR 0x0A \<and> byte c < 128"

function headers_len_loop :: "char list \<Rightarrow> nat \<Rightarrow> nat \<Rightarrow> int res" where
  "headers_len_loop buf buflen s =
     (if s + 1 < buflen
      then rbind (rd buf s) (\<lambda>c0.
             if ctl_char c0 then Inr (-1)
             else rbind (rd buf (s + 1)) (\<lambda>c1.
               if c0 = CHR 0x0A \<and> c1 = CHR 0x0A then Inr (int s + 2)
               else if c0 = CHR 0x0A \<and> s + 2 < buflen \<and> c1 = CHR 0x0D
                    then rbind (rd buf (s + 2)) (\<lambda>c2.
                           if c2 = CHR 0x0A then Inr (int s + 3)
                           else headers_len_loop buf buflen (s + 1))
                    else headers_len_loop buf buflen (s + 1)))
      else Inr 0)"
  by pat_completeness auto

termination
  by (relation "measure (\<lambda>(_, n, s). n - s)") auto

declare headers_len_loop.simps [simp del]

definition shttpd_get_headers_len :: "char list \<Rightarrow> nat \<Rightarrow> int res" where
  "shttpd_get_headers_len buf buflen = headers_len_loop buf buflen 0"

section \<open>Path clean-up\<close>

text \<open>
  \<open>remove_double_dots\<close> rewrites the string in place: \<open>s\<close> reads, \<open>p\<close> writes. Behind a slash or a
  backslash every dot, slash and backslash is skipped.
\<close>

definition is_sep :: "char \<Rightarrow> bool" where
  "is_sep c \<longleftrightarrow> c = CHR ''/'' \<or> c = CHR 0x5C"

definition dot_or_sep :: "char \<Rightarrow> bool" where
  "dot_or_sep c \<longleftrightarrow> c = CHR ''.'' \<or> is_sep c"

function skip_dots :: "char list \<Rightarrow> nat \<Rightarrow> nat res" where
  "skip_dots m s =
     rbind (rd m s) (\<lambda>c. if dot_or_sep c then skip_dots m (Suc s) else Inr s)"
  by pat_completeness auto

termination
  by (relation "measure (\<lambda>(m, s). length m - s)") (auto simp: rd_Inr_iff)

declare skip_dots.simps [simp del]

lemma skip_dots_ge: "skip_dots m s = Inr s' \<Longrightarrow> s \<le> s' \<and> s' < length m"
proof (induction m s rule: skip_dots.induct)
  case (1 m s)
  from "1.prems" show ?case
    by (subst (asm) skip_dots.simps)
       (auto simp: rd_Inr_iff rbind_Inr_iff split: if_splits dest: "1.IH" [rotated -1])
qed


lemma wr_length: "wr m a c = Inr m' \<Longrightarrow> length m' = length m"
  by (auto simp: wr_def split: if_splits)

function double_dots_loop :: "char list \<Rightarrow> nat \<Rightarrow> nat \<Rightarrow> char list res" where
  "double_dots_loop m s p =
     rbind (rd m s) (\<lambda>c.
       if c = NUL then wr m p NUL
       else rbind (wr m p c) (\<lambda>m1.
              rbind (rd m1 s) (\<lambda>prev.
                if is_sep prev
                then rbind (skip_dots m1 (s + 1)) (\<lambda>s'. double_dots_loop m1 s' (p + 1))
                else double_dots_loop m1 (s + 1) (p + 1))))"
  by pat_completeness auto

termination
  by (relation "measure (\<lambda>(m, s, _). length m - s)")
     (auto simp: rd_Inr_iff dest!: wr_length skip_dots_ge)

declare double_dots_loop.simps [simp del]

definition remove_double_dots :: "char list \<Rightarrow> nat \<Rightarrow> char list res" where
  "remove_double_dots m s = double_dots_loop m s s"

section \<open>Formatted input\<close>

text \<open>
  The part of \<open>sscanf\<close> the server uses: literal characters, white space, \<open>%d\<close>, \<open>%lu\<close>, \<open>%<n>s\<close>
  and \<open>%*<n>s\<close>. The result lists the values assigned before the first mismatch and, when every
  directive matched, the rest of the input, whose position is what \<open>%n\<close> stores.
\<close>

datatype scan_dir = Dir_Char char | Dir_Space | Dir_Int | Dir_Ulong | Dir_Word nat | Dir_Skip_Word nat

datatype scan_val = VInt int | VWord string

definition scan_word :: "nat \<Rightarrow> string \<Rightarrow> string" where
  "scan_word n s = take n (takeWhile (\<lambda>c. \<not> isspace c) (dropWhile isspace s))"

text \<open>The text of a decimal number: the sign was present, the digits, and what follows them.\<close>

definition scan_number :: "string \<Rightarrow> bool \<times> string \<times> string" where
  "scan_number s =
     (let (neg, s1) = scan_sign (dropWhile isspace s)
      in (neg, takeWhile isdigit s1, dropWhile isdigit s1))"

text \<open>
  \<open>strtoul\<close> with base 10 on the 32-bit \<open>unsigned long\<close> of the devices: a value that does not fit
  gives \<open>ULONG_MAX\<close>, a minus sign negates modulo \<open>2^32\<close>, no digits give 0.
\<close>

definition ULONG_MAX :: int where "ULONG_MAX = 2 ^ 32 - 1"

definition ulong_value :: "bool \<Rightarrow> string \<Rightarrow> int" where
  "ulong_value neg ds =
     (let v = int (digits_value 10 ds)
      in if v > ULONG_MAX then ULONG_MAX else if neg then (- v) mod 2 ^ 32 else v)"

definition strtoul :: "string \<Rightarrow> int" where
  "strtoul s = (let (neg, ds, _) = scan_number s in ulong_value neg ds)"

fun sscanf :: "scan_dir list \<Rightarrow> string \<Rightarrow> scan_val list \<times> string option" where
  "sscanf [] s = ([], Some s)"
| "sscanf (Dir_Char c # ds) s =
     (case s of
        [] \<Rightarrow> ([], None)
      | x # s' \<Rightarrow> if x = c then sscanf ds s' else ([], None))"
| "sscanf (Dir_Space # ds) s = sscanf ds (dropWhile isspace s)"
| "sscanf (Dir_Int # ds) s =
     (let (neg, dg, s') = scan_number s; v = int (digits_value 10 dg)
      in if dg = [] then ([], None)
         else let (vs, r) = sscanf ds s'
              in (VInt (wrap32 (sat64 (if neg then - v else v))) # vs, r))"
| "sscanf (Dir_Ulong # ds) s =
     (let (neg, dg, s') = scan_number s
      in if dg = [] then ([], None)
         else let (vs, r) = sscanf ds s' in (VInt (ulong_value neg dg) # vs, r))"
| "sscanf (Dir_Word n # ds) s =
     (let w = scan_word n s
      in if w = [] then ([], None)
         else let (vs, r) = sscanf ds (drop (length w) (dropWhile isspace s)) in (VWord w # vs, r))"
| "sscanf (Dir_Skip_Word n # ds) s =
     (let w = scan_word n s
      in if w = [] then ([], None) else sscanf ds (drop (length w) (dropWhile isspace s)))"

section \<open>Dates\<close>

definition month_names :: "string list" where
  "month_names =
     [''Jan'', ''Feb'', ''Mar'', ''Apr'', ''May'', ''Jun'',
      ''Jul'', ''Aug'', ''Sep'', ''Oct'', ''Nov'', ''Dec'']"

definition montoi :: "string \<Rightarrow> int" where
  "montoi s =
     (case List.find (\<lambda>i. cstr s = month_names ! i) [0..<12] of
        None \<Rightarrow> -1
      | Some i \<Rightarrow> int i)"

record tm =
  tm_mday :: int
  tm_mon :: int
  tm_year :: int
  tm_hour :: int
  tm_min :: int
  tm_sec :: int
  tm_isdst :: int

text \<open>The four layouts tried in turn; the separators differ, and the third skips a weekday.\<close>

definition date_tail :: "scan_dir list" where
  "date_tail = [Dir_Int, Dir_Space, Dir_Int, Dir_Char (CHR '':''), Dir_Int, Dir_Char (CHR '':''), Dir_Int]"

definition date_formats :: "scan_dir list list" where
  "date_formats =
     [[Dir_Int, Dir_Char (CHR ''/''), Dir_Word 3, Dir_Char (CHR ''/'')] @ date_tail,
      [Dir_Int, Dir_Space, Dir_Word 3, Dir_Space] @ date_tail,
      [Dir_Skip_Word 3, Dir_Char (CHR '',''), Dir_Space, Dir_Int, Dir_Space, Dir_Word 3, Dir_Space]
        @ date_tail,
      [Dir_Int, Dir_Char (CHR ''-''), Dir_Word 3, Dir_Char (CHR ''-'')] @ date_tail]"

definition zero_tm :: tm where
  "zero_tm = \<lparr>tm_mday = 0, tm_mon = 0, tm_year = 0, tm_hour = 0, tm_min = 0, tm_sec = 0, tm_isdst = 0\<rparr>"

definition scanned_tm :: "string \<Rightarrow> tm" where
  "scanned_tm s =
     (case List.find (\<lambda>vs. length vs = 6) (map (\<lambda>f. fst (sscanf f s)) date_formats) of
        Some [VInt mday, VWord mon, VInt year, VInt hour, VInt mins, VInt sec] \<Rightarrow>
          (if montoi mon \<noteq> -1
           then \<lparr>tm_mday = mday, tm_mon = montoi mon, tm_year = year,
                 tm_hour = hour, tm_min = mins, tm_sec = sec, tm_isdst = 0\<rparr>
           else zero_tm)
      | _ \<Rightarrow> zero_tm)"

definition fix_year :: "tm \<Rightarrow> tm" where
  "fix_year t =
     (if tm_year t > 1900 then t\<lparr>tm_year := tm_year t - 1900\<rparr>
      else if tm_year t < 70 then t\<lparr>tm_year := tm_year t + 100\<rparr>
      else t)"

text \<open>
  \<open>date_to_epoch\<close>: \<open>mktime\<close> and the daylight saving flag of the current local time depend on the
  time zone of the device and are arguments.
\<close>

definition date_to_epoch :: "(tm \<Rightarrow> int) \<Rightarrow> int \<Rightarrow> string \<Rightarrow> int" where
  "date_to_epoch mktime isdst s = mktime ((fix_year (scanned_tm s))\<lparr>tm_isdst := isdst\<rparr>)"

section \<open>MIME types\<close>

definition builtin_mime_types :: "(string \<times> nat \<times> string) list" where
  "builtin_mime_types =
   [    (''html'', 4, ''text/html''),
    (''htm'', 3, ''text/html''),
    (''txt'', 3, ''text/plain''),
    (''css'', 3, ''text/css''),
    (''ico'', 3, ''image/x-icon''),
    (''gif'', 3, ''image/gif''),
    (''jpg'', 3, ''image/jpeg''),
    (''jpeg'', 4, ''image/jpeg''),
    (''png'', 3, ''image/png''),
    (''svg'', 3, ''image/svg+xml''),
    (''torrent'', 7, ''application/x-bittorrent''),
    (''wav'', 3, ''audio/x-wav''),
    (''mp3'', 3, ''audio/x-mp3''),
    (''mid'', 3, ''audio/mid''),
    (''m3u'', 3, ''audio/x-mpegurl''),
    (''ram'', 3, ''audio/x-pn-realaudio''),
    (''ra'', 2, ''audio/x-pn-realaudio''),
    (''doc'', 3, ''application/msword''),
    (''exe'', 3, ''application/octet-stream''),
    (''zip'', 3, ''application/x-zip-compressed''),
    (''xls'', 3, ''application/excel''),
    (''tgz'', 3, ''application/x-tar-gz''),
    (''tar.gz'', 6, ''application/x-tar-gz''),
    (''tar'', 3, ''application/x-tar''),
    (''gz'', 2, ''application/x-gunzip''),
    (''arj'', 3, ''application/x-arj-compressed''),
    (''rar'', 3, ''application/x-arj-compressed''),
    (''rtf'', 3, ''application/rtf''),
    (''pdf'', 3, ''application/pdf''),
    (''swf'', 3, ''application/x-shockwave-flash''),
    (''mpg'', 3, ''video/mpeg''),
    (''mpeg'', 4, ''video/mpeg''),
    (''asf'', 3, ''video/x-ms-asf''),
    (''avi'', 3, ''video/x-msvideo''),
    (''bmp'', 3, ''image/bmp'')]"

definition has_extension :: "string \<Rightarrow> nat \<Rightarrow> string \<Rightarrow> nat \<Rightarrow> bool" where
  "has_extension uri len ext ext_len \<longleftrightarrow>
     len > ext_len \<and> c_at uri (len - ext_len - 1) = CHR ''.'' \<and>
     shttpd_strncasecmp ext (drop (len - ext_len) uri) ext_len = 0"

definition custom_mime :: "string \<Rightarrow> nat \<Rightarrow> string \<times> nat \<Rightarrow> string option" where
  "custom_mime uri len w =
     (let (p, n) = w
      in case memchr p (CHR ''='') n of
           None \<Rightarrow> None
         | Some eq \<Rightarrow> if eq \<noteq> 0 \<and> has_extension uri len p eq
                      then Some (take (n - (eq + 1)) (drop (eq + 1) p)) else None)"

definition builtin_mime :: "string \<Rightarrow> nat \<Rightarrow> string" where
  "builtin_mime uri len =
     (case List.find (\<lambda>(ext, ext_len, _). has_extension uri len ext ext_len) builtin_mime_types of
        Some (_, _, t) \<Rightarrow> t
      | None \<Rightarrow> ''text/plain'')"

definition shttpd_get_mime_type :: "string option \<Rightarrow> string \<Rightarrow> nat \<Rightarrow> string" where
  "shttpd_get_mime_type mime_types uri len =
     (case List.find (\<lambda>w. custom_mime uri len w \<noteq> None) (for_each_word mime_types) of
        Some w \<Rightarrow> the (custom_mime uri len w)
      | None \<Rightarrow> builtin_mime uri len)"

section \<open>Bounded copies\<close>

lemma cstr_drop_Cons: "c_at src sp \<noteq> NUL \<Longrightarrow> cstr (drop sp src) = c_at src sp # cstr (drop (Suc sp) src)"
  by (subst drop_c_at) (simp_all add: cstr_def)

lemma cstr_drop_Nil: "c_at src sp = NUL \<Longrightarrow> cstr (drop sp src) = []"
  by (cases "sp < length src") (simp_all add: c_at_def cstr_def Cons_nth_drop_Suc [symmetric])

lemma strlcpy_loop_store:
  "dst + length (take (n - 1) (cstr (drop sp src))) < length m \<Longrightarrow>
   strlcpy_loop m dst src sp n = Inr (store m dst (take (n - 1) (cstr (drop sp src))))"
proof (induction m dst src sp n rule: strlcpy_loop.induct)
  case (1 m dst src sp n)
  show ?case
  proof (cases "c_at src sp \<noteq> NUL \<and> n > 1")
    case True
    then obtain k where k: "n = Suc (Suc k)"
      by (metis One_nat_def less_imp_Suc_add plus_1_eq_Suc)
    let ?rest = "take k (cstr (drop (Suc sp) src))"
    have split: "take (n - 1) (cstr (drop sp src)) = c_at src sp # ?rest"
      using True by (simp add: k cstr_drop_Cons)
    have "Suc dst + length ?rest < length m"
      using "1.prems" unfolding split by (simp only: list.size)
    then have "dst < length m" and "Suc dst + length ?rest < length m" by linarith+
    moreover from this have "strlcpy_loop (m[dst := c_at src sp]) (Suc dst) src (Suc sp) (n - 1)
        = Inr (store (m[dst := c_at src sp]) (Suc dst) ?rest)"
      using "1.IH" [OF True] by (simp add: k)
    ultimately show ?thesis
      using True split by (subst strlcpy_loop.simps) (simp add: store_Cons)
  next
    case False
    then have "take (n - 1) (cstr (drop sp src)) = []"
      by (auto simp: cstr_drop_Nil)
    moreover from this "1.prems" have "dst < length m" by simp
    moreover have "strlcpy_loop m dst src sp n = wr m dst NUL"
      using False by (subst strlcpy_loop.simps) auto
    ultimately show ?thesis by (simp only: wr_Inr store_Nil)
  qed
qed

lemma shttpd_strlcpy_eq:
  "dst + length (take (n - 1) (cstr src)) < length m \<Longrightarrow>
   shttpd_strlcpy m dst src n = Inr (store m dst (take (n - 1) (cstr src)))"
  using strlcpy_loop_store [of dst n 0 src m] by (simp add: shttpd_strlcpy_def)

lemma NUL_notin_take_cstr [simp]: "NUL \<notin> set (take n (cstr s))"
  using NUL_notin_cstr in_set_takeD by metis

lemma shttpd_strndup_eq:
  "shttpd_strndup mem ptr len =
     Inr (if alloc_ok mem (int len + 1) then Some (take len (cstr ptr)) else None)"
proof -
  have "cstr (store (replicate (len + 1) NUL) 0 (take len (cstr ptr))) = take len (cstr ptr)"
    using cstr_drop_store [of 0 "replicate (len + 1) NUL" "take len (cstr ptr)"] by simp
  then show ?thesis
    by (simp add: shttpd_strndup_def shttpd_strlcpy_eq del: replicate.simps)
qed

lemma store_last: "a + length s < length m \<Longrightarrow> (take a m @ s @ drop (a + length s) m)[a + length s := NUL] = store m a s"
  by (simp add: store_def list_update_append upd_conv_take_nth_drop)

lemma shttpd_snprintf_eq:
  assumes "0 < buflen" and "buf + buflen \<le> length m"
  shows "shttpd_snprintf neg m buf buflen out
         = Inr (min (length out) (buflen - 1), store m buf (take (buflen - 1) out))"
proof (cases "length out < buflen")
  case True
  then have all: "take (buflen - 1) out = out" by simp
  have last: "(take buf m @ out @ NUL # drop (Suc (buf + length out)) m)[buf + length out := NUL]
      = store m buf out"
    using assms True by (simp add: store_def list_update_append)
  have "wr_all m buf (out @ [NUL]) = Inr (take buf m @ out @ NUL # drop (Suc (buf + length out)) m)"
    using assms True by (simp add: wr_all_def)
  moreover have "wr (take buf m @ out @ NUL # drop (Suc (buf + length out)) m) (buf + length out) NUL
      = Inr (store m buf out)"
    using last assms by (simp add: wr_def)
  ultimately show ?thesis using True assms all
    by (simp add: shttpd_snprintf_def vsnprintf_def Let_def)
next
  case False
  let ?t = "take (buflen - 1) out"
  have len: "length ?t = buflen - 1" using False by simp
  have ends: "wr (take buf m @ ?t @ x # drop (buf + buflen) m) (buf + (buflen - 1)) NUL
      = Inr (store m buf ?t)" for x
    using assms False by (cases buflen) (simp_all add: wr_def store_def list_update_append)
  have ms: "take buflen out = ?t @ [out ! (buflen - 1)]"
    using False assms by (metis One_nat_def Suc_pred diff_less less_le_trans not_le take_Suc_conv_app_nth zero_less_one)
  have "wr_all m buf (?t @ [x]) = Inr (take buf m @ ?t @ x # drop (buf + buflen) m)" for x
    using assms False by (simp add: wr_all_def)
  with ms False assms ends len show ?thesis
    by (simp add: shttpd_snprintf_def vsnprintf_def Let_def min_def)
qed

text \<open>
  \<open>_shttpd_snprintf\<close> is the sane \<open>snprintf\<close> its comment promises, on either C library: given a
  buffer of \<open>buflen > 0\<close> bytes it stays inside it, stores the longest prefix of the formatted text
  that leaves room for the terminator, and returns the length of what it stored, so that the
  caller can use the result as an offset into the buffer.
\<close>

lemma shttpd_snprintf_sane:
  assumes "0 < buflen" and "buf + buflen \<le> length m"
  shows "shttpd_snprintf neg m buf buflen out
         = Inr (min (length out) (buflen - 1), store m buf (take (buflen - 1) out))"
  using assms by (rule shttpd_snprintf_eq)

lemma shttpd_snprintf_sane_witness:
  "shttpd_snprintf True (replicate 6 (CHR ''.'')) 1 4 ''abcdef''
   = Inr (3, [CHR ''.'', CHR ''a'', CHR ''b'', CHR ''c'', NUL, CHR ''.''])"
  using shttpd_snprintf_sane [of 4 1 "replicate 6 (CHR ''.'')" True "''abcdef''"]
  by (simp add: store_def eval_nat_numeral)

section \<open>Case-insensitive comparison\<close>

lemma tolower_NUL_iff [simp]: "tolower c = NUL \<longleftrightarrow> c = NUL"
proof -
  have "byte (char_of (byte c + 32) :: char) = byte c + 32" if "byte c \<le> 90"
    using that by simp
  then show ?thesis by (auto simp: tolower_def simp flip: byte_eq_iff [of _ NUL])
qed

lemma tolower_NUL [simp]: "tolower NUL = NUL" "NUL = tolower c \<longleftrightarrow> c = NUL"
  using tolower_NUL_iff [of c] by (simp, metis)

lemma strncasecmp_loop_zero:
  "i < len \<Longrightarrow> strncasecmp_loop s1 s2 len i = 0 \<longleftrightarrow>
     map tolower (take (len - i) (cstr (drop i s1))) = map tolower (take (len - i) (cstr (drop i s2)))"
proof (induction s1 s2 len i rule: strncasecmp_loop.induct)
  case (1 s1 s2 len i)
  let ?a = "c_at s1 i" and ?b = "c_at s2 i"
  from "1.prems" obtain k where k: "len - i = Suc k" by (metis Suc_diff_Suc)
  have step: "map tolower (take (Suc k) (cstr (drop i s))) =
      (if c_at s i = NUL then [] else tolower (c_at s i) # map tolower (take k (cstr (drop (Suc i) s))))"
    for s by (auto simp: cstr_drop_Nil cstr_drop_Cons)
  show ?case
  proof (cases "i + 1 < len \<and> ?a \<noteq> NUL \<and> ?b \<noteq> NUL \<and> tolower ?a = tolower ?b")
    case True
    then have "strncasecmp_loop s1 s2 len i = strncasecmp_loop s1 s2 len (Suc i)"
      by (subst strncasecmp_loop.simps) simp
    moreover have "len - Suc i = k" using k by simp
    ultimately show ?thesis using "1.IH" [OF True] True k step [of s1] step [of s2] by simp
  next
    case False
    then have stop: "strncasecmp_loop s1 s2 len i = int (byte (tolower ?a)) - int (byte (tolower ?b))"
      by (subst strncasecmp_loop.simps) (simp only: if_False)
    then have zero: "strncasecmp_loop s1 s2 len i = 0 \<longleftrightarrow> tolower ?a = tolower ?b"
      by (simp add: byte_eq_iff)
    have last: "k = 0" if "?a \<noteq> NUL" "?b \<noteq> NUL" "tolower ?a = tolower ?b"
      using False that k by simp
    show ?thesis
      unfolding zero k step
      by (cases "?a = NUL"; cases "?b = NUL"; cases "tolower ?a = tolower ?b") (simp_all add: last)
  qed
qed

lemma shttpd_strncasecmp_zero:
  "0 < len \<Longrightarrow> shttpd_strncasecmp s1 s2 len = 0 \<longleftrightarrow>
     map tolower (take len (cstr s1)) = map tolower (take len (cstr s2))"
  using strncasecmp_loop_zero [of 0 len s1 s2] by (simp add: shttpd_strncasecmp_def)

section \<open>URL decoding\<close>

text \<open>
  The specification: a percent sign followed by two hexadecimal digits stands for the byte they
  name, every other character for itself.
\<close>

fun pct_decode :: "string \<Rightarrow> string" where
  "pct_decode [] = []"
| "pct_decode (c # r) =
     (if c = CHR ''%''
      then (case r of
              x # y # r' \<Rightarrow> if isxdigit x \<and> isxdigit y then hex_pair x y # pct_decode r'
                            else c # pct_decode r
            | _ \<Rightarrow> c # pct_decode r)
      else c # pct_decode r)"

lemma pct_decode_plain: "c \<noteq> CHR ''%'' \<Longrightarrow> pct_decode (c # r) = c # pct_decode r"
  by simp

lemma pct_decode_pair:
  "isxdigit x \<Longrightarrow> isxdigit y \<Longrightarrow> pct_decode (CHR ''%'' # x # y # r) = hex_pair x y # pct_decode r"
  by simp

lemma pct_decode_lone:
  "(\<And>x y r'. r = x # y # r' \<Longrightarrow> \<not> (isxdigit x \<and> isxdigit y)) \<Longrightarrow> pct_decode (c # r) = c # pct_decode r"
  by (subst pct_decode.simps(2)) (auto simp del: pct_decode.simps split: list.split)

lemma pct_decode_cases:
  obtains "pct_decode (c # r) = c # pct_decode r"
  | x y r' where "c = CHR ''%''" "r = x # y # r'" "isxdigit x" "isxdigit y"
      "pct_decode (c # r) = hex_pair x y # pct_decode r'"
proof (cases "\<exists>x y r'. c = CHR ''%'' \<and> r = x # y # r' \<and> isxdigit x \<and> isxdigit y")
  case True
  then show ?thesis using that(2) pct_decode_pair by blast
next
  case False
  then show ?thesis
    using that(1) pct_decode_lone [of r c] pct_decode_plain [of c r] by blast
qed

declare pct_decode.simps(2) [simp del]

text \<open>The characters of the source not yet read.\<close>

definition src_rest :: "char list \<Rightarrow> nat \<Rightarrow> nat \<Rightarrow> nat \<Rightarrow> string" where
  "src_rest m src src_len i = take (src_len - i) (drop (src + i) m)"

lemma src_rest_Cons:
  "i < src_len \<Longrightarrow> src + src_len < length m \<Longrightarrow>
   src_rest m src src_len i = m ! (src + i) # src_rest m src src_len (Suc i)"
  by (simp add: src_rest_def Cons_nth_drop_Suc [symmetric] Suc_diff_Suc [symmetric])

lemma src_rest_end: "src_len \<le> i \<Longrightarrow> src_rest m src src_len i = []"
  by (simp add: src_rest_def)

lemma src_rest_update:
  "a < src + i \<or> src + src_len < a \<Longrightarrow> src_rest (m[a := c]) src src_len i = src_rest m src src_len i"
  by (cases "i \<le> src_len") (auto simp: src_rest_def drop_update_swap take_update_cancel)

text \<open>The two digits looked at behind a percent sign, and what the specification sees there.\<close>

lemma pct_digits_eq:
  assumes "i < src_len" and "src + src_len < length m" and "\<not> isxdigit (m ! (src + src_len))"
  shows "pct_digits m (src + i) =
     Inr (case src_rest m src src_len (Suc i) of
            x # y # r \<Rightarrow> if isxdigit x \<and> isxdigit y then Some (x, y) else None
          | _ \<Rightarrow> None)"
proof (cases "Suc i < src_len")
  case two: True
  show ?thesis
  proof (cases "Suc (Suc i) < src_len")
    case True
    with two assms show ?thesis by (simp add: pct_digits_def src_rest_Cons)
  next
    case False
    with two have "src_len = Suc (Suc i)" by simp
    with assms two show ?thesis by (simp add: pct_digits_def src_rest_Cons src_rest_end)
  qed
next
  case False
  with assms have "src_len = Suc i" by simp
  with assms show ?thesis by (simp add: pct_digits_def src_rest_end)
qed

text \<open>One round of the loop: how much of the source it takes and which byte it writes.\<close>

definition decode_step :: "char list \<Rightarrow> nat \<Rightarrow> nat \<Rightarrow> nat \<Rightarrow> nat \<times> char" where
  "decode_step m src src_len i =
     (if m ! (src + i) = CHR ''%''
      then (case src_rest m src src_len (Suc i) of
              x # y # r \<Rightarrow> if isxdigit x \<and> isxdigit y then (i + 3, hex_pair x y) else (i + 1, CHR ''%'')
            | _ \<Rightarrow> (i + 1, CHR ''%''))
      else (i + 1, m ! (src + i)))"

lemma pct_decode_step:
  assumes "i < src_len" and "src + src_len < length m"
    and "decode_step m src src_len i = (i', c)"
  shows "pct_decode (src_rest m src src_len i) = c # pct_decode (src_rest m src src_len i')"
    and "i < i'" and "i' \<le> src_len"
proof -
  have le: "length (src_rest m src src_len k) \<le> src_len - k" for k
    by (simp add: src_rest_def)
  have three: "src_rest m src src_len (i + 3) = r \<and> i + 3 \<le> src_len"
    if "src_rest m src src_len (Suc i) = x # y # r" for x y r
  proof -
    from that le [of "Suc i"] have "i + 3 \<le> src_len" by simp
    moreover have "src_rest m src src_len (i + 3) = drop 2 (src_rest m src src_len (Suc i))"
      by (simp add: src_rest_def drop_take add.commute eval_nat_numeral)
    ultimately show ?thesis using that by simp
  qed
  have rest: "src_rest m src src_len i = m ! (src + i) # src_rest m src src_len (Suc i)"
    using assms(1,2) by (rule src_rest_Cons)
  have "pct_decode (src_rest m src src_len i) = c # pct_decode (src_rest m src src_len i')
      \<and> i < i' \<and> i' \<le> src_len"
  proof (cases "\<exists>x y r. m ! (src + i) = CHR ''%'' \<and> src_rest m src src_len (Suc i) = x # y # r
      \<and> isxdigit x \<and> isxdigit y")
    case True
    then obtain x y r where xy: "m ! (src + i) = CHR ''%''"
      "src_rest m src src_len (Suc i) = x # y # r" "isxdigit x" "isxdigit y" by blast
    with three [OF xy(2)] assms(3) show ?thesis
      by (auto simp: rest decode_step_def pct_decode_pair)
  next
    case False
    then have "i' = i + 1" and "c = m ! (src + i)"
      using assms(3) by (auto simp: decode_step_def split: if_splits list.splits)
    moreover from False have "pct_decode (src_rest m src src_len i) =
        m ! (src + i) # pct_decode (src_rest m src src_len (Suc i))"
      unfolding rest by (cases "m ! (src + i) = CHR ''%''") (auto intro: pct_decode_lone pct_decode_plain)
    ultimately show ?thesis using assms(1) by simp
  qed
  then show "pct_decode (src_rest m src src_len i) = c # pct_decode (src_rest m src src_len i')"
    and "i < i'" and "i' \<le> src_len" by blast+
qed

lemma url_decode_loop_step:
  assumes "i < src_len" and "src + src_len < length m" and "\<not> isxdigit (m ! (src + src_len))"
    and "j + 1 < dst_len" and "dst + j < length m"
    and "decode_step m src src_len i = (i', c)"
  shows "url_decode_loop src src_len dst dst_len i j m
         = url_decode_loop src src_len dst dst_len i' (j + 1) (m[dst + j := c])"
  using assms unfolding decode_step_def
  by (subst url_decode_loop.simps)
     (auto simp: pct_digits_eq split: if_splits list.splits)

lemma url_decode_loop_store:
  assumes "i \<le> src_len" and "src + src_len < length m" and "\<not> isxdigit (m ! (src + src_len))"
    and "dst + j \<le> src + i \<or> src + src_len < dst"
    and "dst + j + length (take (dst_len - 1 - j) (pct_decode (src_rest m src src_len i))) < length m"
  shows "url_decode_loop src src_len dst dst_len i j m =
     (let out = take (dst_len - 1 - j) (pct_decode (src_rest m src src_len i))
      in Inr (j + length out, store m (dst + j) out))"
  using assms
proof (induction "src_len - i" arbitrary: i j m rule: less_induct)
  case less
  show ?case
  proof (cases "i < src_len \<and> j + 1 < dst_len")
    case True
    obtain i' c where st: "decode_step m src src_len i = (i', c)" by (cases "decode_step m src src_len i")
    note step = pct_decode_step [OF conjunct1 [OF True] less.prems(2) st]
    let ?m = "m[dst + j := c]"
    let ?out = "take (dst_len - 1 - (j + 1)) (pct_decode (src_rest m src src_len i'))"
    have keep: "src_rest ?m src src_len i' = src_rest m src src_len i'"
      using less.prems(4) step(2) by (intro src_rest_update) auto
    have out: "take (dst_len - 1 - j) (pct_decode (src_rest m src src_len i)) = c # ?out"
    proof -
      have "dst_len - 1 - j = Suc (dst_len - 1 - (j + 1))" using True by linarith
      then show ?thesis using step(1) by (simp only: take_Suc_Cons)
    qed
    have room: "dst + (j + 1) + length ?out < length m" using less.prems(5) unfolding out by (simp only: list.size)
    have "m ! (src + src_len) = ?m ! (src + src_len)"
      using less.prems(4) True by auto
    moreover have "src_len - i' < src_len - i" using step True by linarith
    moreover have "dst + (j + 1) \<le> src + i' \<or> src + src_len < dst" using less.prems(4) step(2) by linarith
    ultimately have "url_decode_loop src src_len dst dst_len i' (j + 1) ?m
        = Inr (j + 1 + length ?out, store ?m (dst + (j + 1)) ?out)"
      using less.hyps [of i' ?m "j + 1"] True step less.prems room by (simp add: keep Let_def)
    moreover have "url_decode_loop src src_len dst dst_len i j m
        = url_decode_loop src src_len dst dst_len i' (j + 1) ?m"
      using True less.prems room st by (intro url_decode_loop_step) auto
    moreover have "store ?m (dst + (j + 1)) ?out = store m (dst + j) (c # ?out)"
      using room by (subst store_Cons [symmetric]) simp_all
    ultimately show ?thesis unfolding out by (simp add: Let_def)
  next
    case False
    then have out: "take (dst_len - 1 - j) (pct_decode (src_rest m src src_len i)) = []"
      by (auto simp: src_rest_end not_less)
    have "url_decode_loop src src_len dst dst_len i j m = rbind (wr m (dst + j) NUL) (\<lambda>m1. Inr (j, m1))"
      using False by (subst url_decode_loop.simps) (simp only: if_False)
    with less.prems(5) show ?thesis unfolding out by (simp add: store_Nil Let_def)
  qed
qed

lemma length_pct_decode: "length (pct_decode s) \<le> length s"
proof (induction s rule: length_induct)
  case (1 s)
  show ?case
  proof (cases s)
    case (Cons c r)
    show ?thesis
    proof (cases c r rule: pct_decode_cases)
      case 1
      with "1.IH" Cons show ?thesis by simp
    next
      case (2 x y r')
      with "1.IH" Cons have "length (pct_decode r') \<le> length r'" by simp
      with 2 Cons show ?thesis by simp
    qed
  qed simp
qed

lemma shttpd_url_decode_eq:
  assumes "src + src_len < length m" and "\<not> isxdigit (m ! (src + src_len))"
    and "dst \<le> src \<or> src + src_len < dst"
    and "0 < dst_len" and "dst + min src_len (dst_len - 1) < length m"
  shows "shttpd_url_decode m src src_len dst dst_len =
     (let out = take (dst_len - 1) (pct_decode (take src_len (drop src m)))
      in Inr (length out, store m dst out))"
proof -
  have "length (pct_decode (take src_len (drop src m))) \<le> src_len"
    using length_pct_decode [of "take src_len (drop src m)"] by simp
  then have "dst + length (take (dst_len - 1) (pct_decode (take src_len (drop src m)))) < length m"
    using assms(5) by simp
  then show ?thesis
    using url_decode_loop_store [of 0 src_len src m dst 0 dst_len] assms
    by (simp add: shttpd_url_decode_def src_rest_def)
qed

text \<open>
  C18. \<open>_shttpd_url_decode\<close> on a source that ends before a byte that is no hexadecimal digit (its
  terminator): when the destination is another buffer behind the source, or starts at or before
  the source - decoding in place included - and has room, the routine touches no byte outside,
  stores the decoded text cut to \<open>dst_len - 1\<close> characters with its terminator, and returns the
  length of what it stored. Overwriting the source never changes what is still to be read.
\<close>

theorem shttpd_url_decode_correct:
  assumes "src + src_len < length m" and "\<not> isxdigit (m ! (src + src_len))"
    and "dst \<le> src \<or> src + src_len < dst"
    and "0 < dst_len" and "dst + min src_len (dst_len - 1) < length m"
  shows "shttpd_url_decode m src src_len dst dst_len =
     (let out = take (dst_len - 1) (pct_decode (take src_len (drop src m)))
      in Inr (length out, store m dst out))"
  using assms by (rule shttpd_url_decode_eq)

theorem shttpd_url_decode_correct_witness:
  "shttpd_url_decode (''/a%20b%4'' @ [NUL]) 0 8 0 9 =
     Inr (6, ''/a b%4'' @ [NUL, CHR ''4'', NUL])"
proof -
  have "pct_decode ''/a%20b%4'' = ''/a b%4''" by code_simp
  moreover have "\<not> isxdigit NUL" by code_simp
  ultimately show ?thesis
    using shttpd_url_decode_correct [of 0 8 "''/a%20b%4'' @ [NUL]" 0 9] by (simp add: store_def)
qed

section \<open>Complete header blocks\<close>

text \<open>An empty line, written with or without carriage return, ends at position \<open>k\<close>.\<close>

definition lf_lf :: "char list \<Rightarrow> nat \<Rightarrow> bool" where
  "lf_lf buf s \<longleftrightarrow> buf ! s = CHR 0x0A \<and> buf ! (s + 1) = CHR 0x0A"

definition lf_cr_lf :: "char list \<Rightarrow> nat \<Rightarrow> bool" where
  "lf_cr_lf buf s \<longleftrightarrow> buf ! s = CHR 0x0A \<and> buf ! (s + 1) = CHR 0x0D \<and> buf ! (s + 2) = CHR 0x0A"

definition blank_end :: "char list \<Rightarrow> nat \<Rightarrow> bool" where
  "blank_end buf k \<longleftrightarrow> 2 \<le> k \<and> lf_lf buf (k - 2) \<or> 3 \<le> k \<and> lf_cr_lf buf (k - 3)"

text \<open>Nothing that starts before \<open>s\<close> ends a header block within the first \<open>n\<close> bytes.\<close>

definition none_before :: "char list \<Rightarrow> nat \<Rightarrow> nat \<Rightarrow> bool" where
  "none_before buf n s \<longleftrightarrow>
     (\<forall>i < s. \<not> ctl_char (buf ! i) \<and> (i + 2 \<le> n \<longrightarrow> \<not> lf_lf buf i) \<and> (i + 3 \<le> n \<longrightarrow> \<not> lf_cr_lf buf i))"

lemma none_before_Suc:
  "none_before buf n (Suc s) \<longleftrightarrow> none_before buf n s \<and> \<not> ctl_char (buf ! s) \<and>
     (s + 2 \<le> n \<longrightarrow> \<not> lf_lf buf s) \<and> (s + 3 \<le> n \<longrightarrow> \<not> lf_cr_lf buf s)"
  by (auto simp: none_before_def less_Suc_eq)

lemma none_before_blank: "none_before buf n s \<Longrightarrow> k \<le> n \<Longrightarrow> k \<le> s + 1 \<Longrightarrow> \<not> blank_end buf k"
  by (auto simp: none_before_def blank_end_def)

lemma none_before_blank2:
  "none_before buf n s \<Longrightarrow> k \<le> n \<Longrightarrow> k < s + 3 \<Longrightarrow> lf_cr_lf buf s \<Longrightarrow> \<not> blank_end buf k"
proof -
  assume a: "none_before buf n s" "k \<le> n" "k < s + 3" "lf_cr_lf buf s"
  have "\<not> lf_lf buf s" using a(4) by (auto simp: lf_lf_def lf_cr_lf_def)
  moreover have "k - 2 < s \<or> k - 2 = s" using a(3) by auto
  ultimately show ?thesis using a by (auto simp: none_before_def blank_end_def)
qed

text \<open>
  The verdict on the first \<open>n\<close> bytes: the length up to the first empty line, if no control character is in front of its end; 0 when
  there is neither; -1 when a control character (the last byte is not looked at) comes before the end of an empty line.
\<close>

definition headers_verdict :: "char list \<Rightarrow> nat \<Rightarrow> int \<Rightarrow> bool" where
  "headers_verdict buf n r \<longleftrightarrow>
     (if r > 0 then nat r \<le> n \<and> blank_end buf (nat r) \<and> (\<forall>k<nat r. \<not> blank_end buf k) \<and> (\<forall>i<nat r. \<not> ctl_char (buf ! i))
      else if r = 0 then (\<forall>k\<le>n. \<not> blank_end buf k) \<and> (\<forall>i. i + 1 < n \<longrightarrow> \<not> ctl_char (buf ! i))
      else r = -1 \<and> (\<exists>i. i + 1 < n \<and> ctl_char (buf ! i) \<and> (\<forall>k\<le>i + 1. \<not> blank_end buf k)))"

text \<open>There is only one verdict.\<close>

lemma headers_verdict_unique:
  assumes "headers_verdict buf n r" and "headers_verdict buf n q"
  shows "r = q"
proof -
  have *: "\<not> (a > 0 \<and> b \<le> 0)" "\<not> (a = 0 \<and> b < 0)" "a > 0 \<Longrightarrow> b > 0 \<Longrightarrow> a \<le> b"
    if v: "headers_verdict buf n a" "headers_verdict buf n b" for a b
  proof -
    show "\<not> (a > 0 \<and> b \<le> 0)"
    proof
      assume ab: "a > 0 \<and> b \<le> 0"
      then have A: "nat a \<le> n" "blank_end buf (nat a)" "\<forall>i<nat a. \<not> ctl_char (buf ! i)" using v(1) by (auto simp: headers_verdict_def)
      show False
      proof (cases "b = 0")
        case True
        then show ?thesis using v(2) A by (auto simp: headers_verdict_def)
      next
        case False
        then obtain i where i: "ctl_char (buf ! i)" "\<forall>k\<le>i + 1. \<not> blank_end buf k"
          using v(2) ab by (auto simp: headers_verdict_def split: if_splits)
        have "i + 1 < nat a" using i(2) A(2) by (meson not_le)
        then show ?thesis using i(1) A(3) by simp
      qed
    qed
    show "\<not> (a = 0 \<and> b < 0)" using v by (auto simp: headers_verdict_def)
    show "a \<le> b" if "a > 0" "b > 0" using v that by (auto simp: headers_verdict_def not_less) (metis nat_less_eq_zless not_le order.strict_implies_order)
  qed
  have "r = -1" if "r < 0" "headers_verdict buf n r" for r using that by (auto simp: headers_verdict_def split: if_splits)
  with * [OF assms] * [OF assms(2,1)] assms show ?thesis by (metis linorder_cases order_antisym_conv order.strict_implies_order order_refl)
qed

lemma headers_len_loop_step:
  assumes "s + 1 < n" and "n \<le> length buf"
  shows "headers_len_loop buf n s =
     (if ctl_char (buf ! s) then Inr (-1)
      else if lf_lf buf s then Inr (int s + 2)
      else if s + 3 \<le> n \<and> lf_cr_lf buf s then Inr (int s + 3)
      else headers_len_loop buf n (s + 1))"
  using assms by (subst headers_len_loop.simps) (auto simp: lf_lf_def lf_cr_lf_def)

lemma headers_len_loop_end: "\<not> s + 1 < n \<Longrightarrow> headers_len_loop buf n s = Inr 0"
  by (subst headers_len_loop.simps) simp

lemma headers_len_loop_verdict:
  "n \<le> length buf \<Longrightarrow> none_before buf n s \<Longrightarrow>
   \<exists>r. headers_len_loop buf n s = Inr r \<and> headers_verdict buf n r"
proof (induction "n - s" arbitrary: s rule: less_induct)
  case less
  note earlier = none_before_blank [OF less.prems(2)]
  show ?case
  proof (cases "s + 1 < n")
    case False
    with earlier less.prems(2) show ?thesis by (auto simp: headers_len_loop_end headers_verdict_def none_before_def)
  next
    case True
    note step = headers_len_loop_step [OF True less.prems(1)]
    consider (ctl) "ctl_char (buf ! s)" | (lf) "\<not> ctl_char (buf ! s)" "lf_lf buf s"
      | (crlf) "\<not> ctl_char (buf ! s)" "\<not> lf_lf buf s" "s + 3 \<le> n" "lf_cr_lf buf s"
      | (none) "\<not> ctl_char (buf ! s)" "\<not> lf_lf buf s" "\<not> (s + 3 \<le> n \<and> lf_cr_lf buf s)"
      by blast
    then show ?thesis
    proof cases
      case ctl
      then show ?thesis using True earlier by (auto simp: step headers_verdict_def)
    next
      case lf
      have "\<not> ctl_char (buf ! i)" if "i < s + 2" for i
        using that lf less.prems(2) by (cases "i < s"; cases "i = s") (auto simp: none_before_def lf_lf_def ctl_char_def less_Suc_eq)
      with lf show ?thesis
        using True earlier by (auto simp: step headers_verdict_def nat_add_distrib blank_end_def)
    next
      case crlf
      have "\<not> ctl_char (buf ! i)" if "i < s + 3" for i
        using that crlf less.prems(2)
        by (cases "i < s"; cases "i = s"; cases "i = s + 1") (auto simp: none_before_def lf_cr_lf_def ctl_char_def numeral_3_eq_3 less_Suc_eq)
      with crlf show ?thesis using none_before_blank2 [OF less.prems(2)]
        by (auto simp: step headers_verdict_def nat_add_distrib blank_end_def)
    next
      case none
      then have "none_before buf n (s + 1)" using less.prems(2) by (simp add: none_before_Suc)
      then have "\<exists>r. headers_len_loop buf n (s + 1) = Inr r \<and> headers_verdict buf n r"
        using less True by simp
      with none show ?thesis by (auto simp: step)
    qed
  qed
qed

lemma headers_len_loop_more:
  assumes "n \<le> length buf" and "n \<le> n'" and "n' \<le> length buf'" and "take n buf' = take n buf"
  shows "headers_len_loop buf n s = Inr r \<Longrightarrow> r \<noteq> 0 \<Longrightarrow> headers_len_loop buf' n' s = Inr r"
proof (induction "n - s" arbitrary: s rule: less_induct)
  case less
  have same: "buf' ! i = buf ! i" if "i < n" for i
    using assms(4) that by (metis nth_take)
  have go: "s + 1 < n" using less.prems headers_len_loop_end [of s n buf] by auto
  then have go': "s + 1 < n'" using assms(2) by simp
  note step = headers_len_loop_step [OF go assms(1)] headers_len_loop_step [OF go' assms(3)]
  have "buf' ! s = buf ! s" and "lf_lf buf' s = lf_lf buf s" using go same by (simp_all add: lf_lf_def)
  moreover have "lf_cr_lf buf' s = lf_cr_lf buf s" if "s + 3 \<le> n" using that same by (simp add: lf_cr_lf_def)
  moreover have "headers_len_loop buf n (s + 1) = Inr 0" if "\<not> s + 3 \<le> n"
    using that by (simp add: headers_len_loop_end)
  ultimately show ?case
    using less.prems less.hyps [of "s + 1"] go assms(2) unfolding step by (auto split: if_splits)
qed



text \<open>
  The verdict is stable, so the header can arrive in pieces: once the bytes received so far
  give a result other than "not complete", more bytes behind them do not change it.
\<close>

lemma shttpd_get_headers_len_stable:
  assumes "shttpd_get_headers_len buf (length buf) = Inr r" and "r \<noteq> 0"
  shows "shttpd_get_headers_len (buf @ rest) (length (buf @ rest)) = Inr r"
  using assms headers_len_loop_more [of "length buf" buf "length (buf @ rest)" "buf @ rest" 0 r]
  by (simp add: shttpd_get_headers_len_def)

lemma shttpd_get_headers_len_stable_instance:
  "shttpd_get_headers_len ([CHR ''A'', CHR 0x0A, CHR 0x0A] @ ''BODY'')
     (length ([CHR ''A'', CHR 0x0A, CHR 0x0A] @ ''BODY'')) = Inr 3"
proof (rule shttpd_get_headers_len_stable)
  show "shttpd_get_headers_len [CHR ''A'', CHR 0x0A, CHR 0x0A] (length [CHR ''A'', CHR 0x0A, CHR 0x0A]) = Inr 3"
    by code_simp
qed simp

section \<open>Cleaned paths\<close>

function clean_path :: "string \<Rightarrow> string" where
  "clean_path [] = []"
| "clean_path (c # r) = c # clean_path (if is_sep c then dropWhile dot_or_sep r else r)"
  by pat_completeness auto

termination
  by (relation "measure length") (auto simp: length_dropWhile_le le_imp_less_Suc)

lemma skip_dots_eq:
  "NUL \<in> set (drop s m) \<Longrightarrow>
   skip_dots m s = Inr (s + length (takeWhile dot_or_sep (cstr (drop s m))))
   \<and> NUL \<in> set (drop (s + length (takeWhile dot_or_sep (cstr (drop s m)))) m)"
proof (induction m s rule: skip_dots.induct)
  case (1 m s)
  then have s: "s < length m" by (metis drop_all empty_iff list.set(1) not_less)
  then have split: "drop s m = m ! s # drop (Suc s) m" by (simp add: Cons_nth_drop_Suc)
  show ?case
  proof (cases "dot_or_sep (m ! s)")
    case True
    then have "m ! s \<noteq> NUL" by (auto simp: dot_or_sep_def is_sep_def)
    with True s 1 split show ?thesis
      by (subst skip_dots.simps) (auto simp: cstr_def)
  next
    case False
    with s "1.prems" show ?thesis
      by (subst skip_dots.simps) (auto simp: split cstr_def)
  qed
qed

lemma cstr_drop_takeWhile:
  "cstr (drop (length (takeWhile P (cstr x))) x) = dropWhile P (cstr x)"
  by (induction x) (auto simp: cstr_def)

lemma cstr_Cons: "c \<noteq> NUL \<Longrightarrow> cstr (c # s) = c # cstr s"
  by (simp add: cstr_def)

lemma double_dots_loop_store:
  "p \<le> s \<Longrightarrow> NUL \<in> set (drop s m) \<Longrightarrow>
   double_dots_loop m s p = Inr (store m p (clean_path (cstr (drop s m))))"
proof (induction "length m - s" arbitrary: m s p rule: less_induct)
  case less
  from less.prems(2) have s: "s < length m" by (metis drop_all empty_iff list.set(1) not_less)
  then have split: "drop s m = m ! s # drop (Suc s) m" by (simp add: Cons_nth_drop_Suc)
  show ?case
  proof (cases "m ! s = NUL")
    case True
    with s less.prems(1) split show ?thesis
      by (subst double_dots_loop.simps) (simp add: cstr_def store_Nil)
  next
    case False
    let ?c = "m ! s" and ?m = "m[p := m ! s]"
    have p: "p < length m" using s less.prems(1) by simp
    have tail: "drop (Suc s) ?m = drop (Suc s) m" using less.prems(1) by simp
    have nul: "NUL \<in> set (drop (Suc s) ?m)" using less.prems(2) False split tail by auto
    have prev: "?m ! s = ?c" using less.prems(1) s by (cases "p = s") auto
    define s' where "s' = (if is_sep ?c then Suc s + length (takeWhile dot_or_sep (cstr (drop (Suc s) ?m))) else Suc s)"
    have s'_nul: "NUL \<in> set (drop s' ?m)"
      using skip_dots_eq [OF nul] nul by (auto simp: s'_def)
    have rest: "cstr (drop s' ?m) = (if is_sep ?c then dropWhile dot_or_sep (cstr (drop (Suc s) m)) else cstr (drop (Suc s) m))"
      using cstr_drop_takeWhile [of dot_or_sep "drop (Suc s) m"] tail less.prems(1)
      by (auto simp: s'_def add.commute)
    have "double_dots_loop m s p = double_dots_loop ?m s' (Suc p)"
      using s p False prev skip_dots_eq [OF nul]
      by (subst double_dots_loop.simps) (auto simp: s'_def)
    also have "\<dots> = Inr (store ?m (Suc p) (clean_path (cstr (drop s' ?m))))"
      using s'_nul less.prems(1) s by (intro less.hyps) (auto simp: s'_def)
    also have "\<dots> = Inr (store m p (clean_path (cstr (drop s m))))"
      using p False by (simp add: store_Cons rest split cstr_Cons)
    finally show ?thesis .
  qed
qed

text \<open>A dot, slash or backslash directly behind a slash or backslash.\<close>

fun has_dots :: "string \<Rightarrow> bool" where
  "has_dots (c # d # r) \<longleftrightarrow> is_sep c \<and> dot_or_sep d \<or> has_dots (d # r)"
| "has_dots _ \<longleftrightarrow> False"

lemma has_dots_Cons:
  "has_dots (c # r) \<longleftrightarrow> (is_sep c \<and> r \<noteq> [] \<and> dot_or_sep (hd r)) \<or> has_dots r"
  by (cases r) auto

lemma hd_clean_path: "s \<noteq> [] \<Longrightarrow> clean_path s \<noteq> [] \<and> hd (clean_path s) = hd s"
  by (cases s) auto

lemma clean_path_no_dots: "\<not> has_dots (clean_path s)"
proof (induction s rule: clean_path.induct)
  case (2 c r)
  let ?r = "if is_sep c then dropWhile dot_or_sep r else r"
  have "\<not> (is_sep c \<and> clean_path ?r \<noteq> [] \<and> dot_or_sep (hd (clean_path ?r)))"
    using hd_clean_path [of ?r] hd_dropWhile [of dot_or_sep r] by (cases "?r = []") auto
  with 2 show ?case by (simp add: has_dots_Cons)
qed simp

lemma clean_path_id: "\<not> has_dots s \<Longrightarrow> clean_path s = s"
proof (induction s rule: clean_path.induct)
  case (2 c r)
  then have "(if is_sep c then dropWhile dot_or_sep r else r) = r"
    by (cases r) (auto simp: has_dots_Cons)
  with 2 show ?case by (simp add: has_dots_Cons)
qed simp

lemma set_clean_path: "set (clean_path s) \<subseteq> set s"
  by (induction s rule: clean_path.induct) (auto split: if_splits dest: set_dropWhileD)

lemma length_clean_path: "length (clean_path s) \<le> length s"
proof (induction s rule: clean_path.induct)
  case (2 c r)
  then show ?case using length_dropWhile_le [of dot_or_sep r] by (auto split: if_splits)
qed simp

lemma remove_double_dots_eq:
  "NUL \<in> set (drop s m) \<Longrightarrow> remove_double_dots m s = Inr (store m s (clean_path (cstr (drop s m))))"
  by (simp add: remove_double_dots_def double_dots_loop_store)

lemma store_self:
  assumes "NUL \<in> set (drop s m)"
  shows "store m s (cstr (drop s m)) = m" and "s + length (cstr (drop s m)) < length m"
proof -
  from assms obtain a b where ab: "drop s m = a @ NUL # b" "NUL \<notin> set a"
    by (metis split_list_first)
  have s: "s < length m" using assms by (metis drop_all empty_iff list.set(1) not_less)
  have m: "m = take s m @ a @ NUL # b" using ab(1) append_take_drop_id [of s m] by simp
  have a: "cstr (drop s m) = a" using ab by (simp add: cstr_append_NUL)
  have "drop (s + length a + 1) m = drop (length a + 1) (drop s m)" by (simp add: add.commute)
  also have "\<dots> = b" by (simp add: ab(1))
  finally show "store m s (cstr (drop s m)) = m" using m a by (simp add: store_def)
  have "length (drop s m) = length a + Suc (length b)" by (simp add: ab(1))
  then show "s + length (cstr (drop s m)) < length m" using s a by simp
qed

lemma store_again:
  "s + length t < length m \<Longrightarrow> store (store m s t) s t = store m s t"
  by (simp add: store_def min_def)

text \<open>
  C19. \<open>remove_double_dots\<close> on a NUL-terminated string rewrites it in place without leaving its
  buffer. Afterwards no slash or backslash is followed by a dot, a slash or a backslash, so that
  behind a leading slash no segment of the path is \<open>".."\<close>, \<open>"."\<close> or hidden; a string that has
  none of these is left as it was, every other byte of the buffer is untouched, and a second run
  changes nothing.
\<close>

theorem remove_double_dots_safe_path:
  assumes "NUL \<in> set (drop s m)"
  shows "\<exists>m'. remove_double_dots m s = Inr m'
     \<and> \<not> has_dots (cstr (drop s m'))
     \<and> (has_dots (cstr (drop s m)) \<or> m' = m)
     \<and> length m' = length m \<and> take s m' = take s m
     \<and> remove_double_dots m' s = Inr m'"
proof -
  let ?t = "clean_path (cstr (drop s m))"
  let ?m = "store m s ?t"
  note whole = store_self [OF assms]
  have fit: "s + length ?t < length m" using whole(2) length_clean_path [of "cstr (drop s m)"] by simp
  have "NUL \<notin> set ?t" using set_clean_path [of "cstr (drop s m)"] NUL_notin_cstr by blast
  then have t: "cstr (drop s ?m) = ?t" using fit by (intro cstr_drop_store) simp_all
  have "NUL \<in> set (drop s ?m)" using fit by (simp add: drop_store)
  then have "remove_double_dots ?m s = Inr (store ?m s (clean_path ?t))"
    using remove_double_dots_eq [of s ?m] by (simp add: t)
  then have again: "remove_double_dots ?m s = Inr ?m"
    using fit by (simp add: clean_path_id clean_path_no_dots store_again)
  have same: "has_dots (cstr (drop s m)) \<or> ?m = m"
    using whole(1) clean_path_id by metis
  have "take s ?m = take s m" using fit by (simp add: store_def)
  with again same t fit remove_double_dots_eq [OF assms] clean_path_no_dots [of "cstr (drop s m)"]
  show ?thesis by (intro exI [of _ ?m]) simp
qed

theorem remove_double_dots_safe_path_witness:
  "\<exists>m'. remove_double_dots (''/a/../../etc'' @ [NUL]) 0 = Inr m' \<and> \<not> has_dots (cstr m')"
proof -
  have "NUL \<in> set (drop 0 (''/a/../../etc'' @ [NUL]))" by simp
  from remove_double_dots_safe_path [OF this] show ?thesis by (metis drop_0)
qed

section \<open>Option lists\<close>

text \<open>The words of a comma-separated option value.\<close>

definition list_words :: "string \<Rightarrow> string list" where
  "list_words s = map (\<lambda>(p, len). take len p) (words_from s)"

definition word_ok :: "string \<Rightarrow> bool" where
  "word_ok w \<longleftrightarrow> w \<noteq> [] \<and> DELIM_CHAR \<notin> set w \<and> NUL \<notin> set w"

fun join_words :: "string list \<Rightarrow> string" where
  "join_words [] = []"
| "join_words [w] = w"
| "join_words (w # ws) = w @ DELIM_CHAR # join_words ws"

lemma DELIM_not_NUL [simp]: "DELIM_CHAR \<noteq> NUL" "NUL \<noteq> DELIM_CHAR"
  by (simp_all add: DELIM_CHAR_def)

lemma takeWhile_word:
  "DELIM_CHAR \<notin> set w \<Longrightarrow> takeWhile (\<lambda>c. c \<noteq> DELIM_CHAR) (w @ DELIM_CHAR # r) = w"
  "DELIM_CHAR \<notin> set w \<Longrightarrow> takeWhile (\<lambda>c. c \<noteq> DELIM_CHAR) w = w"
  by (auto simp: takeWhile_tail takeWhile_eq_all_conv)

lemma strcspn_word:
  assumes "word_ok w"
  shows "strcspn_delim w = length w" and "strcspn_delim (w @ DELIM_CHAR # r) = length w"
proof -
  have "cstr (w @ DELIM_CHAR # r) = w @ DELIM_CHAR # cstr r"
  proof -
    have "takeWhile (\<lambda>c. c \<noteq> NUL) (w @ DELIM_CHAR # r) = w @ takeWhile (\<lambda>c. c \<noteq> NUL) (DELIM_CHAR # r)"
      using assms by (intro takeWhile_append2) (auto simp: word_ok_def)
    then show ?thesis by (simp add: cstr_def)
  qed
  then show "strcspn_delim w = length w" and "strcspn_delim (w @ DELIM_CHAR # r) = length w"
    using assms by (simp_all add: strcspn_delim_def takeWhile_word word_ok_def)
qed

lemma words_from_Nil [simp]: "words_from [] = []"
  by (subst words_from.simps) (simp add: strcspn_delim_def cstr_def)

lemma list_words_Nil [simp]: "list_words [] = []"
  by (simp add: list_words_def)

lemma list_words_single: "word_ok w \<Longrightarrow> list_words w = [w]"
  unfolding list_words_def
  by (subst words_from.simps) (simp add: Let_def strcspn_word, simp add: word_ok_def)

lemma list_words_Cons:
  assumes "word_ok w" and "r = [] \<or> hd r \<noteq> DELIM_CHAR"
  shows "list_words (w @ DELIM_CHAR # r) = w # list_words r"
proof -
  have "strspn_delim (DELIM_CHAR # r) = 1"
    using assms(2) by (cases r) (auto simp: strspn_delim_def)
  with assms(1) show ?thesis
    unfolding list_words_def
    by (subst words_from.simps) (simp add: Let_def strcspn_word, simp add: word_ok_def)
qed

text \<open>Reading back a list written with single commas gives its words.\<close>

lemma list_words_join: "list_all word_ok ws \<Longrightarrow> list_words (join_words ws) = ws"
proof (induction ws rule: join_words.induct)
  case (3 w v ws)
  then have "hd (join_words (v # ws)) \<noteq> DELIM_CHAR"
    by (cases ws; cases v) (auto simp: word_ok_def)
  with 3 show ?case by (simp add: list_words_Cons)
qed (simp_all add: list_words_single)

lemma words_from_len: "(p, len) \<in> set (words_from s) \<Longrightarrow> 0 < len \<and> len \<le> length (cstr p)"
proof (induction s rule: words_from.induct)
  case (1 s)
  have "strcspn_delim s \<le> length (cstr s)" by (simp add: strcspn_delim_def length_takeWhile_le)
  with 1 show ?case by (subst (asm) (2) words_from.simps) (auto simp: Let_def split: if_splits)
qed

text \<open>Path and extension compared without regard to case, the dot included.\<close>

definition ends_with_ext :: "string \<Rightarrow> string \<Rightarrow> bool" where
  "ends_with_ext path ext \<longleftrightarrow> (\<exists>stem. map tolower path = stem @ CHR ''.'' # map tolower ext)"

lemma tolower_dot [simp]: "tolower c = CHR ''.'' \<longleftrightarrow> c = CHR ''.''"
proof -
  have "byte (char_of (byte c + 32) :: char) = byte c + 32" if "byte c \<le> 90"
    using that by simp
  then show ?thesis by (auto simp: tolower_def simp flip: byte_eq_iff [of _ "CHR ''.''"])
qed

lemma ends_with_ext_index:
  assumes "0 < n" and "n \<le> length (cstr s)" and "NUL \<notin> set path"
  shows "n < length path \<and> c_at path (length path - n - 1) = CHR ''.'' \<and>
      shttpd_strncasecmp (drop (length path - n) path) s n = 0
    \<longleftrightarrow> ends_with_ext path (take n s)"
proof -
  have ts: "take n (cstr s) = take n s"
    using assms(2) unfolding cstr_def by (metis length_takeWhile_le takeWhile_eq_take take_take min.absorb1)
  have nn: "NUL \<notin> set (drop k path)" for k using assms(3) in_set_dropD by metis
  have split: "path = take (length path - n - 1) path @ path ! (length path - n - 1) # drop (length path - n) path"
    if "n < length path"
    using id_take_nth_drop [of "length path - n - 1" path] that by (simp add: Suc_diff_Suc)
  show ?thesis
  proof
    assume a: "n < length path \<and> c_at path (length path - n - 1) = CHR ''.'' \<and>
      shttpd_strncasecmp (drop (length path - n) path) s n = 0"
    then have "map tolower (drop (length path - n) path) = map tolower (take n s)"
      using assms(1) by (simp add: shttpd_strncasecmp_zero nn ts)
    moreover have "path ! (length path - n - 1) = CHR ''.''" using a by (auto simp: c_at_def split: if_splits)
    ultimately show "ends_with_ext path (take n s)"
      using split a unfolding ends_with_ext_def by (metis list.simps(9) map_append tolower_dot)
  next
    assume "ends_with_ext path (take n s)"
    then obtain stem where st: "map tolower path = stem @ CHR ''.'' # map tolower (take n s)"
      by (auto simp: ends_with_ext_def)
    have len: "length (take n s) = n" using assms(2) ts by (metis length_take min.absorb2)
    have "length path = length stem + 1 + n" using arg_cong [OF st, of length] len by simp
    moreover from this have "map tolower (drop (length path - n) path) = map tolower (take n s)"
      using arg_cong [OF st, of "drop (length path - n)"] by (simp add: drop_map)
    moreover have "tolower (path ! length stem) = CHR ''.''"
      using arg_cong [OF st, of "\<lambda>l. l ! length stem"] calculation(1) by simp
    ultimately show "n < length path \<and> c_at path (length path - n - 1) = CHR ''.'' \<and>
      shttpd_strncasecmp (drop (length path - n) path) s n = 0"
      using assms(1) by (simp add: shttpd_strncasecmp_zero nn ts c_at_def)
  qed
qed

lemma match_extension_words:
  assumes "NUL \<notin> set path" and "list_all word_ok exts"
  shows "shttpd_match_extension path (Some (join_words exts)) \<longleftrightarrow> list_ex (ends_with_ext path) exts"
proof -
  have "shttpd_match_extension path (Some (join_words exts)) \<longleftrightarrow>
      (\<exists>(s, n) \<in> set (words_from (join_words exts)). ends_with_ext path (take n s))"
  proof -
    have "(case w of (s, n) \<Rightarrow> n < length path \<and> c_at path (length path - n - 1) = CHR ''.'' \<and>
        shttpd_strncasecmp (drop (length path - n) path) s n = 0)
      \<longleftrightarrow> (case w of (s, n) \<Rightarrow> ends_with_ext path (take n s))"
      if "w \<in> set (words_from (join_words exts))" for w
    proof -
      obtain s n where w: "w = (s, n)" by (cases w)
      from that words_from_len have "0 < n" "n \<le> length (cstr s)" by (auto simp: w)
      from ends_with_ext_index [OF this assms(1)] show ?thesis by (simp add: w)
    qed
    then show ?thesis
      using assms(1)
      by (simp add: shttpd_match_extension_def Let_def strlen_def for_each_word_def list_ex_iff cong: bex_cong)
  qed
  also have "\<dots> \<longleftrightarrow> list_ex (ends_with_ext path) (list_words (join_words exts))"
    by (force simp: list_words_def list_ex_iff)
  finally show ?thesis using assms(2) by (simp add: list_words_join)
qed

text \<open>
  \<open>_shttpd_match_extension\<close> decides what it says: for a comma-separated list of extensions the
  path matches exactly when, ignoring case, it ends with a dot and one of the words of the list.
\<close>

lemma shttpd_match_extension_iff:
  assumes "NUL \<notin> set path" and "list_all word_ok exts"
  shows "shttpd_match_extension path (Some (join_words exts)) \<longleftrightarrow> list_ex (ends_with_ext path) exts"
  using assms by (rule match_extension_words)

lemma shttpd_match_extension_iff_witness:
  "shttpd_match_extension ''/app/view.ERB'' (Some (join_words [''rb'', ''erb'']))
     \<longleftrightarrow> list_ex (ends_with_ext ''/app/view.ERB'') [''rb'', ''erb'']"
  by (rule shttpd_match_extension_iff) (simp_all add: word_ok_def DELIM_CHAR_def)

end
