(* ===== verification/ShttpdIo.thy ===== *)
theory ShttpdIo
  imports HttpText
begin

text \<open>
  The data the embedded HTTP server works on (\<open>shttpd/src/io.h\<close>, \<open>defs.h\<close>, \<open>shttpd.h\<close>): I/O
  buffers with their assertions and 32-bit counters, parsed headers, streams, connections, and the operating system
  and Ruby services the server calls, which are arguments of the model. The buffer operations are
  shown to implement a bounded queue of bytes.
\<close>

unbundle bit_operations_syntax

section \<open>I/O buffers (io.h)\<close>

text \<open>
  The counters are of type \<open>size_t\<close>, which has 32 bits: sums are taken modulo \<open>2 ^ 32\<close>. \<open>size_t\<close> is
  also the conversion of an \<open>int\<close> to that type.
\<close>

definition size_t :: "int \<Rightarrow> nat" where
  "size_t i = nat (i mod 2 ^ 32)"

definition add_size_t :: "nat \<Rightarrow> nat \<Rightarrow> nat" where
  "add_size_t m n = size_t (int m + int n)"

lemma size_t_id [simp]: "0 \<le> i \<Longrightarrow> i < 2 ^ 32 \<Longrightarrow> size_t i = nat i"
  by (simp add: size_t_def)

lemma add_size_t_mod: "add_size_t m n = (m + n) mod 2 ^ 32"
  by (simp add: add_size_t_def size_t_def nat_mod_distrib nat_add_distrib)

lemma add_size_t_id [simp]: "m + n < 2 ^ 32 \<Longrightarrow> add_size_t m n = m + n"
  by (simp add: add_size_t_mod)

record io =
  io_buf :: "char list"
  io_size :: nat
  io_head :: nat
  io_tail :: nat
  io_total :: nat

definition c_assert :: "bool \<Rightarrow> unit res" where
  "c_assert b = (if b then Inr () else Inl Assertion_Failed)"

lemma c_assert_simps [simp]: "c_assert True = Inr ()" "c_assert False = Inl Assertion_Failed"
  by (simp_all add: c_assert_def)

lemma c_assert_Inr_iff: "c_assert b = Inr u \<longleftrightarrow> b"
  by (simp add: c_assert_def)

definition io_clear :: "io \<Rightarrow> io res" where
  "io_clear io = rbind (c_assert (io_size io > 0)) (\<lambda>_.
     Inr (io\<lparr>io_head := 0, io_tail := 0, io_total := 0\<rparr>))"

text \<open>\<open>io_space\<close> and \<open>io_data\<close> return a pointer into the buffer: its offset.\<close>

definition io_space :: "io \<Rightarrow> nat res" where
  "io_space io = rbind (c_assert (io_size io > 0)) (\<lambda>_.
     rbind (c_assert (io_head io \<le> io_size io)) (\<lambda>_. Inr (io_head io)))"

definition io_data :: "io \<Rightarrow> nat res" where
  "io_data io = rbind (c_assert (io_size io > 0)) (\<lambda>_.
     rbind (c_assert (io_tail io \<le> io_size io)) (\<lambda>_. Inr (io_tail io)))"

definition io_space_len :: "io \<Rightarrow> nat res" where
  "io_space_len io = rbind (c_assert (io_size io > 0)) (\<lambda>_.
     rbind (c_assert (io_head io \<le> io_size io)) (\<lambda>_. Inr (io_size io - io_head io)))"

definition io_data_len :: "io \<Rightarrow> nat res" where
  "io_data_len io = rbind (c_assert (io_size io > 0)) (\<lambda>_.
     rbind (c_assert (io_head io \<le> io_size io)) (\<lambda>_.
     rbind (c_assert (io_tail io \<le> io_head io)) (\<lambda>_. Inr (io_head io - io_tail io))))"

definition io_inc_tail :: "io \<Rightarrow> nat \<Rightarrow> io res" where
  "io_inc_tail io n = rbind (c_assert (io_size io > 0)) (\<lambda>_.
     rbind (c_assert (io_tail io \<le> io_head io)) (\<lambda>_.
     rbind (c_assert (io_head io \<le> io_size io)) (\<lambda>_.
       let tl = add_size_t (io_tail io) n
       in rbind (c_assert (tl \<le> io_head io)) (\<lambda>_.
            Inr (if tl = io_head io then io\<lparr>io_head := 0, io_tail := 0\<rparr> else io\<lparr>io_tail := tl\<rparr>)))))"

definition io_inc_head :: "io \<Rightarrow> nat \<Rightarrow> io res" where
  "io_inc_head io n = rbind (c_assert (io_size io > 0)) (\<lambda>_.
     rbind (c_assert (io_tail io \<le> io_head io)) (\<lambda>_.
       let hd' = add_size_t (io_head io) n
       in rbind (c_assert (hd' \<le> io_size io)) (\<lambda>_.
            Inr (io\<lparr>io_head := hd', io_total := add_size_t (io_total io) n\<rparr>))))"

text \<open>A producer copies its bytes to \<open>io_space\<close> before \<open>io_inc_head\<close> makes them data.\<close>

definition io_fill :: "io \<Rightarrow> string \<Rightarrow> io res" where
  "io_fill io bs = rbind (io_space io) (\<lambda>p. rbind (wr_all (io_buf io) p bs) (\<lambda>b. Inr (io\<lparr>io_buf := b\<rparr>)))"

text \<open>The bytes waiting in a buffer.\<close>

definition io_bytes :: "io \<Rightarrow> string" where
  "io_bytes io = take (io_head io - io_tail io) (drop (io_tail io) (io_buf io))"

text \<open>A block that exists in an address space of 32 bits has less than \<open>2 ^ 31\<close> bytes.\<close>

definition io_ok :: "io \<Rightarrow> bool" where
  "io_ok io \<longleftrightarrow> 0 < io_size io \<and> io_size io < 2 ^ 31 \<and> length (io_buf io) = io_size io \<and>
     io_tail io \<le> io_head io \<and> io_head io \<le> io_size io"

named_theorems io_defs \<open>definitions of the buffer operations\<close>

lemmas [io_defs] = io_clear_def io_space_def io_data_def io_space_len_def io_data_len_def
  io_inc_tail_def io_inc_head_def io_fill_def

lemma io_space_len_ok [simp]: "io_ok io \<Longrightarrow> io_space_len io = Inr (io_size io - io_head io)"
  by (simp add: io_ok_def io_defs)

lemma io_data_len_ok [simp]: "io_ok io \<Longrightarrow> io_data_len io = Inr (length (io_bytes io))"
  by (auto simp: io_ok_def io_defs io_bytes_def min_def)

lemma io_data_ok [simp]: "io_ok io \<Longrightarrow> io_data io = Inr (io_tail io)"
  by (simp add: io_ok_def io_defs)

lemma io_space_ok [simp]: "io_ok io \<Longrightarrow> io_space io = Inr (io_head io)"
  by (simp add: io_ok_def io_defs)

lemma io_clear_ok:
  "io_ok io \<Longrightarrow> \<exists>io'. io_clear io = Inr io' \<and> io_ok io' \<and> io_bytes io' = [] \<and>
     io_size io' = io_size io \<and> io_total io' = 0"
  by (simp add: io_ok_def io_defs io_bytes_def)

text \<open>Appending: the producer's copy followed by \<open>io_inc_head\<close>.\<close>

definition io_append :: "io \<Rightarrow> string \<Rightarrow> io res" where
  "io_append io bs = rbind (io_fill io bs) (\<lambda>io1. io_inc_head io1 (length bs))"

lemma io_append_ok:
  assumes "io_ok io" and "length bs \<le> io_size io - io_head io"
  shows "\<exists>io'. io_append io bs = Inr io' \<and> io_ok io' \<and> io_bytes io' = io_bytes io @ bs \<and>
     io_size io' = io_size io \<and> io_total io' = add_size_t (io_total io) (length bs)"
proof -
  have fits: "io_head io + length bs \<le> length (io_buf io)" using assms by (auto simp: io_ok_def)
  have "take (io_head io + length bs - io_tail io)
          (drop (io_tail io) (take (io_head io) (io_buf io) @ bs @ drop (io_head io + length bs) (io_buf io)))
      = io_bytes io @ bs"
    using assms fits by (simp add: io_bytes_def io_ok_def drop_take)
  then show ?thesis
    using assms fits by (auto simp: io_append_def io_defs io_ok_def wr_all_def io_bytes_def Let_def)
qed

lemma io_append_overflow:
  "io_ok io \<Longrightarrow> io_size io - io_head io < length bs \<Longrightarrow> io_append io bs = Inl Out_Of_Bounds"
  by (auto simp: io_append_def io_defs io_ok_def wr_all_def)

lemma io_inc_tail_ok:
  assumes "io_ok io" and "n \<le> length (io_bytes io)"
  shows "\<exists>io'. io_inc_tail io n = Inr io' \<and> io_ok io' \<and> io_bytes io' = drop n (io_bytes io) \<and>
     io_size io' = io_size io \<and> io_total io' = io_total io"
proof -
  have "io_tail io + n \<le> io_head io" using assms by (auto simp: io_ok_def io_bytes_def)
  then show ?thesis
    using assms by (auto simp: io_defs io_ok_def io_bytes_def drop_take add.commute Let_def)
qed

section \<open>The buffer as a queue of bytes\<close>

text \<open>
  The interface the streams rely on: bytes are put at the end while there is room, and taken from
  the front while there are any; a number of bytes to take is below a limit. What has been taken and
  what is still queued is always what was put, in order.
\<close>

datatype queue_event = Put string | Get nat

fun queue_run ::
  "('q \<Rightarrow> string \<Rightarrow> 'q res) \<Rightarrow> ('q \<Rightarrow> nat \<Rightarrow> 'q res) \<Rightarrow> ('q \<Rightarrow> string) \<Rightarrow>
   'q \<Rightarrow> queue_event list \<Rightarrow> ('q \<times> string) res" where
  "queue_run put get bytes q [] = Inr (q, [])"
| "queue_run put get bytes q (Put bs # es) =
     rbind (put q bs) (\<lambda>q1. queue_run put get bytes q1 es)"
| "queue_run put get bytes q (Get n # es) =
     rbind (get q n) (\<lambda>q1. rbind (queue_run put get bytes q1 es)
       (\<lambda>(q2, out). Inr (q2, take n (bytes q) @ out)))"

fun produced :: "queue_event list \<Rightarrow> string" where
  "produced [] = []"
| "produced (Put bs # es) = bs @ produced es"
| "produced (Get n # es) = produced es"

fun takes_below :: "nat \<Rightarrow> queue_event \<Rightarrow> bool" where
  "takes_below l (Put bs) = True"
| "takes_below l (Get n) = (n < l)"

locale byte_queue =
  fixes ok :: "'q \<Rightarrow> bool"
    and bytes :: "'q \<Rightarrow> string"
    and room :: "'q \<Rightarrow> nat"
    and put :: "'q \<Rightarrow> string \<Rightarrow> 'q res"
    and get :: "'q \<Rightarrow> nat \<Rightarrow> 'q res"
    and limit :: nat
  assumes put_fits: "ok q \<Longrightarrow> length bs \<le> room q \<Longrightarrow> \<exists>q'. put q bs = Inr q' \<and> ok q' \<and> bytes q' = bytes q @ bs"
    and put_full: "ok q \<Longrightarrow> room q < length bs \<Longrightarrow> \<exists>e. put q bs = Inl e"
    and get_fits: "ok q \<Longrightarrow> n \<le> length (bytes q) \<Longrightarrow> \<exists>q'. get q n = Inr q' \<and> ok q' \<and> bytes q' = drop n (bytes q)"
    and get_short: "ok q \<Longrightarrow> length (bytes q) < n \<Longrightarrow> n < limit \<Longrightarrow> \<exists>e. get q n = Inl e"
begin

lemma put_Inr: "ok q \<Longrightarrow> put q bs = Inr q' \<Longrightarrow> length bs \<le> room q \<and> ok q' \<and> bytes q' = bytes q @ bs"
  using put_fits put_full by (metis Inl_Inr_False Inr_inject not_le)

lemma get_Inr: "ok q \<Longrightarrow> n < limit \<Longrightarrow> get q n = Inr q' \<Longrightarrow> n \<le> length (bytes q) \<and> ok q' \<and> bytes q' = drop n (bytes q)"
  using get_fits get_short by (metis Inl_Inr_False Inr_inject not_le)

lemma fifo:
  "ok q \<Longrightarrow> list_all (takes_below limit) es \<Longrightarrow> queue_run put get bytes q es = Inr (q', out) \<Longrightarrow>
   ok q' \<and> out @ bytes q' = bytes q @ produced es"
proof (induction es arbitrary: q q' out)
  case (Cons e es)
  show ?case
  proof (cases e)
    case (Put bs)
    with Cons.prems(3) obtain q1 where q1: "put q bs = Inr q1" "queue_run put get bytes q1 es = Inr (q', out)"
      by (auto simp: rbind_Inr_iff)
    with put_Inr [OF Cons.prems(1)] Cons.IH Cons.prems(2) show ?thesis by (fastforce simp: Put)
  next
    case (Get n)
    with Cons.prems(3) obtain q1 o1 where q1: "get q n = Inr q1"
      "queue_run put get bytes q1 es = Inr (q', o1)" "out = take n (bytes q) @ o1"
      by (auto simp: rbind_Inr_iff)
    from get_Inr [OF Cons.prems(1) _ q1(1)] Cons.prems(2) have g: "ok q1" "bytes q1 = drop n (bytes q)" by (auto simp: Get)
    from Cons.IH [OF g(1) _ q1(2)] Cons.prems(2) show ?thesis by (simp add: Get q1(3) g(2))
  qed
qed simp

end

lemma io_inc_tail_short:
  "io_ok io \<Longrightarrow> length (io_bytes io) < n \<Longrightarrow> n < 2 ^ 31 \<Longrightarrow> io_inc_tail io n = Inl Assertion_Failed"
  by (auto simp: io_defs io_ok_def io_bytes_def c_assert_def Let_def)

text \<open>
  Numbers near the end of \<open>size_t\<close> are different: the sum wraps around and the assertions hold, so that
  the step takes back \<open>k\<close> bytes that were consumed before.
\<close>

lemma io_inc_tail_wraps:
  assumes "io_ok io" and "0 < k" and "k \<le> io_tail io"
  shows "io_inc_tail io (size_t (- int k)) = Inr (io\<lparr>io_tail := io_tail io - k\<rparr>) \<and>
    io_bytes (io\<lparr>io_tail := io_tail io - k\<rparr>) = take k (drop (io_tail io - k) (io_buf io)) @ io_bytes io"
proof -
  have b: "io_tail io < 2 ^ 31" "io_tail io \<le> io_head io" "io_head io \<le> length (io_buf io)" using assms(1) by (simp_all add: io_ok_def)
  have "size_t (- int k) = 2 ^ 32 - k" using assms(2,3) b(1) by (simp add: size_t_def zmod_zminus1_eq_if)
  then have "add_size_t (io_tail io) (size_t (- int k)) = io_tail io - k"
    using assms(2,3) b(1) by (simp add: add_size_t_mod le_mod_geq)
  moreover have "io_tail io - k < io_head io" using assms(2,3) b(2) by linarith
  ultimately have "io_inc_tail io (size_t (- int k)) = Inr (io\<lparr>io_tail := io_tail io - k\<rparr>)"
    using assms(1) \<open>io_tail io - k < io_head io\<close> unfolding io_inc_tail_def Let_def by (simp add: io_ok_def)
  moreover have "take (io_head io - (io_tail io - k)) (drop (io_tail io - k) (io_buf io)) =
      take k (drop (io_tail io - k) (io_buf io)) @ take (io_head io - io_tail io) (drop (io_tail io) (io_buf io))"
    using take_add [of k "io_head io - io_tail io" "drop (io_tail io - k) (io_buf io)"] assms(2,3) b by (simp add: add.commute)
  ultimately show ?thesis by (simp add: io_bytes_def)
qed

interpretation ioq: byte_queue io_ok io_bytes "\<lambda>io. io_size io - io_head io" io_append io_inc_tail "2 ^ 31"
proof
  fix q bs n
  assume ok: "io_ok q"
  show "length bs \<le> io_size q - io_head q \<Longrightarrow> \<exists>q'. io_append q bs = Inr q' \<and> io_ok q' \<and> io_bytes q' = io_bytes q @ bs"
    using io_append_ok [OF ok, of bs] by blast
  show "io_size q - io_head q < length bs \<Longrightarrow> \<exists>e. io_append q bs = Inl e"
    using io_append_overflow [OF ok] by blast
  show "n \<le> length (io_bytes q) \<Longrightarrow> \<exists>q'. io_inc_tail q n = Inr q' \<and> io_ok q' \<and> io_bytes q' = drop n (io_bytes q)"
    using io_inc_tail_ok [OF ok, of n] by blast
  show "length (io_bytes q) < n \<Longrightarrow> n < 2 ^ 31 \<Longrightarrow> \<exists>e. io_inc_tail q n = Inl e"
    using io_inc_tail_short [OF ok] by blast
qed

text \<open>
  C29. An I/O buffer is a first-in first-out queue of bytes, although it is a linear block whose
  head and tail only jump back when it runs empty: after any sequence of producer copies with
  \<open>io_inc_head\<close> and consumer steps \<open>io_inc_tail\<close> of less than \<open>2 ^ 31\<close> bytes each that passes the
  assertions, the bytes consumed followed by the bytes still buffered are the bytes it held followed by
  the bytes produced, and the buffer is well formed again. The bound is needed, since a consumer step
  of a converted negative number passes the assertions too and makes consumed bytes data again.
\<close>

theorem io_buffer_fifo:
  assumes "io_ok io" and "list_all (takes_below (2 ^ 31)) es" and "queue_run io_append io_inc_tail io_bytes io es = Inr (io', out)"
  shows "io_ok io' \<and> out @ io_bytes io' = io_bytes io @ produced es"
  using assms by (rule ioq.fifo)

theorem io_buffer_fifo_witness:
  "\<exists>io' out. queue_run io_append io_inc_tail io_bytes
       \<lparr>io_buf = replicate 4 NUL, io_size = 4, io_head = 0, io_tail = 0, io_total = 0\<rparr>
       [Put ''abc'', Get 2, Put ''d'', Get 2, Put ''efg''] = Inr (io', out)
     \<and> out @ io_bytes io' = ''abcdefg''"
proof -
  let ?io = "\<lparr>io_buf = replicate 4 NUL, io_size = 4, io_head = 0, io_tail = 0, io_total = 0\<rparr>"
  let ?es = "[Put ''abc'', Get 2, Put ''d'', Get 2, Put ''efg'']"
  have ok: "io_ok ?io" by (simp add: io_ok_def)
  have "\<exists>r. queue_run io_append io_inc_tail io_bytes ?io ?es = Inr r"
    by (rule exI) code_simp
  then obtain io' out where run: "queue_run io_append io_inc_tail io_bytes ?io ?es = Inr (io', out)"
    by auto
  have "list_all (takes_below (2 ^ 31)) ?es" by simp
  from io_buffer_fifo [OF ok this run] run show ?thesis by (auto simp: io_bytes_def)
qed

section \<open>Streams and connections (defs.h, shttpd.h)\<close>

type_synonym flags = "32 word"

definition FLAG_HEADERS_PARSED :: flags where "FLAG_HEADERS_PARSED = 1"
definition FLAG_SSL_ACCEPTED :: flags where "FLAG_SSL_ACCEPTED = 2"
definition FLAG_R :: flags where "FLAG_R = 4"
definition FLAG_W :: flags where "FLAG_W = 8"
definition FLAG_CLOSED :: flags where "FLAG_CLOSED = 16"
definition FLAG_DONT_CLOSE :: flags where "FLAG_DONT_CLOSE = 32"
definition FLAG_ALWAYS_READY :: flags where "FLAG_ALWAYS_READY = 64"
definition FLAG_SUSPEND :: flags where "FLAG_SUSPEND = 128"

definition SHTTPD_END_OF_OUTPUT :: flags where "SHTTPD_END_OF_OUTPUT = 1"
definition SHTTPD_CONNECTION_ERROR :: flags where "SHTTPD_CONNECTION_ERROR = 2"
definition SHTTPD_MORE_POST_DATA :: flags where "SHTTPD_MORE_POST_DATA = 4"
definition SHTTPD_POST_BUFFER_FULL :: flags where "SHTTPD_POST_BUFFER_FULL = 8"
definition SHTTPD_SUSPEND :: flags where "SHTTPD_SUSPEND = 32"

text \<open>\<open>flags & FLAG\<close> as a condition.\<close>

definition has :: "flags \<Rightarrow> flags \<Rightarrow> bool" where
  "has f k \<longleftrightarrow> f AND k \<noteq> 0"

named_theorems flag_defs \<open>the flag constants\<close>

lemmas [flag_defs] = FLAG_HEADERS_PARSED_def FLAG_SSL_ACCEPTED_def FLAG_R_def FLAG_W_def
  FLAG_CLOSED_def FLAG_DONT_CLOSE_def FLAG_ALWAYS_READY_def FLAG_SUSPEND_def
  SHTTPD_END_OF_OUTPUT_def SHTTPD_CONNECTION_ERROR_def SHTTPD_MORE_POST_DATA_def
  SHTTPD_POST_BUFFER_FULL_def SHTTPD_SUSPEND_def

datatype http_method = METHOD_GET | METHOD_POST | METHOD_PUT | METHOD_DELETE | METHOD_HEAD

definition known_http_methods :: "(string \<times> http_method) list" where
  "known_http_methods =
     [(''GET'', METHOD_GET), (''POST'', METHOD_POST), (''PUT'', METHOD_PUT),
      (''DELETE'', METHOD_DELETE), (''HEAD'', METHOD_HEAD)]"

fun method_name :: "http_method \<Rightarrow> string" where
  "method_name METHOD_GET = ''GET''"
| "method_name METHOD_POST = ''POST''"
| "method_name METHOD_PUT = ''PUT''"
| "method_name METHOD_DELETE = ''DELETE''"
| "method_name METHOD_HEAD = ''HEAD''"

text \<open>
  The fields of \<open>struct headers\<close>, in its order. A parsed header has the name it was found under and
  a value; a string value is a pointer into the request (the text from there on) with a length.
\<close>

datatype hdr =
    H_cl | H_ct | H_connection | H_ims | H_user | H_auth | H_useragent | H_referer | H_cookie
  | H_location | H_range | H_status | H_transenc | H_accept | H_accept_encoding
  | H_accept_language | H_host | H_x_requested_with

definition all_hdrs :: "hdr list" where
  "all_hdrs =
     [H_cl, H_ct, H_connection, H_ims, H_user, H_auth, H_useragent, H_referer, H_cookie,
      H_location, H_range, H_status, H_transenc, H_accept, H_accept_encoding,
      H_accept_language, H_host, H_x_requested_with]"

datatype hdr_val = HDR_INT int | HDR_DATE int | HDR_STRING string nat

type_synonym headers = "hdr \<Rightarrow> (string \<times> hdr_val) option"

text \<open>\<open>memset(&c->ch, 0, ...)\<close>: no header parsed, every value reads as zero.\<close>

definition no_headers :: headers where "no_headers = (\<lambda>_. None)"

definition v_big_int :: "headers \<Rightarrow> hdr \<Rightarrow> int" where
  "v_big_int ch h = (case ch h of Some (_, HDR_INT n) \<Rightarrow> n | _ \<Rightarrow> 0)"

definition v_time :: "headers \<Rightarrow> hdr \<Rightarrow> int" where
  "v_time ch h = (case ch h of Some (_, HDR_DATE t) \<Rightarrow> t | _ \<Rightarrow> 0)"

definition v_vec :: "headers \<Rightarrow> hdr \<Rightarrow> string \<times> nat" where
  "v_vec ch h = (case ch h of Some (_, HDR_STRING p n) \<Rightarrow> (p, n) | _ \<Rightarrow> ([], 0))"

text \<open>
  A route of the dispatcher. The C structure keeps pointers into one copy of the URI, cut by NUL
  bytes; the strings they point to are the fields here.
\<close>

record route =
  r_url :: string
  r_application :: string
  r_model :: "string option"
  r_id :: "string option"
  r_action :: "string option"

text \<open>
  What an embedded stream keeps between calls: which callback serves it, its user data and its
  state. The callbacks are the two of the dispatcher and those an application registers.
\<close>

datatype callback = Cb_rho_serve | Cb_rho_serve_index | Cb_user nat

datatype user_data = No_Data | Data_Route route | Data_Path string | Data_User nat

datatype emb_state =
    No_State
  | Read_State (rs_cl: nat) (rs_nread: nat) (rs_post_data: "string list")
  | Write_State (ws_data: string) (ws_nDataLen: nat) (ws_nRead: nat)
  | User_State nat

datatype io_class = Io_file | Io_socket | Io_dir | Io_embedded

record emb =
  emb_state :: emb_state
  emb_func :: callback
  emb_data :: user_data

record stream =
  s_fd :: int
  s_emb :: emb
  s_dir :: "string \<times> string list"
  s_io :: io
  s_class :: "io_class option"
  s_headers_len :: int
  s_content_len :: nat
  s_flags :: flags

record conn =
  c_sa :: "32 word"
  c_birth_time :: int
  c_expire_time :: int
  c_status :: int
  c_method :: http_method
  c_uri :: "string option"
  c_major_version :: int
  c_minor_version :: int
  c_request :: "string option"
  c_headers :: nat
  c_query :: "string option"
  c_path_info :: "string option"
  c_mime_type :: string
  c_ch :: headers
  c_loc :: stream
  c_rem :: stream

text \<open>
  The argument of an embedded callback. \<open>a_out\<close> is the free part of the connection's output buffer,
  \<open>a_in\<close> the input waiting; the counts say how much of each the callback used.
\<close>

record shttpd_arg =
  a_state :: emb_state
  a_user_data :: user_data
  a_in :: string
  a_in_num_bytes :: nat
  a_out :: "char list"
  a_out_num_bytes :: nat
  a_flags :: flags

section \<open>The services the server calls\<close>

text \<open>
  \<open>io_ret\<close> is what a read or write system call reports: a count of bytes moved (with the bytes, for a
  read), the errors \<open>EINTR\<close> and \<open>EWOULDBLOCK\<close>, or any other error; a count of 0 is end of file.
\<close>

datatype io_ret = Moved string | Try_Again | Io_Error

record stat =
  st_isdir :: bool
  st_size :: nat
  st_mtime :: int

text \<open>
  A request handed to the Ruby framework: the hash the dispatcher builds, in insertion order.
\<close>

datatype rhash_val = Rh_Str string | Rh_Int int | Rh_Time int | Rh_Hash "(string \<times> rhash_val) list"

type_synonym rhash = "(string \<times> rhash_val) list"

text \<open>
  The outside world has a state of its own. \<open>os_strftime\<close> formats a time in the local time zone and
  \<open>os_show_mb\<close> prints a file size in megabytes with one decimal (\<open>"%.1f"\<close>). \<open>os_getpeername\<close> gives the
  peer's address in host order, \<open>os_fd_setsize\<close> the number of descriptors \<open>select\<close> can watch where the
  build checks it, \<open>os_fprintf\<close> appends to the access log. A file descriptor of \<open>-1\<close> is a failed open; \<open>os_write\<close>
  and \<open>os_send\<close> report the prefix of the bytes they took.
\<close>

record 'w os =
  os_stat :: "'w \<Rightarrow> string \<Rightarrow> stat option"
  os_open_read :: "'w \<Rightarrow> string \<Rightarrow> int \<times> 'w"
  os_open_write :: "'w \<Rightarrow> string \<Rightarrow> int \<times> 'w"
  os_read :: "'w \<Rightarrow> int \<Rightarrow> nat \<Rightarrow> io_ret \<times> 'w"
  os_write :: "'w \<Rightarrow> int \<Rightarrow> string \<Rightarrow> io_ret \<times> 'w"
  os_lseek :: "'w \<Rightarrow> int \<Rightarrow> int \<Rightarrow> 'w"
  os_fsize :: "'w \<Rightarrow> int \<Rightarrow> nat"
  os_close :: "'w \<Rightarrow> int \<Rightarrow> 'w"
  os_mkdir :: "'w \<Rightarrow> string \<Rightarrow> bool \<times> 'w"
  os_remove :: "'w \<Rightarrow> string \<Rightarrow> bool \<times> 'w"
  os_opendir :: "'w \<Rightarrow> string \<Rightarrow> (string list) option"
  os_recv :: "'w \<Rightarrow> int \<Rightarrow> nat \<Rightarrow> io_ret \<times> 'w"
  os_send :: "'w \<Rightarrow> int \<Rightarrow> string \<Rightarrow> io_ret \<times> 'w"
  os_closesocket :: "'w \<Rightarrow> int \<Rightarrow> 'w"
  os_getpeername :: "'w \<Rightarrow> int \<Rightarrow> 32 word option"
  os_fd_setsize :: "int option"
  os_fprintf :: "'w \<Rightarrow> string \<Rightarrow> 'w"
  os_mktime :: "tm \<Rightarrow> int"
  os_isdst :: int
  os_strftime :: "string \<Rightarrow> int \<Rightarrow> string"
  os_show_mb :: "nat \<Rightarrow> string"
  os_neg_snprintf :: bool
  os_malloc :: "'w \<Rightarrow> nat \<Rightarrow> bool"
  rb_callFramework :: "'w \<Rightarrow> rhash \<Rightarrow> string \<times> 'w"
  rb_callServeIndex :: "'w \<Rightarrow> string \<Rightarrow> string \<times> 'w"
  os_user_callback :: "'w \<Rightarrow> nat \<Rightarrow> conn \<Rightarrow> shttpd_arg \<Rightarrow> shttpd_arg \<times> 'w"
  rb_addobjectnotify :: "'w \<Rightarrow> string \<Rightarrow> string \<Rightarrow> 'w"

section \<open>A fresh connection\<close>

definition OUT_BUF_MAX :: nat where "OUT_BUF_MAX = 4096"

definition INPUT_BUF_MAX :: nat where "INPUT_BUF_MAX = 2048"

definition zero_stream :: "nat \<Rightarrow> stream" where
  "zero_stream sz =
     \<lparr>s_fd = 0, s_emb = \<lparr>emb_state = No_State, emb_func = Cb_user 0, emb_data = No_Data\<rparr>,
      s_dir = ([], []),
      s_io = \<lparr>io_buf = replicate sz NUL, io_size = sz, io_head = 0, io_tail = 0, io_total = 0\<rparr>,
      s_class = None, s_headers_len = 0, s_content_len = 0, s_flags = 0\<rparr>"

text \<open>The block \<open>calloc\<close> gives: everything is zero, and the two buffers follow the structure.\<close>

definition zero_conn :: conn where
  "zero_conn =
     \<lparr>c_sa = 0, c_birth_time = 0, c_expire_time = 0, c_status = 0, c_method = METHOD_GET, c_uri = None,
      c_major_version = 0, c_minor_version = 0, c_request = None, c_headers = 0, c_query = None,
      c_path_info = None, c_mime_type = [], c_ch = no_headers,
      c_loc = zero_stream OUT_BUF_MAX, c_rem = zero_stream INPUT_BUF_MAX\<rparr>"

definition sizeof_conn :: nat where "sizeof_conn = 600"

definition alloc_conn :: "'w os \<Rightarrow> 'w \<Rightarrow> conn option" where
  "alloc_conn os w =
     (if os_malloc os w (sizeof_conn + OUT_BUF_MAX + INPUT_BUF_MAX) then Some zero_conn else None)"

lemma io_ok_zero_stream: "0 < sz \<Longrightarrow> sz < 2 ^ 31 \<Longrightarrow> io_ok (s_io (zero_stream sz))"
  by (simp add: io_ok_def zero_stream_def)

text \<open>
  A sample environment to run the model in: no files, sockets that take every byte (the world is
  the text sent so far) and have nothing to read, memory never runs out, Ruby answers with \<open>OK\<close>.
\<close>

definition sample_os :: "string os" where
  "sample_os =
     \<lparr>os_stat = (\<lambda>_ _. None), os_open_read = (\<lambda>w _. (-1, w)), os_open_write = (\<lambda>w _. (-1, w)),
      os_read = (\<lambda>w _ _. (Io_Error, w)), os_write = (\<lambda>w _ _. (Io_Error, w)),
      os_lseek = (\<lambda>w _ _. w), os_fsize = (\<lambda>_ _. 0), os_close = (\<lambda>w _. w),
      os_mkdir = (\<lambda>w _. (False, w)), os_remove = (\<lambda>w _. (False, w)), os_opendir = (\<lambda>_ _. None),
      os_recv = (\<lambda>w _ _. (Try_Again, w)), os_send = (\<lambda>w _ bs. (Moved bs, w @ bs)),
      os_closesocket = (\<lambda>w _. w), os_getpeername = (\<lambda>_ _. Some 0), os_fd_setsize = None,
      os_fprintf = (\<lambda>w _. w), os_mktime = (\<lambda>_. 0), os_isdst = 0, os_strftime = (\<lambda>_ _. []), os_show_mb = (\<lambda>_. []),
      os_neg_snprintf = False, os_malloc = (\<lambda>_ _. True),
      rb_callFramework = (\<lambda>w _. (''OK'', w)), rb_callServeIndex = (\<lambda>w _. (''OK'', w)),
      os_user_callback = (\<lambda>w _ _ arg. (arg, w)), rb_addobjectnotify = (\<lambda>w _ _. w)\<rparr>"

end
