(* ===== verification/RhoDispatcher.thy ===== *)
theory RhoDispatcher
  imports ShttpdIo
begin

text \<open>
  The Rhodes dispatcher (\<open>shttpd/src/rdispatcher.c\<close>) and the output routine it uses
  (\<open>shttpd_printf\<close> of \<open>io_emb.c\<close>): cutting a URI into application, model, id and action, deciding
  whether a request goes to the Ruby framework, collecting the body of a request that arrives in
  pieces, handing it to Ruby as a hash, and writing the answer out piece by piece.
\<close>

section \<open>Cutting URIs\<close>

text \<open>
  \<open>trim\<close> on a block that holds a NUL-terminated string. The \<open>memmove\<close> moves \<open>ibuf - str\<close> bytes, as
  the code says.
\<close>

definition trim :: "char list \<Rightarrow> char list res" where
  "trim m =
     (let k = length (takeWhile isspace (cstr m));
          m1 = (if k = 0 then Inr m
                else if 2 * k \<le> length m then Inr (take k (drop k m) @ drop k m)
                else Inl Out_Of_Bounds)
      in rbind m1 (\<lambda>b.
           let kept = dropWhile (\<lambda>c. isspace c \<or> c = CHR '':'') (rev (cstr b))
           in wr b (length kept) NUL))"

definition isid :: "string option \<Rightarrow> bool" where
  "isid so =
     (case so of
        None \<Rightarrow> False
      | Some str \<Rightarrow> strlen str > 2 \<and> c_at str 0 = CHR ''{'' \<and> c_at str (strlen str - 1) = CHR ''}'')"

text \<open>\<open>_tok\<close>: the string cut at its first slash, and the pointer behind the slash.\<close>

definition tok :: "string option \<Rightarrow> string option \<times> string option" where
  "tok t =
     (case t of
        None \<Rightarrow> (None, None)
      | Some s \<Rightarrow>
          (let a = takeWhile (\<lambda>c. c \<noteq> CHR ''/'') s
           in if length a < length s then (Some a, Some (drop (length a + 1) s)) else (Some s, None)))"

text \<open>\<open>if (url[0]=='/') url++;\<close>\<close>

definition route_path :: "string \<Rightarrow> string" where
  "route_path url = (if c_at url 0 = CHR ''/'' then tl url else url)"

definition parse_route :: "route \<Rightarrow> bool \<times> route" where
  "parse_route route =
     (let (app, model) = tok (Some (route_path (r_url route)));
          route1 = route\<lparr>r_application := the app, r_model := model\<rparr>
      in if model = None then (False, route1)
         else
           let (model', actionorid) = tok model;
               route2 = route1\<lparr>r_model := model'\<rparr>
           in if actionorid = None then (True, route2)
              else
                let (actionorid', next) = tok actionorid;
                    (next', _) = tok next
                in if isid actionorid'
                   then (True, route2\<lparr>r_id := actionorid', r_action := next'\<rparr>)
                   else (True, route2\<lparr>r_id := next', r_action := actionorid'\<rparr>))"

definition sizeof_Route :: nat where "sizeof_Route = 20"

definition alloc_route :: "'w os \<Rightarrow> 'w \<Rightarrow> string \<Rightarrow> route option" where
  "alloc_route os w uri =
     (if os_malloc os w sizeof_Route \<and> os_malloc os w (strlen uri + 1)
      then Some \<lparr>r_url = cstr uri, r_application = [], r_model = None, r_id = None, r_action = None\<rparr>
      else None)"

section \<open>Resolving paths\<close>

definition URI_MAX :: nat where "URI_MAX = 2048"

definition FILENAME_MAX :: nat where "FILENAME_MAX = 260"

text \<open>
  What \<open>_shttpd_snprintf\<close> leaves in a local array of \<open>n\<close> bytes, given the complete formatted text.
\<close>

definition fmt_buf :: "nat \<Rightarrow> string \<Rightarrow> string" where
  "fmt_buf n s = take (n - 1) s"

text \<open>\<open>path[len-1]\<close>; the empty string has no last character.\<close>

definition last_char :: "string \<Rightarrow> char res" where
  "last_char s = (if s = [] then Inl Out_Of_Bounds else Inr (last s))"

definition is_file :: "'w os \<Rightarrow> 'w \<Rightarrow> string \<Rightarrow> bool" where
  "is_file os w p = (case os_stat os w p of None \<Rightarrow> False | Some st \<Rightarrow> \<not> st_isdir st)"

definition controller_file :: "string \<Rightarrow> string res" where
  "controller_file path =
     rbind (last_char path) (\<lambda>c.
       let slash = (if c = CHR 0x5C \<or> c = CHR ''/'' then [] else ''/'')
       in Inr (fmt_buf FILENAME_MAX (path @ slash @ ''controller.iseq'')))"

definition rho_resolve_index :: "'w os \<Rightarrow> 'w \<Rightarrow> string \<Rightarrow> string \<Rightarrow> string res" where
  "rho_resolve_index os w url path =
     rbind (controller_file path) (\<lambda>filename.
       if is_file os w filename then Inr url
       else rbind (last_char url) (\<lambda>c. Inr (if c \<noteq> CHR ''/'' then url @ ''/'' else url)))"

definition localhost :: string where "localhost = ''http://localhost:8080''"

text \<open>\<open>strstr(url, "http://")\<close>: the text from the first occurrence on.\<close>

fun strstr :: "string \<Rightarrow> string \<Rightarrow> string option" where
  "strstr [] pat = (if pat = [] then Some [] else None)"
| "strstr (c # s) pat = (if take (length pat) (c # s) = pat then Some (c # s) else strstr s pat)"

definition rho_resolve_url :: "'w os \<Rightarrow> 'w \<Rightarrow> string \<Rightarrow> string \<Rightarrow> string res" where
  "rho_resolve_url os w url root =
     (case strstr url ''http://'' of
        Some full_path \<Rightarrow> Inr full_path
      | None \<Rightarrow>
          rbind
            (if length url + length root \<ge> URI_MAX then Inr url
             else
               let path = fmt_buf URI_MAX (root @ url)
               in case os_stat os w path of
                    None \<Rightarrow> Inr url
                  | Some st \<Rightarrow> if st_isdir st then rho_resolve_index os w url path else Inr url)
            (\<lambda>tmp_url. Inr (localhost @ tmp_url)))"

definition static_extensions :: string where
  "static_extensions = ''css,js,html,htm,png,bmp,jpg''"

text \<open>\<open>rho_dispatch\<close>: a route for the Ruby framework, or \<open>None\<close> when the server serves a file.\<close>

definition rho_dispatch :: "'w os \<Rightarrow> 'w \<Rightarrow> string \<Rightarrow> string \<Rightarrow> (route option) res" where
  "rho_dispatch os w uri path =
     (if shttpd_match_extension uri (Some static_extensions) then Inr None
      else case alloc_route os w uri of
             None \<Rightarrow> Inr None
           | Some r \<Rightarrow>
               let (ok, route) = parse_route r
               in if \<not> ok then Inr None
                  else case os_stat os w path of
                         None \<Rightarrow> Inr (Some route)
                       | Some st \<Rightarrow>
                           if st_isdir st
                           then rbind (controller_file path) (\<lambda>filename.
                                  Inr (if is_file os w filename then Some route else None))
                           else Inr None)"

definition isindex :: "string option \<Rightarrow> string \<Rightarrow> bool" where
  "isindex index_files path =
     list_ex (\<lambda>(s, len). len \<le> length path \<and> drop (length path - len) path = take len s)
       (for_each_word index_files)"

section \<open>Request bodies\<close>

definition sizeof_chunk :: nat where "sizeof_chunk = 16"

text \<open>\<open>collect_data\<close>: the chunk list grows at its tail; \<open>None\<close> is the \<open>-1\<close> of a failed allocation.\<close>

definition collect_data :: "'w os \<Rightarrow> 'w \<Rightarrow> string list \<Rightarrow> string \<Rightarrow> (string list) option" where
  "collect_data os w plist data =
     (if os_malloc os w sizeof_chunk \<and> os_malloc os w (length data) then Some (plist @ [data]) else None)"

text \<open>
  \<open>get_collected_data\<close>: a single chunk is used as it is, several are copied one behind the other
  into a block of \<open>datasize\<close> bytes, whose allocation is not checked.
\<close>

fun copy_chunks :: "char list \<Rightarrow> nat \<Rightarrow> string list \<Rightarrow> char list res" where
  "copy_chunks m p [] = Inr m"
| "copy_chunks m p (c # cs) = rbind (wr_all m p c) (\<lambda>m1. copy_chunks m1 (p + length c) cs)"

definition get_collected_data :: "'w os \<Rightarrow> 'w \<Rightarrow> string list \<Rightarrow> nat \<Rightarrow> (string option) res" where
  "get_collected_data os w chunks datasize =
     (case chunks of
        [] \<Rightarrow> Inr None
      | [c] \<Rightarrow> Inr (Some c)
      | _ \<Rightarrow> if os_malloc os w datasize
             then rbind (copy_chunks (replicate datasize NUL) 0 chunks) (\<lambda>m. Inr (Some m))
             else Inl Null_Deref)"

text \<open>The hash handed to Ruby. Header names lose their trailing colon and space in \<open>trim\<close>.\<close>

definition header_entry :: "headers \<Rightarrow> hdr \<Rightarrow> rhash res" where
  "header_entry ch h =
     (case ch h of
        None \<Rightarrow> Inr []
      | Some (name, v) \<Rightarrow>
          rbind (trim (name @ [NUL])) (\<lambda>b.
            Inr [(cstr b, case v of
                            HDR_STRING p n \<Rightarrow> Rh_Str (take n p)
                          | HDR_INT i \<Rightarrow> Rh_Int i
                          | HDR_DATE t \<Rightarrow> Rh_Time t)]))"

fun headers_hash :: "headers \<Rightarrow> hdr list \<Rightarrow> rhash res" where
  "headers_hash ch [] = Inr []"
| "headers_hash ch (h # hs) =
     rbind (header_entry ch h) (\<lambda>e. rbind (headers_hash ch hs) (\<lambda>es. Inr (e @ es)))"

definition opt_entry :: "string \<Rightarrow> string option \<Rightarrow> rhash" where
  "opt_entry k v = (case v of None \<Rightarrow> [] | Some s \<Rightarrow> [(k, Rh_Str s)])"

definition create_request_hash :: "conn \<Rightarrow> route \<Rightarrow> string option \<Rightarrow> nat \<Rightarrow> rhash res" where
  "create_request_hash c route body bodylen =
     (case (r_model route, c_uri c) of
        (Some model, Some uri) \<Rightarrow>
          rbind (headers_hash (c_ch c) all_hdrs) (\<lambda>hh.
            rbind (if bodylen > 0
                   then (case body of
                           None \<Rightarrow> Inl Null_Deref
                         | Some b \<Rightarrow> Inr [(''request-body'', Rh_Str (take bodylen b))])
                   else Inr []) (\<lambda>bh.
              Inr ([(''application'', Rh_Str (r_application route)), (''model'', Rh_Str model)]
                   @ opt_entry ''action'' (r_action route) @ opt_entry ''id'' (r_id route)
                   @ [(''request-method'', Rh_Str (method_name (c_method c))),
                      (''request-uri'', Rh_Str uri),
                      (''request-query'', Rh_Str (case c_query c of None \<Rightarrow> [] | Some q \<Rightarrow> q)),
                      (''headers'', Rh_Hash hh)]
                   @ bh)))
      | _ \<Rightarrow> Inl Null_Deref)"

section \<open>Answers\<close>

text \<open>
  \<open>shttpd_printf\<close> (\<open>io_emb.c\<close>): the formatted text goes behind what the callback already wrote. A
  text that does not fit is reported as having used all of the buffer.
\<close>

definition shttpd_printf :: "bool \<Rightarrow> shttpd_arg \<Rightarrow> string \<Rightarrow> (nat \<times> shttpd_arg) res" where
  "shttpd_printf neg arg t =
     (let buflen = int (length (a_out arg)) - int (a_out_num_bytes arg)
      in if buflen > 0
         then
           let (n, bs) = vsnprintf neg (nat buflen) t;
               len = (if n < 0 \<or> n \<ge> buflen then nat buflen else nat n)
           in rbind (wr_all (a_out arg) (a_out_num_bytes arg) bs) (\<lambda>b.
                Inr (len, arg\<lparr>a_out := b, a_out_num_bytes := a_out_num_bytes arg + len\<rparr>))
         else Inr (0, arg))"

definition rho_write_data :: "'w os \<Rightarrow> shttpd_arg \<Rightarrow> shttpd_arg res" where
  "rho_write_data os arg =
     (case a_state arg of
        Write_State data nDataLen nRead \<Rightarrow>
          rbind (if nRead < nDataLen
                 then rbind (shttpd_printf (os_neg_snprintf os) arg (cstr (drop nRead data)))
                        (\<lambda>(len, arg1). Inr (nRead + len, arg1\<lparr>a_state := Write_State data nDataLen (nRead + len)\<rparr>))
                 else Inr (nRead, arg))
            (\<lambda>(nRead', arg1).
               Inr (if nRead' \<ge> nDataLen
                    then arg1\<lparr>a_flags := a_flags arg1 OR SHTTPD_END_OF_OUTPUT, a_state := No_State\<rparr>
                    else arg1))
      | No_State \<Rightarrow> Inl Null_Deref
      | _ \<Rightarrow> Inl Type_Confusion)"

definition sizeof_write_state :: nat where "sizeof_write_state = 12"

definition rho_create_write_state :: "'w os \<Rightarrow> 'w \<Rightarrow> shttpd_arg \<Rightarrow> string \<Rightarrow> shttpd_arg res" where
  "rho_create_write_state os w arg data =
     (if os_malloc os w sizeof_write_state
      then Inr (arg\<lparr>a_state := Write_State data (length data) 0\<rparr>)
      else Inl Null_Deref)"

section \<open>The callbacks\<close>

definition sizeof_read_state :: nat where "sizeof_read_state = 20"

text \<open>The first call allocates the read state; \<open>cl\<close> is the announced length of the body.\<close>

definition serve_read_state :: "'w os \<Rightarrow> 'w \<Rightarrow> conn \<Rightarrow> emb_state \<Rightarrow> emb_state res" where
  "serve_read_state os w c st =
     (if st = No_State
      then if os_malloc os w sizeof_read_state
           then Inr (Read_State (nat (v_big_int (c_ch c) H_cl)) 0 [])
           else Inl Null_Deref
      else Inr st)"

text \<open>
  All input read: call the framework, keep its answer, and write the first piece. The route is
  released, so the user data becomes NULL.
\<close>

definition serve_answer :: "'w os \<Rightarrow> 'w \<Rightarrow> route \<Rightarrow> shttpd_arg \<Rightarrow> rhash \<Rightarrow> (shttpd_arg \<times> 'w) res" where
  "serve_answer os w route arg req =
     (let (answer, w1) = rb_callFramework os w req
      in rbind (rho_create_write_state os w1 arg answer) (\<lambda>arg1.
           let w2 = (if isid (r_id route)
                     then rb_addobjectnotify os w1 (the (r_model route)) (the (r_id route)) else w1)
           in rbind (rho_write_data os (arg1\<lparr>a_user_data := No_Data\<rparr>)) (\<lambda>arg2. Inr (arg2, w2))))"

definition serve_finish ::
  "'w os \<Rightarrow> 'w \<Rightarrow> conn \<Rightarrow> route \<Rightarrow> shttpd_arg \<Rightarrow> nat \<Rightarrow> string list \<Rightarrow> (shttpd_arg \<times> 'w) res" where
  "serve_finish os w c route arg nread chunks =
     rbind (get_collected_data os w chunks nread) (\<lambda>data.
     rbind (create_request_hash c route data nread) (serve_answer os w route arg))"

definition out_of_memory_reply :: string where
  "out_of_memory_reply = ''HTTP/1.0 500 Out of memory'' @ [CHR 0x0A, CHR 0x0A]"

definition rho_serve :: "'w os \<Rightarrow> 'w \<Rightarrow> conn \<Rightarrow> shttpd_arg \<Rightarrow> (shttpd_arg \<times> 'w) res" where
  "rho_serve os w c arg =
     (if has (a_flags arg) SHTTPD_CONNECTION_ERROR
      then Inr (arg\<lparr>a_user_data := No_Data, a_state := No_State\<rparr>, w)
      else case a_user_data arg of
        No_Data \<Rightarrow> rbind (rho_write_data os arg) (\<lambda>arg1. Inr (arg1, w))
      | Data_Route route \<Rightarrow>
          rbind (serve_read_state os w c (a_state arg)) (\<lambda>st.
            case st of
              Read_State cl nread chunks \<Rightarrow>
                if a_in arg \<noteq> []
                then (case collect_data os w chunks (a_in arg) of
                        None \<Rightarrow>
                          rbind (shttpd_printf (os_neg_snprintf os) (arg\<lparr>a_state := st\<rparr>) out_of_memory_reply)
                            (\<lambda>(_, arg1). Inr (arg1\<lparr>a_flags := a_flags arg1 OR SHTTPD_END_OF_OUTPUT\<rparr>, w))
                      | Some chunks' \<Rightarrow>
                          let nread' = nread + length (a_in arg);
                              arg1 = arg\<lparr>a_state := Read_State cl nread' chunks',
                                         a_in_num_bytes := length (a_in arg)\<rparr>
                          in if nread' \<ge> cl then serve_finish os w c route arg1 nread' chunks'
                             else Inr (arg1, w))
                else if nread \<ge> cl then serve_finish os w c route (arg\<lparr>a_state := st\<rparr>) nread chunks
                     else Inr (arg\<lparr>a_state := st\<rparr>, w)
            | _ \<Rightarrow> Inl Type_Confusion)
      | _ \<Rightarrow> Inl Type_Confusion)"

definition rho_serve_index :: "'w os \<Rightarrow> 'w \<Rightarrow> conn \<Rightarrow> shttpd_arg \<Rightarrow> (shttpd_arg \<times> 'w) res" where
  "rho_serve_index os w c arg =
     (if has (a_flags arg) SHTTPD_CONNECTION_ERROR
      then Inr (arg\<lparr>a_state := No_State, a_user_data := No_Data\<rparr>, w)
      else if a_state arg = No_State
      then (case a_user_data arg of
              Data_Path path \<Rightarrow>
                let (answer, w1) = rb_callServeIndex os w path
                in rbind (rho_create_write_state os w1 arg answer) (\<lambda>arg1.
                     rbind (rho_write_data os (arg1\<lparr>a_user_data := No_Data\<rparr>)) (\<lambda>arg2. Inr (arg2, w1)))
            | _ \<Rightarrow> Inl Null_Deref)
      else rbind (rho_write_data os arg) (\<lambda>arg1. Inr (arg1, w)))"

section \<open>Routes are path segments\<close>

text \<open>The specification of a route: the segments of the path between its slashes.\<close>

fun split_slash :: "string \<Rightarrow> string list" where
  "split_slash [] = [[]]"
| "split_slash (c # s) =
     (if c = CHR ''/'' then [] # split_slash s
      else (c # hd (split_slash s)) # tl (split_slash s))"

fun route_of_segments :: "route \<Rightarrow> string list \<Rightarrow> bool \<times> route" where
  "route_of_segments r (app # model # x # y # _) =
     (True, r\<lparr>r_application := app, r_model := Some model,
              r_id := (if isid (Some x) then Some x else Some y),
              r_action := (if isid (Some x) then Some y else Some x)\<rparr>)"
| "route_of_segments r [app, model, x] =
     (True, r\<lparr>r_application := app, r_model := Some model,
              r_id := (if isid (Some x) then Some x else None),
              r_action := (if isid (Some x) then None else Some x)\<rparr>)"
| "route_of_segments r [app, model] = (True, r\<lparr>r_application := app, r_model := Some model\<rparr>)"
| "route_of_segments r (app # _) = (False, r\<lparr>r_application := app, r_model := None\<rparr>)"
| "route_of_segments r [] = (False, r)"

lemma split_slash_not_Nil [simp]: "split_slash s \<noteq> []"
  by (induction s) auto

text \<open>\<open>_tok\<close> takes one segment off: the rest is absent exactly when it was the last one.\<close>

lemma tok_split:
  "split_slash s = (case tok (Some s) of
      (Some a, Some r) \<Rightarrow> a # split_slash r
    | (Some a, None) \<Rightarrow> [a]
    | _ \<Rightarrow> [])"
proof (induction s)
  case Nil
  then show ?case by (simp add: tok_def)
next
  case (Cons c s)
  let ?a = "takeWhile (\<lambda>c. c \<noteq> CHR ''/'') s"
  show ?case
  proof (cases "c = CHR ''/''")
    case True
    then show ?thesis by (simp add: tok_def Let_def)
  next
    case False
    with Cons show ?thesis by (cases "length ?a < length s") (simp_all add: tok_def Let_def)
  qed
qed

lemma tok_cases:
  obtains (last) "tok (Some s) = (Some s, None)" "split_slash s = [s]"
  | (more) a r where "tok (Some s) = (Some a, Some r)" "split_slash s = a # split_slash r"
proof (cases "length (takeWhile (\<lambda>c. c \<noteq> CHR ''/'') s) < length s")
  case True
  then obtain a r where "tok (Some s) = (Some a, Some r)" by (simp add: tok_def Let_def)
  then show ?thesis using more tok_split [of s] by simp
next
  case False
  then have "tok (Some s) = (Some s, None)" by (simp add: tok_def Let_def)
  then show ?thesis using last tok_split [of s] by simp
qed

lemma tok_None [simp]: "tok None = (None, None)"
  by (simp add: tok_def)

lemma parse_route_eq:
  "parse_route \<lparr>r_url = url, r_application = [], r_model = None, r_id = None, r_action = None\<rparr> =
   route_of_segments \<lparr>r_url = url, r_application = [], r_model = None, r_id = None, r_action = None\<rparr>
     (split_slash (route_path url))"
proof (cases "route_path url" rule: tok_cases)
  case last
  then show ?thesis by (simp add: parse_route_def)
next
  case (more app s1)
  note first = more
  show ?thesis
  proof (cases s1 rule: tok_cases)
    case last
    with first show ?thesis by (simp add: parse_route_def)
  next
    case (more model s2)
    note second = more
    show ?thesis
    proof (cases s2 rule: tok_cases)
      case last
      with first second show ?thesis by (simp add: parse_route_def)
    next
      case (more x s3)
      with first second show ?thesis
        by (cases s3 rule: tok_cases) (simp_all add: parse_route_def)
    qed
  qed
qed

text \<open>
  C37. Routing follows the path segments: \<open>_parse_route\<close> accepts a URL exactly when, behind an
  optional leading slash, it has at least two segments; the first is the application, the second
  the model, and of the next two the id is the one written in braces in first place, otherwise
  the second, and the action the other one. Further segments are ignored.
\<close>

theorem parse_route_segments:
  "parse_route \<lparr>r_url = url, r_application = [], r_model = None, r_id = None, r_action = None\<rparr> =
   route_of_segments \<lparr>r_url = url, r_application = [], r_model = None, r_id = None, r_action = None\<rparr>
     (split_slash (route_path url))"
  by (rule parse_route_eq)

section \<open>Header names\<close>

lemma trim_no_leading:
  assumes "NUL \<notin> set name" and "name \<noteq> []" and "\<not> isspace (hd name)"
  shows "\<exists>b. trim (name @ [NUL]) = Inr b \<and>
     cstr b = rev (dropWhile (\<lambda>c. isspace c \<or> c = CHR '':'') (rev name))"
proof -
  let ?kept = "dropWhile (\<lambda>c. isspace c \<or> c = CHR '':'') (rev name)"
  have c: "cstr (name @ [NUL]) = name" using assms(1) cstr_append_NUL [of name "[]"] by simp
  have k: "takeWhile isspace name = []" using assms(2,3) by (cases name) auto
  have le: "length ?kept \<le> length name" by (metis length_dropWhile_le length_rev)
  have pre: "take (length ?kept) name = rev ?kept"
    by (metis append_eq_conv_conj length_rev rev_append rev_rev_ident takeWhile_dropWhile_id)
  have "trim (name @ [NUL]) = Inr ((name @ [NUL])[length ?kept := NUL])"
    using le by (simp add: trim_def c k Let_def)
  moreover have "(name @ [NUL])[length ?kept := NUL] = rev ?kept @ NUL # drop (Suc (length ?kept)) (name @ [NUL])"
    using le pre by (simp add: upd_conv_take_nth_drop)
  moreover have "NUL \<notin> set (rev ?kept)" using assms(1) set_dropWhileD by fastforce
  ultimately show ?thesis by (simp add: cstr_append_NUL)
qed

text \<open>
  \<open>trim\<close> does not trim leading white space: its \<open>memmove\<close> moves as many bytes as there are spaces,
  not the rest of the string, so \<open>" ab"\<close> becomes \<open>"aab"\<close>. Names of the header table have no leading
  space, so the request hash is not affected.
\<close>

lemma trim_leading_space_wrong:
  "trim ('' ab'' @ [NUL]) = Inr (''aab'' @ [NUL])"
  by code_simp

section \<open>Bodies that arrive in pieces\<close>

lemma copy_chunks_concat:
  "p + length (concat cs) \<le> length m \<Longrightarrow>
   copy_chunks m p cs = Inr (take p m @ concat cs @ drop (p + length (concat cs)) m)"
proof (induction cs arbitrary: m p)
  case (Cons c cs)
  then have fits: "p + length c \<le> length m" by simp
  let ?m = "take p m @ c @ drop (p + length c) m"
  have "copy_chunks ?m (p + length c) cs
      = Inr (take (p + length c) ?m @ concat cs @ drop (p + length c + length (concat cs)) ?m)"
    using Cons.prems fits by (intro Cons.IH) simp
  moreover have "take (p + length c) ?m = take p m @ c" using fits by simp
  moreover have "drop (p + length c + length (concat cs)) ?m = drop (p + length (concat (c # cs))) m"
    using fits by (simp add: add.commute add.left_commute)
  ultimately show ?case using fits by (simp add: wr_all_def)
qed simp

lemma get_collected_data_concat:
  assumes "chunks \<noteq> []" and "os_malloc os w (length (concat chunks))"
  shows "get_collected_data os w chunks (length (concat chunks)) = Inr (Some (concat chunks))"
proof (cases chunks)
  case (Cons c cs)
  show ?thesis
  proof (cases cs)
    case Nil
    with Cons show ?thesis by (simp add: get_collected_data_def)
  next
    case (Cons d ds)
    then show ?thesis
      using assms \<open>chunks = c # cs\<close> copy_chunks_concat [of 0 chunks "replicate (length (concat chunks)) NUL"]
      by (simp add: get_collected_data_def del: replicate.simps copy_chunks.simps)
  qed
qed (use assms in simp)

text \<open>
  The argument of one call, as \<open>call_user\<close> sets it up, and a run of calls over the pieces of input as
  they come in, each continuing with the state the call before left.
\<close>

definition call_arg :: "emb_state \<Rightarrow> user_data \<Rightarrow> string \<Rightarrow> char list \<Rightarrow> flags \<Rightarrow> shttpd_arg" where
  "call_arg st ud inp out fl =
     \<lparr>a_state = st, a_user_data = ud, a_in = inp, a_in_num_bytes = 0,
      a_out = out, a_out_num_bytes = 0, a_flags = fl\<rparr>"

fun serve_run ::
  "'w os \<Rightarrow> 'w \<Rightarrow> conn \<Rightarrow> route \<Rightarrow> emb_state \<Rightarrow> string list \<Rightarrow> char list \<Rightarrow> flags \<Rightarrow> (emb_state \<times> 'w) res" where
  "serve_run os w c route st [] out fl = Inr (st, w)"
| "serve_run os w c route st (p # ps) out fl =
     rbind (rho_serve os w c (call_arg st (Data_Route route) p out fl))
       (\<lambda>(arg, w'). serve_run os w' c route (a_state arg) ps out fl)"

lemma rho_serve_piece:
  assumes "\<And>n. os_malloc os w n" and "\<not> has fl SHTTPD_CONNECTION_ERROR"
    and "st = Read_State cl (length (concat qs)) qs \<or>
         st = No_State \<and> qs = [] \<and> cl = nat (v_big_int (c_ch c) H_cl)"
    and "p \<noteq> []"
  shows "rho_serve os w c (call_arg st (Data_Route route) p out fl) =
     (let arg = (call_arg (Read_State cl (length (concat (qs @ [p]))) (qs @ [p])) (Data_Route route) p out fl)
                  \<lparr>a_in_num_bytes := length p\<rparr>
      in if length (concat (qs @ [p])) \<ge> cl
         then serve_finish os w c route arg (length (concat (qs @ [p]))) (qs @ [p])
         else Inr (arg, w))"
  using assms(3)
proof
  assume "st = Read_State cl (length (concat qs)) qs"
  with assms show ?thesis
    by (simp add: rho_serve_def call_arg_def serve_read_state_def collect_data_def Let_def)
next
  assume "st = No_State \<and> qs = [] \<and> cl = nat (v_big_int (c_ch c) H_cl)"
  with assms show ?thesis
    by (simp add: rho_serve_def call_arg_def serve_read_state_def collect_data_def Let_def)
qed

lemma serve_run_pieces:
  assumes "\<And>n. os_malloc os w n" and "\<not> has fl SHTTPD_CONNECTION_ERROR"
  shows "st = Read_State cl (length (concat qs)) qs \<or>
         st = No_State \<and> qs = [] \<and> ps \<noteq> [] \<and> cl = nat (v_big_int (c_ch c) H_cl) \<Longrightarrow>
    [] \<notin> set ps \<Longrightarrow> length (concat (qs @ ps)) < cl \<Longrightarrow>
    serve_run os w c route st ps out fl = Inr (Read_State cl (length (concat (qs @ ps))) (qs @ ps), w)"
proof (induction ps arbitrary: st qs)
  case (Cons p ps)
  have "p \<noteq> []" using Cons.prems(2) by auto
  moreover have "st = Read_State cl (length (concat qs)) qs \<or>
      st = No_State \<and> qs = [] \<and> cl = nat (v_big_int (c_ch c) H_cl)" using Cons.prems(1) by blast
  ultimately have "rho_serve os w c (call_arg st (Data_Route route) p out fl) =
     Inr ((call_arg (Read_State cl (length (concat (qs @ [p]))) (qs @ [p])) (Data_Route route) p out fl)
            \<lparr>a_in_num_bytes := length p\<rparr>, w)"
    using rho_serve_piece [OF assms, of st cl qs c p route out] Cons.prems(3) by (simp add: Let_def)
  moreover have "serve_run os w c route (Read_State cl (length (concat (qs @ [p]))) (qs @ [p])) ps out fl
      = Inr (Read_State cl (length (concat ((qs @ [p]) @ ps))) ((qs @ [p]) @ ps), w)"
    using Cons.prems by (intro Cons.IH) simp_all
  ultimately show ?case by (simp add: call_arg_def)
qed simp



section \<open>Answers that leave in pieces\<close>

lemma shttpd_printf_fits:
  assumes "length t < length (a_out arg) - a_out_num_bytes arg"
  shows "shttpd_printf neg arg t =
     Inr (length t, arg\<lparr>a_out := store (a_out arg) (a_out_num_bytes arg) t,
                       a_out_num_bytes := a_out_num_bytes arg + length t\<rparr>)"
  using assms by (auto simp: shttpd_printf_def vsnprintf_def Let_def wr_all_def store_def)

text \<open>The bytes a call adds to the output.\<close>

definition sent :: "shttpd_arg \<Rightarrow> string" where
  "sent arg = take (a_out_num_bytes arg) (a_out arg)"

definition piece :: "bool \<Rightarrow> nat \<Rightarrow> string \<Rightarrow> string" where
  "piece neg k rest =
     (if length rest < k then rest else if neg then take k rest else take (k - 1) rest @ [NUL])"

lemma length_piece: "0 < k \<Longrightarrow> length (piece neg k rest) = min k (length rest)"
  by (auto simp: piece_def)

lemma rho_write_data_piece:
  assumes "NUL \<notin> set data" and "r < length data" and "0 < length out"
  shows "\<exists>arg'. rho_write_data os (call_arg (Write_State data (length data) r) ud inp out fl) = Inr arg'
     \<and> sent arg' = piece (os_neg_snprintf os) (length out) (drop r data)
     \<and> (if length data \<le> r + length out
        then a_state arg' = No_State \<and> a_flags arg' = fl OR SHTTPD_END_OF_OUTPUT
        else a_state arg' = Write_State data (length data) (r + length out) \<and> a_flags arg' = fl)"
proof -
  let ?rest = "drop r data" and ?k = "length out"
  have rest: "cstr ?rest = ?rest" using assms(1) by (meson cstr_id in_set_dropD)
  show ?thesis
  proof (cases "length ?rest < ?k")
    case True
    then show ?thesis
      using assms(2,3)
      by (simp add: rho_write_data_def call_arg_def rest shttpd_printf_fits sent_def piece_def store_def)
  next
    case False
    then have k: "?k \<le> length data - r" by simp
    show ?thesis
      using False k assms(2,3)
      by (auto simp: rho_write_data_def call_arg_def rest shttpd_printf_def vsnprintf_def Let_def
          wr_all_def sent_def piece_def)
  qed
qed

text \<open>
  The calls of one answer, each with the output space it finds, until one of them raises
  \<open>SHTTPD_END_OF_OUTPUT\<close>, as \<open>call_user\<close> does: the state the last call leaves, whether the end was
  raised, and the bytes that went out.
\<close>

fun write_run :: "'w os \<Rightarrow> emb_state \<Rightarrow> char list list \<Rightarrow> (emb_state \<times> bool \<times> string) res" where
  "write_run os st [] = Inr (st, False, [])"
| "write_run os st (out # outs) =
     rbind (rho_write_data os (call_arg st No_Data [] out 0)) (\<lambda>arg.
       if has (a_flags arg) SHTTPD_END_OF_OUTPUT then Inr (a_state arg, True, sent arg)
       else rbind (write_run os (a_state arg) outs) (\<lambda>(st', ended, t). Inr (st', ended, sent arg @ t)))"

lemma write_run_all:
  assumes "os_neg_snprintf os" and "NUL \<notin> set data"
  shows "r < length data \<Longrightarrow> [] \<notin> set outs \<Longrightarrow> length data \<le> r + length (concat outs) \<Longrightarrow>
    write_run os (Write_State data (length data) r) outs = Inr (No_State, True, drop r data)"
proof (induction outs arbitrary: r)
  case (Cons out outs)
  then have "0 < length out" by (cases out) simp_all
  from rho_write_data_piece [OF assms(2) Cons.prems(1) this, of os No_Data "[]" 0] assms(1)
  obtain arg where arg: "rho_write_data os (call_arg (Write_State data (length data) r) No_Data [] out 0) = Inr arg"
      "sent arg = take (length out) (drop r data)"
      "if length data \<le> r + length out then a_state arg = No_State \<and> a_flags arg = SHTTPD_END_OF_OUTPUT
       else a_state arg = Write_State data (length data) (r + length out) \<and> a_flags arg = 0"
    by (auto simp: piece_def split: if_splits)
  show ?case
  proof (cases "length data \<le> r + length out")
    case True
    with arg show ?thesis by (simp add: has_def SHTTPD_END_OF_OUTPUT_def)
  next
    case False
    then have "write_run os (Write_State data (length data) (r + length out)) outs
        = Inr (No_State, True, drop (r + length out) data)"
      using Cons.prems by (intro Cons.IH) simp_all
    with False arg show ?thesis
      by (simp add: has_def add.commute) (metis append_take_drop_id drop_drop add.commute)
  qed
qed simp

text \<open>
  C32. With a C library whose \<open>vsnprintf\<close> fills the buffer and reports an overlong text as negative
  (the Microsoft library of the Windows builds), the answer of the framework leaves the server
  complete and in order, however small the pieces of output space are: the calls of
  \<open>rho_write_data\<close> up to the one that raises \<open>SHTTPD_END_OF_OUTPUT\<close> together send exactly the
  remaining text, such a call comes, not before all of the text is out, and it leaves no state behind.
\<close>

theorem rho_write_data_complete:
  assumes "os_neg_snprintf os" and "NUL \<notin> set data" and "r < length data"
    and "[] \<notin> set outs" and "length data \<le> r + length (concat outs)"
  shows "write_run os (Write_State data (length data) r) outs = Inr (No_State, True, drop r data)"
  using write_run_all [OF assms(1,2)] assms(3-5) by blast

theorem rho_write_data_complete_witness:
  "write_run (sample_os\<lparr>os_neg_snprintf := True\<rparr>) (Write_State ''answer'' 6 0)
     [''....'', ''....''] = Inr (No_State, True, ''answer'')"
  using rho_write_data_complete [of "sample_os\<lparr>os_neg_snprintf := True\<rparr>" "''answer''" 0 "[''....'', ''....'']"]
  by (simp add: eval_nat_numeral)

text \<open>
  With an ISO C library the same code corrupts a long answer: whenever the rest of the answer does
  not fit the free space of \<open>k\<close> bytes, \<open>vsnprintf\<close> stores \<open>k - 1\<close> characters and a terminator, but
  \<open>shttpd_printf\<close> counts \<open>k\<close>, so a NUL byte goes out in place of the character at position
  \<open>r + k - 1\<close> and the next call continues behind that character.
\<close>

lemma rho_write_data_loses_byte:
  assumes "\<not> os_neg_snprintf os" and "NUL \<notin> set data" and "0 < length out"
    and "r + length out < length data"
  shows "\<exists>arg'. rho_write_data os (call_arg (Write_State data (length data) r) No_Data [] out 0) = Inr arg'
     \<and> sent arg' = take (length out - 1) (drop r data) @ [NUL]
     \<and> a_state arg' = Write_State data (length data) (r + length out)"
  using rho_write_data_piece [OF assms(2) _ assms(3), of r os No_Data "[]" 0] assms(1,4)
  by (auto simp: piece_def split: if_splits)

lemma rho_write_data_loses_byte_instance:
  "\<exists>arg'. rho_write_data sample_os (call_arg (Write_State ''answer'' 6 0) No_Data [] ''....'' 0) = Inr arg'
     \<and> sent arg' = ''ans'' @ [NUL]
     \<and> a_state arg' = Write_State ''answer'' 6 4"
proof -
  have "\<not> os_neg_snprintf sample_os" by (simp add: sample_os_def)
  from rho_write_data_loses_byte [OF this, of "''answer''" "''....''" 0]
  show ?thesis by (simp add: eval_nat_numeral)
qed

section \<open>Which requests go to Ruby\<close>

definition dispatchable :: "'w os \<Rightarrow> 'w \<Rightarrow> string \<Rightarrow> bool" where
  "dispatchable os w path \<longleftrightarrow>
     (case os_stat os w path of
        None \<Rightarrow> True
      | Some st \<Rightarrow> st_isdir st \<and>
          is_file os w (fmt_buf FILENAME_MAX
            (path @ (if last path = CHR 0x5C \<or> last path = CHR ''/'' then [] else ''/'') @ ''controller.iseq'')))"

lemma route_of_segments_accepts: "fst (route_of_segments r segs) \<longleftrightarrow> 2 \<le> length segs"
  by (cases "(r, segs)" rule: route_of_segments.cases) auto

text \<open>
  C38. When memory does not run out, a request reaches the Ruby framework exactly when its URI does not
  end with one of the static extensions, has at least two path segments, and its path names either
  nothing in the file system or a directory that holds a \<open>controller.iseq\<close> file; every other
  request is left to the file server.
\<close>

theorem rho_dispatch_decides:
  assumes "\<And>n. os_malloc os w n" and "NUL \<notin> set uri" and "path \<noteq> []"
  shows "\<exists>r. rho_dispatch os w uri path = Inr r \<and>
    (r \<noteq> None \<longleftrightarrow>
       \<not> list_ex (ends_with_ext uri) [''css'', ''js'', ''html'', ''htm'', ''png'', ''bmp'', ''jpg''] \<and>
       2 \<le> length (split_slash (route_path uri)) \<and> dispatchable os w path)"
proof -
  let ?exts = "[''css'', ''js'', ''html'', ''htm'', ''png'', ''bmp'', ''jpg'']"
  have "join_words ?exts = static_extensions" by (simp add: static_extensions_def DELIM_CHAR_def)
  moreover have "list_all word_ok ?exts" by (simp add: word_ok_def DELIM_CHAR_def)
  ultimately have ext: "shttpd_match_extension uri (Some static_extensions) \<longleftrightarrow> list_ex (ends_with_ext uri) ?exts"
    using match_extension_words [OF assms(2), of ?exts] by simp
  let ?r0 = "\<lparr>r_url = uri, r_application = [], r_model = None, r_id = None, r_action = None\<rparr>"
  have alloc: "alloc_route os w uri = Some ?r0" using assms(1,2) by (simp add: alloc_route_def)
  obtain ok route where pr: "parse_route ?r0 = (ok, route)" by (cases "parse_route ?r0")
  have ok: "ok \<longleftrightarrow> 2 \<le> length (split_slash (route_path uri))"
    using route_of_segments_accepts [of ?r0] parse_route_eq [of uri] pr by (metis fst_conv)
  show ?thesis
    using assms(3) pr
    by (auto simp: rho_dispatch_def ext alloc ok dispatchable_def controller_file_def last_char_def
        Let_def split: option.split)
qed

theorem rho_dispatch_decides_witness:
  "\<exists>r. rho_dispatch sample_os [] ''/app/Task/{1}/show'' ''/root/app/Task/{1}/show'' = Inr r \<and>
    (r \<noteq> None \<longleftrightarrow>
       \<not> list_ex (ends_with_ext ''/app/Task/{1}/show'') [''css'', ''js'', ''html'', ''htm'', ''png'', ''bmp'', ''jpg''] \<and>
       2 \<le> length (split_slash (route_path ''/app/Task/{1}/show'')) \<and>
       dispatchable sample_os [] ''/root/app/Task/{1}/show'')"
  by (rule rho_dispatch_decides) (simp_all add: sample_os_def)

end
