(* ===== verification/ShttpdStreams.thy ===== *)
theory ShttpdStreams
  imports RhoDispatcher
begin

text \<open>
  Streams of the embedded HTTP server: the server context, the I/O classes (\<open>io_emb.c\<close>,
  \<open>io_file.c\<close>, \<open>io_dir.c\<close>, \<open>io_socket.c\<close>) with their reads, writes and closes, stopping a stream,
  error replies, and starting to serve a file or a directory listing. Every routine works on the
  connection and the world and returns both.
\<close>

section \<open>The server context\<close>

datatype opt =
    OPT_ROOT | OPT_INDEX_FILES | OPT_PORTS | OPT_DIR_LIST
  | OPT_CGI_EXTENSIONS | OPT_CGI_INTERPRETER | OPT_CGI_ENVIRONMENT
  | OPT_SSI_EXTENSIONS | OPT_AUTH_REALM | OPT_AUTH_GPASSWD
  | OPT_AUTH_PUT | OPT_ACCESS_LOG | OPT_ERROR_LOG | OPT_MIME_TYPES
  | OPT_SSL_CERTIFICATE | OPT_ALIASES | OPT_ACL | OPT_INETD | OPT_UID
  | OPT_CFG_URI | OPT_PROTECT | OPT_SERVICE | OPT_HIDE | OPT_THREADS

record acl =
  acl_ip :: "32 word"
  acl_mask :: "32 word"
  acl_flag :: char

record registered_uri =
  reg_uri :: string
  reg_callback :: callback
  reg_data :: user_data

record error_handler =
  eh_code :: int
  eh_callback :: callback
  eh_data :: user_data

record ctx =
  ctx_registered_uris :: "registered_uri list"
  ctx_error_handlers :: "error_handler list"
  ctx_acl :: "acl list"
  ctx_options :: "opt \<Rightarrow> string option"
  ctx_access_log :: bool

definition IS_TRUE :: "ctx \<Rightarrow> opt \<Rightarrow> bool" where
  "IS_TRUE ctx opt = shttpd_is_true (ctx_options ctx opt)"

section \<open>The two streams of a connection\<close>

datatype side = Loc | Rem

fun get_s :: "side \<Rightarrow> conn \<Rightarrow> stream" where
  "get_s Loc c = c_loc c"
| "get_s Rem c = c_rem c"

fun upd_s :: "side \<Rightarrow> (stream \<Rightarrow> stream) \<Rightarrow> conn \<Rightarrow> conn" where
  "upd_s Loc f c = c\<lparr>c_loc := f (c_loc c)\<rparr>"
| "upd_s Rem f c = c\<lparr>c_rem := f (c_rem c)\<rparr>"

definition set_io :: "side \<Rightarrow> io \<Rightarrow> conn \<Rightarrow> conn" where
  "set_io sd io c = upd_s sd (\<lambda>s. s\<lparr>s_io := io\<rparr>) c"

definition or_flags :: "side \<Rightarrow> flags \<Rightarrow> conn \<Rightarrow> conn" where
  "or_flags sd f c = upd_s sd (\<lambda>s. s\<lparr>s_flags := s_flags s OR f\<rparr>) c"

definition clear_flags :: "side \<Rightarrow> flags \<Rightarrow> conn \<Rightarrow> conn" where
  "clear_flags sd f c = upd_s sd (\<lambda>s. s\<lparr>s_flags := s_flags s AND NOT f\<rparr>) c"

section \<open>Embedded streams (io_emb.c)\<close>

definition run_callback ::
  "'w os \<Rightarrow> 'w \<Rightarrow> conn \<Rightarrow> callback \<Rightarrow> shttpd_arg \<Rightarrow> (shttpd_arg \<times> 'w) res" where
  "run_callback os w c func arg =
     (case func of
        Cb_rho_serve \<Rightarrow> rho_serve os w c arg
      | Cb_rho_serve_index \<Rightarrow> rho_serve_index os w c arg
      | Cb_user n \<Rightarrow> Inr (os_user_callback os w n c arg))"

text \<open>The flags a callback is told about its input with.\<close>

definition input_flags :: "conn \<Rightarrow> flags" where
  "input_flags c =
     (let io = s_io (c_rem c)
      in (if length (io_bytes io) \<ge> io_size io then SHTTPD_POST_BUFFER_FULL else 0) OR
         (if s_content_len (c_rem c) > 0 \<and> io_total io < s_content_len (c_rem c)
          then SHTTPD_MORE_POST_DATA else 0))"

text \<open>
  \<open>call_user\<close>: the callback finds its state, the free output space and the waiting input. Afterwards
  the bytes it produced and consumed are accounted for, and its state and user data are kept.
\<close>

type_synonym 'w callback_fun = "'w \<Rightarrow> conn \<Rightarrow> shttpd_arg \<Rightarrow> (shttpd_arg \<times> 'w) res"

definition after_call :: "stream \<Rightarrow> io \<Rightarrow> shttpd_arg \<Rightarrow> stream" where
  "after_call loc lio arg =
     (let f1 = (if has (a_flags arg) SHTTPD_END_OF_OUTPUT
                then s_flags loc AND NOT FLAG_DONT_CLOSE else s_flags loc OR FLAG_DONT_CLOSE)
      in loc\<lparr>s_io := lio, s_emb := (s_emb loc)\<lparr>emb_state := a_state arg, emb_data := a_user_data arg\<rparr>,
             s_flags := (if has (a_flags arg) SHTTPD_SUSPEND then f1 OR FLAG_SUSPEND else f1)\<rparr>)"

definition user_arg :: "flags \<Rightarrow> conn \<Rightarrow> shttpd_arg" where
  "user_arg fl c =
     call_arg (emb_state (s_emb (c_loc c))) (emb_data (s_emb (c_loc c))) (io_bytes (s_io (c_rem c)))
       (drop (io_head (s_io (c_loc c))) (io_buf (s_io (c_loc c)))) (fl OR input_flags c)"

definition call_user :: "'w callback_fun \<Rightarrow> flags \<Rightarrow> conn \<Rightarrow> 'w \<Rightarrow> (conn \<times> 'w) res" where
  "call_user func fl c w =
     (let lio = s_io (c_loc c); rio = s_io (c_rem c)
      in rbind (io_space lio) (\<lambda>sp.
         rbind (io_space_len lio) (\<lambda>_.
         rbind (io_data rio) (\<lambda>_.
         rbind (io_data_len rio) (\<lambda>_.
         rbind (func w c (user_arg fl c)) (\<lambda>(arg, w').
         rbind (wr_all (io_buf lio) sp (a_out arg)) (\<lambda>buf.
         rbind (io_inc_head (lio\<lparr>io_buf := buf\<rparr>) (a_out_num_bytes arg)) (\<lambda>lio1.
         rbind (io_inc_tail rio (a_in_num_bytes arg)) (\<lambda>rio1.
           Inr (c\<lparr>c_loc := after_call (c_loc c) lio1 arg, c_rem := (c_rem c)\<lparr>s_io := rio1\<rparr>\<rparr>, w'))))))))))"

definition emb_callback :: "'w os \<Rightarrow> conn \<Rightarrow> 'w callback_fun" where
  "emb_callback os c = (\<lambda>w c'. run_callback os w c' (emb_func (s_emb (c_loc c))))"

definition do_embedded :: "'w os \<Rightarrow> conn \<Rightarrow> 'w \<Rightarrow> (conn \<times> 'w) res" where
  "do_embedded os c w = call_user (emb_callback os c) 0 c w"

definition close_embedded :: "'w os \<Rightarrow> conn \<Rightarrow> 'w \<Rightarrow> (conn \<times> 'w) res" where
  "close_embedded os c w =
     (if has (s_flags (c_loc c)) FLAG_DONT_CLOSE
      then call_user (emb_callback os c) SHTTPD_CONNECTION_ERROR c w
      else Inr (c, w))"

definition shttpd_setup_embedded_stream :: "callback \<Rightarrow> user_data \<Rightarrow> conn \<Rightarrow> conn" where
  "shttpd_setup_embedded_stream func data c =
     c\<lparr>c_loc := (c_loc c)\<lparr>s_emb := \<lparr>emb_state = No_State, emb_func = func, emb_data = data\<rparr>,
                          s_class := Some Io_embedded,
                          s_flags := s_flags (c_loc c) OR (FLAG_R OR FLAG_W OR FLAG_ALWAYS_READY)\<rparr>\<rparr>"

text \<open>
  \<open>match_regexp\<close>: a star matches any text. When no position matches, the loop of the star has moved
  \<open>text\<close> behind the terminator, and the comparison that follows reads there.
\<close>

function match_regexp :: "string \<Rightarrow> string \<Rightarrow> bool res"
  and match_star :: "string \<Rightarrow> string \<Rightarrow> bool res" where
  "match_regexp [] t = Inr (t = [])"
| "match_regexp (r # rs) t =
     (if r = CHR ''*'' then match_star rs t
      else case t of
             [] \<Rightarrow> Inr False
           | x # t' \<Rightarrow> if r = x then match_regexp rs t' else Inr False)"
| "match_star rs t =
     rbind (match_regexp rs t) (\<lambda>b.
       if b then Inr True
       else case t of
              [] \<Rightarrow> Inl Out_Of_Bounds
            | x # t' \<Rightarrow> match_star rs t')"
  by pat_completeness auto

termination
  by (relation "measures [\<lambda>x. case x of Inl (p, t) \<Rightarrow> length p | Inr (p, t) \<Rightarrow> length p,
                          \<lambda>x. case x of Inl _ \<Rightarrow> 0 | Inr _ \<Rightarrow> 1,
                          \<lambda>x. case x of Inl (p, t) \<Rightarrow> length t | Inr (p, t) \<Rightarrow> length t]") auto

declare match_star.simps [simp del]

fun first_registered :: "string \<Rightarrow> registered_uri list \<Rightarrow> (registered_uri option) res" where
  "first_registered uri [] = Inr None"
| "first_registered uri (r # rs) =
     rbind (match_regexp (reg_uri r) uri) (\<lambda>b. if b then Inr (Some r) else first_registered uri rs)"

definition shttpd_is_registered_uri :: "ctx \<Rightarrow> string \<Rightarrow> (registered_uri option) res" where
  "shttpd_is_registered_uri ctx uri = first_registered uri (ctx_registered_uris ctx)"

definition sizeof_registration :: nat where "sizeof_registration = 20"

definition shttpd_register_uri ::
  "'w os \<Rightarrow> 'w \<Rightarrow> ctx \<Rightarrow> string \<Rightarrow> callback \<Rightarrow> user_data \<Rightarrow> ctx" where
  "shttpd_register_uri os w ctx uri cb data =
     (if os_malloc os w sizeof_registration
      then ctx\<lparr>ctx_registered_uris := ctx_registered_uris ctx
                 @ [\<lparr>reg_uri = uri, reg_callback = cb, reg_data = data\<rparr>]\<rparr>
      else ctx)"

definition shttpd_handle_error ::
  "'w os \<Rightarrow> 'w \<Rightarrow> ctx \<Rightarrow> int \<Rightarrow> callback \<Rightarrow> user_data \<Rightarrow> ctx" where
  "shttpd_handle_error os w ctx code cb data =
     (if os_malloc os w sizeof_registration
      then ctx\<lparr>ctx_error_handlers := ctx_error_handlers ctx
                 @ [\<lparr>eh_code = code, eh_callback = cb, eh_data = data\<rparr>]\<rparr>
      else ctx)"

text \<open>
  \<open>shttpd_get_var\<close>: the value of \<open>var=\<close> in a query string of \<open>buf_len\<close> bytes, decoded into a
  buffer of \<open>value_len\<close> bytes; \<open>-1\<close> when there is none.
\<close>

function get_var_loop :: "string \<Rightarrow> char list \<Rightarrow> nat \<Rightarrow> nat \<Rightarrow> nat \<Rightarrow> (int \<times> char list) res" where
  "get_var_loop var buf buf_len value_len p =
     (let var_len = strlen var
      in if p + var_len < buf_len
         then if (p = 0 \<or> c_at buf (p - 1) = CHR ''&'') \<and> c_at buf (p + var_len) = CHR ''='' \<and>
                 shttpd_strncasecmp var (drop p buf) var_len = 0
              then
                let q = p + var_len + 1;
                    s = (case memchr (drop q buf) (CHR ''&'') (buf_len - q) of
                           None \<Rightarrow> buf_len | Some k \<Rightarrow> q + k)
                in rbind (shttpd_url_decode (buf @ replicate value_len NUL) q (s - q) (length buf) value_len)
                     (\<lambda>(n, m). Inr (int n, drop (length buf) m))
              else get_var_loop var buf buf_len value_len (Suc p)
         else Inr (-1, replicate value_len NUL))"
  by pat_completeness auto

termination
  by (relation "measure (\<lambda>(var, _, n, _, p). n - p)") auto

declare get_var_loop.simps [simp del]

definition shttpd_get_var :: "string \<Rightarrow> char list \<Rightarrow> nat \<Rightarrow> nat \<Rightarrow> (int \<times> char list) res" where
  "shttpd_get_var var buf buf_len value_len = get_var_loop var buf buf_len value_len 0"

definition inet_ntoa :: "32 word \<Rightarrow> string" where
  "inet_ntoa ip =
     dec (unat (drop_bit 24 ip)) @ ''.'' @ dec (unat (drop_bit 16 ip AND 255)) @ ''.'' @
     dec (unat (drop_bit 8 ip AND 255)) @ ''.'' @ dec (unat (ip AND 255))"

definition shttpd_get_env :: "conn \<Rightarrow> string \<Rightarrow> string option" where
  "shttpd_get_env c env_name =
     (if env_name = ''REQUEST_METHOD'' then Some (method_name (c_method c))
      else if env_name = ''REQUEST_URI'' then c_uri c
      else if env_name = ''QUERY_STRING'' then c_query c
      else if env_name = ''REMOTE_USER''
      then (let (p, n) = v_vec (c_ch c) H_user in if n > 0 then Some (cstr (take n p)) else None)
      else if env_name = ''REMOTE_ADDR'' then Some (inet_ntoa (c_sa c))
      else None)"

text \<open>
  \<open>shttpd_get_header\<close> on the block \<open>m\<close> that holds the request, from the first header line at \<open>p\<close> to
  its end \<open>e\<close>: every line it passes is cut at its line end. The result is the position of the value.
\<close>

definition cut_line :: "char list \<Rightarrow> nat \<Rightarrow> char list res" where
  "cut_line m p =
     (let s = p + length (takeWhile (\<lambda>c. c \<noteq> CHR 0x0A) (cstr (drop p m)))
      in if c_at m s = CHR 0x0A
         then if s = 0 then Inl Out_Of_Bounds
              else wr m (if m ! (s - 1) = CHR 0x0D then s - 1 else s) NUL
         else Inr m)"

lemma cut_line_length: "cut_line m p = Inr m' \<Longrightarrow> length m' = length m"
  by (auto simp: cut_line_def Let_def wr_def split: if_splits)

function get_header_loop ::
  "string \<Rightarrow> nat \<Rightarrow> nat \<Rightarrow> char list \<Rightarrow> (nat option \<times> char list) res" where
  "get_header_loop name e p m =
     (if p < e
      then rbind (cut_line m p) (\<lambda>m1.
             if shttpd_strncasecmp name (drop p m1) (strlen name) = 0
             then Inr (Some (p + strlen name + 2), m1)
             else get_header_loop name e (p + strlen (drop p m1) + 1) m1)
      else Inr (None, m))"
  by pat_completeness auto

termination
  by (relation "measure (\<lambda>(_, e, p, _). e - p)") auto

declare get_header_loop.simps [simp del]

definition shttpd_get_header :: "conn \<Rightarrow> string \<Rightarrow> (nat option \<times> char list) res" where
  "shttpd_get_header c header_name =
     (case c_request c of
        None \<Rightarrow> Inl Null_Deref
      | Some m \<Rightarrow> get_header_loop header_name (nat (s_headers_len (c_rem c))) (c_headers c) m)"

definition shttpd_get_http_version :: "conn \<Rightarrow> int \<times> int" where
  "shttpd_get_http_version c = (c_major_version c, c_minor_version c)"

section \<open>Closing and stopping\<close>

definition close_stream :: "'w os \<Rightarrow> side \<Rightarrow> conn \<Rightarrow> 'w \<Rightarrow> (conn \<times> 'w) res" where
  "close_stream os sd c w =
     (let s = get_s sd c
      in case s_class s of
           None \<Rightarrow> Inr (c, w)
         | Some Io_file \<Rightarrow> rbind (c_assert (s_fd s \<noteq> -1)) (\<lambda>_. Inr (c, os_close os w (s_fd s)))
         | Some Io_socket \<Rightarrow> rbind (c_assert (s_fd s \<noteq> -1)) (\<lambda>_. Inr (c, os_closesocket os w (s_fd s)))
         | Some Io_dir \<Rightarrow> Inr (upd_s sd (\<lambda>s. s\<lparr>s_dir := ([], [])\<rparr>) c, w)
         | Some Io_embedded \<Rightarrow> close_embedded os c w)"

definition shttpd_stop_stream :: "'w os \<Rightarrow> side \<Rightarrow> conn \<Rightarrow> 'w \<Rightarrow> (conn \<times> 'w) res" where
  "shttpd_stop_stream os sd c w =
     rbind (close_stream os sd c w) (\<lambda>(c1, w1).
       Inr (upd_s sd (\<lambda>s. s\<lparr>s_class := None,
                            s_flags := (s_flags s OR FLAG_CLOSED) AND NOT (FLAG_R OR FLAG_W OR FLAG_ALWAYS_READY)\<rparr>) c1, w1))"

section \<open>Error replies\<close>

definition crlf :: string where "crlf = [CHR 0x0D, CHR 0x0A]"

text \<open>\<open>"%03d"\<close> of a non-negative number.\<close>

definition dec3 :: "int \<Rightarrow> string" where
  "dec3 n = (let d = show_int n in replicate (3 - length d) (CHR ''0'') @ d)"

definition error_text :: "int \<Rightarrow> string \<Rightarrow> string" where
  "error_text status reason =
     ''HTTP/1.1 '' @ show_int status @ '' '' @ reason @ crlf @ ''Content-Type: text/plain'' @ crlf
     @ ''Content-Length: 12'' @ crlf @ crlf @ ''Error: '' @ dec3 status @ crlf"

definition shttpd_send_server_error ::
  "'w os \<Rightarrow> ctx \<Rightarrow> int \<Rightarrow> string \<Rightarrow> conn \<Rightarrow> 'w \<Rightarrow> (conn \<times> 'w) res" where
  "shttpd_send_server_error os ctx status reason c w =
     (case List.find (\<lambda>e. eh_code e = status) (ctx_error_handlers ctx) of
        Some e \<Rightarrow>
          rbind (close_stream os Loc c w) (\<lambda>(c1, w1).
          rbind (io_clear (s_io (c_loc c1))) (\<lambda>io.
            Inr (shttpd_setup_embedded_stream (eh_callback e) (eh_data e) (set_io Loc io c1), w1)))
      | None \<Rightarrow>
          rbind (io_clear (s_io (c_loc c))) (\<lambda>io.
          rbind (shttpd_snprintf (os_neg_snprintf os) (io_buf io) 0 (io_size io) (error_text status reason)) (\<lambda>(n, b).
            shttpd_stop_stream os Loc
              (c\<lparr>c_loc := (c_loc c)\<lparr>s_io := io\<lparr>io_buf := b, io_head := n\<rparr>, s_content_len := 10\<rparr>,
                 c_status := status\<rparr>) w)))"

section \<open>Files (io_file.c)\<close>

text \<open>Lower-case hexadecimal, the output of \<open>"%lx"\<close>.\<close>

definition hex_digit :: "nat \<Rightarrow> char" where
  "hex_digit d = (if d < 10 then digit_char d else char_of (87 + d))"

fun hex :: "nat \<Rightarrow> string" where
  "hex n = (if n < 16 then [hex_digit n] else hex (n div 16) @ [hex_digit (n mod 16)])"

declare hex.simps [simp del]

text \<open>\<open>unsigned long\<close> arithmetic on the devices wraps at 32 bits.\<close>

definition ulong :: "int \<Rightarrow> nat" where
  "ulong i = nat (i mod 2 ^ 32)"

text \<open>The \<open>Range\<close> header: the numbers \<open>sscanf(ptr, "bytes=%lu-%lu", &r1, &r2)\<close> stores.\<close>

definition range_format :: "scan_dir list" where
  "range_format = map Dir_Char ''bytes='' @ [Dir_Ulong, Dir_Char (CHR ''-''), Dir_Ulong]"

definition scan_range :: "headers \<Rightarrow> scan_val list" where
  "scan_range ch = (let (p, n) = v_vec ch H_range in if n > 0 then fst (sscanf range_format p) else [])"

text \<open>
  \<open>sscanf\<close> returns \<open>EOF\<close> when the text ends before the first number. The count is a \<open>size_t\<close>, so this
  passes the test \<open>> 0\<close>, and \<open>r1\<close> is used without a value.
\<close>

definition range_eof :: "headers \<Rightarrow> bool" where
  "range_eof ch =
     (let (p, n) = v_vec ch H_range; t = cstr p
      in n > 0 \<and> take 6 t = take (length t) ''bytes='' \<and> dropWhile isspace (drop 6 t) = [])"

text \<open>Status, reason, start, content length and \<open>Content-Range\<close> line of a file reply.\<close>

definition file_range :: "headers \<Rightarrow> nat \<Rightarrow> int \<times> string \<times> int option \<times> nat \<times> string" where
  "file_range ch sz =
     (let cl = ulong (int sz);
          part = (\<lambda>r1 cl'. (206, ''Partial Content'', Some r1, cl',
                    fmt_buf 64 (''Content-Range: bytes '' @ dec (nat r1) @ ''-'' @ dec (ulong (r1 + int cl' - 1))
                                @ ''/'' @ dec cl @ crlf)))
      in case scan_range ch of
           [VInt r1] \<Rightarrow> part r1 (ulong (int cl - r1))
         | [VInt r1, VInt r2] \<Rightarrow> part r1 (ulong (r2 - r1 + 1))
         | _ \<Rightarrow> (200, ''OK'', None, cl, []))"

definition date_fmt :: string where "date_fmt = ''%a, %d %b %Y %H:%M:%S GMT''"

definition file_headers ::
  "'w os \<Rightarrow> int \<Rightarrow> int \<Rightarrow> string \<Rightarrow> stat \<Rightarrow> string \<Rightarrow> nat \<Rightarrow> string \<Rightarrow> string" where
  "file_headers os now status msg st mime cl rg =
     ''HTTP/1.1 '' @ show_int status @ '' '' @ msg @ crlf
     @ ''Date: '' @ fmt_buf 64 (os_strftime os date_fmt now) @ crlf
     @ ''Last-Modified: '' @ fmt_buf 64 (os_strftime os date_fmt (st_mtime st)) @ crlf
     @ ''Etag: '' @ [CHR 0x22] @ fmt_buf 64 (hex (ulong (st_mtime st)) @ ''.'' @ hex (ulong (int (st_size st))))
     @ [CHR 0x22] @ crlf
     @ ''Content-Type: '' @ mime @ crlf
     @ ''Content-Length: '' @ dec cl @ crlf
     @ ''Accept-Ranges: bytes'' @ crlf @ rg @ crlf"

text \<open>The headers become the output and the file the local stream.\<close>

definition start_file :: "string \<Rightarrow> int \<Rightarrow> nat \<Rightarrow> char list \<Rightarrow> nat \<Rightarrow> conn \<Rightarrow> conn" where
  "start_file mime status n b cl c =
     c\<lparr>c_mime_type := mime, c_status := status,
       c_loc := (c_loc c)\<lparr>s_io := (s_io (c_loc c))\<lparr>io_buf := b, io_head := n\<rparr>, s_headers_len := int n,
          s_content_len := cl, s_class := Some Io_file,
          s_flags := s_flags (c_loc c) OR (FLAG_R OR FLAG_ALWAYS_READY)\<rparr>\<rparr>"

definition shttpd_get_file :: "'w os \<Rightarrow> ctx \<Rightarrow> int \<Rightarrow> stat \<Rightarrow> conn \<Rightarrow> 'w \<Rightarrow> (conn \<times> 'w) res" where
  "shttpd_get_file os ctx now st c w =
     (case c_uri c of
        None \<Rightarrow> Inl Null_Deref
      | Some uri \<Rightarrow>
          if range_eof (c_ch c) then Inl Uninitialised_Read
          else
          let mime = (if c_mime_type c = []
                      then shttpd_get_mime_type (ctx_options ctx OPT_MIME_TYPES) uri (strlen uri)
                      else c_mime_type c);
              (status, msg, start, cl, rg) = file_range (c_ch c) (st_size st);
              w1 = (case start of None \<Rightarrow> w | Some r1 \<Rightarrow> os_lseek os w (s_fd (c_loc c)) r1);
              lio = s_io (c_loc c)
          in rbind (shttpd_snprintf (os_neg_snprintf os) (io_buf lio) 0 (io_size lio)
                      (file_headers os now status msg st mime cl rg)) (\<lambda>(n, b).
               let c1 = start_file mime status n b cl c
               in if c_method c = METHOD_HEAD then shttpd_stop_stream os Loc c1 w1 else Inr (c1, w1)))"

text \<open>
  \<open>write_file\<close>: the body of a PUT goes to the file; when the write fails or the body is complete, a
  reply replaces the output and the local stream stops. The result is the count reported.
\<close>

definition put_reply :: "int \<Rightarrow> nat \<Rightarrow> string" where
  "put_reply status sz =
     ''HTTP/1.1 '' @ show_int status @ '' OK'' @ crlf @ ''Content-Length: '' @ dec (ulong (int sz)) @ crlf
     @ ''Connection: close'' @ crlf @ crlf"

definition write_file :: "'w os \<Rightarrow> string \<Rightarrow> conn \<Rightarrow> 'w \<Rightarrow> (io_ret \<times> conn \<times> 'w) res" where
  "write_file os bs c w =
     (let loc = c_loc c; rem = c_rem c
      in rbind (c_assert (s_fd loc \<noteq> -1)) (\<lambda>_.
           let (r, w1) = os_write os w (s_fd loc) bs;
               bad = (case r of Moved t \<Rightarrow> t = [] | _ \<Rightarrow> True)
           in if bad \<or> io_total (s_io rem) \<ge> s_content_len rem
              then rbind (shttpd_snprintf (os_neg_snprintf os) (io_buf (s_io loc)) 0 (io_size (s_io loc))
                            (put_reply (c_status c) (os_fsize os w1 (s_fd loc)))) (\<lambda>(n, b).
                   rbind (shttpd_stop_stream os Loc
                            (c\<lparr>c_loc := loc\<lparr>s_io := (s_io loc)\<lparr>io_buf := b, io_head := n\<rparr>,
                                            s_headers_len := int n\<rparr>\<rparr>) w1) (\<lambda>(c1, w2). Inr (r, c1, w2)))
              else Inr (r, c, w1)))"

section \<open>Directories (io_dir.c)\<close>

text \<open>
  \<open>_shttpd_put_dir\<close> creates the directories in front of a path: \<open>0\<close> when the path ends with a slash,
  \<open>-1\<close> when one cannot be made, otherwise \<open>1\<close>. \<open>s\<close> is the position the search for the next slash
  starts from; the assertion guards the local buffer.
\<close>

function put_dir_loop :: "'w os \<Rightarrow> string \<Rightarrow> nat \<Rightarrow> 'w \<Rightarrow> (int \<times> 'w) res" where
  "put_dir_loop os path s w =
     (let p = s + length (takeWhile (\<lambda>c. c \<noteq> CHR ''/'') (drop s path))
      in if p < length path
         then rbind (c_assert (p < FILENAME_MAX)) (\<lambda>_.
                let buf = take p path;
                    (ok, w1) = (if os_stat os w buf = None then os_mkdir os w buf else (True, w))
                in if \<not> ok then Inr (-1, w1)
                   else if p + 1 = length path then Inr (0, w1)
                   else put_dir_loop os path (p + 1) w1)
         else Inr (1, w))"
  by pat_completeness auto

termination
  by (relation "measure (\<lambda>(_, path, s, _). length path - s)") auto

declare put_dir_loop.simps [simp del]

definition shttpd_put_dir :: "'w os \<Rightarrow> string \<Rightarrow> 'w \<Rightarrow> (int \<times> 'w) res" where
  "shttpd_put_dir os path w =
     (if length path < 2 then Inl Out_Of_Bounds else put_dir_loop os path 2 w)"

text \<open>One line of a listing; a size below a kilobyte is exact, then kilobytes, then megabytes.\<close>

definition show_size :: "'w os \<Rightarrow> stat \<Rightarrow> string" where
  "show_size os st =
     fmt_buf 64
       (if st_isdir st then ''&lt;DIR&gt;''
        else if st_size st < 1024 then dec (st_size st)
        else if st_size st < 1024 * 1024 then dec (st_size st div 1024 + 1) @ ''k''
        else os_show_mb os (st_size st))"

definition dir_line_max :: nat where "dir_line_max = FILENAME_MAX + 512"

definition dir_line :: "'w os \<Rightarrow> string \<Rightarrow> string \<Rightarrow> stat \<Rightarrow> string" where
  "dir_line os uri name st =
     fmt_buf dir_line_max
       (''<tr><td><a href='' @ [CHR 0x22] @ uri @ name @ [CHR 0x22] @ ''>'' @ name
        @ (if st_isdir st then ''/'' else []) @ ''</a></td><td>&nbsp;''
        @ fmt_buf 64 (os_strftime os ''%d-%b-%Y %H:%M'' (st_mtime st))
        @ ''</td><td>&nbsp;&nbsp;'' @ show_size os st @ ''</td></tr>'' @ [CHR 0x0A])"

definition HTPASSWD :: string where "HTPASSWD = ''.htpasswd''"

text \<open>
  The loop of \<open>read_dir\<close>: it returns the text produced, the entries left, the space left and whether
  the last thing that happened was the end of the directory (\<open>dp == NULL\<close>). \<open>dp\<close> starts as NULL,
  and \<open>st\<close> keeps its value when \<open>stat\<close> fails.
\<close>

fun read_dir_loop ::
  "'w os \<Rightarrow> 'w \<Rightarrow> string \<Rightarrow> string \<Rightarrow> string list \<Rightarrow> nat \<Rightarrow> bool \<Rightarrow> stat option \<Rightarrow>
   (string \<times> string list \<times> nat \<times> bool) res" where
  "read_dir_loop os w path uri names len dp_null st =
     (if len < dir_line_max then Inr ([], names, len, dp_null)
      else case names of
             [] \<Rightarrow> Inr ([], [], len, True)
           | name # rest \<Rightarrow>
               if name = ''.'' \<or> name = HTPASSWD
               then read_dir_loop os w path uri rest len False st
               else
                 let st1 = (case os_stat os w (fmt_buf FILENAME_MAX (path @ name)) of
                              Some s \<Rightarrow> Some s | None \<Rightarrow> st)
                 in case st1 of
                      None \<Rightarrow> Inl Uninitialised_Read
                    | Some s \<Rightarrow>
                        let line = dir_line os uri name s
                        in rbind (read_dir_loop os w path uri rest (len - length line) False st1)
                             (\<lambda>(out, r). Inr (line @ out, r)))"

definition dir_footer :: string where
  "dir_footer = ''</table></body></html>'' @ [CHR 0x0A, NUL]"

definition read_dir :: "'w os \<Rightarrow> nat \<Rightarrow> conn \<Rightarrow> 'w \<Rightarrow> (string \<times> conn) res" where
  "read_dir os len c w =
     (case c_uri c of
        None \<Rightarrow> Inl Null_Deref
      | Some uri \<Rightarrow>
          rbind (c_assert (uri \<noteq> [])) (\<lambda>_.
          rbind (read_dir_loop os w (fst (s_dir (c_loc c))) uri (snd (s_dir (c_loc c))) len True None)
            (\<lambda>(out, names, left, dp_null).
              let c1 = upd_s Loc (\<lambda>s. s\<lparr>s_dir := (fst (s_dir s), names)\<rparr>) c
              in Inr (if dp_null \<and> left \<ge> length dir_footer
                      then (out @ dir_footer, or_flags Loc FLAG_CLOSED c1) else (out, c1)))))"

definition dir_header :: "string \<Rightarrow> string" where
  "dir_header uri =
     ''HTTP/1.1 200 OK'' @ crlf @ ''Connection: close'' @ crlf
     @ ''Content-Type: text/html; charset=utf-8'' @ crlf @ crlf
     @ ''<html><head><title>Index of '' @ uri @ ''</title>''
     @ ''<style>th {text-align: left;}</style></head>''
     @ ''<body><h1>Index of '' @ uri @ ''</h1><pre><table cellpadding='' @ [CHR 0x22] @ ''0'' @ [CHR 0x22] @ ''>''
     @ ''<tr><th>Name</th><th>Modified</th><th>Size</th></tr>''
     @ ''<tr><td colspan='' @ [CHR 0x22] @ ''3'' @ [CHR 0x22] @ ''><hr></td></tr>''"

definition shttpd_get_dir :: "'w os \<Rightarrow> ctx \<Rightarrow> conn \<Rightarrow> 'w \<Rightarrow> (conn \<times> 'w) res" where
  "shttpd_get_dir os ctx c w =
     (case c_uri c of
        None \<Rightarrow> Inl Null_Deref
      | Some uri \<Rightarrow>
          (let loc = c_loc c; path = fst (s_dir loc)
           in case os_opendir os w path of
                None \<Rightarrow> shttpd_send_server_error os ctx 500 ''Cannot open directory'' c w
              | Some names \<Rightarrow>
                  rbind (shttpd_snprintf (os_neg_snprintf os) (io_buf (s_io loc)) 0 (io_size (s_io loc)) (dir_header uri))
                    (\<lambda>(n, b).
                  rbind (io_clear (s_io (c_rem c))) (\<lambda>rio.
                    Inr (c\<lparr>c_status := 200, c_rem := (c_rem c)\<lparr>s_io := rio\<rparr>,
                           c_loc := loc\<lparr>s_io := (s_io loc)\<lparr>io_buf := b, io_head := n\<rparr>, s_dir := (path, names),
                              s_class := Some Io_dir,
                              s_flags := s_flags loc OR (FLAG_R OR FLAG_ALWAYS_READY)\<rparr>\<rparr>, w)))))"

section \<open>Well-formed connections\<close>

text \<open>
  Both buffers are well formed. On the way to a reply the local buffer may for a while have its tail
  behind its head (a callback that reports an absurd number of bytes, a reply that replaces unsent output), until the
  next assertion; \<open>conn_at f\<close> asks only that its head is in bounds, and fixes the flags and the class
  of the remote stream, which nothing on the way to a reply changes.
\<close>

definition conn_ok :: "conn \<Rightarrow> bool" where
  "conn_ok c \<longleftrightarrow> io_ok (s_io (c_loc c)) \<and> io_ok (s_io (c_rem c))"

definition io_bounded :: "io \<Rightarrow> bool" where
  "io_bounded io \<longleftrightarrow> 0 < io_size io \<and> io_size io < 2 ^ 31 \<and> length (io_buf io) = io_size io \<and> io_head io \<le> io_size io"

definition conn_at :: "flags \<times> io_class option \<Rightarrow> conn \<Rightarrow> bool" where
  "conn_at f c \<longleftrightarrow> io_bounded (s_io (c_loc c)) \<and> io_ok (s_io (c_rem c)) \<and> (s_flags (c_rem c), s_class (c_rem c)) = f"

lemma io_ok_bounded: "io_ok io \<Longrightarrow> io_bounded io"
  by (simp add: io_ok_def io_bounded_def)

lemma conn_ok_at: "conn_ok c \<Longrightarrow> conn_at (s_flags (c_rem c), s_class (c_rem c)) c"
  by (simp add: conn_ok_def conn_at_def io_ok_bounded)

lemmas conn_defs = conn_at_def conn_ok_def

lemma conn_at_setup [simp]: "conn_at f (shttpd_setup_embedded_stream cb d c) \<longleftrightarrow> conn_at f c"
  by (simp add: conn_defs shttpd_setup_embedded_stream_def)

lemma conn_at_upd_loc: "(\<And>s. s_io (g s) = s_io s) \<Longrightarrow> conn_at f (upd_s Loc g c) \<longleftrightarrow> conn_at f c"
  by (simp add: conn_defs)

lemma io_clear_Inr: "io_clear io = Inr io' \<Longrightarrow> io_bounded io \<Longrightarrow> io_ok io' \<and> io_tail io' = 0 \<and> io_head io' = 0"
  by (auto simp: io_defs io_ok_def io_bounded_def rbind_Inr_iff c_assert_Inr_iff)

lemma io_inc_head_bounded: "io_inc_head io n = Inr io' \<Longrightarrow> io_bounded io \<Longrightarrow> io_bounded io'"
  by (auto simp: io_defs io_bounded_def rbind_Inr_iff c_assert_Inr_iff Let_def)

lemma io_inc_head_Inr: "io_inc_head io n = Inr io' \<Longrightarrow> io_ok io \<Longrightarrow> n < 2 ^ 31 \<Longrightarrow> io_ok io'"
  by (auto simp: io_defs io_ok_def rbind_Inr_iff c_assert_Inr_iff Let_def)

lemma io_inc_tail_Inr: "io_inc_tail io n = Inr io' \<Longrightarrow> io_bounded io \<Longrightarrow> io_ok io'"
  by (auto simp: io_defs io_ok_def io_bounded_def rbind_Inr_iff c_assert_Inr_iff Let_def)

lemma io_data_len_Inr: "io_data_len io = Inr n \<Longrightarrow> io_bounded io \<Longrightarrow> io_ok io"
  by (auto simp: io_defs io_ok_def io_bounded_def rbind_Inr_iff c_assert_Inr_iff)

lemma wr_all_Inr: "wr_all m a s = Inr m' \<Longrightarrow> length m' = length m"
  by (auto simp: wr_all_def split: if_splits)

lemma io_fill_Inr: "io_fill io bs = Inr io' \<Longrightarrow> io_ok io \<Longrightarrow> io_ok io' \<and> length bs < 2 ^ 31"
  by (auto simp: io_fill_def io_ok_def rbind_Inr_iff wr_all_def split: if_splits)

lemma io_fill_bounded: "io_fill io bs = Inr io' \<Longrightarrow> io_bounded io \<Longrightarrow> io_bounded io'"
  by (auto simp: io_fill_def io_bounded_def rbind_Inr_iff dest!: wr_all_Inr)

text \<open>Replacing the output by a formatted reply.\<close>

lemma io_ok_reply:
  assumes "shttpd_snprintf neg (io_buf io) 0 (io_size io) t = Inr (n, b)" and "io_ok io" and "io_tail io = 0"
  shows "io_ok (io\<lparr>io_buf := b, io_head := n\<rparr>)"
proof -
  have "0 < io_size io" and len: "length (io_buf io) = io_size io" using assms(2) by (auto simp: io_ok_def)
  then have "n = min (length t) (io_size io - 1)" and "b = store (io_buf io) 0 (take (io_size io - 1) t)"
    using shttpd_snprintf_eq [of "io_size io" 0 "io_buf io" neg t] assms(1) by auto
  moreover have "length (store (io_buf io) 0 (take (io_size io - 1) t)) = length (io_buf io)"
    using \<open>0 < io_size io\<close> len by (intro length_store) simp
  ultimately show ?thesis using assms(2,3) by (auto simp: io_ok_def)
qed

lemma io_bounded_reply:
  assumes "shttpd_snprintf neg (io_buf io) 0 (io_size io) t = Inr (n, b)" and "io_bounded io"
  shows "io_bounded (io\<lparr>io_buf := b, io_head := n\<rparr>)"
  using io_ok_reply [of neg "io\<lparr>io_tail := 0\<rparr>" t n b] assms by (simp add: io_ok_def io_bounded_def)

lemma s_io_after_call [simp]: "s_io (after_call loc lio arg) = lio"
  by (simp add: after_call_def Let_def)

lemma io_ok_buf: "io_ok io \<Longrightarrow> length b = length (io_buf io) \<Longrightarrow> io_ok (io\<lparr>io_buf := b\<rparr>)"
  by (simp add: io_ok_def)

lemma io_bounded_buf: "io_bounded io \<Longrightarrow> length b = length (io_buf io) \<Longrightarrow> io_bounded (io\<lparr>io_buf := b\<rparr>)"
  by (simp add: io_bounded_def)

lemma call_user_Inr:
  assumes "call_user func fl c w = Inr (c', w')"
  obtains sp arg buf lio rio where "io_space (s_io (c_loc c)) = Inr sp"
    "func w c (user_arg fl c) = Inr (arg, w')"
    "wr_all (io_buf (s_io (c_loc c))) sp (a_out arg) = Inr buf"
    "io_inc_head ((s_io (c_loc c))\<lparr>io_buf := buf\<rparr>) (a_out_num_bytes arg) = Inr lio"
    "io_inc_tail (s_io (c_rem c)) (a_in_num_bytes arg) = Inr rio"
    "c' = c\<lparr>c_loc := after_call (c_loc c) lio arg, c_rem := (c_rem c)\<lparr>s_io := rio\<rparr>\<rparr>"
  using assms unfolding call_user_def Let_def rbind_Inr_iff split_beta by (elim exE conjE) force

lemma call_user_keeps:
  assumes "call_user func fl c w = Inr (c', w')" and "conn_at f c"
  shows "conn_at f c'"
  using assms(1)
proof (rule call_user_Inr)
  fix sp arg buf lio rio
  assume "wr_all (io_buf (s_io (c_loc c))) sp (a_out arg) = Inr buf"
    and h: "io_inc_head ((s_io (c_loc c))\<lparr>io_buf := buf\<rparr>) (a_out_num_bytes arg) = Inr lio"
    and t: "io_inc_tail (s_io (c_rem c)) (a_in_num_bytes arg) = Inr rio"
    and c': "c' = c\<lparr>c_loc := after_call (c_loc c) lio arg, c_rem := (c_rem c)\<lparr>s_io := rio\<rparr>\<rparr>"
  then have "io_bounded ((s_io (c_loc c))\<lparr>io_buf := buf\<rparr>)"
    using assms(2) by (intro io_bounded_buf) (auto simp: conn_defs dest: wr_all_Inr)
  with h t assms(2) show "conn_at f c'"
    by (auto simp: c' conn_defs dest: io_inc_head_bounded io_inc_tail_Inr [OF _ io_ok_bounded])
qed

lemma close_loc_keeps: "close_stream os Loc c w = Inr (c', w') \<Longrightarrow> conn_at f c \<Longrightarrow> conn_at f c'"
  by (auto simp: close_stream_def close_embedded_def Let_def rbind_Inr_iff conn_at_upd_loc
      simp del: upd_s.simps
      split: option.splits io_class.splits if_splits dest: call_user_keeps)

lemma stop_loc_keeps: "shttpd_stop_stream os Loc c w = Inr (c', w') \<Longrightarrow> conn_at f c \<Longrightarrow> conn_at f c'"
  by (auto simp: shttpd_stop_stream_def rbind_Inr_iff conn_at_upd_loc
      simp del: upd_s.simps dest: close_loc_keeps)

lemma has_or [simp]: "has (f OR g) k \<longleftrightarrow> has f k \<or> has g k"
  by (auto simp: has_def bit_simps bit_eq_iff)

lemma stop_loc_closed:
  "shttpd_stop_stream os Loc c w = Inr (c', w') \<Longrightarrow> has (s_flags (c_loc c')) FLAG_CLOSED \<and> s_class (c_loc c') = None"
proof -
  have keep: "NOT (FLAG_R OR FLAG_W OR FLAG_ALWAYS_READY) AND FLAG_CLOSED = FLAG_CLOSED"
    by (simp add: flag_defs)
  have "((f OR FLAG_CLOSED) AND NOT (FLAG_R OR FLAG_W OR FLAG_ALWAYS_READY)) AND FLAG_CLOSED = FLAG_CLOSED" for f
    unfolding and.assoc keep by (simp add: bit_eq_iff bit_simps)
  then show "shttpd_stop_stream os Loc c w = Inr (c', w') \<Longrightarrow>
      has (s_flags (c_loc c')) FLAG_CLOSED \<and> s_class (c_loc c') = None"
    by (auto simp: shttpd_stop_stream_def rbind_Inr_iff has_def) (simp add: flag_defs)
qed

lemma send_server_error_keeps:
  assumes "shttpd_send_server_error os ctx status reason c w = Inr (c', w')" and "conn_at f c"
  shows "conn_at f c'"
proof (cases "List.find (\<lambda>e. eh_code e = status) (ctx_error_handlers ctx)")
  case None
  with assms(1) obtain io n b where io: "io_clear (s_io (c_loc c)) = Inr io"
      "shttpd_snprintf (os_neg_snprintf os) (io_buf io) 0 (io_size io) (error_text status reason) = Inr (n, b)"
      "shttpd_stop_stream os Loc
         (c\<lparr>c_loc := (c_loc c)\<lparr>s_io := io\<lparr>io_buf := b, io_head := n\<rparr>, s_content_len := 10\<rparr>,
            c_status := status\<rparr>) w = Inr (c', w')"
    by (auto simp: shttpd_send_server_error_def rbind_Inr_iff)
  have "io_bounded io" using io(1) assms(2) io_clear_Inr io_ok_bounded by (auto simp: conn_defs)
  from io_bounded_reply [OF io(2) this] assms(2) show ?thesis
    using stop_loc_keeps [OF io(3)] by (simp add: conn_defs)
next
  case (Some e)
  with assms show ?thesis
    by (auto simp: shttpd_send_server_error_def rbind_Inr_iff set_io_def conn_defs
        shttpd_setup_embedded_stream_def io_ok_bounded dest!: close_loc_keeps [where f = f] io_clear_Inr)
qed

lemma send_server_error_closed:
  assumes "shttpd_send_server_error os ctx status reason c w = Inr (c', w')" and "ctx_error_handlers ctx = []"
  shows "has (s_flags (c_loc c')) FLAG_CLOSED \<and> s_class (c_loc c') = None"
  using assms by (auto simp: shttpd_send_server_error_def rbind_Inr_iff dest!: stop_loc_closed)

lemma get_file_keeps:
  assumes "shttpd_get_file os ctx now st c w = Inr (c', w')" and "conn_at f c"
  shows "conn_at f c'"
proof -
  obtain status msg start cl rg where fr: "file_range (c_ch c) (st_size st) = (status, msg, start, cl, rg)"
    using prod_cases5 by blast
  from assms(1) fr obtain t n b mime where
      sn: "shttpd_snprintf (os_neg_snprintf os) (io_buf (s_io (c_loc c))) 0 (io_size (s_io (c_loc c))) t = Inr (n, b)"
    and fin: "(\<exists>w1. shttpd_stop_stream os Loc (start_file mime status n b cl c) w1 = Inr (c', w')) \<or>
        c' = start_file mime status n b cl c"
    by (cases "c_uri c") (auto simp: shttpd_get_file_def Let_def rbind_Inr_iff split: if_splits, blast+)
  have "conn_at f (start_file mime status n b cl c)"
    using assms(2) io_bounded_reply [OF sn] by (simp add: conn_defs start_file_def)
  with fin show ?thesis by (auto dest: stop_loc_keeps)
qed

lemma get_dir_keeps:
  assumes "shttpd_get_dir os ctx c w = Inr (c', w')" and "conn_at f c"
  shows "conn_at f c'"
  using assms
  by (auto simp: shttpd_get_dir_def Let_def rbind_Inr_iff conn_defs split: option.splits
      dest!: send_server_error_keeps [where f = f] io_bounded_reply io_clear_Inr [OF _ io_ok_bounded])

section \<open>The contract of callbacks\<close>

text \<open>
  What \<open>shttpd.h\<close> asks of a callback: to write not more than the output space it is given and to
  consume not more than the input it is given. A callback that honours it never makes the
  accounting in \<open>call_user\<close> fail.
\<close>

definition arg_fits :: "nat \<Rightarrow> nat \<Rightarrow> shttpd_arg \<Rightarrow> bool" where
  "arg_fits n k arg \<longleftrightarrow>
     length (a_out arg) = n \<and> a_out_num_bytes arg \<le> n \<and> length (a_in arg) = k \<and> a_in_num_bytes arg \<le> k"

locale user_callback =
  fixes cb :: "'w callback_fun"
  assumes honours: "cb w c arg = Inr (arg', w') \<Longrightarrow> arg_fits n k arg \<Longrightarrow> arg_fits n k arg'"
begin

lemma accounted:
  assumes "conn_ok c" and run: "cb w c (user_arg fl c) = Inr (arg, w')"
  shows "\<exists>c'. call_user cb fl c w = Inr (c', w') \<and> conn_ok c' \<and>
    io_bytes (s_io (c_loc c')) = io_bytes (s_io (c_loc c)) @ sent arg \<and>
    io_bytes (s_io (c_rem c')) = drop (a_in_num_bytes arg) (io_bytes (s_io (c_rem c)))"
proof -
  let ?l = "s_io (c_loc c)" and ?r = "s_io (c_rem c)"
  have ok: "io_ok ?l" "io_ok ?r" using assms(1) by (simp_all add: conn_ok_def)
  let ?space = "io_size ?l - io_head ?l"
  have "arg_fits ?space (length (io_bytes ?r)) (user_arg fl c)"
    using ok by (simp add: arg_fits_def user_arg_def call_arg_def io_ok_def)
  from honours [OF run this]
  have fits: "length (a_out arg) = ?space" "a_out_num_bytes arg \<le> ?space"
    "a_in_num_bytes arg \<le> length (io_bytes ?r)" by (auto simp: arg_fits_def)
  define buf where "buf = take (io_head ?l) (io_buf ?l) @ a_out arg"
  have w: "wr_all (io_buf ?l) (io_head ?l) (a_out arg) = Inr buf"
    using ok(1) fits(1) by (simp add: wr_all_def io_ok_def buf_def)
  have ok1: "io_ok (?l\<lparr>io_buf := buf\<rparr>)" using ok(1) w by (intro io_ok_buf) (auto dest: wr_all_Inr)
  define lio where "lio = ?l\<lparr>io_buf := buf, io_head := io_head ?l + a_out_num_bytes arg,
                             io_total := add_size_t (io_total ?l) (a_out_num_bytes arg)\<rparr>"
  have "io_head ?l + a_out_num_bytes arg \<le> io_size ?l" using ok(1) fits(2) unfolding io_ok_def by linarith
  then have h: "io_inc_head (?l\<lparr>io_buf := buf\<rparr>) (a_out_num_bytes arg) = Inr lio"
    using ok1 by (simp add: io_inc_head_def io_ok_def lio_def)
  have "a_out_num_bytes arg < 2 ^ 31" using ok(1) fits(2) unfolding io_ok_def by linarith
  then have "io_ok lio" by (rule io_inc_head_Inr [OF h ok1])
  moreover have "io_bytes lio = io_bytes ?l @ sent arg"
  proof -
    have "io_tail ?l + min (io_size ?l - io_tail ?l) (io_head ?l - io_tail ?l) = io_head ?l"
      using ok(1) by (auto simp: io_ok_def min_def)
    then show ?thesis
      using ok(1) by (simp add: io_bytes_def lio_def buf_def io_ok_def sent_def drop_take)
  qed
  moreover obtain rio where rio: "io_inc_tail ?r (a_in_num_bytes arg) = Inr rio" "io_ok rio"
      "io_bytes rio = drop (a_in_num_bytes arg) (io_bytes ?r)"
    using io_inc_tail_ok [OF ok(2) fits(3)] by blast
  moreover have "call_user cb fl c w =
      Inr (c\<lparr>c_loc := after_call (c_loc c) lio arg, c_rem := (c_rem c)\<lparr>s_io := rio\<rparr>\<rparr>, w')"
    using ok run w h rio(1) by (simp add: call_user_def Let_def)
  ultimately show ?thesis by (simp add: conn_ok_def)
qed

end

lemma shttpd_printf_fits_arg:
  assumes "shttpd_printf neg arg t = Inr (len, arg')" and "arg_fits n k arg"
  shows "arg_fits n k arg'"
proof (cases "a_out_num_bytes arg < length (a_out arg)")
  case True
  with assms show ?thesis
    by (auto simp: shttpd_printf_def Let_def rbind_Inr_iff arg_fits_def vsnprintf_def
        dest!: wr_all_Inr split: if_splits)
next
  case False
  with assms show ?thesis by (simp add: shttpd_printf_def Let_def)
qed

lemma rho_write_data_fits:
  "rho_write_data os arg = Inr arg' \<Longrightarrow> arg_fits n k arg \<Longrightarrow> arg_fits n k arg'"
  by (auto simp: rho_write_data_def rbind_Inr_iff arg_fits_def split: emb_state.splits if_splits prod.splits
      dest!: shttpd_printf_fits_arg [where n = n and k = k])

lemma create_write_state_fits:
  "rho_create_write_state os w arg data = Inr arg' \<Longrightarrow> arg_fits n k arg \<Longrightarrow> arg_fits n k (arg'\<lparr>a_user_data := d\<rparr>)"
  by (auto simp: rho_create_write_state_def arg_fits_def split: if_splits)

lemma serve_answer_fits:
  "serve_answer os w route arg req = Inr (arg', w') \<Longrightarrow> arg_fits n k arg \<Longrightarrow> arg_fits n k arg'"
  by (auto simp: serve_answer_def Let_def rbind_Inr_iff split: prod.splits
      intro: rho_write_data_fits create_write_state_fits)

lemma serve_finish_fits:
  "serve_finish os w c route arg nread chunks = Inr (arg', w') \<Longrightarrow> arg_fits n k arg \<Longrightarrow> arg_fits n k arg'"
  by (auto simp: serve_finish_def rbind_Inr_iff intro: serve_answer_fits)

lemma rho_serve_fits:
  assumes "rho_serve os w c arg = Inr (arg', w')" and "arg_fits n k arg"
  shows "arg_fits n k arg'"
proof -
  have upd: "arg_fits n k (arg\<lparr>a_state := st, a_in_num_bytes := length (a_in arg)\<rparr>)"
    "arg_fits n k (arg\<lparr>a_state := st\<rparr>)" "arg_fits n k (arg\<lparr>a_state := st, a_user_data := d\<rparr>)" for st d
    using assms(2) by (simp_all add: arg_fits_def)
  have flag: "arg_fits n k (a\<lparr>a_flags := f\<rparr>) \<longleftrightarrow> arg_fits n k a" for a f by (simp add: arg_fits_def)
  show ?thesis
  proof (cases "has (a_flags arg) SHTTPD_CONNECTION_ERROR")
    case True
    with assms show ?thesis by (auto simp: rho_serve_def arg_fits_def)
  next
    case live: False
    show ?thesis
    proof (cases "a_user_data arg")
      case No_Data
      with assms live show ?thesis by (auto simp: rho_serve_def rbind_Inr_iff intro: rho_write_data_fits)
    next
      case (Data_Route route)
      with assms(1) live obtain st where st: "serve_read_state os w c (a_state arg) = Inr st"
        by (auto simp: rho_serve_def rbind_Inr_iff)
      show ?thesis
      proof (cases st)
        case (Read_State cl nread chunks)
        with assms(1) live Data_Route st show ?thesis
          by (cases "collect_data os w chunks (a_in arg)")
             (auto simp: rho_serve_def rbind_Inr_iff Let_def flag split: if_splits
               intro: upd serve_finish_fits [OF _ upd(1)] serve_finish_fits [OF _ upd(2)]
               dest!: shttpd_printf_fits_arg [OF _ upd(2)])
      qed (use assms(1) live Data_Route st in \<open>auto simp: rho_serve_def\<close>)
    qed (use assms(1) live in \<open>auto simp: rho_serve_def\<close>)
  qed
qed

lemma rho_serve_index_fits:
  assumes "rho_serve_index os w c arg = Inr (arg', w')" and "arg_fits n k arg"
  shows "arg_fits n k arg'"
  using assms unfolding rho_serve_index_def
  by (auto simp: rbind_Inr_iff Let_def arg_fits_def [of _ _ "_\<lparr>a_state := No_State, a_user_data := No_Data\<rparr>"]
      split: if_splits user_data.splits prod.splits
      intro: rho_write_data_fits create_write_state_fits)
     (simp_all add: arg_fits_def)

interpretation serve: user_callback "rho_serve os" for os
  by unfold_locales (rule rho_serve_fits)

interpretation serve_index: user_callback "rho_serve_index os" for os
  by unfold_locales (rule rho_serve_index_fits)

text \<open>
  C28. The output and the input of a request served by the dispatcher are always accounted for: when
  \<open>rho_serve\<close> itself returns, \<open>call_user\<close> passes every assertion, the bytes the callback wrote are
  appended to the output buffer of the connection, exactly the input it reported is removed from
  the input buffer, and both buffers stay well formed.
\<close>

theorem call_user_accounts_for_rho_serve:
  assumes "conn_ok c" and "rho_serve os w c (user_arg fl c) = Inr (arg, w')"
  shows "\<exists>c'. call_user (rho_serve os) fl c w = Inr (c', w') \<and> conn_ok c' \<and>
    io_bytes (s_io (c_loc c')) = io_bytes (s_io (c_loc c)) @ sent arg \<and>
    io_bytes (s_io (c_rem c')) = drop (a_in_num_bytes arg) (io_bytes (s_io (c_rem c)))"
  using assms by (rule serve.accounted)

theorem call_user_accounts_for_rho_serve_witness:
  "\<exists>c' arg. rho_serve sample_os [] zero_conn (user_arg SHTTPD_CONNECTION_ERROR zero_conn) = Inr (arg, []) \<and>
    call_user (rho_serve sample_os) SHTTPD_CONNECTION_ERROR zero_conn [] = Inr (c', []) \<and> conn_ok c'"
proof -
  have ok: "conn_ok zero_conn"
    by (simp add: conn_ok_def zero_conn_def io_ok_zero_stream OUT_BUF_MAX_def INPUT_BUF_MAX_def)
  have "has (SHTTPD_CONNECTION_ERROR OR input_flags zero_conn) SHTTPD_CONNECTION_ERROR"
    by (simp add: has_def flag_defs)
  then have run: "rho_serve sample_os [] zero_conn (user_arg SHTTPD_CONNECTION_ERROR zero_conn)
      = Inr ((user_arg SHTTPD_CONNECTION_ERROR zero_conn)\<lparr>a_user_data := No_Data, a_state := No_State\<rparr>, [])"
    by (simp add: rho_serve_def user_arg_def call_arg_def)
  from call_user_accounts_for_rho_serve [OF ok run] run show ?thesis by blast
qed

section \<open>Ranges\<close>

lemma takeWhile_isdigit_dec:
  assumes "r = [] \<or> \<not> isdigit (hd r)"
  shows "takeWhile isdigit (dec n @ r) = dec n" and "dropWhile isdigit (dec n @ r) = r"
  using assms by (cases r; simp add: isdigit_dec)+

lemma scan_number_dec:
  assumes "r = [] \<or> \<not> isdigit (hd r)"
  shows "scan_number (dec n @ r) = (False, dec n, r)"
proof -
  obtain c t where c: "dec n = c # t" "isdigit c" using dec_Cons by blast
  then have "scan_sign (dropWhile isspace (dec n @ r)) = (False, dec n @ r)"
    by (simp add: isdigit_not_space scan_sign_digit)
  then show ?thesis by (simp add: scan_number_def takeWhile_isdigit_dec [OF assms])
qed

lemma ulong_value_dec: "n < 2 ^ 32 \<Longrightarrow> ulong_value False (dec n) = int n"
  by (simp add: ulong_value_def ULONG_MAX_def)

lemma scan_range_dec:
  assumes "v_vec ch H_range = (''bytes='' @ dec a @ ''-'' @ dec b @ r, n)" and "0 < n"
    and "a < 2 ^ 32" and "b < 2 ^ 32" and "r = [] \<or> \<not> isdigit (hd r)"
  shows "scan_range ch = [VInt (int a), VInt (int b)]"
  using assms
  by (simp add: scan_range_def range_format_def scan_number_dec ulong_value_dec isdigit_def)

text \<open>
  A \<open>Range: bytes=a-b\<close> header is taken at its word: the reply is 206 and starts at byte \<open>a\<close>, and
  the announced length is \<open>b - a + 1\<close> in 32-bit unsigned arithmetic. The size of the file plays no
  part, so for \<open>a \<le> b\<close> inside the file the length is right, while a reversed range announces
  almost \<open>2^32\<close> bytes and a range behind the end announces bytes the file does not have.
\<close>

lemma file_range_length:
  assumes "v_vec (c_ch c) H_range = (''bytes='' @ dec a @ ''-'' @ dec b @ r, n)" and "0 < n"
    and "a < 2 ^ 32" and "b < 2 ^ 32" and "r = [] \<or> \<not> isdigit (hd r)"
  shows "\<exists>rg. file_range (c_ch c) sz =
     (206, ''Partial Content'', Some (int a), (if a \<le> b + 1 then b + 1 - a else 2 ^ 32 + b + 1 - a) mod 2 ^ 32, rg)"
proof -
  have "ulong (int b - int a + 1) = (if a \<le> b + 1 then b + 1 - a else 2 ^ 32 + b + 1 - a) mod 2 ^ 32"
  proof (cases "a \<le> b + 1")
    case True
    then have "int b - int a + 1 = int (b + 1 - a)" by simp
    then show ?thesis using True by (simp only: ulong_def if_True nat_mod_as_int) (simp add: nat_mod_distrib)
  next
    case False
    then have "int b - int a + 1 = int (2 ^ 32 + b + 1 - a) - 2 ^ 32" using assms(3) by simp
    then have "(int b - int a + 1) mod 2 ^ 32 = int (2 ^ 32 + b + 1 - a) mod 2 ^ 32"
      by (metis minus_mod_self2)
    then show ?thesis using False by (simp only: ulong_def if_False) (simp add: nat_mod_distrib)
  qed
  then show ?thesis by (simp add: file_range_def scan_range_dec [OF assms] Let_def)
qed

lemma file_range_length_witness:
  "\<exists>rg. file_range (no_headers(H_range \<mapsto> (''Range: '', HDR_STRING ''bytes=7-3'' 9))) 100 =
     (206, ''Partial Content'', Some 7, 4294967293, rg)"
proof -
  have "dec 7 = ''7''" "dec 3 = ''3''" by code_simp+
  then show ?thesis
    using file_range_length
      [of "zero_conn\<lparr>c_ch := no_headers(H_range \<mapsto> (''Range: '', HDR_STRING ''bytes=7-3'' 9))\<rparr>" 7 3 "[]" 9 100]
    by (simp add: v_vec_def)
qed

end
