(* ===== verification/ShttpdRequest.thy ===== *)
theory ShttpdRequest
  imports ShttpdStreams
begin

text \<open>
  From the bytes of a request to the stream that answers it (\<open>shttpd.c\<close>): parsing the header lines
  and the request line, and deciding who serves the request - a registered callback, the Ruby
  framework, a file, a directory listing or an error reply.
\<close>

section \<open>Header lines\<close>

datatype hdr_type = T_INT | T_DATE | T_STRING

definition http_headers :: "(nat \<times> hdr_type \<times> hdr \<times> string) list" where
  "http_headers =
     [(16, T_INT, H_cl, ''Content-Length: ''),
      (14, T_STRING, H_ct, ''Content-Type: ''),
      (12, T_STRING, H_useragent, ''User-Agent: ''),
      (19, T_DATE, H_ims, ''If-Modified-Since: ''),
      (15, T_STRING, H_auth, ''Authorization: ''),
      (9, T_STRING, H_referer, ''Referer: ''),
      (8, T_STRING, H_cookie, ''Cookie: ''),
      (10, T_STRING, H_location, ''Location: ''),
      (8, T_INT, H_status, ''Status: ''),
      (7, T_STRING, H_range, ''Range: ''),
      (12, T_STRING, H_connection, ''Connection: ''),
      (19, T_STRING, H_transenc, ''Transfer-Encoding: ''),
      (8, T_STRING, H_accept, ''Accept: ''),
      (17, T_STRING, H_accept_encoding, ''Accept-Encoding: ''),
      (17, T_STRING, H_accept_language, ''Accept-Language: ''),
      (6, T_STRING, H_host, ''Host: ''),
      (18, T_STRING, H_x_requested_with, ''X-Requested-With: '')]"

text \<open>
  The value of the header that starts at \<open>s\<close> and whose line ends at \<open>p\<close>; \<open>epoch\<close> turns a date into
  seconds. A carriage return in front of the line end is not part of a string value.
\<close>

definition header_value :: "(string \<Rightarrow> int) \<Rightarrow> string \<Rightarrow> nat \<Rightarrow> nat \<Rightarrow> hdr_type \<Rightarrow> hdr_val" where
  "header_value epoch t s p ty =
     (case ty of
        T_STRING \<Rightarrow>
          HDR_STRING (drop s t) (if c_at t (p - 1) = CHR 0x0D \<and> p - s > 0 then p - s - 1 else p - s)
      | T_INT \<Rightarrow> HDR_INT (strtoul (drop s t))
      | T_DATE \<Rightarrow> HDR_DATE (epoch (drop s t)))"

definition known_header :: "string \<Rightarrow> nat \<Rightarrow> nat \<Rightarrow> (nat \<times> hdr_type \<times> hdr \<times> string) option" where
  "known_header t len s =
     List.find (\<lambda>(hl, _, _, name). len - s > hl \<and> shttpd_strncasecmp (drop s t) name hl = 0) http_headers"

text \<open>The loop of \<open>_shttpd_parse_headers\<close> over the first \<open>len\<close> bytes of \<open>t\<close>, from \<open>s\<close> on.\<close>

function parse_headers_loop :: "(string \<Rightarrow> int) \<Rightarrow> string \<Rightarrow> nat \<Rightarrow> nat \<Rightarrow> headers \<Rightarrow> headers" where
  "parse_headers_loop epoch t len s parsed =
     (if s < len
      then
        let p = s + length (takeWhile (\<lambda>c. c \<noteq> CHR 0x0A) (take (len - s) (drop s t)));
            parsed' = (case known_header t len s of
                         None \<Rightarrow> parsed
                       | Some (hl, ty, h, name) \<Rightarrow>
                           parsed(h \<mapsto> (name, header_value epoch t (s + hl) p ty)))
        in parse_headers_loop epoch t len (p + 1) parsed'
      else parsed)"
  by pat_completeness auto

termination
  by (relation "measure (\<lambda>(_, _, len, s, _). len - s)") auto

declare parse_headers_loop.simps [simp del]

definition shttpd_parse_headers :: "(string \<Rightarrow> int) \<Rightarrow> string \<Rightarrow> nat \<Rightarrow> headers \<Rightarrow> headers" where
  "shttpd_parse_headers epoch s len parsed = parse_headers_loop epoch s len 0 parsed"

section \<open>Index files and path information\<close>

text \<open>
  \<open>find_index_file\<close>: the first index file that exists in the directory \<open>path\<close>. The result is the new
  path, its status, and the index name, which the caller keeps in an array of 50 bytes.
\<close>

fun find_index_loop ::
  "'w os \<Rightarrow> 'w \<Rightarrow> string \<Rightarrow> nat \<Rightarrow> (string \<times> nat) list \<Rightarrow> ((string \<times> stat \<times> string) option) res" where
  "find_index_loop os w path maxpath [] = Inr None"
| "find_index_loop os w path maxpath ((s, len) # ws) =
     (let buf = fmt_buf FILENAME_MAX (path @ take len s)
      in case os_stat os w buf of
           Some st \<Rightarrow> if len < 50 then Inr (Some (take (maxpath - 1) buf, st, take len s))
                      else Inl Out_Of_Bounds
         | None \<Rightarrow> find_index_loop os w path maxpath ws)"

definition find_index_file ::
  "'w os \<Rightarrow> 'w \<Rightarrow> ctx \<Rightarrow> string \<Rightarrow> nat \<Rightarrow> ((string \<times> stat \<times> string) option) res" where
  "find_index_file os w ctx path maxpath =
     find_index_loop os w path maxpath (for_each_word (ctx_options ctx OPT_INDEX_FILES))"

text \<open>
  \<open>get_path_info\<close>: when the path itself does not exist, trailing parts are stripped at slashes, from
  the end towards position \<open>e\<close>, until a file is found. The result is the path found, its status and
  the part stripped.
\<close>

fun path_info_loop ::
  "'w os \<Rightarrow> 'w \<Rightarrow> string \<Rightarrow> nat \<Rightarrow> nat \<Rightarrow> (string \<times> stat \<times> string option) option" where
  "path_info_loop os w path e 0 = None"
| "path_info_loop os w path e (Suc p) =
     (if Suc p > e
      then if c_at path (Suc p) = CHR ''/''
           then (case os_stat os w (take (Suc p) path) of
                   Some st \<Rightarrow> if \<not> st_isdir st
                              then Some (take (Suc p) path, st, Some (drop (Suc (Suc p)) path))
                              else path_info_loop os w path e p
                 | None \<Rightarrow> path_info_loop os w path e p)
           else path_info_loop os w path e p
      else None)"

definition get_path_info ::
  "'w os \<Rightarrow> 'w \<Rightarrow> string \<Rightarrow> string \<Rightarrow> (string \<times> stat \<times> string option) option" where
  "get_path_info os w root path =
     (case os_stat os w path of
        Some st \<Rightarrow> Some (path, st, None)
      | None \<Rightarrow> path_info_loop os w path (length root + 2) (length path))"

section \<open>Who answers\<close>

type_synonym 'w step = "conn \<Rightarrow> 'w \<Rightarrow> (conn \<times> 'w) res"

text \<open>\<open>strcat\<close> into the local array \<open>path[URI_MAX]\<close>.\<close>

definition strcat_path :: "string \<Rightarrow> string \<Rightarrow> string res" where
  "strcat_path path s = (if length path + length s < URI_MAX then Inr (path @ s) else Inl Out_Of_Bounds)"

text \<open>PUT: the status tells whether the file is new.\<close>

definition serve_put :: "'w os \<Rightarrow> ctx \<Rightarrow> string \<Rightarrow> 'w step" where
  "serve_put os ctx path c w =
     (let c1 = c\<lparr>c_status := (if os_stat os w path = None then 201 else 200)\<rparr>
      in if snd (v_vec (c_ch c) H_range) > 0
         then shttpd_send_server_error os ctx 501 ''PUT Range Not Implemented'' c1 w
         else rbind (shttpd_put_dir os path w) (\<lambda>(rc, w1).
           if rc = 0 then shttpd_send_server_error os ctx 200 ''OK'' c1 w1
           else if rc = -1 then shttpd_send_server_error os ctx 500 ''PUT Directory Error'' c1 w1
           else if s_content_len (c_rem c) = 0
                then shttpd_send_server_error os ctx 411 ''Length Required'' c1 w1
           else
             let (fd, w2) = os_open_write os w1 path;
                 c2 = upd_s Loc (\<lambda>s. s\<lparr>s_fd := fd\<rparr>) c1
             in if fd = -1 then shttpd_send_server_error os ctx 500 ''PUT Error'' c2 w2
                else Inr (upd_s Loc (\<lambda>s. s\<lparr>s_class := Some Io_file,
                            s_flags := s_flags s OR (FLAG_W OR FLAG_ALWAYS_READY)\<rparr>) c2, w2)))"

definition serve_delete :: "'w os \<Rightarrow> ctx \<Rightarrow> string \<Rightarrow> 'w step" where
  "serve_delete os ctx path c w =
     (let (ok, w1) = os_remove os w path
      in if ok then shttpd_send_server_error os ctx 200 ''OK'' c w1
         else shttpd_send_server_error os ctx 500 ''DELETE Error'' c w1)"

definition moved_text :: string where
  "moved_text = ''Moved Permanently'' @ crlf @ ''Location: ''"

text \<open>A directory: redirect to its index file, or list it when that is allowed.\<close>

definition serve_directory :: "'w os \<Rightarrow> ctx \<Rightarrow> string \<Rightarrow> string \<Rightarrow> 'w step" where
  "serve_directory os ctx uri path c w =
     rbind (last_char path) (\<lambda>lc.
     rbind (if lc \<noteq> CHR ''/'' then strcat_path path ''/'' else Inr path) (\<lambda>path1.
     rbind (find_index_file os w ctx path1 (URI_MAX - 1)) (\<lambda>ix.
       case ix of
         Some (path2, st, index) \<Rightarrow>
           rbind (last_char uri) (\<lambda>uc.
             let path3 = fmt_buf URI_MAX (moved_text @ uri @ (if uc \<noteq> CHR ''/'' then ''/'' else []) @ index);
                 c1 = c\<lparr>c_mime_type := shttpd_get_mime_type (ctx_options ctx OPT_MIME_TYPES) index (length index)\<rparr>
             in rbind (case c_query c of
                         Some (q # qs) \<Rightarrow>
                           rbind (strcat_path path3 ''?'') (\<lambda>p. strcat_path p (q # qs))
                       | _ \<Rightarrow> Inr path3) (\<lambda>path4.
                shttpd_send_server_error os ctx 301 path4 c1 w))
       | None \<Rightarrow>
           if \<not> IS_TRUE ctx OPT_DIR_LIST
           then shttpd_send_server_error os ctx 403 ''Directory Listing Denied'' c w
           else if os_malloc os w (length path1 + 1)
           then shttpd_get_dir os ctx (upd_s Loc (\<lambda>s. s\<lparr>s_dir := (path1, [])\<rparr>) c) w
           else shttpd_send_server_error os ctx 500 ''GET Directory Error'' c w)))"

definition serve_file :: "'w os \<Rightarrow> ctx \<Rightarrow> int \<Rightarrow> string \<Rightarrow> stat \<Rightarrow> 'w step" where
  "serve_file os ctx now path st c w =
     (if isindex (ctx_options ctx OPT_INDEX_FILES) path
      then Inr (shttpd_setup_embedded_stream Cb_rho_serve_index
                  (if os_malloc os w (length path + 1) then Data_Path path else No_Data) c, w)
      else if v_time (c_ch c) H_ims \<noteq> 0 \<and> st_mtime st \<le> v_time (c_ch c) H_ims
      then shttpd_send_server_error os ctx 304 ''Not Modified'' c w
      else
        let (fd, w1) = os_open_read os w path;
            c1 = upd_s Loc (\<lambda>s. s\<lparr>s_fd := fd\<rparr>) c
        in if fd \<noteq> -1 then shttpd_get_file os ctx now st c1 w1
           else shttpd_send_server_error os ctx 500 ''Internal Error'' c1 w1)"

text \<open>
  The URI as the rest of the decision sees it: the query is cut off at the first question mark, then
  the rest is decoded and cleaned in place.
\<close>

definition split_query :: "string \<Rightarrow> string \<times> string option" where
  "split_query uri =
     (let u = takeWhile (\<lambda>ch. ch \<noteq> CHR ''?'') uri
      in if length u < length uri then (u, Some (drop (length u + 1) uri)) else (u, None))"

definition clean_uri :: "string \<Rightarrow> string res" where
  "clean_uri u =
     rbind (shttpd_url_decode (u @ [NUL]) 0 (length u) 0 (length u + 1)) (\<lambda>(_, m).
     rbind (remove_double_dots m 0) (\<lambda>m1. Inr (cstr m1)))"

definition request_path :: "ctx \<Rightarrow> string \<Rightarrow> string \<Rightarrow> string" where
  "request_path ctx root uri =
     (case is_alias (ctx_options ctx OPT_ALIASES) uri of
        None \<Rightarrow> fmt_buf URI_MAX (root @ uri)
      | Some (a_uri, a_path) \<Rightarrow> fmt_buf URI_MAX (a_path @ drop (length a_uri) uri))"

definition decide_what_to_do :: "'w os \<Rightarrow> ctx \<Rightarrow> int \<Rightarrow> 'w step" where
  "decide_what_to_do os ctx now c w =
     (case (c_uri c, ctx_options ctx OPT_ROOT) of
        (Some uri0, Some root) \<Rightarrow>
          let (u, q) = split_query uri0
          in rbind (clean_uri u) (\<lambda>uri.
               let c1 = c\<lparr>c_query := q, c_uri := Some uri\<rparr>
               in if length uri + length root \<ge> URI_MAX
                  then shttpd_send_server_error os ctx 400 ''URI is too long'' c1 w
                  else
                    let path = request_path ctx root uri
                    in rbind (shttpd_is_registered_uri ctx uri) (\<lambda>ruri.
                      case ruri of
                        Some r \<Rightarrow> Inr (shttpd_setup_embedded_stream (reg_callback r) (reg_data r) c1, w)
                      | None \<Rightarrow>
                          if strstr path HTPASSWD \<noteq> None
                          then shttpd_send_server_error os ctx 403 ''Forbidden'' c1 w
                          else rbind (rho_dispatch os w uri path) (\<lambda>route.
                            case route of
                              Some rt \<Rightarrow> Inr (shttpd_setup_embedded_stream Cb_rho_serve (Data_Route rt) c1, w)
                            | None \<Rightarrow>
                                if c_method c1 = METHOD_PUT then serve_put os ctx path c1 w
                                else if c_method c1 = METHOD_DELETE then serve_delete os ctx path c1 w
                                else case get_path_info os w root path of
                                       None \<Rightarrow> shttpd_send_server_error os ctx 404 ''Not Found'' c1 w
                                     | Some (path1, st, info) \<Rightarrow>
                                         let c2 = (if info = None then c1 else c1\<lparr>c_path_info := info\<rparr>)
                                         in if st_isdir st then serve_directory os ctx uri path1 c2 w
                                            else serve_file os ctx now path1 st c2 w)))
      | _ \<Rightarrow> Inl Null_Deref)"

section \<open>The request line\<close>

definition set_request_method :: "conn \<Rightarrow> http_method option" where
  "set_request_method c =
     map_option snd (List.find (\<lambda>(name, _). take (length name) (io_buf (s_io (c_rem c))) = name) known_http_methods)"

text \<open>
  The request line in the copy of the request, whose line end has become a NUL: the URI is the second
  word, the rest must be a version. Positions are offsets into the copy.
\<close>

definition mark_headers :: "char list \<Rightarrow> int \<Rightarrow> (char list \<times> nat) res" where
  "mark_headers m req_len =
     (case memchr m (CHR 0x0A) (size_t req_len) of
        None \<Rightarrow> Inl (if length m < size_t req_len then Out_Of_Bounds else Assertion_Failed)
      | Some h \<Rightarrow>
          rbind (c_assert (int h < req_len)) (\<lambda>_.
            let m1 = (if h > 0 \<and> m ! (h - 1) = CHR 0x0D then m[h - 1 := NUL] else m)
            in Inr (m1[h := NUL], h + 1)))"

definition skip_while :: "(char \<Rightarrow> bool) \<Rightarrow> char list \<Rightarrow> nat \<Rightarrow> nat \<Rightarrow> nat" where
  "skip_while P m e p = p + length (takeWhile P (take (e - p) (drop p m)))"

definition version_format :: "scan_dir list" where
  "version_format = map Dir_Char ''HTTP/'' @ [Dir_Ulong, Dir_Char (CHR ''.''), Dir_Ulong]"

definition scan_version :: "string \<Rightarrow> (int \<times> int) option" where
  "scan_version s =
     (case sscanf version_format s of
        ([VInt maj, VInt mnr], Some []) \<Rightarrow> Some (maj, mnr)
      | _ \<Rightarrow> None)"

text \<open>\<open>sscanf\<close> stores the numbers it matched even when the version is rejected.\<close>

definition store_version :: "string \<Rightarrow> conn \<Rightarrow> conn" where
  "store_version s c =
     (case fst (sscanf version_format s) of
        [VInt maj] \<Rightarrow> c\<lparr>c_major_version := maj\<rparr>
      | [VInt maj, VInt mnr] \<Rightarrow> c\<lparr>c_major_version := maj, c_minor_version := mnr\<rparr>
      | _ \<Rightarrow> c)"

definition parse_request_line ::
  "'w os \<Rightarrow> ctx \<Rightarrow> int \<Rightarrow> nat \<Rightarrow> 'w step" where
  "parse_request_line os ctx now req_len c w =
     (case c_request c of
        None \<Rightarrow> Inl Null_Deref
      | Some m \<Rightarrow>
          let p0 = skip_while (\<lambda>ch. ch \<noteq> CHR '' '') m req_len 0;
              start = skip_while (\<lambda>ch. ch = CHR '' '') m req_len p0;
              p1 = skip_while (\<lambda>ch. \<not> isspace ch) m req_len start;
              uri_len = p1 - start;
              p2 = skip_while (\<lambda>ch. ch = CHR '' '') m req_len p1;
              version = cstr (drop p2 m);
              c1 = store_version version c
          in if scan_version version = None
             then shttpd_send_server_error os ctx 400 ''Bad HTTP version'' c1 w
             else if c_major_version c1 > 1 \<or> c_major_version c1 = 1 \<and> c_minor_version c1 > 1
             then shttpd_send_server_error os ctx 505 ''HTTP version not supported'' c1 w
             else if uri_len = 0
             then shttpd_send_server_error os ctx 400 ''Bad URI'' c1 w
             else if \<not> os_malloc os w (uri_len + 1)
             then shttpd_send_server_error os ctx 500 ''Cannot allocate URI'' c1 w
             else
               rbind (shttpd_strlcpy (replicate (uri_len + 1) NUL) 0 (drop start m) (uri_len + 1)) (\<lambda>ub.
                 let ch = shttpd_parse_headers (date_to_epoch (os_mktime os) (os_isdst os))
                            (drop (c_headers c1) m) (req_len - c_headers c1) (c_ch c1)
                 in rbind (c_assert (io_total (s_io (c_rem c1)) \<ge> req_len)) (\<lambda>_.
                      decide_what_to_do os ctx now
                        (c1\<lparr>c_uri := Some (cstr ub), c_ch := ch,
                            c_rem := (c_rem c1)\<lparr>s_io := (s_io (c_rem c1))\<lparr>io_total := io_total (s_io (c_rem c1)) - req_len\<rparr>,
                                                s_content_len := nat (v_big_int ch H_cl)\<rparr>\<rparr>) w)))"

text \<open>
  The checks in front of the parsing: afterwards the method is set and the request is copied, or an
  error reply is under way. The method is looked up at the start of the buffer.
\<close>

definition accept_request ::
  "'w os \<Rightarrow> ctx \<Rightarrow> int \<Rightarrow> 'w step" where
  "accept_request os ctx req_len c w =
     (if req_len < 16 then shttpd_send_server_error os ctx 400 ''Bad request'' c w
      else case set_request_method c of
             None \<Rightarrow> shttpd_send_server_error os ctx 501 ''Method Not Implemented'' c w
           | Some mth \<Rightarrow>
               if os_malloc os w (nat req_len + 1)
               then rbind (shttpd_strlcpy (replicate (nat req_len + 1) NUL) 0 (io_bytes (s_io (c_rem c))) (nat req_len + 1))
                      (\<lambda>m. Inr (c\<lparr>c_method := mth, c_request := Some m\<rparr>, w))
               else shttpd_send_server_error os ctx 500 ''Cannot allocate request'' (c\<lparr>c_method := mth\<rparr>) w)"

text \<open>
  An error reply that a registered handler produces does not close the stream: then the parsing goes on,
  with a length that may be -1 (converted to \<open>size_t\<close> for \<open>io_inc_tail\<close>) and without a copy of the request.
\<close>

definition parse_http_request :: "'w os \<Rightarrow> ctx \<Rightarrow> int \<Rightarrow> 'w step" where
  "parse_http_request os ctx now c0 w =
     rbind (io_data (s_io (c_rem c0))) (\<lambda>_.
     rbind (io_data_len (s_io (c_rem c0))) (\<lambda>dlen.
     rbind (shttpd_get_headers_len (io_bytes (s_io (c_rem c0))) dlen) (\<lambda>req_len.
     rbind (io_space_len (s_io (c_rem c0))) (\<lambda>space.
       let c = upd_s Rem (\<lambda>s. s\<lparr>s_headers_len := req_len\<rparr>) c0
       in if req_len = 0
          then if space = 0
               then rbind (io_clear (s_io (c_rem c))) (\<lambda>io.
                      shttpd_send_server_error os ctx 400 ''Request is too big'' (set_io Rem io c) w)
               else Inr (c, w)
          else rbind (accept_request os ctx req_len c w) (\<lambda>(c1, w1).
            if has (s_flags (c_loc c1)) FLAG_CLOSED then Inr (c1, w1)
            else rbind (io_inc_tail (s_io (c_rem c1)) (size_t req_len)) (\<lambda>rio.
                   let c2 = or_flags Rem FLAG_HEADERS_PARSED (set_io Rem rio c1)
                   in case c_request c2 of
                        None \<Rightarrow> Inl Null_Deref
                      | Some m \<Rightarrow>
                          rbind (mark_headers m req_len) (\<lambda>(m1, h).
                            parse_request_line os ctx now (nat req_len)
                              (c2\<lparr>c_request := Some m1, c_headers := h\<rparr>) w1)))))))"

section \<open>Header blocks round trip\<close>

text \<open>A header block as a client writes it, and what is read back of a value.\<close>

type_synonym header_line = "(nat \<times> hdr_type \<times> hdr \<times> string) \<times> string"

fun line_text :: "header_line \<Rightarrow> string" where
  "line_text ((_, _, _, name), v) = name @ v @ crlf"

definition header_block :: "header_line list \<Rightarrow> string" where
  "header_block ls = concat (map line_text ls) @ crlf"

fun hdr_show :: "hdr_val \<Rightarrow> string" where
  "hdr_show (HDR_STRING p n) = take n p"
| "hdr_show (HDR_INT i) = dec (nat i)"
| "hdr_show (HDR_DATE t) = []"

fun line_ok :: "header_line \<Rightarrow> bool" where
  "line_ok (e, v) \<longleftrightarrow>
     e \<in> set http_headers \<and> CHR 0x0A \<notin> set v \<and>
     (case fst (snd e) of
        T_STRING \<Rightarrow> True
      | T_INT \<Rightarrow> (\<exists>n<2 ^ 32. v = dec n)
      | T_DATE \<Rightarrow> False)"

definition shown :: "headers \<Rightarrow> hdr \<Rightarrow> (string \<times> string) option" where
  "shown ch h = map_option (\<lambda>(name, v). (name, hdr_show v)) (ch h)"

definition line_entry :: "header_line \<Rightarrow> hdr \<times> string \<times> string" where
  "line_entry l = (case l of ((_, _, h, name), v) \<Rightarrow> (h, name, v))"

text \<open>The table is sound: names have the stated length, and no two can match the same text.\<close>

definition name_key :: "string \<Rightarrow> string" where
  "name_key name = takeWhile (\<lambda>c. c \<noteq> CHR '':'') (map tolower name)"

lemma table_sound:
  "list_all (\<lambda>(hl, ty, h, name). hl = length name \<and> 0 < hl \<and> NUL \<notin> set name \<and> CHR 0x0A \<notin> set name) http_headers"
  by (simp add: http_headers_def)

lemma table_colon: "list_all (\<lambda>(hl, ty, h, name). CHR '':'' \<in> set (map tolower name)) http_headers"
  by code_simp

lemma table_distinct: "distinct (map (\<lambda>(hl, ty, h, name). name_key name) http_headers)"
  by code_simp

lemma name_key_match:
  assumes "shttpd_strncasecmp y b (length b) = 0" and "NUL \<notin> set b" and "CHR '':'' \<in> set (map tolower b)"
  shows "name_key (cstr y) = name_key b"
proof -
  have "b \<noteq> []" using assms(3) by auto
  then have "map tolower (take (length b) (cstr y)) = map tolower b"
    using assms(1,2) by (simp add: shttpd_strncasecmp_zero)
  then have "map tolower (cstr y) = map tolower b @ map tolower (drop (length b) (cstr y))"
    by (metis append_take_drop_id map_append)
  then show ?thesis using assms(3) by (simp only: name_key_def) (auto intro: takeWhile_append1)
qed

lemma find_unique:
  assumes "x \<in> set xs" and "P x" and "\<And>y. y \<in> set xs \<Longrightarrow> P y \<Longrightarrow> y = x"
  shows "List.find P xs = Some x"
  using assms
proof (induction xs)
  case (Cons a xs)
  show ?case
  proof (cases "P a")
    case True
    then have "a = x" by (intro Cons.prems(3)) simp_all
    with True show ?thesis by simp
  next
    case False
    then have "x \<in> set xs" using Cons.prems(1,2) by auto
    then have "List.find P xs = Some x"
      by (rule Cons.IH [OF _ Cons.prems(2)]) (intro Cons.prems(3); simp)
    with False show ?thesis by simp
  qed
qed simp

lemma known_header_line:
  assumes "(hl, ty, h, name) \<in> set http_headers" and "drop s t = name @ x" and "hl < len - s"
  shows "known_header t len s = Some (hl, ty, h, name)"
  unfolding known_header_def
proof (rule find_unique)
  have snd_ok: "hl = length name" "0 < hl" "NUL \<notin> set name" "CHR '':'' \<in> set (map tolower name)"
    using table_sound table_colon assms(1) unfolding list_all_iff by auto
  have "cstr (name @ x) = name @ cstr x"
    using snd_ok unfolding cstr_def by (subst takeWhile_append2) auto
  then have match: "shttpd_strncasecmp (drop s t) name (length name) = 0"
    using assms(2) snd_ok shttpd_strncasecmp_zero [of "length name" "drop s t" name] by simp
  with assms(3) snd_ok(1) show "(case (hl, ty, h, name) of (hl, _, _, name) \<Rightarrow>
      len - s > hl \<and> shttpd_strncasecmp (drop s t) name hl = 0)" by simp
  fix y
  assume y: "y \<in> set http_headers"
    and m: "case y of (hl, _, _, name) \<Rightarrow> len - s > hl \<and> shttpd_strncasecmp (drop s t) name hl = 0"
  obtain hl' ty' h' name' where y': "y = (hl', ty', h', name')" by (cases y)
  have "hl' = length name'" "NUL \<notin> set name'" "CHR '':'' \<in> set (map tolower name')"
    using table_sound table_colon y unfolding list_all_iff by (auto simp: y')
  with m have "name_key (cstr (drop s t)) = name_key name'"
    by (intro name_key_match) (auto simp: y')
  moreover have "name_key (cstr (drop s t)) = name_key name"
    using match snd_ok by (intro name_key_match) auto
  ultimately have "(\<lambda>(hl, ty, h, name). name_key name) y = (\<lambda>(hl, ty, h, name). name_key name) (hl, ty, h, name)"
    by (simp add: y')
  then show "y = (hl, ty, h, name)"
    using table_distinct y assms(1) unfolding distinct_map inj_on_def by blast
qed (fact assms(1))

lemma line_value:
  assumes "line_ok ((hl, ty, h, name), v)" and "drop s t = name @ v @ crlf @ x"
  shows "hdr_show (header_value epoch t (s + hl) (s + hl + length v + 1) ty) = v"
proof -
  have hl: "hl = length name" using assms(1) table_sound by (auto simp: list_all_iff)
  have val: "drop (s + hl) t = v @ crlf @ x"
    using arg_cong [OF assms(2), of "drop hl"] hl by (simp add: add.commute)
  have cr: "c_at t (s + hl + length v) = CHR 0x0D"
  proof -
    have "drop (s + hl + length v) t = crlf @ x"
      using arg_cong [OF val, of "drop (length v)"] by (simp add: add.commute)
    then show ?thesis unfolding c_at_def crlf_def
      by (metis append_Cons drop_all hd_drop_conv_nth list.distinct(1) list.sel(1) not_le_imp_less)
  qed
  show ?thesis
  proof (cases ty)
    case T_INT
    with assms(1) obtain n where n: "n < 2 ^ 32" "v = dec n" by auto
    then have "strtoul (drop (s + hl) t) = int n"
      unfolding val strtoul_def by (simp add: crlf_def isdigit_def scan_number_dec ulong_value_dec)
    with T_INT n show ?thesis by (simp add: header_value_def)
  next
    case T_STRING
    then show ?thesis using cr by (simp add: header_value_def val)
  next
    case T_DATE
    then show ?thesis using assms(1) by simp
  qed
qed

lemma takeWhile_line:
  assumes "CHR 0x0A \<notin> set a"
  shows "takeWhile (\<lambda>c. c \<noteq> CHR 0x0A) (a @ crlf @ x) = a @ [CHR 0x0D]"
proof -
  have "takeWhile (\<lambda>c. c \<noteq> CHR 0x0A) (a @ crlf @ x) = a @ takeWhile (\<lambda>c. c \<noteq> CHR 0x0A) (crlf @ x)"
    using assms by (intro takeWhile_append2) auto
  then show ?thesis by (simp add: crlf_def)
qed

lemma parse_headers_line:
  assumes ok: "line_ok ((hl, ty, h, name), v)" and t: "drop s t = line_text ((hl, ty, h, name), v) @ x"
  shows "\<exists>hv. hdr_show hv = v \<and> parse_headers_loop epoch t (length t) s parsed =
     parse_headers_loop epoch t (length t) (s + length (line_text ((hl, ty, h, name), v))) (parsed(h \<mapsto> (name, hv)))"
proof -
  have e: "(hl, ty, h, name) \<in> set http_headers" and v: "CHR 0x0A \<notin> set v" using ok by auto
  then have hl: "hl = length name" and lf: "CHR 0x0A \<notin> set (name @ v)"
    using table_sound by (auto simp: list_all_iff)
  have t': "drop s t = (name @ v) @ crlf @ x" using t by simp
  have len: "length t - s = length name + length v + 2 + length x"
    using arg_cong [OF t', of length] by (simp add: crlf_def)
  then have s: "s < length t" by simp
  have "takeWhile (\<lambda>c. c \<noteq> CHR 0x0A) (take (length t - s) (drop s t)) = (name @ v) @ [CHR 0x0D]"
  proof -
    have "take (length t - s) (drop s t) = drop s t" by simp
    then show ?thesis by (simp only: t' takeWhile_line [OF lf])
  qed
  then have p: "s + length (takeWhile (\<lambda>c. c \<noteq> CHR 0x0A) (take (length t - s) (drop s t))) = s + hl + length v + 1"
    by (simp add: hl)
  have "known_header t (length t) s = Some (hl, ty, h, name)"
    using known_header_line [OF e, of s t "v @ crlf @ x" "length t"] t' len hl by simp
  then have "parse_headers_loop epoch t (length t) s parsed =
      parse_headers_loop epoch t (length t) (s + hl + length v + 1 + 1)
        (parsed(h \<mapsto> (name, header_value epoch t (s + hl) (s + hl + length v + 1) ty)))"
    using s by (subst parse_headers_loop.simps) (simp only: p Let_def if_True option.simps prod.simps)
  moreover have "s + hl + length v + 1 + 1 = s + length (line_text ((hl, ty, h, name), v))"
    by (simp add: hl crlf_def)
  moreover have "hdr_show (header_value epoch t (s + hl) (s + hl + length v + 1) ty) = v"
    by (rule line_value [OF ok]) (use t' in simp)
  ultimately show ?thesis by metis
qed

lemma parse_headers_blank:
  assumes "drop s t = crlf"
  shows "parse_headers_loop epoch t (length t) s parsed = parsed"
proof -
  have len: "length t - s = 2" using arg_cong [OF assms, of length] by (simp add: crlf_def)
  then have s: "s < length t" by simp
  have "known_header t (length t) s = None"
    using len by (simp add: known_header_def find_None_iff http_headers_def)
  moreover have "length (takeWhile (\<lambda>c. c \<noteq> CHR 0x0A) (take (length t - s) (drop s t))) = 1"
    unfolding assms len by (simp add: crlf_def)
  moreover have "\<not> s + 1 + 1 < length t" using len by linarith
  then have "parse_headers_loop epoch t (length t) (s + 1 + 1) parsed = parsed"
    by (subst parse_headers_loop.simps) (simp only: if_False)
  ultimately show ?thesis using s by (subst parse_headers_loop.simps) (simp only: Let_def if_True option.simps)
qed

lemma shown_update:
  "hdr_show hv = v \<Longrightarrow> shown (ch(h \<mapsto> (name, hv))) = (shown ch)(h \<mapsto> (name, v))"
  by (auto simp: shown_def)

lemma shown_no_headers: "shown no_headers = Map.empty"
  by (simp add: shown_def no_headers_def fun_eq_iff)

lemma parse_headers_lines:
  "list_all line_ok ls \<Longrightarrow> drop s t = concat (map line_text ls) @ crlf \<Longrightarrow>
   shown (parse_headers_loop epoch t (length t) s parsed) = shown parsed ++ map_of (rev (map line_entry ls))"
proof (induction ls arbitrary: s parsed)
  case Nil
  then show ?case by (simp add: parse_headers_blank)
next
  case (Cons l ls)
  obtain hl ty h name v where l: "l = ((hl, ty, h, name), v)" by (metis prod.exhaust)
  let ?s = "s + length (line_text l)"
  have "line_ok ((hl, ty, h, name), v)" using Cons.prems(1) by (simp add: l)
  moreover have "drop s t = line_text ((hl, ty, h, name), v) @ concat (map line_text ls) @ crlf"
    using Cons.prems(2) by (simp add: l)
  ultimately obtain hv where hv: "hdr_show hv = v" "parse_headers_loop epoch t (length t) s parsed =
      parse_headers_loop epoch t (length t) ?s (parsed(h \<mapsto> (name, hv)))"
    using parse_headers_line [of hl ty h name v s t] unfolding l by blast
  have "drop ?s t = drop (length (line_text l)) (drop s t)" by (simp add: add.commute)
  then have "drop ?s t = concat (map line_text ls) @ crlf" using Cons.prems(2) by simp
  then have "shown (parse_headers_loop epoch t (length t) ?s (parsed(h \<mapsto> (name, hv))))
      = shown (parsed(h \<mapsto> (name, hv))) ++ map_of (rev (map line_entry ls))"
    using Cons by (intro Cons.IH) simp_all
  with hv show ?case by (simp add: l shown_update line_entry_def [of "((hl, ty, h, name), v)"])
qed

text \<open>
  C21. A header block round trips: for any sequence of known headers written as \<open>Name: value\<close> lines
  with carriage return and line feed and closed by an empty line - string values without line
  feeds, numbers below \<open>2^32\<close> - parsing finds for every header the value of the last line that
  names it, without the carriage return, and nothing for a header that no line names.
\<close>

theorem shttpd_parse_headers_roundtrip:
  assumes "list_all line_ok ls"
  shows "shown (shttpd_parse_headers epoch (header_block ls) (length (header_block ls)) no_headers)
         = map_of (rev (map line_entry ls))"
  using parse_headers_lines [OF assms, of 0 "header_block ls" epoch no_headers]
  by (simp add: shttpd_parse_headers_def header_block_def shown_no_headers)

theorem shttpd_parse_headers_roundtrip_witness:
  "let ls = [((16, T_INT, H_cl, ''Content-Length: ''), ''42''),
             ((6, T_STRING, H_host, ''Host: ''), ''localhost'')]
   in shown (shttpd_parse_headers (\<lambda>_. 0) (header_block ls) (length (header_block ls)) no_headers)
      = map_of (rev (map line_entry ls))"
proof -
  have "dec 42 = ''42''" by code_simp
  then have n: "\<exists>n<4294967296. ''42'' = dec n" by (intro exI [of _ 42]) simp
  have "list_all line_ok [((16, T_INT, H_cl, ''Content-Length: ''), ''42''),
      ((6, T_STRING, H_host, ''Host: ''), ''localhost'')]"
    using n by (simp add: http_headers_def)
  from shttpd_parse_headers_roundtrip [OF this, of "\<lambda>_. 0"] show ?thesis by (simp only: Let_def)
qed

section \<open>Decoded and cleaned URIs\<close>

lemma cstr_append_NUL_any: "cstr (s @ NUL # r) = cstr s"
  by (induction s) (auto simp: cstr_def)

lemma clean_uri_eq:
  assumes "NUL \<notin> set u"
  shows "clean_uri u = Inr (clean_path (cstr (pct_decode u)))"
proof -
  let ?m = "u @ [NUL]"
  have "\<not> isxdigit NUL" by code_simp
  then have "shttpd_url_decode ?m 0 (length u) 0 (length u + 1) =
      Inr (length (pct_decode u), store ?m 0 (pct_decode u))"
    using shttpd_url_decode_eq [of 0 "length u" ?m 0 "length u + 1"] length_pct_decode [of u]
    by (simp add: nth_append Let_def)
  moreover have c: "cstr (store ?m 0 (pct_decode u)) = cstr (pct_decode u)"
    by (simp add: store_def cstr_append_NUL_any)
  moreover have "NUL \<in> set (drop 0 (store ?m 0 (pct_decode u)))" by (simp add: store_def)
  from remove_double_dots_eq [OF this] c
  have "remove_double_dots (store ?m 0 (pct_decode u)) 0 =
      Inr (store (store ?m 0 (pct_decode u)) 0 (clean_path (cstr (pct_decode u))))" by simp
  moreover have "cstr (store m 0 (clean_path (cstr x))) = clean_path (cstr x)" for m x
  proof -
    have "NUL \<notin> set (clean_path (cstr x))" using set_clean_path [of "cstr x"] NUL_notin_cstr by blast
    then show ?thesis by (simp add: store_def cstr_append_NUL)
  qed
  ultimately show ?thesis by (simp add: clean_uri_def)
qed

lemma has_dots_infix: "is_sep s \<Longrightarrow> dot_or_sep d \<Longrightarrow> has_dots (x @ s # d # y)"
  by (induction x) (auto simp: has_dots_Cons)

text \<open>
  C26. Encoded path traversal is removed: whatever percent escapes the URI of a request contains, the
  URI the server goes on with is the decoded one, and it has no \<open>"/.."\<close>, no \<open>"/."\<close> and no doubled
  slash anywhere, because cleaning comes after decoding.
\<close>

theorem clean_uri_no_traversal:
  assumes "NUL \<notin> set u"
  shows "\<exists>uri. clean_uri u = Inr uri \<and> uri = clean_path (cstr (pct_decode u)) \<and>
    (\<forall>x y. uri \<noteq> x @ ''/.'' @ y) \<and> (\<forall>x y. uri \<noteq> x @ ''//'' @ y)"
proof -
  have no: "\<not> has_dots (clean_path (cstr (pct_decode u)))" by (rule clean_path_no_dots)
  have "clean_path (cstr (pct_decode u)) \<noteq> x @ ''/.'' @ y" "clean_path (cstr (pct_decode u)) \<noteq> x @ ''//'' @ y" for x y
    using no has_dots_infix [of "CHR ''/''" "CHR ''.''" x y] has_dots_infix [of "CHR ''/''" "CHR ''/''" x y]
    by (auto simp: is_sep_def dot_or_sep_def)
  with clean_uri_eq [OF assms] show ?thesis by blast
qed

theorem clean_uri_no_traversal_witness:
  "\<exists>uri. clean_uri ''/a/%2e%2e/%2e%2e/etc'' = Inr uri \<and> (\<forall>x y. uri \<noteq> x @ ''/.'' @ y)"
proof -
  have "NUL \<notin> set ''/a/%2e%2e/%2e%2e/etc''" by simp
  from clean_uri_no_traversal [OF this] show ?thesis by blast
qed

text \<open>
  The clean-up only looks behind slashes: a request line whose URI does not start with one keeps its
  leading dots, and the path is the root directory with the dots appended.
\<close>

lemma clean_uri_keeps_leading_dots: "clean_uri ''../x'' = Inr ''../x''"
  by code_simp

section \<open>The redirect to an index file\<close>

lemma length_moved_text: "length moved_text = 29"
  by (simp add: moved_text_def crlf_def)

text \<open>
  The redirect to an index file overruns the local array: the location fits, but the query string
  is appended with \<open>strcat\<close> without a check. Whenever the prefix of 29 characters, the URI, the
  index name, a question mark and the query need \<open>URI_MAX\<close> characters or more, serving the directory
  writes behind \<open>path[URI_MAX]\<close>. A request of 2048 bytes is long enough for that.
\<close>

lemma serve_directory_query_overflow:
  assumes "path \<noteq> []" and "last path = CHR ''/''" and "uri \<noteq> []" and "last uri = CHR ''/''"
    and "find_index_file os w ctx path (URI_MAX - 1) = Inr (Some (path2, st, index))"
    and "c_query c = Some q" and "q \<noteq> []"
    and "URI_MAX \<le> 29 + length uri + length index + 1 + length q"
  shows "serve_directory os ctx uri path c w = Inl Out_Of_Bounds"
proof -
  let ?p = "fmt_buf URI_MAX (moved_text @ uri @ index)"
  obtain q1 qs where q: "q = q1 # qs" using assms(7) by (cases q) auto
  have "rbind (strcat_path ?p ''?'') (\<lambda>p. strcat_path p q) = Inl Out_Of_Bounds"
    using assms(7,8) by (auto simp: strcat_path_def fmt_buf_def length_moved_text URI_MAX_def)
  then show ?thesis
    using assms(1-6) q by (simp add: serve_directory_def last_char_def)
qed

lemma serve_directory_query_overflow_instance:
  "serve_directory (sample_os\<lparr>os_stat := (\<lambda>w p. Some \<lparr>st_isdir = False, st_size = 1, st_mtime = 0\<rparr>)\<rparr>)
     \<lparr>ctx_registered_uris = [], ctx_error_handlers = [], ctx_acl = [],
      ctx_options = [OPT_ROOT \<mapsto> ''/www'', OPT_INDEX_FILES \<mapsto> ''index.html''], ctx_access_log = False\<rparr>
     ''/'' ''/www/'' (zero_conn\<lparr>c_query := Some (replicate 2010 (CHR ''x''))\<rparr>) [] = Inl Out_Of_Bounds"
proof -
  let ?os = "sample_os\<lparr>os_stat := (\<lambda>w p. Some \<lparr>st_isdir = False, st_size = 1, st_mtime = 0\<rparr>)\<rparr>"
  let ?ctx = "\<lparr>ctx_registered_uris = [], ctx_error_handlers = [], ctx_acl = [],
      ctx_options = [OPT_ROOT \<mapsto> ''/www'', OPT_INDEX_FILES \<mapsto> ''index.html''], ctx_access_log = False\<rparr>"
  have w: "words_from ''index.html'' = [(''index.html'', 10)]" by code_simp
  have "find_index_file ?os [] ?ctx ''/www/'' (URI_MAX - 1)
      = Inr (Some (take (URI_MAX - 1 - 1) (fmt_buf FILENAME_MAX ''/www/index.html''),
                   \<lparr>st_isdir = False, st_size = 1, st_mtime = 0\<rparr>, ''index.html''))"
    by (simp add: find_index_file_def for_each_word_def w)
  from serve_directory_query_overflow [OF _ _ _ _ this, of "''/''" "zero_conn\<lparr>c_query := Some (replicate 2010 (CHR ''x''))\<rparr>"
      "replicate 2010 (CHR ''x'')"]
  show ?thesis by (simp add: URI_MAX_def)
qed

section \<open>Requests behind requests\<close>

definition two_requests :: conn where
  "two_requests =
     (let t = ''GET / HTTP/1.1'' @ crlf @ crlf @ ''POST /x HTTP/1.1'' @ crlf @ crlf
      in set_io Rem \<lparr>io_buf = t, io_size = length t, io_head = length t, io_tail = 18, io_total = 0\<rparr> zero_conn)"

text \<open>
  The method of a pipelined request is read from the wrong place: \<open>set_request_method\<close> compares
  the start of the input buffer, not the start of the data in it. With a \<open>POST\<close> waiting behind a
  \<open>GET\<close> that was already consumed, the \<open>POST\<close> request is accepted as a \<open>GET\<close>.
\<close>

lemma pipelined_request_method_wrong:
  "io_bytes (s_io (c_rem two_requests)) = ''POST /x HTTP/1.1'' @ crlf @ crlf \<and>
   (\<exists>c' w'. accept_request sample_os ctx 20 two_requests [] = Inr (c', w') \<and> c_method c' = METHOD_GET \<and>
      map_option cstr (c_request c') = Some (''POST /x HTTP/1.1'' @ crlf @ crlf))"
proof -
  have b: "io_bytes (s_io (c_rem two_requests)) = ''POST /x HTTP/1.1'' @ crlf @ crlf"
    by (simp add: two_requests_def set_io_def io_bytes_def crlf_def Let_def)
  have "set_request_method two_requests = Some METHOD_GET"
    by (simp add: set_request_method_def two_requests_def set_io_def known_http_methods_def Let_def)
  moreover have "shttpd_strlcpy (replicate 21 NUL) 0 (''POST /x HTTP/1.1'' @ crlf @ crlf) 21
      = Inr (''POST /x HTTP/1.1'' @ crlf @ crlf @ [NUL])"
    by (subst shttpd_strlcpy_eq) (simp_all add: crlf_def store_def)
  moreover have "cstr (''POST /x HTTP/1.1'' @ crlf @ crlf @ [NUL]) = ''POST /x HTTP/1.1'' @ crlf @ crlf"
    by (simp add: crlf_def cstr_def)
  ultimately show ?thesis
    using b by (simp add: accept_request_def sample_os_def)
qed

section \<open>What answering a request keeps\<close>

text \<open>
  Whoever answers a request, the buffers stay in bounds and the flags and the class of the remote
  stream do not change.
\<close>

lemma conn_at_same: "c_loc d = c_loc c \<Longrightarrow> c_rem d = c_rem c \<Longrightarrow> conn_at f d \<longleftrightarrow> conn_at f c"
  by (simp add: conn_defs)

lemma serve_put_keeps: "serve_put os ctx path c w = Inr (c', w') \<Longrightarrow> conn_at f c \<Longrightarrow> conn_at f c'"
  by (auto simp: serve_put_def Let_def rbind_Inr_iff conn_defs split: if_splits prod.splits
      dest!: send_server_error_keeps [where f = f])

lemma serve_delete_keeps: "serve_delete os ctx path c w = Inr (c', w') \<Longrightarrow> conn_at f c \<Longrightarrow> conn_at f c'"
  by (auto simp: serve_delete_def split: if_splits prod.splits dest!: send_server_error_keeps [where f = f])

lemma serve_directory_cases:
  assumes "serve_directory os ctx uri path c w = Inr (c', w')"
  obtains (sent) code msg d where "shttpd_send_server_error os ctx code msg d w = Inr (c', w')"
      "c_loc d = c_loc c" "c_rem d = c_rem c"
  | (listed) p where "shttpd_get_dir os ctx (upd_s Loc (\<lambda>s. s\<lparr>s_dir := (p, [])\<rparr>) c) w = Inr (c', w')"
proof -
  from assms have "(\<exists>code msg d. shttpd_send_server_error os ctx code msg d w = Inr (c', w') \<and>
        (d = c \<or> (\<exists>mt. d = c\<lparr>c_mime_type := mt\<rparr>))) \<or>
      (\<exists>p. shttpd_get_dir os ctx (upd_s Loc (\<lambda>s. s\<lparr>s_dir := (p, [])\<rparr>) c) w = Inr (c', w'))"
    unfolding serve_directory_def rbind_Inr_iff
    by (fastforce simp: Let_def rbind_Inr_iff split: option.splits if_splits prod.splits)
  then show thesis using sent listed by auto
qed

lemma serve_directory_keeps:
  assumes "serve_directory os ctx uri path c w = Inr (c', w')" and "conn_at f c"
  shows "conn_at f c'"
  using assms(1)
proof (cases rule: serve_directory_cases)
  case (sent code msg d)
  from send_server_error_keeps [OF sent(1), of f] show ?thesis
    using assms(2) conn_at_same [OF sent(2,3), of f] by simp
next
  case (listed p)
  from get_dir_keeps [OF this, of f] assms(2) show ?thesis by (simp add: conn_defs)
qed

lemma serve_file_keeps:
  assumes "serve_file os ctx now path st c w = Inr (c', w')" and "conn_at f c"
  shows "conn_at f c'"
  using assms by (auto simp: serve_file_def Let_def conn_defs shttpd_setup_embedded_stream_def split: if_splits prod.splits
      dest!: send_server_error_keeps [where f = f] get_file_keeps [where f = f])

text \<open>The ends of the decision, with the connection each of them works on.\<close>

lemma decide_what_to_do_cases:
  assumes "decide_what_to_do os ctx now c w = Inr (c', w')"
  obtains (sent) code msg d where "shttpd_send_server_error os ctx code msg d w = Inr (c', w')"
      "c_loc d = c_loc c" "c_rem d = c_rem c"
  | (embedded) cb ud d where "c' = shttpd_setup_embedded_stream cb ud d" "c_loc d = c_loc c" "c_rem d = c_rem c"
  | (put) path d where "serve_put os ctx path d w = Inr (c', w')" "c_loc d = c_loc c" "c_rem d = c_rem c"
  | (delete) path d where "serve_delete os ctx path d w = Inr (c', w')" "c_loc d = c_loc c" "c_rem d = c_rem c"
  | (dir) uri path d where "serve_directory os ctx uri path d w = Inr (c', w')"
      "c_loc d = c_loc c" "c_rem d = c_rem c"
  | (plain) path st d where "serve_file os ctx now path st d w = Inr (c', w')"
      "c_loc d = c_loc c" "c_rem d = c_rem c"
proof -
  from assms obtain uri0 root where ur: "c_uri c = Some uri0" "ctx_options ctx OPT_ROOT = Some root"
    by (auto simp: decide_what_to_do_def split: option.splits)
  obtain u q where uq: "split_query uri0 = (u, q)" by fastforce
  note d = assms [unfolded decide_what_to_do_def ur Let_def, simplified, unfolded uq, simplified]
  from d obtain uri where uri: "clean_uri u = Inr uri" by (cases "clean_uri u") simp_all
  let ?c1 = "c\<lparr>c_query := q, c_uri := Some uri\<rparr>" and ?path = "request_path ctx root uri"
  have s: "c_loc ?c1 = c_loc c" "c_rem ?c1 = c_rem c" by simp_all
  show thesis
  proof (cases "URI_MAX \<le> length uri + length root")
    case True
    then show thesis using d uri sent [OF _ s] by simp
  next
    case False
    with d uri obtain ruri where ruri: "shttpd_is_registered_uri ctx uri = Inr ruri"
      by (cases "shttpd_is_registered_uri ctx uri") simp_all
    show thesis
    proof (cases ruri)
      case (Some r)
      then show thesis using d uri ruri False embedded [OF _ s] by auto
    next
      case None
      note e = uri ruri None False
      show thesis
      proof (cases "strstr ?path HTPASSWD")
        case (Some x)
        then show thesis using d e sent [OF _ s] by simp
      next
        case nopw: None
        with d e obtain rt where rt: "rho_dispatch os w uri ?path = Inr rt"
          by (cases "rho_dispatch os w uri ?path") simp_all
        show thesis
        proof (cases rt)
          case (Some r)
          then show thesis using d e rt nopw embedded [OF _ s] by auto
        next
          case nort: None
          note e = e rt nopw nort
          show thesis
          proof (cases "c_method c = METHOD_PUT \<or> c_method c = METHOD_DELETE")
            case True
            then show thesis using d e put [OF _ s] delete [OF _ s] by (auto split: if_splits)
          next
            case m: False
            show thesis
            proof (cases "get_path_info os w root ?path")
              case None
              then show thesis using d e m sent [OF _ s] by simp
            next
              case (Some x)
              obtain path1 st info where x: "x = (path1, st, info)" by (cases x) auto
              let ?d = "if info = None then ?c1 else ?c1\<lparr>c_path_info := info\<rparr>"
              have "c_loc ?d = c_loc c" "c_rem ?d = c_rem c" by simp_all
              from dir [OF _ this] plain [OF _ this] show thesis
                using d e m Some x by (auto split: if_splits)
            qed
          qed
        qed
      qed
    qed
  qed
qed

lemma decide_what_to_do_keeps:
  assumes "decide_what_to_do os ctx now c w = Inr (c', w')" and "conn_at f c"
  shows "conn_at f c'"
  using assms(1)
proof (cases rule: decide_what_to_do_cases)
  case (sent code msg d)
  from send_server_error_keeps [OF sent(1), of f] show ?thesis using assms(2) conn_at_same [OF sent(2,3), of f] by simp
next
  case (embedded cb ud d)
  then show ?thesis using assms(2) conn_at_same [OF embedded(2,3), of f] by simp
next
  case (put path d)
  from serve_put_keeps [OF put(1), of f] show ?thesis using assms(2) conn_at_same [OF put(2,3), of f] by simp
next
  case (delete path d)
  from serve_delete_keeps [OF delete(1), of f] show ?thesis using assms(2) conn_at_same [OF delete(2,3), of f] by simp
next
  case (dir uri path d)
  from serve_directory_keeps [OF dir(1), of f] show ?thesis using dir(2) assms(2) conn_at_same [OF dir(2,3), of f] by simp
next
  case (plain path st d)
  from serve_file_keeps [OF plain(1), of f] show ?thesis using plain(2) assms(2) conn_at_same [OF plain(2,3), of f] by simp
qed

end
