(* ===== verification/ShttpdServer.thy ===== *)
theory ShttpdServer
  imports ShttpdRequest
begin

text \<open>
  Connections of the server (\<open>shttpd.c\<close>, \<open>log.c\<close>): reading and writing streams, processing and
  closing connections, keep-alive and the access log.
\<close>

section \<open>Reading and writing streams\<close>

definition EXPIRE_TIME :: int where "EXPIRE_TIME = 3600"

text \<open>
  The length \<open>read_stream\<close> asks for. \<open>total + len\<close> and \<open>content_len - total\<close> are computed in 32-bit
  unsigned arithmetic and stored in an \<open>int\<close>.
\<close>

definition read_len :: "stream \<Rightarrow> nat \<Rightarrow> int" where
  "read_len s space =
     (if s_content_len s > 0 \<and> (io_total (s_io s) + space) mod 2 ^ 32 > s_content_len s
      then wrap32 (int (s_content_len s) - int (io_total (s_io s)))
      else int space)"

text \<open>
  The read of a stream's class, asked for \<open>len\<close> bytes (an \<open>int\<close> that becomes a \<open>size_t\<close>). The bytes
  are copied to \<open>io_space\<close>; an embedded stream accounts for its output itself and reports 0.
\<close>

definition class_read :: "'w os \<Rightarrow> side \<Rightarrow> int \<Rightarrow> conn \<Rightarrow> 'w \<Rightarrow> (io_ret \<times> conn \<times> 'w) res" where
  "class_read os sd len c w =
     (let s = get_s sd c;
          copy = (\<lambda>(r, w1). case r of
                    Moved bs \<Rightarrow> rbind (io_fill (s_io s) bs) (\<lambda>io. Inr (r, set_io sd io c, w1))
                  | _ \<Rightarrow> Inr (r, c, w1))
      in case s_class s of
           None \<Rightarrow> Inl Assertion_Failed
         | Some Io_file \<Rightarrow> rbind (c_assert (s_fd s \<noteq> -1)) (\<lambda>_. copy (os_read os w (s_fd s) (size_t len)))
         | Some Io_socket \<Rightarrow> rbind (c_assert (s_fd s \<noteq> -1)) (\<lambda>_. copy (os_recv os w (s_fd s) (size_t len)))
         | Some Io_dir \<Rightarrow> rbind (read_dir os (size_t len) c w) (\<lambda>(out, c1).
                            rbind (io_fill (s_io (c_loc c1)) out) (\<lambda>io. Inr (Moved out, set_io Loc io c1, w)))
         | Some Io_embedded \<Rightarrow> rbind (do_embedded os c w) (\<lambda>(c1, w1). Inr (Moved [], c1, w1)))"

definition read_stream :: "'w os \<Rightarrow> int \<Rightarrow> side \<Rightarrow> 'w step" where
  "read_stream os now sd c w =
     rbind (io_space_len (s_io (get_s sd c))) (\<lambda>space.
     rbind (c_assert (space > 0)) (\<lambda>_.
     rbind (class_read os sd (read_len (get_s sd c) space) c w) (\<lambda>(r, c1, w1).
     rbind (case r of
              Moved bs \<Rightarrow>
                if bs \<noteq> []
                then rbind (io_inc_head (s_io (get_s sd c1)) (length bs)) (\<lambda>io. Inr (set_io sd io c1, w1))
                else if has (s_flags (get_s sd c1)) FLAG_DONT_CLOSE then Inr (c1, w1)
                else shttpd_stop_stream os sd c1 w1
            | Try_Again \<Rightarrow> Inr (c1, w1)
            | Io_Error \<Rightarrow> if has (s_flags (get_s sd c1)) FLAG_DONT_CLOSE then Inr (c1, w1)
                          else shttpd_stop_stream os sd c1 w1) (\<lambda>(c2, w2).
     rbind (if s_content_len (get_s sd c2) > 0 \<and> sd = Loc
            then rbind (c_assert (io_total (s_io (c_loc c2)) \<le> s_content_len (c_loc c2))) (\<lambda>_.
                   if io_total (s_io (c_loc c2)) = s_content_len (c_loc c2)
                   then shttpd_stop_stream os Loc c2 w2 else Inr (c2, w2))
            else Inr (c2, w2)) (\<lambda>(c3, w3).
       Inr (c3\<lparr>c_expire_time := now + EXPIRE_TIME\<rparr>, w3))))))"

text \<open>The write of the class of the stream \<open>sd\<close>; a directory has none.\<close>

definition class_write :: "'w os \<Rightarrow> side \<Rightarrow> string \<Rightarrow> conn \<Rightarrow> 'w \<Rightarrow> (io_ret \<times> conn \<times> 'w) res" where
  "class_write os sd bs c w =
     (let s = get_s sd c
      in case s_class s of
           Some Io_socket \<Rightarrow> rbind (c_assert (s_fd s \<noteq> -1)) (\<lambda>_.
             let (r, w1) = os_send os w (s_fd s) bs in Inr (r, c, w1))
         | Some Io_file \<Rightarrow> write_file os bs c w
         | Some Io_embedded \<Rightarrow> rbind (do_embedded os c w) (\<lambda>(c1, w1). Inr (Moved [], c1, w1))
         | _ \<Rightarrow> Inl Null_Deref)"

fun other :: "side \<Rightarrow> side" where
  "other Loc = Rem"
| "other Rem = Loc"

text \<open>\<open>write_stream(from, to)\<close>; \<open>to\<close> is always the other stream of the same connection.\<close>

definition write_stream :: "'w os \<Rightarrow> int \<Rightarrow> side \<Rightarrow> 'w step" where
  "write_stream os now from c w =
     rbind (io_data_len (s_io (get_s from c))) (\<lambda>len.
     rbind (c_assert (len > 0)) (\<lambda>_.
     rbind (class_write os (other from) (io_bytes (s_io (get_s from c))) c w) (\<lambda>(r, c1, w1).
       let c2 = c1\<lparr>c_expire_time := now + EXPIRE_TIME\<rparr>;
           stop = (if has (s_flags (get_s (other from) c2)) FLAG_DONT_CLOSE then Inr (c2, w1)
                   else shttpd_stop_stream os (other from) c2 w1)
       in case r of
            Moved bs \<Rightarrow>
              if bs \<noteq> []
              then rbind (io_inc_tail (s_io (get_s from c2)) (length bs)) (\<lambda>io. Inr (set_io from io c2, w1))
              else stop
          | Try_Again \<Rightarrow> Inr (c2, w1)
          | Io_Error \<Rightarrow> stop)))"

section \<open>Closing a connection\<close>

text \<open>Whether the connection has to be closed: the client asked for it, or it speaks HTTP/1.0.\<close>

definition do_close :: "conn \<Rightarrow> bool" where
  "do_close c \<longleftrightarrow>
     (let (p, n) = v_vec (c_ch c) H_connection
      in n \<ge> 5 \<and> shttpd_strncasecmp ''close'' p 5 = 0) \<or>
     c_major_version c < 1 \<or> c_major_version c \<ge> 1 \<and> c_minor_version c < 1"

text \<open>A connection kept open, ready for the next request.\<close>

definition recycled :: "int \<Rightarrow> io \<Rightarrow> conn \<Rightarrow> conn" where
  "recycled now lio c =
     c\<lparr>c_query := None, c_request := None, c_uri := None, c_path_info := None, c_mime_type := [],
       c_ch := no_headers, c_birth_time := now,
       c_loc := (c_loc c)\<lparr>s_class := None, s_flags := 0, s_content_len := 0, s_io := lio\<rparr>,
       c_rem := (c_rem c)\<lparr>s_flags := FLAG_W OR FLAG_R OR FLAG_SSL_ACCEPTED\<rparr>\<rparr>"

text \<open>The reads, the parsing and the writes of \<open>process_connection\<close>.\<close>

definition exchange :: "'w os \<Rightarrow> ctx \<Rightarrow> int \<Rightarrow> bool \<Rightarrow> bool \<Rightarrow> 'w step" where
  "exchange os ctx now remote_ready local_ready c w =
     rbind (io_space_len (s_io (c_rem c))) (\<lambda>rspace.
     rbind (if remote_ready \<and> rspace \<noteq> 0 then read_stream os now Rem c w else Inr (c, w)) (\<lambda>(c1, w1).
     rbind (if \<not> has (s_flags (c_rem c1)) FLAG_HEADERS_PARSED
            then parse_http_request os ctx now c1 w1 else Inr (c1, w1)) (\<lambda>(c2, w2).
     rbind (io_space_len (s_io (c_loc c2))) (\<lambda>lspace.
     rbind (if local_ready \<and> lspace \<noteq> 0 then read_stream os now Loc c2 w2 else Inr (c2, w2)) (\<lambda>(c3, w3).
     rbind (io_data_len (s_io (c_rem c3))) (\<lambda>rdata.
     rbind (if rdata > 0 \<and> has (s_flags (c_loc c3)) FLAG_W \<and> s_class (c_loc c3) \<noteq> None \<and>
               s_class (c_loc c3) \<noteq> Some Io_dir
            then write_stream os now Rem c3 w3 else Inr (c3, w3)) (\<lambda>(c4, w4).
     rbind (io_data_len (s_io (c_loc c4))) (\<lambda>ldata.
       if ldata > 0 \<and> s_class (c_rem c4) \<noteq> None
       then write_stream os now Loc c4 w4 else Inr (c4, w4)))))))))"

definition should_close :: "int \<Rightarrow> conn \<Rightarrow> bool" where
  "should_close now c \<longleftrightarrow>
     now > c_expire_time c \<or> has (s_flags (c_rem c)) FLAG_CLOSED \<or>
     has (s_flags (c_loc c)) FLAG_CLOSED \<and> io_bytes (s_io (c_loc c)) = []"

section \<open>The access log\<close>

text \<open>
  A header in the log: a dash when it is empty, otherwise its text, between \<open>q\<close>. The time zone
  offset is a global variable that is only ever set to 0.
\<close>

definition log_field :: "headers \<Rightarrow> hdr \<Rightarrow> string \<Rightarrow> string" where
  "log_field ch h q = (let (p, n) = v_vec ch h in if n = 0 then ''-'' else q @ take n (cstr p) @ q)"

definition access_line :: "'w os \<Rightarrow> conn \<Rightarrow> string" where
  "access_line os c =
     inet_ntoa (c_sa c) @ '' - '' @ log_field (c_ch c) H_user [] @ '' ['' @
     fmt_buf 64 (os_strftime os ''%d/%b/%Y:%H:%M:%S'' (c_birth_time c)) @ '' +0000] '' @ [CHR 0x22] @
     (case c_request c of None \<Rightarrow> ''-'' | Some r \<Rightarrow> cstr r) @ [CHR 0x22] @ '' '' @
     show_int (c_status c) @ '' '' @ dec (io_total (s_io (c_loc c))) @ '' '' @
     log_field (c_ch c) H_referer [CHR 0x22] @ '' '' @ log_field (c_ch c) H_useragent [CHR 0x22]"

definition shttpd_log_access :: "'w os \<Rightarrow> conn \<Rightarrow> 'w \<Rightarrow> 'w" where
  "shttpd_log_access os c w = os_fprintf os w (fmt_buf URI_MAX (access_line os c) @ [CHR 0x0A])"

section \<open>Processing a connection\<close>

text \<open>
  \<open>process_connection\<close> and \<open>connection_desctructor\<close> call each other: a connection that is kept open and
  has input waiting is processed again at once. \<open>None\<close> is a connection that was freed. The depth of
  the recursion is the fuel; running out of it is an error value, never a result.
\<close>

definition destroy :: "'w os \<Rightarrow> ctx \<Rightarrow> int \<Rightarrow> conn \<Rightarrow> 'w \<Rightarrow> (conn option \<times> bool \<times> 'w) res" where
  "destroy os ctx now c w =
     (let w0 = (if c_request c \<noteq> None \<and> ctx_access_log ctx then shttpd_log_access os c w else w)
      in if IS_TRUE ctx OPT_INETD then Inl Process_Exit
         else rbind (close_stream os Loc c w0) (\<lambda>(c1, w1).
           if \<not> do_close c1 \<and> s_content_len (c_loc c1) > 0
           then rbind (io_clear (s_io (c_loc c1))) (\<lambda>lio.
                rbind (io_data_len (s_io (c_rem c1))) (\<lambda>n.
                  Inr (Some (recycled now lio c1), n > 0, w1)))
           else rbind (close_stream os Rem c1 w1) (\<lambda>(c2, w2). Inr (None, False, w2))))"

fun process_connection ::
  "nat \<Rightarrow> 'w os \<Rightarrow> ctx \<Rightarrow> int \<Rightarrow> bool \<Rightarrow> bool \<Rightarrow> conn \<Rightarrow> 'w \<Rightarrow> (conn option \<times> 'w) res" where
  "process_connection 0 os ctx now rr lr c w = Inl Out_Of_Fuel"
| "process_connection (Suc fuel) os ctx now rr lr c w =
     rbind (exchange os ctx now rr lr c w) (\<lambda>(c1, w1).
       if should_close now c1
       then rbind (destroy os ctx now c1 w1) (\<lambda>(co, again, w2).
              case co of
                None \<Rightarrow> Inr (None, w2)
              | Some c2 \<Rightarrow> if again then process_connection fuel os ctx now False False c2 w2
                           else Inr (Some c2, w2))
       else Inr (Some c1, w1))"

end
