(* ===== verification/ShttpdInvariant.thy ===== *)
theory ShttpdInvariant
  imports ShttpdServer
begin

text \<open>
  The invariant of a connection: every step of \<open>process_connection\<close>, from reading a request to
  recycling the connection for the next one, keeps the two buffers well formed if it returns. Each lemma covers
  one routine; the stages of longer routines are elimination rules.
\<close>

section \<open>The invariant of a connection\<close>

text \<open>
  Both buffers are well formed, the remote stream is a socket or stopped. As long as no request is being
  answered, the local stream is stopped with its last reply or has never been used.
\<close>

definition unused :: "stream \<Rightarrow> bool" where
  "unused s \<longleftrightarrow> s_flags s = 0 \<and> io_head (s_io s) = 0 \<and> io_tail (s_io s) = 0"

definition conn_inv :: "conn \<Rightarrow> bool" where
  "conn_inv c \<longleftrightarrow> conn_ok c \<and> s_class (c_rem c) \<in> {None, Some Io_socket} \<and>
     (has (s_flags (c_rem c)) FLAG_HEADERS_PARSED \<or>
      s_class (c_loc c) = None \<and> (has (s_flags (c_loc c)) FLAG_CLOSED \<or> unused (c_loc c)))"

text \<open>
  Inside a step the local buffer need only have its head in bounds. An upload shows why: the reply that ends it is
  written over the local buffer while its tail stays where it was. The assertion of \<open>io_data_len\<close> before the output
  is sent catches that, so that a step that returns has restored the invariant.
\<close>

definition conn_mid :: "conn \<Rightarrow> bool" where
  "conn_mid c \<longleftrightarrow> io_bounded (s_io (c_loc c)) \<and> io_ok (s_io (c_rem c)) \<and> s_class (c_rem c) \<in> {None, Some Io_socket} \<and>
     (has (s_flags (c_rem c)) FLAG_HEADERS_PARSED \<or>
      s_class (c_loc c) = None \<and> (has (s_flags (c_loc c)) FLAG_CLOSED \<or> unused (c_loc c)))"

lemma conn_inv_mid: "conn_inv c \<Longrightarrow> conn_mid c"
  by (simp add: conn_inv_def conn_mid_def conn_ok_def io_ok_bounded)

lemma conn_mid_inv: "conn_mid c \<Longrightarrow> io_ok (s_io (c_loc c)) \<Longrightarrow> conn_inv c"
  by (simp add: conn_inv_def conn_mid_def conn_ok_def)

lemma conn_mid_parsed:
  "conn_at f c \<Longrightarrow> has (fst f) FLAG_HEADERS_PARSED \<Longrightarrow> snd f \<in> {None, Some Io_socket} \<Longrightarrow> conn_mid c"
  by (auto simp: conn_mid_def conn_at_def)

lemma conn_mid_at:
  assumes "conn_mid c" and "f = (s_flags (c_rem c), s_class (c_rem c))"
  shows "conn_at f c" "snd f \<in> {None, Some Io_socket}"
  using assms by (simp_all add: conn_mid_def conn_at_def)

lemma store_version_streams [simp]: "c_loc (store_version s c) = c_loc c" "c_rem (store_version s c) = c_rem c"
  by (simp_all add: store_version_def split: list.splits scan_val.splits)

lemma parse_request_line_cases:
  assumes "parse_request_line os ctx now n c w = Inr (c', w')"
  obtains (sent) code msg d where "shttpd_send_server_error os ctx code msg d w = Inr (c', w')"
      "c_loc d = c_loc c" "c_rem d = c_rem c"
  | (decided) d t cl where "decide_what_to_do os ctx now d w = Inr (c', w')" "c_loc d = c_loc c"
      "c_rem d = (c_rem c)\<lparr>s_io := (s_io (c_rem c))\<lparr>io_total := t\<rparr>, s_content_len := cl\<rparr>"
proof -
  obtain m where m: "c_request c = Some m" using assms by (cases "c_request c") (simp_all add: parse_request_line_def)
  let ?p0 = "skip_while (\<lambda>ch. ch \<noteq> CHR '' '') m n 0"
  define start where "start = skip_while (\<lambda>ch. ch = CHR '' '') m n ?p0"
  define p1 where "p1 = skip_while (\<lambda>ch. \<not> isspace ch) m n start"
  define version where "version = cstr (drop (skip_while (\<lambda>ch. ch = CHR '' '') m n p1) m)"
  define d where "d = store_version version c"
  have s: "c_loc d = c_loc c" "c_rem d = c_rem c" by (simp_all add: d_def)
  note p = assms [unfolded parse_request_line_def m Let_def option.case,
      folded start_def, folded p1_def, folded version_def, folded d_def]
  show thesis
  proof (cases "scan_version version = None \<or> c_major_version d > 1 \<or> c_major_version d = 1 \<and> c_minor_version d > 1 \<or>
      p1 - start = 0 \<or> \<not> os_malloc os w (p1 - start + 1)")
    case True
    then show thesis using p sent [OF _ s] by (auto split: if_splits)
  next
    case False
    then obtain ub where "decide_what_to_do os ctx now
        (let ch = shttpd_parse_headers (date_to_epoch (os_mktime os) (os_isdst os))
                    (drop (c_headers d) m) (n - c_headers d) (c_ch d)
         in d\<lparr>c_uri := Some (cstr ub), c_ch := ch,
              c_rem := (c_rem d)\<lparr>s_io := (s_io (c_rem d))\<lparr>io_total := io_total (s_io (c_rem d)) - n\<rparr>,
                                  s_content_len := nat (v_big_int ch H_cl)\<rparr>\<rparr>) w = Inr (c', w')"
      using p by (auto simp: rbind_Inr_iff Let_def)
    then show thesis by (rule decided) (simp_all add: s Let_def)
  qed
qed

lemma parse_request_line_keeps:
  assumes "parse_request_line os ctx now n c w = Inr (c', w')" and "conn_at f c"
  shows "conn_at f c'"
  using assms(1)
proof (cases rule: parse_request_line_cases)
  case (sent code msg d)
  from send_server_error_keeps [OF sent(1), of f] show ?thesis
    using assms(2) conn_at_same [OF sent(2,3), of f] by simp
next
  case (decided d t cl)
  from decide_what_to_do_keeps [OF decided(1), of f] show ?thesis
    using assms(2) decided(2,3) by (auto simp: conn_defs io_ok_def)
qed

lemma accept_request_cases:
  assumes "accept_request os ctx n c w = Inr (c', w')" and "ctx_error_handlers ctx = []"
  obtains (sent) "has (s_flags (c_loc c')) FLAG_CLOSED" "s_class (c_loc c') = None" "\<And>f. conn_at f c \<Longrightarrow> conn_at f c'"
  | (accepted) "c_loc c' = c_loc c" "c_rem c' = c_rem c"
proof -
  from assms(1) consider
      (s) code msg d where "shttpd_send_server_error os ctx code msg d w = Inr (c', w')" "c_loc d = c_loc c" "c_rem d = c_rem c"
    | (a) "c_loc c' = c_loc c" "c_rem c' = c_rem c"
    by (fastforce simp: accept_request_def rbind_Inr_iff split: if_splits option.splits)
  then show thesis
  proof cases
    case s
    show thesis
      using send_server_error_closed [OF s(1) assms(2)] send_server_error_keeps [OF s(1)] conn_at_same [OF s(2,3)]
      by (intro sent) auto
  qed (rule accepted)
qed

lemma has_parsed [simp]: "has FLAG_HEADERS_PARSED FLAG_HEADERS_PARSED"
  by (simp add: has_def flag_defs)

lemma parse_http_request_keeps:
  assumes "parse_http_request os ctx now c w = Inr (c', w')" and "conn_mid c"
    and h: "ctx_error_handlers ctx = []" and "\<not> has (s_flags (c_rem c)) FLAG_HEADERS_PARSED"
  shows "conn_mid c'"
proof -
  define r where "r = (s_flags (c_rem c), s_class (c_rem c))"
  note c = conn_mid_at [OF assms(2) r_def]
  have rok: "io_ok (s_io (c_rem c))" using assms(2) by (simp add: conn_mid_def)
  from assms(1) rok obtain n where n: "shttpd_get_headers_len (io_bytes (s_io (c_rem c))) (length (io_bytes (s_io (c_rem c)))) = Inr n"
    by (auto simp: parse_http_request_def rbind_Inr_iff)
  define d where "d = upd_s Rem (\<lambda>s. s\<lparr>s_headers_len := n\<rparr>) c"
  have d: "conn_at r d" "c_loc d = c_loc c" "s_io (c_rem d) = s_io (c_rem c)" using c(1) by (simp_all add: d_def conn_defs r_def)
  have fin: "conn_mid e" if "has (s_flags (c_loc e)) FLAG_CLOSED" "s_class (c_loc e) = None" "conn_at r e" for e
    using that c(2) by (auto simp: conn_mid_def conn_at_def)
  show ?thesis
  proof (cases "n = 0")
    case True
    show ?thesis
    proof (cases "io_space_len (s_io (c_rem c)) = Inr 0")
      case sp: True
      with assms(1) rok n True obtain io where io: "io_clear (s_io (c_rem c)) = Inr io"
          "shttpd_send_server_error os ctx 400 ''Request is too big'' (set_io Rem io d) w = Inr (c', w')"
        by (auto simp: parse_http_request_def rbind_Inr_iff Let_def d_def)
      have "conn_at r (set_io Rem io d)"
        using d(1) io_clear_Inr [OF io(1) io_ok_bounded [OF rok]] by (simp add: conn_defs set_io_def)
      then show ?thesis using send_server_error_keeps [OF io(2), of r] send_server_error_closed [OF io(2) h] fin by blast
    next
      case False
      then have "c' = d" using assms(1) rok n True by (auto simp: parse_http_request_def rbind_Inr_iff Let_def d_def)
      then show ?thesis using assms(2) by (simp add: d_def conn_mid_def)
    qed
  next
    case n0: False
    from assms(1) rok n n0 obtain c1 w1 where a: "accept_request os ctx n d w = Inr (c1, w1)"
      by (cases "accept_request os ctx n d w") (auto simp: parse_http_request_def Let_def d_def)
    have closed: "c' = c1" if "has (s_flags (c_loc c1)) FLAG_CLOSED"
      using assms(1) rok n n0 a that by (simp add: parse_http_request_def Let_def d_def)
    have parsed: "\<exists>rio m1 h. io_inc_tail (s_io (c_rem c1)) (size_t n) = Inr rio \<and>
        parse_request_line os ctx now (nat n) ((or_flags Rem FLAG_HEADERS_PARSED (set_io Rem rio c1))
          \<lparr>c_request := Some m1, c_headers := h\<rparr>) w1 = Inr (c', w')" if "\<not> has (s_flags (c_loc c1)) FLAG_CLOSED"
      using assms(1) rok n n0 a that
      by (auto simp: parse_http_request_def Let_def d_def rbind_Inr_iff split: option.splits) (intro exI, assumption)
    show ?thesis
    proof (cases "has (s_flags (c_loc c1)) FLAG_CLOSED")
      case True
      from a h show ?thesis
      proof (cases rule: accept_request_cases)
        case sent
        then show ?thesis using closed d(1) fin [of c1] sent(3) [of r] by simp
      next
        case accepted
        have "s_class (c_loc c) = None" using assms(2,4) by (simp add: conn_mid_def)
        then show ?thesis using closed d accepted True fin [of c1] conn_at_same [OF accepted, of r] by simp
      qed
    next
      case False
      with parsed obtain rio m1 h where t: "io_inc_tail (s_io (c_rem c1)) (size_t n) = Inr rio"
        and pl: "parse_request_line os ctx now (nat n) ((or_flags Rem FLAG_HEADERS_PARSED (set_io Rem rio c1))
             \<lparr>c_request := Some m1, c_headers := h\<rparr>) w1 = Inr (c', w')" by auto
      from a h have s: "c_loc c1 = c_loc d" "c_rem c1 = c_rem d" using False by (auto elim: accept_request_cases)
      let ?f = "(fst r OR FLAG_HEADERS_PARSED, snd r)"
      have "io_ok rio" using io_inc_tail_Inr [OF t] io_ok_bounded [OF rok] s(2) d(3) by simp
      then have "conn_at ?f ((or_flags Rem FLAG_HEADERS_PARSED (set_io Rem rio c1))\<lparr>c_request := Some m1, c_headers := h\<rparr>)"
        using d(1) s by (auto simp: conn_defs or_flags_def set_io_def)
      from parse_request_line_keeps [OF pl this] show ?thesis by (rule conn_mid_parsed) (use c(2) in simp_all)
    qed
  qed
qed

text \<open>Stopping a stream: only its flags, class and channel change.\<close>

lemma stopped_flags:
  "has ((f OR FLAG_CLOSED) AND NOT (FLAG_R OR FLAG_W OR FLAG_ALWAYS_READY)) FLAG_HEADERS_PARSED = has f FLAG_HEADERS_PARSED"
proof -
  have keep: "NOT (FLAG_R OR FLAG_W OR FLAG_ALWAYS_READY) AND FLAG_HEADERS_PARSED = FLAG_HEADERS_PARSED"
    "FLAG_CLOSED AND FLAG_HEADERS_PARSED = 0" by (simp_all add: flag_defs)
  have "((f OR FLAG_CLOSED) AND NOT (FLAG_R OR FLAG_W OR FLAG_ALWAYS_READY)) AND FLAG_HEADERS_PARSED
      = f AND FLAG_HEADERS_PARSED"
    unfolding and.assoc keep(1) by (simp add: bit.conj_disj_distrib2 keep(2))
  then show ?thesis by (simp add: has_def)
qed

lemma stop_rem:
  assumes "shttpd_stop_stream os Rem c w = Inr (c', w')" and "s_class (c_rem c) \<in> {None, Some Io_socket}"
  shows "c_loc c' = c_loc c" "s_io (c_rem c') = s_io (c_rem c)" "s_class (c_rem c') = None"
    "has (s_flags (c_rem c')) FLAG_HEADERS_PARSED = has (s_flags (c_rem c)) FLAG_HEADERS_PARSED"
  using assms by (auto simp: shttpd_stop_stream_def close_stream_def rbind_Inr_iff stopped_flags [simplified] Let_def)


lemma conn_mid_rem:
  "conn_mid c \<Longrightarrow> c_loc c' = c_loc c \<Longrightarrow> io_ok (s_io (c_rem c')) \<Longrightarrow> s_class (c_rem c') \<in> {None, Some Io_socket} \<Longrightarrow>
   has (s_flags (c_rem c')) FLAG_HEADERS_PARSED = has (s_flags (c_rem c)) FLAG_HEADERS_PARSED \<Longrightarrow> conn_mid c'"
  by (simp add: conn_mid_def)

lemma conn_mid_expire [simp]: "conn_mid (c\<lparr>c_expire_time := t\<rparr>) \<longleftrightarrow> conn_mid c"
  by (simp add: conn_mid_def)

lemma conn_mid_stop_rem:
  assumes "conn_mid c" and "shttpd_stop_stream os Rem c w = Inr (c', w')"
  shows "conn_mid c'"
proof -
  have cl: "s_class (c_rem c) \<in> {None, Some Io_socket}" and "io_ok (s_io (c_rem c))"
    using assms(1) by (simp_all add: conn_mid_def)
  with stop_rem [OF assms(2) cl] show ?thesis by (intro conn_mid_rem [OF assms(1)]) simp_all
qed

text \<open>The stages of a read: the class reads, the head moves or the stream stops, a complete file stops.\<close>

lemma read_stream_Inr:
  assumes "read_stream os now sd c w = Inr (c', w')"
  obtains space r c1 w1 c2 w2 c3 where "io_space_len (s_io (get_s sd c)) = Inr space" "0 < space"
    "class_read os sd (read_len (get_s sd c) space) c w = Inr (r, c1, w1)"
    "(\<exists>bs io. r = Moved bs \<and> io_inc_head (s_io (get_s sd c1)) (length bs) = Inr io \<and> c2 = set_io sd io c1) \<or>
     c2 = c1 \<or> shttpd_stop_stream os sd c1 w1 = Inr (c2, w2)"
    "c3 = c2 \<or> sd = Loc \<and> shttpd_stop_stream os Loc c2 w2 = Inr (c3, w')"
    "c' = c3\<lparr>c_expire_time := now + EXPIRE_TIME\<rparr>"
proof -
  from assms obtain space where sp: "io_space_len (s_io (get_s sd c)) = Inr space" "0 < space"
    by (auto simp: read_stream_def rbind_Inr_iff c_assert_Inr_iff)
  from assms sp obtain r c1 w1 where cr: "class_read os sd (read_len (get_s sd c) space) c w = Inr (r, c1, w1)"
    by (cases "class_read os sd (read_len (get_s sd c) space) c w") (auto simp: read_stream_def)
  let ?move = "case r of
      Moved bs \<Rightarrow>
        if bs \<noteq> []
        then rbind (io_inc_head (s_io (get_s sd c1)) (length bs)) (\<lambda>io. Inr (set_io sd io c1, w1))
        else if has (s_flags (get_s sd c1)) FLAG_DONT_CLOSE then Inr (c1, w1)
        else shttpd_stop_stream os sd c1 w1
    | Try_Again \<Rightarrow> Inr (c1, w1)
    | Io_Error \<Rightarrow> if has (s_flags (get_s sd c1)) FLAG_DONT_CLOSE then Inr (c1, w1)
                  else shttpd_stop_stream os sd c1 w1"
  from assms sp cr obtain c2 w2 where mv: "?move = Inr (c2, w2)"
    by (cases ?move) (auto simp: read_stream_def)
  have "c' = c2\<lparr>c_expire_time := now + EXPIRE_TIME\<rparr> \<or>
      (\<exists>c3. sd = Loc \<and> shttpd_stop_stream os Loc c2 w2 = Inr (c3, w') \<and> c' = c3\<lparr>c_expire_time := now + EXPIRE_TIME\<rparr>)"
    using assms sp cr mv
    by (auto simp: read_stream_def rbind_Inr_iff simp del: get_s.simps split: if_splits)
  moreover have "(\<exists>bs io. r = Moved bs \<and> io_inc_head (s_io (get_s sd c1)) (length bs) = Inr io \<and> c2 = set_io sd io c1) \<or>
      c2 = c1 \<or> shttpd_stop_stream os sd c1 w1 = Inr (c2, w2)"
    using mv by (auto simp: rbind_Inr_iff split: io_ret.splits if_splits)
  ultimately show thesis using that [OF sp cr] by blast
qed

lemma conn_mid_set_rem_io: "conn_mid c \<Longrightarrow> io_ok io \<Longrightarrow> conn_mid (set_io Rem io c)"
  by (simp add: conn_mid_def set_io_def)

lemma conn_mid_rem_ok: "conn_mid c \<Longrightarrow> io_ok (s_io (c_rem c))"
  by (simp add: conn_mid_def)

lemma class_read_rem_keeps:
  assumes "class_read os Rem len c w = Inr (r, c', w')" and "conn_mid c"
  shows "conn_mid c' \<and> (\<forall>bs. r = Moved bs \<longrightarrow> length bs < 2 ^ 31)"
proof -
  have "s_class (c_rem c) = Some Io_socket" using assms by (auto simp: class_read_def conn_mid_def)
  then show ?thesis
    using assms conn_mid_rem_ok [OF assms(2)]
    by (auto simp: class_read_def Let_def rbind_Inr_iff split: io_ret.splits prod.splits intro!: conn_mid_set_rem_io dest!: io_fill_Inr)
qed

lemma read_rem_keeps:
  assumes "read_stream os now Rem c w = Inr (c', w')" and "conn_mid c"
  shows "conn_mid c'"
  using assms(1)
proof (rule read_stream_Inr)
  fix space r c1 w1 c2 w2 c3
  assume cr: "class_read os Rem (read_len (get_s Rem c) space) c w = Inr (r, c1, w1)"
    and mv: "(\<exists>bs io. r = Moved bs \<and> io_inc_head (s_io (get_s Rem c1)) (length bs) = Inr io \<and> c2 = set_io Rem io c1) \<or>
      c2 = c1 \<or> shttpd_stop_stream os Rem c1 w1 = Inr (c2, w2)"
    and fin: "c3 = c2 \<or> Rem = Loc \<and> shttpd_stop_stream os Loc c2 w2 = Inr (c3, w')"
      "c' = c3\<lparr>c_expire_time := now + EXPIRE_TIME\<rparr>"
  have c1: "conn_mid c1" "\<And>bs. r = Moved bs \<Longrightarrow> length bs < 2 ^ 31" using class_read_rem_keeps [OF cr assms(2)] by blast+
  with mv have "conn_mid c2"
    using conn_mid_rem_ok [OF c1(1)] by (auto intro: conn_mid_set_rem_io conn_mid_stop_rem dest!: io_inc_head_Inr)
  with fin show ?thesis by simp
qed


lemma s_class_after_call [simp]: "s_class (after_call s io arg) = s_class s"
  by (simp add: after_call_def Let_def)

lemma do_embedded_keeps:
  "do_embedded os c w = Inr (c', w') \<Longrightarrow> conn_at f c \<Longrightarrow> conn_at f c' \<and> s_class (c_loc c') = s_class (c_loc c)"
  unfolding do_embedded_def by (frule (1) call_user_keeps) (auto elim!: call_user_Inr)

lemma read_dir_keeps:
  "read_dir os len c w = Inr (out, c') \<Longrightarrow> conn_at f c \<Longrightarrow> conn_at f c' \<and> s_class (c_loc c') = s_class (c_loc c)"
  by (auto simp: read_dir_def Let_def rbind_Inr_iff conn_defs or_flags_def split: option.splits if_splits)

lemma conn_at_loc_bounded: "conn_at f c \<Longrightarrow> io_bounded (s_io (c_loc c))"
  by (simp add: conn_defs)

lemma conn_at_set_loc_io: "conn_at f c \<Longrightarrow> io_bounded io \<Longrightarrow> conn_at f (set_io Loc io c)"
  by (simp add: conn_defs set_io_def)

lemma set_io_loc [simp]: "c_loc (set_io Loc io c) = (c_loc c)\<lparr>s_io := io\<rparr>" "c_rem (set_io Loc io c) = c_rem c"
  by (simp_all add: set_io_def)

text \<open>Reading the local stream only fills its buffer.\<close>

lemma class_read_loc_keeps:
  assumes "class_read os Loc len c w = Inr (r, c', w')" and c: "conn_at f c"
  shows "conn_at f c'"
proof -
  obtain cl where cl: "s_class (c_loc c) = Some cl" using assms(1) by (cases "s_class (c_loc c)") (auto simp: class_read_def)
  show ?thesis
  proof (cases cl)
    case Io_dir
    then show ?thesis
      using assms(1) cl c by (auto simp: class_read_def Let_def rbind_Inr_iff
          intro!: conn_at_set_loc_io dest!: read_dir_keeps [where f = f] io_fill_bounded dest: conn_at_loc_bounded)
  next
    case Io_embedded
    then show ?thesis
      using assms(1) cl c by (auto simp: class_read_def Let_def rbind_Inr_iff dest!: do_embedded_keeps [where f = f])
  qed (use assms(1) cl c conn_at_loc_bounded [OF c] in \<open>auto simp: class_read_def Let_def rbind_Inr_iff
         split: io_ret.splits prod.splits intro!: conn_at_set_loc_io dest!: io_fill_bounded\<close>)
qed

lemma read_loc_keeps:
  assumes "read_stream os now Loc c w = Inr (c', w')" and mid: "conn_mid c"
  shows "conn_mid c'"
  using assms(1)
proof (rule read_stream_Inr)
  fix space r c1 w1 c2 w2 c3
  assume cr: "class_read os Loc (read_len (get_s Loc c) space) c w = Inr (r, c1, w1)"
    and mv: "(\<exists>bs io. r = Moved bs \<and> io_inc_head (s_io (get_s Loc c1)) (length bs) = Inr io \<and> c2 = set_io Loc io c1) \<or>
      c2 = c1 \<or> shttpd_stop_stream os Loc c1 w1 = Inr (c2, w2)"
    and fin: "c3 = c2 \<or> Loc = Loc \<and> shttpd_stop_stream os Loc c2 w2 = Inr (c3, w')"
      "c' = c3\<lparr>c_expire_time := now + EXPIRE_TIME\<rparr>"
  define f where "f = (s_flags (c_rem c), s_class (c_rem c))"
  note at = conn_mid_at [OF mid f_def]
  have f: "has (fst f) FLAG_HEADERS_PARSED" using mid cr by (auto simp: f_def conn_mid_def class_read_def)
  have c1: "conn_at f c1" by (rule class_read_loc_keeps [OF cr at(1)])
  have c2: "conn_at f c2"
    using mv c1 stop_loc_keeps [OF _ c1, of os w1 c2 w2] conn_at_loc_bounded [OF c1]
    by (auto intro!: conn_at_set_loc_io dest!: io_inc_head_bounded)
  have "conn_at f c3" using fin(1) c2 stop_loc_keeps [OF _ c2, of os w2 c3 w'] by auto
  then show ?thesis using f at(2) fin(2) conn_mid_parsed [of f c3] by simp
qed


text \<open>Writing the input to the local stream.\<close>

lemma write_file_keeps:
  assumes "write_file os bs c w = Inr (r, c', w')" and c: "conn_at f c"
  shows "conn_at f c'"
proof -
  from assms(1) have "c' = c \<or> (\<exists>n b t w1. shttpd_snprintf (os_neg_snprintf os) (io_buf (s_io (c_loc c))) 0 (io_size (s_io (c_loc c))) t = Inr (n, b) \<and>
      shttpd_stop_stream os Loc (c\<lparr>c_loc := (c_loc c)\<lparr>s_io := (s_io (c_loc c))\<lparr>io_buf := b, io_head := n\<rparr>,
        s_headers_len := int n\<rparr>\<rparr>) w1 = Inr (c', w'))"
    by (auto simp: write_file_def Let_def rbind_Inr_iff split: prod.splits if_splits)
  then show ?thesis
    using c io_bounded_reply [OF _ conn_at_loc_bounded [OF c]] by (auto simp: conn_defs dest!: stop_loc_keeps [where f = f])
qed

lemma class_write_loc_keeps:
  assumes "class_write os Loc bs c w = Inr (r, c', w')" and c: "conn_at f c"
  shows "conn_at f c'"
proof -
  obtain cl where cl: "s_class (c_loc c) = Some cl" using assms(1) by (cases "s_class (c_loc c)") (auto simp: class_write_def)
  show ?thesis
  proof (cases cl)
    case Io_file
    then have "write_file os bs c w = Inr (r, c', w')" using assms(1) cl by (simp add: class_write_def)
    then show ?thesis by (rule write_file_keeps [OF _ c])
  next
    case Io_embedded
    then show ?thesis
      using assms(1) cl c by (auto simp: class_write_def Let_def rbind_Inr_iff dest!: do_embedded_keeps [where f = f])
  qed (use assms cl in \<open>auto simp: class_write_def Let_def rbind_Inr_iff split: prod.splits\<close>)
qed

text \<open>The stages of a write.\<close>

lemma write_stream_Inr:
  assumes "write_stream os now fr c w = Inr (c', w')"
  obtains len r c1 w1 where "io_data_len (s_io (get_s fr c)) = Inr len" "0 < len"
    "class_write os (other fr) (io_bytes (s_io (get_s fr c))) c w = Inr (r, c1, w1)"
    "(\<exists>bs io. r = Moved bs \<and> io_inc_tail (s_io (get_s fr c1)) (length bs) = Inr io \<and>
        c' = set_io fr io (c1\<lparr>c_expire_time := now + EXPIRE_TIME\<rparr>)) \<or>
     c' = c1\<lparr>c_expire_time := now + EXPIRE_TIME\<rparr> \<or>
     shttpd_stop_stream os (other fr) (c1\<lparr>c_expire_time := now + EXPIRE_TIME\<rparr>) w1 = Inr (c', w')"
proof -
  have g: "get_s sd (d\<lparr>c_expire_time := t\<rparr>) = get_s sd d" for sd d t by (cases sd) simp_all
  from assms obtain len where sp: "io_data_len (s_io (get_s fr c)) = Inr len" "0 < len"
    by (auto simp: write_stream_def rbind_Inr_iff c_assert_Inr_iff)
  from assms sp obtain r c1 w1 where cw: "class_write os (other fr) (io_bytes (s_io (get_s fr c))) c w = Inr (r, c1, w1)"
    by (cases "class_write os (other fr) (io_bytes (s_io (get_s fr c))) c w") (auto simp: write_stream_def)
  show thesis
    by (rule that [OF sp cw], use assms sp cw in
      \<open>auto simp: write_stream_def rbind_Inr_iff Let_def g split: io_ret.splits if_splits\<close>)
qed

lemma conn_at_expire [simp]: "conn_at f (c\<lparr>c_expire_time := t\<rparr>) \<longleftrightarrow> conn_at f c"
  by (simp add: conn_defs)

lemma write_rem_keeps:
  assumes "write_stream os now Rem c w = Inr (c', w')" and mid: "conn_mid c" and "s_class (c_loc c) \<noteq> None"
  shows "conn_mid c'"
  using assms(1)
proof (rule write_stream_Inr)
  fix len r c1 w1
  let ?e = "\<lambda>d. d\<lparr>c_expire_time := now + EXPIRE_TIME\<rparr>"
  assume cw: "class_write os (other Rem) (io_bytes (s_io (get_s Rem c))) c w = Inr (r, c1, w1)"
    and mv: "(\<exists>bs io. r = Moved bs \<and> io_inc_tail (s_io (get_s Rem c1)) (length bs) = Inr io \<and> c' = set_io Rem io (?e c1)) \<or>
      c' = ?e c1 \<or> shttpd_stop_stream os (other Rem) (?e c1) w1 = Inr (c', w')"
  define f where "f = (s_flags (c_rem c), s_class (c_rem c))"
  note at = conn_mid_at [OF mid f_def]
  have f: "has (fst f) FLAG_HEADERS_PARSED" using mid assms(3) by (auto simp: f_def conn_mid_def)
  have c1: "conn_at f (?e c1)" using class_write_loc_keeps [OF cw [unfolded other.simps] at(1)] by simp
  have stop: "conn_at f c'" if "shttpd_stop_stream os Loc (?e c1) w1 = Inr (c', w')"
    by (rule stop_loc_keeps [OF that c1])
  have moved: "conn_at f (set_io Rem io (?e c1))" if "io_inc_tail (s_io (c_rem c1)) n = Inr io" for io n
    using c1 io_inc_tail_Inr [OF that] by (auto simp: set_io_def conn_defs io_ok_bounded)
  have "conn_at f c'" using mv c1 stop moved by auto
  then show ?thesis using f at(2) conn_mid_parsed [of f c'] by simp
qed

lemma write_loc_keeps:
  assumes "write_stream os now Loc c w = Inr (c', w')" and mid: "conn_mid c" and "s_class (c_rem c) \<noteq> None"
    and ok: "io_ok (s_io (c_loc c))"
  shows "conn_inv c'"
  using assms(1)
proof (rule write_stream_Inr)
  fix len r c1 w1
  let ?e = "\<lambda>d. d\<lparr>c_expire_time := now + EXPIRE_TIME\<rparr>"
  assume len: "io_data_len (s_io (get_s Loc c)) = Inr len" "0 < len"
    and cw: "class_write os (other Loc) (io_bytes (s_io (get_s Loc c))) c w = Inr (r, c1, w1)"
    and mv: "(\<exists>bs io. r = Moved bs \<and> io_inc_tail (s_io (get_s Loc c1)) (length bs) = Inr io \<and> c' = set_io Loc io (?e c1)) \<or>
      c' = ?e c1 \<or> shttpd_stop_stream os (other Loc) (?e c1) w1 = Inr (c', w')"
  have c1: "c1 = c" using cw mid assms(3) by (auto simp: class_write_def Let_def rbind_Inr_iff conn_mid_def split: prod.splits)
  have "\<not> (io_head (s_io (c_loc c)) = 0 \<and> io_tail (s_io (c_loc c)) = 0)" using len ok by (auto simp: io_bytes_def)
  then have "conn_inv (set_io Loc io (?e c))" if "io_ok io" for io
    using mid that by (auto simp: conn_inv_def conn_mid_def conn_ok_def set_io_def unused_def)
  moreover have "conn_inv c'" if "shttpd_stop_stream os Rem (?e c) w1 = Inr (c', w')"
  proof (rule conn_mid_inv [OF conn_mid_stop_rem [OF _ that]])
    have "s_class (c_rem (?e c)) \<in> {None, Some Io_socket}" using mid by (simp add: conn_mid_def)
    from stop_rem(1) [OF that this] ok show "io_ok (s_io (c_loc c'))" by simp
  qed (use mid in simp)
  moreover have "conn_inv (?e c)" by (rule conn_mid_inv) (use mid ok in simp_all)
  ultimately show ?thesis using mv ok c1 by (auto dest!: io_inc_tail_Inr [OF _ io_ok_bounded])
qed


lemma exchange_keeps_inv:
  assumes "exchange os ctx now rr lr c w = Inr (c', w')" and "conn_inv c" and h: "ctx_error_handlers ctx = []"
  shows "conn_inv c'"
  using assms(1) unfolding exchange_def
proof (elim rbind_pairE rbind_InrE)
  fix rspace c1 w1 c2 w2 lspace c3 w3 rdata c4 w4 ldata
  assume 1: "(if rr \<and> rspace \<noteq> 0 then read_stream os now Rem c w else Inr (c, w)) = Inr (c1, w1)"
    and 2: "(if \<not> has (s_flags (c_rem c1)) FLAG_HEADERS_PARSED then parse_http_request os ctx now c1 w1 else Inr (c1, w1)) = Inr (c2, w2)"
    and 3: "(if lr \<and> lspace \<noteq> 0 then read_stream os now Loc c2 w2 else Inr (c2, w2)) = Inr (c3, w3)"
    and 4: "(if 0 < rdata \<and> has (s_flags (c_loc c3)) FLAG_W \<and> s_class (c_loc c3) \<noteq> None \<and> s_class (c_loc c3) \<noteq> Some Io_dir
      then write_stream os now Rem c3 w3 else Inr (c3, w3)) = Inr (c4, w4)"
    and ld: "io_data_len (s_io (c_loc c4)) = Inr ldata"
    and 5: "(if 0 < ldata \<and> s_class (c_rem c4) \<noteq> None then write_stream os now Loc c4 w4 else Inr (c4, w4)) = Inr (c', w')"
  from 1 have "conn_mid c1" using read_rem_keeps conn_inv_mid [OF assms(2)] by (auto split: if_splits)
  with 2 have "conn_mid c2" using parse_http_request_keeps [OF _ _ h] by (auto split: if_splits)
  with 3 have "conn_mid c3" using read_loc_keeps by (auto split: if_splits)
  with 4 have c4: "conn_mid c4" using write_rem_keeps [of os now c3 w3 c4 w4] by (auto split: if_splits)
  then have ok: "io_ok (s_io (c_loc c4))" using io_data_len_Inr [OF ld] by (simp add: conn_mid_def)
  with 5 c4 show ?thesis
    using write_loc_keeps [OF _ c4 _ ok, of os now w4 c' w'] conn_mid_inv [OF c4 ok] by (auto split: if_splits)
qed

lemma recycled_inv:
  assumes "conn_at f c" and "snd f \<in> {None, Some Io_socket}" and "io_clear (s_io (c_loc c)) = Inr io"
  shows "conn_inv (recycled now io c)"
  using assms(1,2) io_clear_Inr [OF assms(3)]
  by (auto simp: conn_at_def conn_inv_def conn_ok_def recycled_def unused_def)

lemma destroy_keeps_inv:
  assumes "destroy os ctx now c w = Inr (Some c', again, w')" and "conn_inv c"
  shows "conn_inv c'"
proof -
  define f where "f = (s_flags (c_rem c), s_class (c_rem c))"
  have c: "conn_at f c" "snd f \<in> {None, Some Io_socket}" using conn_mid_at [OF conn_inv_mid [OF assms(2)] f_def] by simp_all
  from assms(1) obtain v c1 w1 io where cl: "close_stream os Loc c v = Inr (c1, w1)"
    and io: "io_clear (s_io (c_loc c1)) = Inr io" "c' = recycled now io c1"
    by (auto simp: destroy_def Let_def rbind_Inr_iff split: if_splits)
  have "conn_at f c1" by (rule close_loc_keeps [OF cl c(1)])
  then show ?thesis unfolding io(2) by (rule recycled_inv [OF _ c(2) io(1)])
qed

lemma process_connection_keeps_inv:
  assumes "process_connection fuel os ctx now rr lr c w = Inr (Some c', w')" and "conn_inv c"
    and h: "ctx_error_handlers ctx = []"
  shows "conn_inv c'"
  using assms(1,2)
proof (induction fuel arbitrary: rr lr c w)
  case (Suc fuel)
  from Suc.prems(1) obtain c1 w1 where ex: "exchange os ctx now rr lr c w = Inr (c1, w1)"
    by (cases "exchange os ctx now rr lr c w") auto
  have c1: "conn_inv c1" by (rule exchange_keeps_inv [OF ex Suc.prems(2) h])
  show ?case
  proof (cases "should_close now c1")
    case True
    with Suc.prems(1) ex obtain c2 again w2 where d: "destroy os ctx now c1 w1 = Inr (Some c2, again, w2)"
      by (auto simp: rbind_Inr_iff split: option.splits)
    have "conn_inv c2" by (rule destroy_keeps_inv [OF d c1])
    then show ?thesis using Suc.prems(1) ex True d Suc.IH by (auto split: if_splits)
  next
    case False
    then show ?thesis using Suc.prems(1) ex c1 by simp
  qed
qed simp

end
