(* ===== verification/ShttpdExchange.thy ===== *)
theory ShttpdExchange
  imports ShttpdInvariant
begin

text \<open>
  What the data exchange guarantees and where it fails: reading from the network within the length
  of the body and beyond it, requests that make the recursion between \<open>process_connection\<close> and
  \<open>connection_desctructor\<close> endless, and uploads.
\<close>

section \<open>Reading from the network\<close>

text \<open>The length asked for while the body is not longer than announced.\<close>

definition wanted :: "stream \<Rightarrow> nat" where
  "wanted s =
     (let space = io_size (s_io s) - io_head (s_io s)
      in if s_content_len s > 0 then min space (s_content_len s - io_total (s_io s)) else space)"

lemma read_len_wanted:
  assumes "s_content_len s = 0 \<or> io_total (s_io s) \<le> s_content_len s" and "s_content_len s < 2 ^ 31"
    and "io_total (s_io s) + io_size (s_io s) < 2 ^ 31"
  shows "read_len s (io_size (s_io s) - io_head (s_io s)) = int (wanted s)"
proof -
  let ?space = "io_size (s_io s) - io_head (s_io s)"
  have m: "(io_total (s_io s) + ?space) mod 4294967296 = io_total (s_io s) + ?space" using assms(3) by simp
  show ?thesis
  proof (cases "s_content_len s > 0 \<and> io_total (s_io s) + ?space > s_content_len s")
    case True
    then have "wrap32 (int (s_content_len s) - int (io_total (s_io s))) = int (s_content_len s - io_total (s_io s))"
      using assms(1,2) by (simp add: wrap32_def of_nat_diff)
    then show ?thesis using True assms(1) by (auto simp: read_len_def m wanted_def min_def Let_def of_nat_diff)
  next
    case False
    then show ?thesis using assms(1) by (auto simp: read_len_def m wanted_def Let_def)
  qed
qed

lemma size_t_nat: "n < 2 ^ 32 \<Longrightarrow> size_t (int n) = n"
  by (simp add: size_t_def)

lemma read_stream_rem_Moved:
  assumes "io_ok (s_io (c_rem c))" and "s_class (c_rem c) = Some Io_socket" and "s_fd (c_rem c) \<noteq> -1"
    and "io_head (s_io (c_rem c)) < io_size (s_io (c_rem c))"
    and "os_recv os w (s_fd (c_rem c)) (size_t (read_len (c_rem c) (io_size (s_io (c_rem c)) - io_head (s_io (c_rem c))))) = (Moved bs, w')"
    and "bs \<noteq> []"
  shows "read_stream os now Rem c w =
    rbind (io_append (s_io (c_rem c)) bs) (\<lambda>io. Inr ((set_io Rem io c)\<lparr>c_expire_time := now + EXPIRE_TIME\<rparr>, w'))"
proof (cases "io_fill (s_io (c_rem c)) bs")
  case (Inl e)
  then show ?thesis using assms by (simp add: read_stream_def class_read_def Let_def io_append_def)
next
  case (Inr io1)
  then show ?thesis
    using assms by (cases "io_inc_head io1 (length bs)")
      (simp_all add: read_stream_def class_read_def Let_def io_append_def set_io_def)
qed

text \<open>
  C27. Reading from the network stays in bounds while the client sends no more than it announced: with
  at most \<open>content_len\<close> bytes counted so far, and a socket that gives at most the bytes asked for, the
  read cannot fault, what arrived is appended to the buffer unchanged, and the body counted so far
  still does not exceed \<open>content_len\<close>.
\<close>

theorem read_stream_in_bounds:
  assumes "io_ok (s_io (c_rem c))" and "s_class (c_rem c) = Some Io_socket" and "s_fd (c_rem c) \<noteq> -1"
    and "io_head (s_io (c_rem c)) < io_size (s_io (c_rem c))"
    and "s_content_len (c_rem c) = 0 \<or> io_total (s_io (c_rem c)) \<le> s_content_len (c_rem c)" and "s_content_len (c_rem c) < 2 ^ 31"
    and "io_total (s_io (c_rem c)) + io_size (s_io (c_rem c)) < 2 ^ 31"
    and recv: "os_recv os w (s_fd (c_rem c)) (wanted (c_rem c)) = (Moved bs, w')" and "bs \<noteq> []" and "length bs \<le> wanted (c_rem c)"
  shows "\<exists>io. read_stream os now Rem c w = Inr ((set_io Rem io c)\<lparr>c_expire_time := now + EXPIRE_TIME\<rparr>, w') \<and>
    io_ok io \<and> io_bytes io = io_bytes (s_io (c_rem c)) @ bs \<and>
    (s_content_len (c_rem c) = 0 \<or> io_total io \<le> s_content_len (c_rem c))"
proof -
  have w: "wanted (c_rem c) \<le> io_size (s_io (c_rem c)) - io_head (s_io (c_rem c))" by (simp add: wanted_def Let_def)
  then have "size_t (read_len (c_rem c) (io_size (s_io (c_rem c)) - io_head (s_io (c_rem c)))) = wanted (c_rem c)"
    unfolding read_len_wanted [OF assms(5-7)] using assms(7) by (intro size_t_nat) simp
  with recv have "os_recv os w (s_fd (c_rem c)) (size_t (read_len (c_rem c) (io_size (s_io (c_rem c)) - io_head (s_io (c_rem c)))))
      = (Moved bs, w')" by simp
  from read_stream_rem_Moved [OF assms(1-4) this \<open>bs \<noteq> []\<close>]
  have r: "read_stream os now Rem c w =
      rbind (io_append (s_io (c_rem c)) bs) (\<lambda>io. Inr ((set_io Rem io c)\<lparr>c_expire_time := now + EXPIRE_TIME\<rparr>, w'))" .
  have "io_total (s_io (c_rem c)) + length bs < 2 ^ 32" using assms(7) w assms(10) by simp
  with io_append_ok [OF assms(1), of bs] w assms(10) obtain io where "io_append (s_io (c_rem c)) bs = Inr io"
      "io_ok io" "io_bytes io = io_bytes (s_io (c_rem c)) @ bs" "io_total io = io_total (s_io (c_rem c)) + length bs"
    by auto
  with r show ?thesis using assms(5,10) by (intro exI [of _ io]) (auto simp: wanted_def Let_def split: if_splits)
qed

definition socket_conn :: "nat \<Rightarrow> nat \<Rightarrow> conn" where
  "socket_conn tot len =
     zero_conn\<lparr>c_rem := (zero_stream INPUT_BUF_MAX)\<lparr>s_class := Some Io_socket, s_fd := 3, s_content_len := len,
       s_io := (s_io (zero_stream INPUT_BUF_MAX))\<lparr>io_total := tot\<rparr>\<rparr>\<rparr>"

lemma socket_conn_fields [simp]:
  "s_class (c_rem (socket_conn t n)) = Some Io_socket" "s_fd (c_rem (socket_conn t n)) = 3"
  "s_content_len (c_rem (socket_conn t n)) = n" "io_total (s_io (c_rem (socket_conn t n))) = t"
  "io_size (s_io (c_rem (socket_conn t n))) = 2048" "io_head (s_io (c_rem (socket_conn t n))) = 0"
  "io_bytes (s_io (c_rem (socket_conn t n))) = []" "io_ok (s_io (c_rem (socket_conn t n)))"
  by (simp_all add: socket_conn_def zero_stream_def io_ok_def io_bytes_def INPUT_BUF_MAX_def)

definition recv_os :: "string \<Rightarrow> string os" where
  "recv_os arrived = sample_os\<lparr>os_recv := (\<lambda>w _ n. (Moved (take n arrived), w))\<rparr>"

theorem read_stream_in_bounds_witness:
  "\<exists>io. read_stream (recv_os (replicate 5 (CHR ''x''))) 0 Rem (socket_conn 8 10) [] =
     Inr ((set_io Rem io (socket_conn 8 10))\<lparr>c_expire_time := 3600\<rparr>, []) \<and> io_bytes io = ''xx''"
proof -
  have w: "wanted (c_rem (socket_conn 8 10)) = 2" by (simp add: wanted_def Let_def)
  have "os_recv (recv_os (replicate 5 (CHR ''x''))) [] 3 2 = (Moved ''xx'', [])"
    by (simp add: recv_os_def numeral_eq_Suc)
  then show ?thesis
    using read_stream_in_bounds [of "socket_conn 8 10" "recv_os (replicate 5 (CHR ''x''))" "[]" "''xx''" "[]" 0] w
    by (simp add: EXPIRE_TIME_def) blast
qed

text \<open>
  C11. Reading from the network overruns the input buffer once more bytes have been counted than the
  client announced, which happens when the next request arrives together with the body: the
  remaining length becomes negative and is passed to \<open>recv\<close> as a huge unsigned number. Any amount of
  waiting data that exceeds the free space is then written behind the buffer.
\<close>

theorem read_stream_overflow:
  assumes "io_ok (s_io (c_rem c))" and "s_class (c_rem c) = Some Io_socket" and "s_fd (c_rem c) \<noteq> -1"
    and "io_head (s_io (c_rem c)) < io_size (s_io (c_rem c))"
    and "0 < s_content_len (c_rem c)" and "s_content_len (c_rem c) < io_total (s_io (c_rem c))"
    and "io_total (s_io (c_rem c)) + io_size (s_io (c_rem c)) < 2 ^ 31"
    and recv: "\<And>n. os_recv os w (s_fd (c_rem c)) n = (Moved (take n arrived), w')"
    and "io_size (s_io (c_rem c)) - io_head (s_io (c_rem c)) < length arrived" and "length arrived < 2 ^ 31"
  shows "read_stream os now Rem c w = Inl Out_Of_Bounds"
proof -
  let ?s = "c_rem c" and ?space = "io_size (s_io (c_rem c)) - io_head (s_io (c_rem c))"
  let ?d = "int (s_content_len ?s) - int (io_total (s_io ?s))"
  have "s_content_len ?s < io_total (s_io ?s) + ?space" using assms(6) by simp
  then have "read_len ?s ?space = wrap32 ?d" using assms(5,7) by (simp add: read_len_def)
  also have "\<dots> = ?d" using assms(6,7) by (intro wrap32_id) auto
  finally have len: "read_len ?s ?space = ?d" .
  have "?d mod 2 ^ 32 = (?d + 2 ^ 32) mod 2 ^ 32" by simp
  also have "\<dots> = ?d + 2 ^ 32" using assms(6,7) by (intro mod_pos_pos_trivial) auto
  finally have "size_t (read_len ?s ?space) = nat (?d + 2 ^ 32)" using len by (simp add: size_t_def)
  then have "length arrived \<le> size_t (read_len ?s ?space)" using assms(6,7,10) by (simp add: nat_le_iff)
  then have "os_recv os w (s_fd ?s) (size_t (read_len ?s ?space)) = (Moved arrived, w')" using recv by simp
  moreover have "arrived \<noteq> []" using assms(9) by auto
  ultimately have "read_stream os now Rem c w =
      rbind (io_append (s_io ?s) arrived) (\<lambda>io. Inr ((set_io Rem io c)\<lparr>c_expire_time := now + EXPIRE_TIME\<rparr>, w'))"
    by (rule read_stream_rem_Moved [OF assms(1-4)])
  then show ?thesis by (simp add: io_append_overflow [OF assms(1) assms(9)])
qed

theorem read_stream_overflow_witness:
  "read_stream (recv_os (replicate 4000 (CHR ''x''))) 0 Rem (socket_conn 11 10) [] = Inl Out_Of_Bounds"
  by (rule read_stream_overflow [where arrived = "replicate 4000 (CHR ''x'')" and w' = "[]"]) (simp_all add: recv_os_def)

section \<open>Requests that are never consumed\<close>

text \<open>
  A reply to a request that was rejected before it was parsed: the output buffer holds the reply,
  the local stream is closed, the input is untouched.
\<close>

lemma reject_reply:
  assumes "io_ok (s_io (c_loc c))" and "1 < io_size (s_io (c_loc c))" and "s_class (c_loc c) = None" and h: "ctx_error_handlers ctx = []"
  shows "\<exists>c1. shttpd_send_server_error os ctx code msg c w = Inr (c1, w) \<and>
    c_rem c1 = c_rem c \<and> c_ch c1 = c_ch c \<and> c_major_version c1 = c_major_version c \<and> c_minor_version c1 = c_minor_version c \<and>
    s_class (c_loc c1) = None \<and> has (s_flags (c_loc c1)) FLAG_CLOSED \<and> s_content_len (c_loc c1) = 10 \<and>
    io_ok (s_io (c_loc c1)) \<and> io_bytes (s_io (c_loc c1)) \<noteq> [] \<and> io_size (s_io (c_loc c1)) = io_size (s_io (c_loc c))"
proof -
  let ?lio = "s_io (c_loc c)" and ?t = "error_text code msg"
  obtain io where io: "io_clear ?lio = Inr io" "io_ok io" "io_tail io = 0" "io_size io = io_size ?lio"
    using io_clear_ok [OF assms(1)] io_clear_Inr [of ?lio, OF _ io_ok_bounded [OF assms(1)]] by auto
  have len: "length (io_buf io) = io_size io" using io(2) by (simp add: io_ok_def)
  obtain n b where sn: "shttpd_snprintf (os_neg_snprintf os) (io_buf io) 0 (io_size io) ?t = Inr (n, b)"
    and n: "n = min (length ?t) (io_size io - 1)"
    using shttpd_snprintf_eq [of "io_size io" 0 "io_buf io" "os_neg_snprintf os" ?t] io(4) assms(2) len by auto
  have "0 < n" using n io(4) assms(2) by (simp add: error_text_def)
  let ?io = "io\<lparr>io_buf := b, io_head := n\<rparr>"
  have ok: "io_ok ?io" by (rule io_ok_reply [OF sn io(2,3)])
  have ne: "io_bytes ?io \<noteq> []" using ok \<open>0 < n\<close> io(3) by (auto simp: io_bytes_def io_ok_def)
  have "\<exists>c1. shttpd_send_server_error os ctx code msg c w = Inr (c1, w) \<and>
    c_rem c1 = c_rem c \<and> c_ch c1 = c_ch c \<and> c_major_version c1 = c_major_version c \<and> c_minor_version c1 = c_minor_version c \<and>
    s_content_len (c_loc c1) = 10 \<and> s_io (c_loc c1) = ?io"
    using io(1) sn assms(3) h by (simp add: shttpd_send_server_error_def shttpd_stop_stream_def close_stream_def)
  then show ?thesis using ok ne io(4) send_server_error_closed [OF _ h] by fastforce
qed

text \<open>
  A connection that is kept open, with input waiting that is rejected as a bad request: it ends, or
  contains a control character, within 15 bytes. The version is the one of an earlier request.
\<close>

definition rejected :: "conn \<Rightarrow> bool" where
  "rejected c \<longleftrightarrow>
     conn_ok c \<and> 1 < io_size (s_io (c_loc c)) \<and> s_class (c_loc c) = None \<and>
     s_class (c_rem c) = Some Io_socket \<and> s_fd (c_rem c) \<noteq> -1 \<and> \<not> has (s_flags (c_rem c)) FLAG_HEADERS_PARSED \<and>
     c_ch c = no_headers \<and> c_major_version c = 1 \<and> c_minor_version c = 1 \<and>
     (case shttpd_get_headers_len (io_bytes (s_io (c_rem c))) (length (io_bytes (s_io (c_rem c)))) of
        Inr n \<Rightarrow> n \<noteq> 0 \<and> n < 16 | Inl _ \<Rightarrow> False)"

lemma rejected_exchange:
  assumes "rejected c" and h: "ctx_error_handlers ctx = []" and send: "\<And>w fd bs. \<exists>w'. os_send os w fd bs = (Moved bs, w')"
  shows "\<exists>c1 w1. exchange os ctx now False False c w = Inr (c1, w1) \<and> should_close now c1 \<and>
    c_rem c1 = (c_rem c)\<lparr>s_headers_len := s_headers_len (c_rem c1)\<rparr> \<and> c_ch c1 = no_headers \<and>
    c_major_version c1 = 1 \<and> c_minor_version c1 = 1 \<and>
    s_class (c_loc c1) = None \<and> s_content_len (c_loc c1) = 10 \<and> io_ok (s_io (c_loc c1)) \<and>
    io_size (s_io (c_loc c1)) = io_size (s_io (c_loc c))"
proof -
  obtain n where n: "shttpd_get_headers_len (io_bytes (s_io (c_rem c))) (length (io_bytes (s_io (c_rem c)))) = Inr n" "n \<noteq> 0" "n < 16"
    using assms(1) by (auto simp: rejected_def split: sum.splits)
  let ?d = "upd_s Rem (\<lambda>s. s\<lparr>s_headers_len := n\<rparr>) c"
  obtain c1 where c1: "shttpd_send_server_error os ctx 400 ''Bad request'' ?d w = Inr (c1, w)"
      "c_rem c1 = (c_rem c)\<lparr>s_headers_len := n\<rparr>" "c_ch c1 = no_headers" "c_major_version c1 = 1" "c_minor_version c1 = 1"
      "s_class (c_loc c1) = None" "has (s_flags (c_loc c1)) FLAG_CLOSED" "s_content_len (c_loc c1) = 10"
      "io_ok (s_io (c_loc c1))" "io_bytes (s_io (c_loc c1)) \<noteq> []" "io_size (s_io (c_loc c1)) = io_size (s_io (c_loc c))"
    using reject_reply [of ?d ctx os 400 "''Bad request''" w] assms(1) h by (auto simp: rejected_def conn_ok_def)
  have p: "parse_http_request os ctx now c w = Inr (c1, w)"
    using assms(1) n c1(1,7) by (simp add: parse_http_request_def accept_request_def rejected_def conn_ok_def Let_def)
  obtain w1 where w1: "os_send os w (s_fd (c_rem c)) (io_bytes (s_io (c_loc c1))) = (Moved (io_bytes (s_io (c_loc c1))), w1)"
    using send by blast
  obtain io where io: "io_inc_tail (s_io (c_loc c1)) (length (io_bytes (s_io (c_loc c1)))) = Inr io" "io_ok io" "io_bytes io = []"
      "io_size io = io_size (s_io (c_loc c1))"
    using io_inc_tail_ok [OF c1(9), of "length (io_bytes (s_io (c_loc c1)))"] by auto
  let ?c2 = "set_io Loc io (c1\<lparr>c_expire_time := now + EXPIRE_TIME\<rparr>)"
  have ws: "write_stream os now Loc c1 w = Inr (?c2, w1)"
    using c1 w1 io(1) assms(1) by (simp add: write_stream_def class_write_def rejected_def Let_def)
  have "exchange os ctx now False False c w = Inr (?c2, w1)"
    using assms(1) p ws c1 by (simp add: exchange_def rejected_def conn_ok_def)
  moreover have "should_close now ?c2" using c1(7) io(3) by (simp add: should_close_def set_io_def)
  ultimately show ?thesis using c1 io by (intro exI [of _ ?c2] exI [of _ w1]) (simp add: set_io_def)
qed

lemma rejected_step:
  assumes "rejected c" and h: "ctx_error_handlers ctx = []" and send: "\<And>w fd bs. \<exists>w'. os_send os w fd bs = (Moved bs, w')"
    and "\<not> IS_TRUE ctx OPT_INETD"
  shows "\<exists>c1 w1 c2 w2. exchange os ctx now False False c w = Inr (c1, w1) \<and> should_close now c1 \<and>
    destroy os ctx now c1 w1 = Inr (Some c2, True, w2) \<and> rejected c2"
proof -
  obtain c1 w1 where ex: "exchange os ctx now False False c w = Inr (c1, w1)" "should_close now c1"
    and rem: "c_rem c1 = (c_rem c)\<lparr>s_headers_len := s_headers_len (c_rem c1)\<rparr>"
    and c1: "c_ch c1 = no_headers" "c_major_version c1 = 1" "c_minor_version c1 = 1"
      "s_class (c_loc c1) = None" "s_content_len (c_loc c1) = 10" "io_ok (s_io (c_loc c1))"
      "io_size (s_io (c_loc c1)) = io_size (s_io (c_loc c))"
    using rejected_exchange [OF assms(1-3), of now w] by blast
  have s: "s_io (c_rem c1) = s_io (c_rem c)" "s_class (c_rem c1) = s_class (c_rem c)" "s_fd (c_rem c1) = s_fd (c_rem c)"
    by (subst rem, simp)+
  have "\<not> do_close c1" using c1 by (simp add: do_close_def v_vec_def no_headers_def)
  obtain io where io: "io_clear (s_io (c_loc c1)) = Inr io" "io_ok io" "io_size io = io_size (s_io (c_loc c1))"
    using io_clear_ok [OF c1(6)] by auto
  have "shttpd_get_headers_len [] 0 = Inr 0" by code_simp
  then have ne: "io_bytes (s_io (c_rem c)) \<noteq> []" using assms(1) by (auto simp: rejected_def)
  let ?c2 = "recycled now io c1"
  let ?w0 = "if c_request c1 \<noteq> None \<and> ctx_access_log ctx then shttpd_log_access os c1 w1 else w1"
  have "destroy os ctx now c1 w1 = Inr (Some ?c2, True, ?w0)"
    using assms(1,4) \<open>\<not> do_close c1\<close> c1 io(1) s ne
    by (simp add: destroy_def Let_def close_stream_def rejected_def conn_ok_def)
  moreover have "\<not> has (FLAG_W OR FLAG_R OR FLAG_SSL_ACCEPTED) FLAG_HEADERS_PARSED" by (simp add: has_def flag_defs)
  then have "rejected ?c2" using assms(1) c1 io s by (simp add: rejected_def recycled_def conn_ok_def)
  ultimately show ?thesis using ex by blast
qed

text \<open>
  C12. A bad request on a connection that is kept open makes the server recurse for ever: the request
  is answered but not consumed, the reply counts as one with a length, so the connection is recycled
  and processed again with the same input. However deep the recursion is allowed to go, it does not
  end. Two empty lines waiting behind an HTTP/1.1 request are enough.
\<close>

theorem process_connection_diverges:
  assumes "rejected c" and "ctx_error_handlers ctx = []" and "\<And>w fd bs. \<exists>w'. os_send os w fd bs = (Moved bs, w')"
    and "\<not> IS_TRUE ctx OPT_INETD"
  shows "process_connection fuel os ctx now False False c w = Inl Out_Of_Fuel"
  using assms(1)
proof (induction fuel arbitrary: c w)
  case (Suc fuel)
  from rejected_step [OF Suc.prems assms(2-4), of now w] obtain c1 w1 c2 w2 where
    "exchange os ctx now False False c w = Inr (c1, w1)" "should_close now c1"
    "destroy os ctx now c1 w1 = Inr (Some c2, True, w2)" "rejected c2" by blast
  then show ?case using Suc.IH by simp
qed simp

definition waiting_conn :: conn where
  "waiting_conn = (socket_conn 2 0)\<lparr>c_major_version := 1, c_minor_version := 1,
     c_rem := (c_rem (socket_conn 2 0))\<lparr>s_flags := FLAG_W OR FLAG_R OR FLAG_SSL_ACCEPTED,
       s_io := \<lparr>io_buf = [CHR 0x0A, CHR 0x0A, NUL, NUL], io_size = 4, io_head = 2, io_tail = 0, io_total = 2\<rparr>\<rparr>\<rparr>"

theorem process_connection_diverges_witness:
  "io_bytes (s_io (c_rem waiting_conn)) = [CHR 0x0A, CHR 0x0A] \<and>
   (\<forall>fuel. process_connection fuel sample_os
      \<lparr>ctx_registered_uris = [], ctx_error_handlers = [], ctx_acl = [], ctx_options = Map.empty, ctx_access_log = False\<rparr>
      0 False False waiting_conn [] = Inl Out_Of_Fuel)"
proof -
  let ?ctx = "\<lparr>ctx_registered_uris = [], ctx_error_handlers = [], ctx_acl = [], ctx_options = Map.empty, ctx_access_log = False\<rparr>"
  have b: "io_bytes (s_io (c_rem waiting_conn)) = [CHR 0x0A, CHR 0x0A]"
    by (simp add: waiting_conn_def io_bytes_def)
  have "shttpd_get_headers_len [CHR 0x0A, CHR 0x0A] (Suc (Suc 0)) = Inr 2" by code_simp
  then have "rejected waiting_conn"
    unfolding rejected_def b
    by (simp add: waiting_conn_def socket_conn_def conn_ok_def io_ok_def zero_conn_def zero_stream_def OUT_BUF_MAX_def)
       (simp add: has_def flag_defs)
  moreover have "\<exists>w'. os_send sample_os w fd bs = (Moved bs, w')" for w fd bs by (simp add: sample_os_def)
  moreover have "\<not> IS_TRUE ?ctx OPT_INETD" by (simp add: IS_TRUE_def shttpd_is_true_def trues_def)
  ultimately show ?thesis using b process_connection_diverges [of waiting_conn ?ctx sample_os] by simp
qed

section \<open>Uploads\<close>

text \<open>
  An upload that does not arrive together with its request is lost: the file was opened for
  writing only, but a local stream that is always ready is read in every round, before the input is
  written to it. The read fails and stops the stream, so the body is not written, nothing is sent and
  the connection ends.
\<close>

definition uploading :: "stream \<Rightarrow> bool" where
  "uploading s \<longleftrightarrow> s_class s = Some Io_file \<and> has (s_flags s) FLAG_W"

lemma upload_stopped_by_read:
  assumes "conn_ok c" and "uploading (c_loc c)" and "has (s_flags (c_rem c)) FLAG_HEADERS_PARSED"
    and "s_fd (c_loc c) \<noteq> -1" and "io_bytes (s_io (c_loc c)) = []" and "io_head (s_io (c_loc c)) < io_size (s_io (c_loc c))"
    and "\<not> has (s_flags (c_loc c)) FLAG_DONT_CLOSE" and "s_content_len (c_loc c) = 0"
    and read: "\<And>n. os_read os w (s_fd (c_loc c)) n = (Io_Error, w)"
  shows "\<exists>c'. exchange os ctx now False True c w = Inr (c', os_close os w (s_fd (c_loc c))) \<and>
    should_close now c' \<and> c_rem c' = c_rem c \<and> io_bytes (s_io (c_loc c')) = []"
proof -
  have cl: "s_class (c_loc c) = Some Io_file" using assms(2) by (simp add: uploading_def)
  have lo: "io_ok (s_io (c_loc c))" and ro: "io_ok (s_io (c_rem c))" using assms(1) by (simp_all add: conn_ok_def)
  obtain c1 where st: "shttpd_stop_stream os Loc c w = Inr (c1, os_close os w (s_fd (c_loc c)))"
      "c_rem c1 = c_rem c" "s_io (c_loc c1) = s_io (c_loc c)" "s_content_len (c_loc c1) = 0"
    using cl assms(4,8) by (simp add: shttpd_stop_stream_def close_stream_def)
  have cls: "has (s_flags (c_loc c1)) FLAG_CLOSED" "s_class (c_loc c1) = None" using stop_loc_closed [OF st(1)] by auto
  let ?c2 = "c1\<lparr>c_expire_time := now + EXPIRE_TIME\<rparr>"
  have "read_stream os now Loc c w = Inr (?c2, os_close os w (s_fd (c_loc c)))"
    using lo cl st assms(4,6,7) read by (simp add: read_stream_def class_read_def Let_def)
  then have "exchange os ctx now False True c w = Inr (?c2, os_close os w (s_fd (c_loc c)))"
    using lo ro assms(3,5,6) st cls by (simp add: exchange_def)
  moreover have "should_close now ?c2" using cls st(3) assms(5) by (simp add: should_close_def)
  ultimately show ?thesis using st assms(5) by (intro exI [of _ ?c2]) simp
qed

definition upload_conn :: conn where
  "upload_conn =
     zero_conn\<lparr>c_loc := (zero_stream OUT_BUF_MAX)\<lparr>s_class := Some Io_file, s_fd := 4, s_flags := FLAG_W OR FLAG_ALWAYS_READY\<rparr>,
       c_rem := (zero_stream INPUT_BUF_MAX)\<lparr>s_class := Some Io_socket, s_fd := 3, s_flags := FLAG_HEADERS_PARSED,
         s_content_len := 5,
         s_io := \<lparr>io_buf = ''hello'' @ [NUL], io_size = 6, io_head = 5, io_tail = 0, io_total = 5\<rparr>\<rparr>\<rparr>"

lemma upload_stopped_by_read_instance:
  "\<forall>ctx. \<exists>c'. exchange (sample_os\<lparr>os_close := (\<lambda>w _. w @ ''closed'')\<rparr>) ctx 0 False True upload_conn [] = Inr (c', ''closed'') \<and>
     should_close 0 c' \<and> io_bytes (s_io (c_rem c')) = ''hello''"
proof
  fix ctx
  let ?os = "sample_os\<lparr>os_close := (\<lambda>w _. w @ ''closed'')\<rparr>"
  have "conn_ok upload_conn" "uploading (c_loc upload_conn)" "has (s_flags (c_rem upload_conn)) FLAG_HEADERS_PARSED"
    "s_fd (c_loc upload_conn) \<noteq> -1" "io_bytes (s_io (c_loc upload_conn)) = []"
    "io_head (s_io (c_loc upload_conn)) < io_size (s_io (c_loc upload_conn))"
    "\<not> has (s_flags (c_loc upload_conn)) FLAG_DONT_CLOSE" "s_content_len (c_loc upload_conn) = 0"
    by (simp_all add: upload_conn_def conn_ok_def io_ok_def uploading_def zero_stream_def io_bytes_def has_def flag_defs OUT_BUF_MAX_def)
  moreover have "os_read ?os [] (s_fd (c_loc upload_conn)) n = (Io_Error, [])" for n by (simp add: sample_os_def)
  ultimately have "\<exists>c'. exchange ?os ctx 0 False True upload_conn [] = Inr (c', os_close ?os [] (s_fd (c_loc upload_conn))) \<and>
      should_close 0 c' \<and> c_rem c' = c_rem upload_conn \<and> io_bytes (s_io (c_loc c')) = []"
    by (rule upload_stopped_by_read)
  then show "\<exists>c'. exchange ?os ctx 0 False True upload_conn [] = Inr (c', ''closed'') \<and>
      should_close 0 c' \<and> io_bytes (s_io (c_rem c')) = ''hello''"
    by (auto simp: upload_conn_def io_bytes_def)
qed

end
