(* ===== verification/ShttpdWorker.thy ===== *)
theory ShttpdWorker
  imports ShttpdInvariant
begin

text \<open>
  The server loop (\<open>shttpd.c\<close>): access control lists, workers with their control messages, the descriptor
  sets and one round of polling.
\<close>

section \<open>Access control\<close>

text \<open>\<open>is_allowed\<close>: the last entry whose subnet contains the address decides; addresses are in host order.\<close>

definition is_allowed :: "acl list \<Rightarrow> 32 word \<Rightarrow> bool" where
  "is_allowed acls ip =
     (foldl (\<lambda>allowed a. if acl_ip a = ip AND acl_mask a then acl_flag a else allowed) (CHR ''+'') acls
      = CHR ''+'')"

definition isbyte :: "int \<Rightarrow> bool" where
  "isbyte n \<longleftrightarrow> n \<ge> 0 \<and> n \<le> 255"

text \<open>
  One word of the list: \<open>sscanf(s, "%c%d.%d.%d.%d%n", ...)\<close> and \<open>sscanf(s + n, "/%d", &mask)\<close>. A fatal
  log entry ends the program.
\<close>

definition subnet_format :: "scan_dir list" where
  "subnet_format =
     [Dir_Int, Dir_Char (CHR ''.''), Dir_Int, Dir_Char (CHR ''.''), Dir_Int, Dir_Char (CHR ''.''), Dir_Int]"

definition scan_mask :: "string \<Rightarrow> int option" where
  "scan_mask s = (case fst (sscanf [Dir_Char (CHR ''/''), Dir_Int] s) of [VInt m] \<Rightarrow> Some m | _ \<Rightarrow> None)"

definition ip_word :: "int \<Rightarrow> int \<Rightarrow> int \<Rightarrow> int \<Rightarrow> 32 word" where
  "ip_word a b c d =
     push_bit 24 (word_of_int a) OR push_bit 16 (word_of_int b) OR push_bit 8 (word_of_int c) OR word_of_int d"

definition mask_word :: "int \<Rightarrow> 32 word" where
  "mask_word n = (if n \<noteq> 0 then push_bit (nat (32 - n)) 0xffffffff else 0)"

definition sizeof_acl :: nat where "sizeof_acl = 20"

definition parse_acl_entry :: "(nat \<Rightarrow> bool) \<Rightarrow> string \<Rightarrow> acl res" where
  "parse_acl_entry mem s =
     (case s of
        [] \<Rightarrow> Inl Process_Exit
      | flag # r \<Rightarrow>
          (case sscanf subnet_format r of
             ([VInt a, VInt b, VInt c, VInt d], Some rest) \<Rightarrow>
               if flag \<noteq> CHR ''+'' \<and> flag \<noteq> CHR ''-'' then Inl Process_Exit
               else if \<not> isbyte a \<or> \<not> isbyte b \<or> \<not> isbyte c \<or> \<not> isbyte d then Inl Process_Exit
               else if \<not> mem sizeof_acl then Inl Process_Exit
               else
                 let n = (case scan_mask rest of None \<Rightarrow> 32 | Some m \<Rightarrow> m)
                 in if n < 0 \<or> n > 32 then Inl Process_Exit
                    else Inr \<lparr>acl_ip = ip_word a b c d, acl_mask = mask_word n, acl_flag = flag\<rparr>
           | _ \<Rightarrow> Inl Process_Exit))"

fun set_acl_loop :: "(nat \<Rightarrow> bool) \<Rightarrow> (string \<times> nat) list \<Rightarrow> (acl list) res" where
  "set_acl_loop mem [] = Inr []"
| "set_acl_loop mem ((s, _) # ws) =
     rbind (parse_acl_entry mem s) (\<lambda>a. rbind (set_acl_loop mem ws) (\<lambda>as. Inr (a # as)))"

definition set_acl :: "(nat \<Rightarrow> bool) \<Rightarrow> ctx \<Rightarrow> string option \<Rightarrow> ctx res" where
  "set_acl mem ctx s = rbind (set_acl_loop mem (for_each_word s)) (\<lambda>l. Inr (ctx\<lparr>ctx_acl := l\<rparr>))"

section \<open>Workers\<close>

text \<open>
  The messages of the control sockets: a socket for the worker to serve, or the address of a connection
  to wake up: the connection at a position of the worker's list, or the head of that list, which is not
  a connection. \<open>wk_inbox\<close> holds what was sent to a worker and not read yet.
\<close>

datatype conn_ptr = Conn_At nat | List_Head

datatype ctl_msg = CTL_PASS_SOCKET int bool | CTL_WAKEUP conn_ptr

record worker =
  wk_num_conns :: int
  wk_ctl :: int
  wk_inbox :: "ctl_msg list"
  wk_connections :: "conn list"

text \<open>
  \<open>add_socket\<close>: a socket whose peer is unknown is neither added nor closed. Failures are fatal in
  inetd mode. Without SSL support \<open>is_ssl\<close> is ignored.
\<close>

definition new_conn :: "int \<Rightarrow> 32 word \<Rightarrow> int \<Rightarrow> conn \<Rightarrow> conn" where
  "new_conn now sa sock c =
     c\<lparr>c_sa := sa, c_birth_time := now, c_expire_time := now + EXPIRE_TIME,
       c_loc := (c_loc c)\<lparr>s_class := None\<rparr>,
       c_rem := (c_rem c)\<lparr>s_class := Some Io_socket, s_fd := sock\<rparr>\<rparr>"

definition elog :: "ctx \<Rightarrow> 'a \<Rightarrow> 'a res" where
  "elog ctx x = (if IS_TRUE ctx OPT_INETD then Inl Process_Exit else Inr x)"

definition add_socket :: "'w os \<Rightarrow> ctx \<Rightarrow> int \<Rightarrow> int \<Rightarrow> bool \<Rightarrow> worker \<Rightarrow> 'w \<Rightarrow> (worker \<times> 'w) res" where
  "add_socket os ctx now sock is_ssl worker w =
     (case os_getpeername os w sock of
        None \<Rightarrow> elog ctx (worker, w)
      | Some sa \<Rightarrow>
          (case alloc_conn os w of
             None \<Rightarrow> elog ctx (worker, os_closesocket os w sock)
           | Some c \<Rightarrow>
               Inr (worker\<lparr>wk_connections := wk_connections worker @ [new_conn now sa sock c],
                           wk_num_conns := wk_num_conns worker + 1\<rparr>, w)))"

text \<open>\<open>pass_socket\<close> sends the socket to the least busy worker, the first one of those.\<close>

fun lazy_scan :: "int list \<Rightarrow> nat \<Rightarrow> nat \<Rightarrow> int \<Rightarrow> nat" where
  "lazy_scan [] i lazy n = lazy"
| "lazy_scan (m # ms) i lazy n = (if m < n then lazy_scan ms (Suc i) i m else lazy_scan ms (Suc i) lazy n)"

definition lazy_worker :: "worker list \<Rightarrow> nat" where
  "lazy_worker ws = lazy_scan (map wk_num_conns ws) 0 0 (wk_num_conns (hd ws))"

definition send_ctl :: "ctl_msg \<Rightarrow> worker \<Rightarrow> worker" where
  "send_ctl m worker = worker\<lparr>wk_inbox := wk_inbox worker @ [m]\<rparr>"

definition pass_socket :: "int \<Rightarrow> bool \<Rightarrow> worker list \<Rightarrow> worker list" where
  "pass_socket sock is_ssl ws =
     (let i = lazy_worker ws in ws[i := send_ctl (CTL_PASS_SOCKET sock is_ssl) (ws ! i)])"

definition atoi :: "string \<Rightarrow> int" where
  "atoi s = (case fst (sscanf [Dir_Int] s) of [VInt v] \<Rightarrow> v | _ \<Rightarrow> 0)"

definition num_workers :: "ctx \<Rightarrow> int" where
  "num_workers ctx = (case ctx_options ctx OPT_THREADS of None \<Rightarrow> 1 | Some p \<Rightarrow> atoi p)"

definition handle_connected_socket ::
  "'w os \<Rightarrow> ctx \<Rightarrow> int \<Rightarrow> 32 word \<Rightarrow> int \<Rightarrow> bool \<Rightarrow> worker list \<Rightarrow> 'w \<Rightarrow> (worker list \<times> 'w) res" where
  "handle_connected_socket os ctx now ip sock is_ssl ws w =
     (if (case os_fd_setsize os of None \<Rightarrow> False | Some n \<Rightarrow> sock \<ge> n) then Inr (ws, os_closesocket os w sock)
      else if \<not> is_allowed (ctx_acl ctx) ip then Inr (ws, os_closesocket os w sock)
      else case ws of
             [] \<Rightarrow> Inl Null_Deref
           | worker # rest \<Rightarrow>
               if num_workers ctx > 1 then Inr (pass_socket sock is_ssl ws, w)
               else rbind (add_socket os ctx now sock is_ssl worker w) (\<lambda>(worker1, w1). Inr (worker1 # rest, w1)))"

text \<open>
  The descriptors a worker waits for: the control socket, the remote sockets with room for input, and
  the remote sockets with output waiting. \<open>nowait\<close> is set when a local stream is always ready.
\<close>

record fdsets =
  fd_read :: "int list"
  fd_write :: "int list"
  fd_max :: int

definition add_to_read :: "int \<Rightarrow> fdsets \<Rightarrow> fdsets" where
  "add_to_read fd f = f\<lparr>fd_read := List.insert fd (fd_read f), fd_max := (if fd > fd_max f then fd else fd_max f)\<rparr>"

definition add_to_write :: "int \<Rightarrow> fdsets \<Rightarrow> fdsets" where
  "add_to_write fd f = f\<lparr>fd_write := List.insert fd (fd_write f), fd_max := (if fd > fd_max f then fd else fd_max f)\<rparr>"

definition multiplex_conn :: "conn \<Rightarrow> fdsets \<times> bool \<Rightarrow> (fdsets \<times> bool) res" where
  "multiplex_conn c fn =
     (let (f, nowait) = fn; fl = s_flags (c_loc c)
      in rbind (io_space_len (s_io (c_rem c))) (\<lambda>rspace.
         rbind (io_data_len (s_io (c_loc c))) (\<lambda>ldata.
         rbind (io_space_len (s_io (c_loc c))) (\<lambda>lspace.
         rbind (io_data_len (s_io (c_rem c))) (\<lambda>rdata.
           let f1 = (if rspace \<noteq> 0 then add_to_read (s_fd (c_rem c)) f else f);
               f2 = (if ldata \<noteq> 0 \<and> \<not> has fl FLAG_SUSPEND then add_to_write (s_fd (c_rem c)) f1 else f1)
           in Inr (f2, nowait \<or>
                       (lspace \<noteq> 0 \<and> has fl FLAG_R \<and> has fl FLAG_ALWAYS_READY) \<or>
                       (rdata \<noteq> 0 \<and> has fl FLAG_W \<and> has fl FLAG_ALWAYS_READY)))))))"

fun multiplex_conns :: "conn list \<Rightarrow> fdsets \<times> bool \<Rightarrow> (fdsets \<times> bool) res" where
  "multiplex_conns [] fn = Inr fn"
| "multiplex_conns (c # cs) fn = rbind (multiplex_conn c fn) (multiplex_conns cs)"

definition multiplex_worker_sockets :: "worker \<Rightarrow> fdsets \<Rightarrow> (fdsets \<times> bool) res" where
  "multiplex_worker_sockets worker f =
     multiplex_conns (wk_connections worker) (add_to_read (wk_ctl worker) f, False)"

definition first_worker :: "worker list \<Rightarrow> worker res" where
  "first_worker ws = (case ws of [] \<Rightarrow> Inl Null_Deref | worker # _ \<Rightarrow> Inr worker)"

text \<open>\<open>shttpd_join\<close>: the listening sockets, then the sockets of the worker when there is only one.\<close>

definition shttpd_join :: "ctx \<Rightarrow> (int \<times> bool) list \<Rightarrow> worker list \<Rightarrow> fdsets \<Rightarrow> (fdsets \<times> bool) res" where
  "shttpd_join ctx listeners ws f =
     (let f1 = foldl (\<lambda>f l. add_to_read (fst l) f) f listeners
      in if num_workers ctx = 1 then rbind (first_worker ws) (\<lambda>worker. multiplex_worker_sockets worker f1)
         else Inr (f1, False))"

text \<open>
  Reading the control socket until it is empty. A wake-up clears every flag of the connection's
  local stream but \<open>FLAG_SUSPEND\<close>.
\<close>

definition wake :: "conn \<Rightarrow> conn" where
  "wake c = upd_s Loc (\<lambda>s. s\<lparr>s_flags := s_flags s AND FLAG_SUSPEND\<rparr>) c"

fun wake_at :: "conn_ptr \<Rightarrow> worker \<Rightarrow> worker res" where
  "wake_at (Conn_At i) worker =
     (if i < length (wk_connections worker)
      then Inr (worker\<lparr>wk_connections := (wk_connections worker)[i := wake (wk_connections worker ! i)]\<rparr>)
      else Inl Out_Of_Bounds)"
| "wake_at List_Head worker = Inl Out_Of_Bounds"

text \<open>
  \<open>shttpd_wakeup\<close> for the connection at position \<open>i\<close>. It copies the first bytes of the connection, not
  its address, into the message: the first field of \<open>struct conn\<close> is its list link, whose first field
  is the address of the element in front.
\<close>

definition link_prev :: "nat \<Rightarrow> conn_ptr" where
  "link_prev i = (if i = 0 then List_Head else Conn_At (i - 1))"

definition shttpd_wakeup :: "nat \<Rightarrow> worker \<Rightarrow> worker" where
  "shttpd_wakeup i worker = send_ctl (CTL_WAKEUP (link_prev i)) worker"

fun control :: "'w os \<Rightarrow> ctx \<Rightarrow> int \<Rightarrow> ctl_msg list \<Rightarrow> worker \<Rightarrow> 'w \<Rightarrow> (worker \<times> 'w) res" where
  "control os ctx now [] worker w = Inr (worker, w)"
| "control os ctx now (CTL_PASS_SOCKET sock is_ssl # ms) worker w =
     rbind (add_socket os ctx now sock is_ssl worker w) (\<lambda>(worker1, w1). control os ctx now ms worker1 w1)"
| "control os ctx now (CTL_WAKEUP p # ms) worker w =
     rbind (wake_at p worker) (\<lambda>worker1. control os ctx now ms worker1 w)"

definition read_control :: "'w os \<Rightarrow> ctx \<Rightarrow> int \<Rightarrow> worker \<Rightarrow> 'w \<Rightarrow> (worker \<times> 'w) res" where
  "read_control os ctx now worker w = control os ctx now (wk_inbox worker) (worker\<lparr>wk_inbox := []\<rparr>) w"

definition local_ready :: "conn \<Rightarrow> bool" where
  "local_ready c \<longleftrightarrow> s_class (c_loc c) \<noteq> None \<and> has (s_flags (c_loc c)) FLAG_ALWAYS_READY"

fun process_all ::
  "nat \<Rightarrow> 'w os \<Rightarrow> ctx \<Rightarrow> int \<Rightarrow> int list \<Rightarrow> conn list \<Rightarrow> int \<Rightarrow> 'w \<Rightarrow> (conn list \<times> int \<times> 'w) res" where
  "process_all fuel os ctx now ready [] n w = Inr ([], n, w)"
| "process_all fuel os ctx now ready (c # cs) n w =
     rbind (process_connection fuel os ctx now (s_fd (c_rem c) \<in> set ready) (local_ready c) c w) (\<lambda>(co, w1).
       case co of
         Some c1 \<Rightarrow> rbind (process_all fuel os ctx now ready cs n w1) (\<lambda>(cs1, n1, w2). Inr (c1 # cs1, n1, w2))
       | None \<Rightarrow> rbind (c_assert (n - 1 \<ge> 0)) (\<lambda>_. process_all fuel os ctx now ready cs (n - 1) w1))"

definition process_worker_sockets ::
  "nat \<Rightarrow> 'w os \<Rightarrow> ctx \<Rightarrow> int \<Rightarrow> int list \<Rightarrow> worker \<Rightarrow> 'w \<Rightarrow> (worker \<times> 'w) res" where
  "process_worker_sockets fuel os ctx now ready worker w =
     rbind (if wk_ctl worker \<in> set ready then read_control os ctx now worker w else Inr (worker, w)) (\<lambda>(worker1, w1).
     rbind (process_all fuel os ctx now ready (wk_connections worker1) (wk_num_conns worker1) w1) (\<lambda>(cs, n, w2).
       Inr (worker1\<lparr>wk_connections := cs, wk_num_conns := n\<rparr>, w2)))"

text \<open>
  One round of \<open>shttpd_poll\<close>: \<open>sel\<close> is what \<open>select\<close> reports as readable (\<open>None\<close> is an error), \<open>acc l\<close> the
  connections \<open>accept\<close> hands out on the listener \<open>l\<close> before it reports that there is none left.
\<close>

fun accept_all ::
  "'w os \<Rightarrow> ctx \<Rightarrow> int \<Rightarrow> bool \<Rightarrow> (int \<times> 32 word) list \<Rightarrow> worker list \<Rightarrow> 'w \<Rightarrow> (worker list \<times> 'w) res" where
  "accept_all os ctx now is_ssl [] ws w = Inr (ws, w)"
| "accept_all os ctx now is_ssl ((sock, ip) # as) ws w =
     rbind (handle_connected_socket os ctx now ip sock is_ssl ws w) (\<lambda>(ws1, w1).
       accept_all os ctx now is_ssl as ws1 w1)"

fun accept_listeners ::
  "'w os \<Rightarrow> ctx \<Rightarrow> int \<Rightarrow> (int \<Rightarrow> (int \<times> 32 word) list) \<Rightarrow> int list \<Rightarrow> (int \<times> bool) list \<Rightarrow>
   worker list \<Rightarrow> 'w \<Rightarrow> (worker list \<times> 'w) res" where
  "accept_listeners os ctx now acc ready [] ws w = Inr (ws, w)"
| "accept_listeners os ctx now acc ready ((sock, is_ssl) # ls) ws w =
     rbind (if sock \<in> set ready then accept_all os ctx now is_ssl (acc sock) ws w else Inr (ws, w)) (\<lambda>(ws1, w1).
       accept_listeners os ctx now acc ready ls ws1 w1)"

definition shttpd_poll ::
  "nat \<Rightarrow> 'w os \<Rightarrow> ctx \<Rightarrow> int \<Rightarrow> (int \<times> bool) list \<Rightarrow> (fdsets \<Rightarrow> bool \<Rightarrow> int list option) \<Rightarrow>
   (int \<Rightarrow> (int \<times> 32 word) list) \<Rightarrow> worker list \<Rightarrow> 'w \<Rightarrow> (worker list \<times> 'w) res" where
  "shttpd_poll fuel os ctx now listeners sel acc ws w =
     rbind (shttpd_join ctx listeners ws \<lparr>fd_read = [], fd_write = [], fd_max = -1\<rparr>) (\<lambda>(f, nowait).
       case sel f nowait of
         None \<Rightarrow> Inr (ws, w)
       | Some ready \<Rightarrow>
           rbind (accept_listeners os ctx now acc ready listeners ws w) (\<lambda>(ws1, w1).
             if num_workers ctx = 1
             then rbind (first_worker ws1) (\<lambda>worker.
                  rbind (process_worker_sockets fuel os ctx now ready worker w1) (\<lambda>(worker1, w2).
                    Inr (worker1 # tl ws1, w2)))
             else Inr (ws1, w1)))"

section \<open>Workers stay well formed\<close>

text \<open>
  A worker counts its connections correctly, each of them satisfies the invariant, and no wake-up
  is under way.
\<close>

definition worker_ok :: "worker \<Rightarrow> bool" where
  "worker_ok worker \<longleftrightarrow>
     wk_num_conns worker = int (length (wk_connections worker)) \<and> list_all conn_inv (wk_connections worker) \<and>
     list_all (\<lambda>m. \<exists>sock is_ssl. m = CTL_PASS_SOCKET sock is_ssl) (wk_inbox worker)"

lemma new_conn_inv: "conn_inv (new_conn now sa sock zero_conn)"
  by (simp add: conn_inv_def conn_ok_def new_conn_def zero_conn_def zero_stream_def io_ok_def unused_def
      OUT_BUF_MAX_def INPUT_BUF_MAX_def)

lemma add_socket_keeps:
  "add_socket os ctx now sock is_ssl worker w = Inr (worker', w') \<Longrightarrow> worker_ok worker \<Longrightarrow> worker_ok worker'"
  by (auto simp: add_socket_def elog_def alloc_conn_def worker_ok_def new_conn_inv split: option.splits if_splits)

lemma control_keeps:
  assumes "control os ctx now ms worker w = Inr (worker', w')" and "worker_ok worker"
    and "list_all (\<lambda>m. \<exists>sock is_ssl. m = CTL_PASS_SOCKET sock is_ssl) ms"
  shows "worker_ok worker'"
  using assms
proof (induction ms arbitrary: worker w)
  case (Cons m ms)
  then obtain sock is_ssl where m: "m = CTL_PASS_SOCKET sock is_ssl" by auto
  with Cons.prems obtain worker1 w1 where 1: "add_socket os ctx now sock is_ssl worker w = Inr (worker1, w1)"
      "control os ctx now ms worker1 w1 = Inr (worker', w')"
    by (auto elim: rbind_pairE)
  show ?case using Cons.IH [OF 1(2)] add_socket_keeps [OF 1(1) Cons.prems(2)] Cons.prems(3) by simp
qed simp

lemma pass_socket_keeps:
  assumes "list_all worker_ok ws"
  shows "list_all worker_ok (pass_socket sock is_ssl ws)"
proof (cases "lazy_worker ws < length ws")
  case True
  have "worker_ok (send_ctl (CTL_PASS_SOCKET sock is_ssl) worker)" if "worker_ok worker" for worker
    using that by (simp add: worker_ok_def send_ctl_def)
  moreover have "worker_ok (ws ! lazy_worker ws)" using assms True by (simp add: list_all_length)
  ultimately show ?thesis
    using assms set_update_subset_insert by (fastforce simp: list_all_iff pass_socket_def Let_def)
qed (use assms in \<open>simp add: pass_socket_def Let_def list_update_beyond not_less\<close>)

lemma handle_connected_socket_keeps:
  "handle_connected_socket os ctx now ip sock is_ssl ws w = Inr (ws', w') \<Longrightarrow> list_all worker_ok ws \<Longrightarrow>
   list_all worker_ok ws'"
  by (auto simp: handle_connected_socket_def split: if_splits list.splits option.splits
      elim!: rbind_pairE intro: pass_socket_keeps add_socket_keeps)

lemma accept_all_keeps:
  "accept_all os ctx now is_ssl as ws w = Inr (ws', w') \<Longrightarrow> list_all worker_ok ws \<Longrightarrow> list_all worker_ok ws'"
proof (induction as arbitrary: ws w)
  case (Cons a as)
  obtain sock ip where a: "a = (sock, ip)" by fastforce
  from Cons.prems(1) obtain ws1 w1 where h: "handle_connected_socket os ctx now ip sock is_ssl ws w = Inr (ws1, w1)"
      "accept_all os ctx now is_ssl as ws1 w1 = Inr (ws', w')"
    by (auto simp: a elim: rbind_pairE)
  show ?case by (rule Cons.IH [OF h(2) handle_connected_socket_keeps [OF h(1) Cons.prems(2)]])
qed simp

lemma accept_listeners_keeps:
  "accept_listeners os ctx now acc ready ls ws w = Inr (ws', w') \<Longrightarrow> list_all worker_ok ws \<Longrightarrow>
   list_all worker_ok ws'"
proof (induction ls arbitrary: ws w)
  case (Cons l ls)
  obtain sock is_ssl where l: "l = (sock, is_ssl)" by fastforce
  from Cons.prems(1) obtain ws1 w1 where
      h: "(if sock \<in> set ready then accept_all os ctx now is_ssl (acc sock) ws w else Inr (ws, w)) = Inr (ws1, w1)"
      "accept_listeners os ctx now acc ready ls ws1 w1 = Inr (ws', w')"
    by (auto simp: l elim: rbind_pairE)
  have "list_all worker_ok ws1"
    using h(1) Cons.prems(2) accept_all_keeps [of os ctx now is_ssl "acc sock" ws w ws1 w1] by (auto split: if_splits)
  then show ?case by (rule Cons.IH [OF h(2)])
qed simp

lemma process_all_keeps:
  assumes "process_all fuel os ctx now ready cs n w = Inr (cs', n', w')" and "list_all conn_inv cs"
    and h: "ctx_error_handlers ctx = []"
  shows "n' - int (length cs') = n - int (length cs) \<and> list_all conn_inv cs'"
  using assms(1,2)
proof (induction cs arbitrary: n w cs' n')
  case (Cons c cs)
  from Cons.prems(1) obtain co w1 where pc: "process_connection fuel os ctx now (s_fd (c_rem c) \<in> set ready) (local_ready c) c w = Inr (co, w1)"
    by (auto elim: rbind_pairE)
  show ?case
  proof (cases co)
    case None
    with Cons.prems(1) pc have "process_all fuel os ctx now ready cs (n - 1) w1 = Inr (cs', n', w')"
      by (auto elim: rbind_InrE)
    from Cons.IH [OF this] Cons.prems(2) show ?thesis by simp
  next
    case (Some c1)
    with Cons.prems(1) pc obtain cs1 where "process_all fuel os ctx now ready cs n w1 = Inr (cs1, n', w')" "cs' = c1 # cs1"
      by (auto elim!: rbind_InrE)
    moreover have "conn_inv c1"
      using process_connection_keeps_inv [OF pc [unfolded Some] _ h] Cons.prems(2) by simp
    ultimately show ?thesis using Cons.IH [of n w1 cs1 n'] Cons.prems(2) by simp
  qed
qed simp

lemma process_worker_sockets_keeps:
  fixes os :: "'a os"
  assumes "process_worker_sockets fuel os ctx now ready worker w = Inr (worker', w')" and "worker_ok worker"
    and h: "ctx_error_handlers ctx = []"
  shows "worker_ok worker'"
  using assms(1) unfolding process_worker_sockets_def
proof (elim rbind_pairE)
  fix worker1 w1 cs and r :: "int \<times> 'a"
  obtain n w2 where r: "r = (n, w2)" by fastforce
  assume 1: "(if wk_ctl worker \<in> set ready then read_control os ctx now worker w else Inr (worker, w)) = Inr (worker1, w1)"
    and 2: "process_all fuel os ctx now ready (wk_connections worker1) (wk_num_conns worker1) w1 = Inr (cs, r)"
    and 3: "(case r of (n, w2) \<Rightarrow> Inr (worker1\<lparr>wk_connections := cs, wk_num_conns := n\<rparr>, w2)) = Inr (worker', w')"
  have "worker_ok (worker\<lparr>wk_inbox := []\<rparr>)" "list_all (\<lambda>m. \<exists>sock is_ssl. m = CTL_PASS_SOCKET sock is_ssl) (wk_inbox worker)"
    using assms(2) by (simp_all add: worker_ok_def)
  with 1 have w1: "worker_ok worker1"
    using control_keeps [of os ctx now "wk_inbox worker" "worker\<lparr>wk_inbox := []\<rparr>" w worker1 w1] assms(2)
    by (auto simp: read_control_def split: if_splits)
  then show ?thesis
    using process_all_keeps [OF 2 [unfolded r] _ h] 3 r by (auto simp: worker_ok_def)
qed

lemma shttpd_poll_keeps_aux:
  assumes "shttpd_poll fuel os ctx now listeners sel acc ws w = Inr (ws', w')" and "list_all worker_ok ws"
    and h: "ctx_error_handlers ctx = []"
  shows "list_all worker_ok ws'"
  using assms(1) unfolding shttpd_poll_def
proof (elim rbind_pairE)
  fix f nowait
  assume r: "(case sel f nowait of
       None \<Rightarrow> Inr (ws, w)
     | Some ready \<Rightarrow> rbind (accept_listeners os ctx now acc ready listeners ws w) (\<lambda>(ws1, w1).
         if num_workers ctx = 1
         then rbind (first_worker ws1) (\<lambda>worker.
              rbind (process_worker_sockets fuel os ctx now ready worker w1) (\<lambda>(worker1, w2). Inr (worker1 # tl ws1, w2)))
         else Inr (ws1, w1))) = Inr (ws', w')"
  show ?thesis
  proof (cases "sel f nowait")
    case None
    with r assms(2) show ?thesis by simp
  next
    case (Some ready)
    from r [unfolded Some option.case] show ?thesis
    proof (elim rbind_pairE)
      fix ws1 w1
      assume a: "accept_listeners os ctx now acc ready listeners ws w = Inr (ws1, w1)"
        and b: "(if num_workers ctx = 1
           then rbind (first_worker ws1) (\<lambda>worker.
              rbind (process_worker_sockets fuel os ctx now ready worker w1) (\<lambda>(worker1, w2). Inr (worker1 # tl ws1, w2)))
           else Inr (ws1, w1)) = Inr (ws', w')"
      have "list_all worker_ok ws1" by (rule accept_listeners_keeps [OF a assms(2)])
      with b show ?thesis
        by (cases ws1) (auto simp: first_worker_def elim!: rbind_pairE split: if_splits
            dest: process_worker_sockets_keeps [OF _ _ h])
    qed
  qed
qed

text \<open>What a well-formed worker is good for: collecting the descriptors to wait for never fails.\<close>

lemma multiplex_conn_total: "conn_ok c \<Longrightarrow> \<exists>r. multiplex_conn c fn = Inr r"
  by (cases fn) (simp add: multiplex_conn_def conn_ok_def Let_def)

lemma multiplex_conns_total: "list_all conn_inv cs \<Longrightarrow> \<exists>r. multiplex_conns cs fn = Inr r"
proof (induction cs arbitrary: fn)
  case (Cons c cs)
  then obtain r where "multiplex_conn c fn = Inr r" using multiplex_conn_total [of c fn] by (auto simp: conn_inv_def)
  then show ?case using Cons by simp
qed simp

lemma shttpd_join_total:
  assumes "list_all worker_ok ws" and "ws \<noteq> []"
  shows "\<exists>r. shttpd_join ctx listeners ws f = Inr r"
  using assms multiplex_conns_total
  by (cases ws) (auto simp: shttpd_join_def first_worker_def multiplex_worker_sockets_def worker_ok_def Let_def)

lemma shttpd_poll_workers_left:
  assumes "shttpd_poll fuel os ctx now listeners sel acc ws w = Inr (ws', w')" and "ws \<noteq> []"
  shows "ws' \<noteq> []"
proof -
  have h: "ws2 \<noteq> []" if "handle_connected_socket os ctx now ip sock is_ssl ws1 v = Inr (ws2, v')" "ws1 \<noteq> []" for ip sock is_ssl ws1 ws2 v v'
    using that by (auto simp: handle_connected_socket_def pass_socket_def Let_def split: if_splits list.splits option.splits nat.splits elim!: rbind_pairE)
  have a: "ws2 \<noteq> []" if "accept_all os ctx now is_ssl as ws1 v = Inr (ws2, v')" "ws1 \<noteq> []" for is_ssl as ws1 ws2 v v'
    using that by (induction as arbitrary: ws1 v) (auto elim!: rbind_pairE, blast dest: h)
  have l: "ws2 \<noteq> []" if "accept_listeners os ctx now acc ready ls ws1 v = Inr (ws2, v')" "ws1 \<noteq> []" for ready ls ws1 ws2 v v'
    using that by (induction ls arbitrary: ws1 v) (auto elim!: rbind_pairE split: if_splits, (blast dest: a)+)
  show ?thesis
    using assms by (auto simp: shttpd_poll_def elim!: rbind_pairE rbind_InrE split: option.splits if_splits prod.splits, (blast dest: l)+)
qed

text \<open>
  C3. A round of the server loop that returns keeps every worker well formed, whatever \<open>select\<close>, \<open>accept\<close>, the
  sockets, the files, the callbacks and Ruby answer: each worker has the right number of connections, every
  connection has well-formed buffers, and one that is not answering a request has an unused or stopped
  local stream. So the next round gets to its \<open>select\<close>: collecting the descriptors fails no assertion. Error handlers
  and wake-ups are not in use. A round can also end in a fault, or not at all, as other theorems show; of such a
  round nothing is said here.
\<close>

theorem shttpd_poll_keeps_workers:
  assumes "shttpd_poll fuel os ctx now listeners sel acc ws w = Inr (ws', w')" and "list_all worker_ok ws"
    and "ctx_error_handlers ctx = []"
  shows "list_all worker_ok ws' \<and> (ws \<noteq> [] \<longrightarrow> (\<forall>f. \<exists>r. shttpd_join ctx listeners ws' f = Inr r))"
  using shttpd_poll_keeps_aux [OF assms] shttpd_poll_workers_left [OF assms(1)] shttpd_join_total by blast

definition sample_ctx :: ctx where
  "sample_ctx = \<lparr>ctx_registered_uris = [], ctx_error_handlers = [], ctx_acl = [],
     ctx_options = [OPT_ROOT \<mapsto> ''/www''], ctx_access_log = False\<rparr>"

definition sample_worker :: worker where
  "sample_worker = \<lparr>wk_num_conns = 0, wk_ctl = 5, wk_inbox = [], wk_connections = []\<rparr>"

lemma sample_is_false [simp]: "\<not> IS_TRUE sample_ctx OPT_INETD" "num_workers sample_ctx = 1"
  by (simp_all add: IS_TRUE_def sample_ctx_def shttpd_is_true_def trues_def num_workers_def)

lemma fresh_exchange:
  "exchange os ctx now False False (new_conn now sa sock zero_conn) w = Inr (new_conn now sa sock zero_conn, w)"
proof -
  have len: "shttpd_get_headers_len [] 0 = Inr 0" by code_simp
  have "upd_s Rem (\<lambda>s. s\<lparr>s_headers_len := 0\<rparr>) (new_conn now sa sock zero_conn) = new_conn now sa sock zero_conn"
    by (simp add: new_conn_def zero_conn_def zero_stream_def)
  moreover have "io_bytes (s_io (zero_stream n)) = []" "io_space_len (s_io (zero_stream n)) = Inr n"
    "io_data (s_io (zero_stream n)) = Inr 0" "io_data_len (s_io (zero_stream n)) = Inr 0" if "0 < n" for n
    using that by (simp_all add: zero_stream_def io_bytes_def io_defs)
  moreover have "c_rem (new_conn now sa sock zero_conn) = (zero_stream INPUT_BUF_MAX)\<lparr>s_class := Some Io_socket, s_fd := sock\<rparr>"
    "c_loc (new_conn now sa sock zero_conn) = zero_stream OUT_BUF_MAX"
    by (simp_all add: new_conn_def zero_conn_def zero_stream_def)
  moreover have "s_flags (zero_stream n) = 0" for n by (simp add: zero_stream_def)
  ultimately show ?thesis
    using len by (simp add: exchange_def parse_http_request_def has_def INPUT_BUF_MAX_def OUT_BUF_MAX_def Let_def del: upd_s.simps)
qed

theorem shttpd_poll_keeps_workers_witness:
  "\<exists>ws' w'. shttpd_poll 1 sample_os sample_ctx 0 [(3, False)] (\<lambda>_ _. Some [3]) (\<lambda>_. [(7, 0x7F000001)]) [sample_worker] []
     = Inr (ws', w') \<and> list_all worker_ok ws' \<and> map wk_num_conns ws' = [1] \<and>
       (\<forall>f. \<exists>r. shttpd_join sample_ctx [(3, False)] ws' f = Inr r)"
proof -
  let ?c = "new_conn 0 0 7 zero_conn"
  let ?w = "sample_worker\<lparr>wk_num_conns := 1, wk_connections := [?c]\<rparr>"
  have "handle_connected_socket sample_os sample_ctx 0 0x7F000001 7 False [sample_worker] [] = Inr ([?w], [])"
  proof -
    have "os_fd_setsize sample_os = None" "os_getpeername sample_os w s = Some 0" "alloc_conn sample_os w = Some zero_conn" for w s
      by (simp_all add: sample_os_def alloc_conn_def)
    moreover have "ctx_acl sample_ctx = []" by (simp add: sample_ctx_def)
    ultimately show ?thesis
      by (simp add: handle_connected_socket_def is_allowed_def add_socket_def) (simp add: sample_worker_def)
  qed
  moreover have "process_connection (Suc 0) sample_os sample_ctx 0 False False ?c [] = Inr (Some ?c, [])"
    by (simp add: fresh_exchange should_close_def)
       (simp add: new_conn_def EXPIRE_TIME_def zero_conn_def zero_stream_def has_def)
  moreover have "s_fd (c_rem ?c) = 7" "\<not> local_ready ?c"
    by (simp_all add: new_conn_def local_ready_def)
  ultimately have r: "shttpd_poll 1 sample_os sample_ctx 0 [(3, False)] (\<lambda>_ _. Some [3]) (\<lambda>_. [(7, 0x7F000001)]) [sample_worker] []
      = Inr ([?w], [])"
    by (simp add: shttpd_poll_def shttpd_join_def first_worker_def multiplex_worker_sockets_def process_worker_sockets_def)
       (simp add: sample_worker_def)
  have ok: "list_all worker_ok [sample_worker]" "ctx_error_handlers sample_ctx = []"
    by (simp_all add: worker_ok_def sample_worker_def sample_ctx_def)
  from shttpd_poll_keeps_workers [OF r ok]
  have "list_all worker_ok [?w]" "\<forall>f. \<exists>r. shttpd_join sample_ctx [(3, False)] [?w] f = Inr r" by blast+
  with r show ?thesis by (intro exI [of _ "[?w]"] exI [of _ "[]"] conjI) (assumption, assumption, simp, assumption)
qed

section \<open>Access control, load and wake-ups\<close>

lemma is_allowed_snoc:
  "is_allowed (as @ [a]) ip = (if acl_ip a = ip AND acl_mask a then acl_flag a = CHR ''+'' else is_allowed as ip)"
  by (simp add: is_allowed_def)

lemma bit_mask_word: "0 \<le> n \<Longrightarrow> n \<le> 32 \<Longrightarrow> bit (mask_word n) i \<longleftrightarrow> i < 32 \<and> 32 - nat n \<le> i"
proof -
  assume n: "0 \<le> n" "n \<le> 32"
  have ones: "(0xffffffff :: 32 word) = mask 32" by (simp add: mask_eq_exp_minus_1)
  show ?thesis
    using n unfolding mask_word_def ones by (auto simp: bit_simps nat_diff_distrib)
qed

text \<open>
  The entries a user writes: allow or deny, the four bytes of an address and, after a slash, the number of
  leading bits that count (all 32 without it); their text, and the addresses they are about.
\<close>

record acl_entry =
  e_allow :: bool
  e_bytes :: "nat \<times> nat \<times> nat \<times> nat"
  e_prefix :: "nat option"

definition entry_ok :: "acl_entry \<Rightarrow> bool" where
  "entry_ok e = (case e_bytes e of (a, b, c, d) \<Rightarrow> a < 256 \<and> b < 256 \<and> c < 256 \<and> d < 256 \<and>
     (case e_prefix e of None \<Rightarrow> True | Some n \<Rightarrow> n \<le> 32))"

definition entry_text :: "acl_entry \<Rightarrow> string" where
  "entry_text e =
     (case e_bytes e of (a, b, c, d) \<Rightarrow>
        (if e_allow e then CHR ''+'' else CHR ''-'') # dec a @ ''.'' @ dec b @ ''.'' @ dec c @ ''.'' @ dec d @
        (case e_prefix e of None \<Rightarrow> [] | Some n \<Rightarrow> ''/'' @ dec n))"

definition entry_addr :: "acl_entry \<Rightarrow> nat" where
  "entry_addr e = (case e_bytes e of (a, b, c, d) \<Rightarrow> a * 2 ^ 24 + b * 2 ^ 16 + c * 2 ^ 8 + d)"

definition entry_host_bits :: "acl_entry \<Rightarrow> nat" where
  "entry_host_bits e = 32 - (case e_prefix e of None \<Rightarrow> 32 | Some n \<Rightarrow> n)"

text \<open>
  An entry covers an address when its own address is that of the block of \<open>2 ^ k\<close> addresses the address lies in.
\<close>

definition covers :: "32 word \<Rightarrow> acl_entry \<Rightarrow> bool" where
  "covers ip e \<longleftrightarrow> entry_addr e = unat ip div 2 ^ entry_host_bits e * 2 ^ entry_host_bits e"

text \<open>What is kept of an entry.\<close>

definition stored :: "acl_entry \<Rightarrow> acl" where
  "stored e = \<lparr>acl_ip = word_of_nat (entry_addr e), acl_mask = mask_word (32 - int (entry_host_bits e)),
     acl_flag = (if e_allow e then CHR ''+'' else CHR ''-'')\<rparr>"

lemma or_low: "0 \<le> y \<Longrightarrow> y < 2 ^ n \<Longrightarrow> push_bit n x OR y = push_bit n x + (y :: int)"
  using concat_bit_eq [of n y x] concat_bit_def [of n y x] by (simp add: take_bit_int_eq_self or.commute)

lemma ip_word_value:
  assumes "a < 256" and "b < 256" and "c < 256" and "d < 256"
  shows "ip_word (int a) (int b) (int c) (int d) = word_of_nat (a * 2 ^ 24 + b * 2 ^ 16 + c * 2 ^ 8 + d)"
proof -
  have p: "push_bit n (word_of_int k :: 32 word) = word_of_int (push_bit n k)" for n k
    by (simp add: push_bit_eq_mult)
  have or: "(word_of_int x :: 32 word) OR word_of_int y = word_of_int (x OR y)" for x y
    by (rule bit_word_eqI) (simp add: bit_simps)
  have "push_bit 8 (int c) OR int d = int (c * 2 ^ 8 + d)" using or_low [of "int d" 8 "int c"] assms(4) by (simp add: push_bit_eq_mult)
  moreover have "push_bit 16 (int b) OR int (c * 2 ^ 8 + d) = int (b * 2 ^ 16 + c * 2 ^ 8 + d)"
    using or_low [of "int (c * 2 ^ 8 + d)" 16 "int b"] assms(3,4) by (simp add: push_bit_eq_mult)
  moreover have "push_bit 24 (int a) OR int (b * 2 ^ 16 + c * 2 ^ 8 + d) = int (a * 2 ^ 24 + b * 2 ^ 16 + c * 2 ^ 8 + d)"
    using or_low [of "int (b * 2 ^ 16 + c * 2 ^ 8 + d)" 24 "int a"] assms(2-4) by (simp add: push_bit_eq_mult)
  ultimately have "push_bit 24 (int a) OR (push_bit 16 (int b) OR (push_bit 8 (int c) OR int d)) = int (a * 2 ^ 24 + b * 2 ^ 16 + c * 2 ^ 8 + d)"
    by metis
  then show ?thesis unfolding ip_word_def p or by (simp only: or.assoc of_int_of_nat_eq)
qed

lemma and_mask_word:
  assumes "k \<le> 32"
  shows "unat (ip AND mask_word (32 - int k)) = unat ip div 2 ^ k * 2 ^ k"
proof -
  have "ip AND mask_word (32 - int k) = push_bit k (drop_bit k ip)"
    by (rule bit_word_eqI) (use assms in \<open>auto simp: bit_simps bit_mask_word nat_diff_distrib\<close>)
  moreover have "unat ip div 2 ^ k * 2 ^ k < 2 ^ 32"
  proof -
    have "unat ip div 2 ^ k * 2 ^ k \<le> unat ip" by (rule div_times_less_eq_dividend)
    also have "\<dots> < 2 ^ LENGTH(32)" by (rule unsigned_less)
    finally show ?thesis by simp
  qed
  moreover have "unat (push_bit k (drop_bit k ip)) = take_bit 32 (unat ip div 2 ^ k * 2 ^ k)"
    unfolding unsigned_push_bit_eq unat_drop_bit_eq by (simp add: push_bit_eq_mult drop_bit_eq_div)
  ultimately show ?thesis by (simp add: take_bit_nat_eq_self)
qed

lemma entry_addr_less: "entry_ok e \<Longrightarrow> entry_addr e < 2 ^ 32"
  by (auto simp: entry_ok_def entry_addr_def split: prod.splits)

lemma stored_matches:
  assumes "entry_ok e"
  shows "acl_ip (stored e) = ip AND acl_mask (stored e) \<longleftrightarrow> covers ip e"
proof -
  have "entry_host_bits e \<le> 32" by (simp add: entry_host_bits_def)
  note m = and_mask_word [OF this, of ip]
  have "unat (word_of_nat (entry_addr e) :: 32 word) = entry_addr e"
    using entry_addr_less [OF assms] by (simp add: unsigned_of_nat take_bit_nat_eq_self)
  then show ?thesis unfolding covers_def m [symmetric] stored_def by (auto simp: word_unat_eq_iff)
qed

lemma sscanf_int: "r = [] \<or> \<not> isdigit (hd r) \<Longrightarrow> n < 2 ^ 31 \<Longrightarrow>
    sscanf (Dir_Int # ds) (dec n @ r) = (let (vs, t) = sscanf ds r in (VInt (int n) # vs, t))"
  by (simp add: scan_number_dec wrap32_def sat64_def)

lemma parse_acl_entry_text:
  assumes "entry_ok e" and "mem sizeof_acl" and "r = [] \<or> hd r = DELIM_CHAR"
  shows "parse_acl_entry mem (entry_text e @ r) = Inr (stored e)"
proof -
  obtain a b c d where e: "e_bytes e = (a, b, c, d)" by (metis prod.exhaust)
  then have byte: "a < 256" "b < 256" "c < 256" "d < 256" using assms(1) by (simp_all add: entry_ok_def)
  define t where "t = (case e_prefix e of None \<Rightarrow> [] | Some n \<Rightarrow> ''/'' @ dec n) @ r"
  have dig: "\<not> isdigit (CHR ''.'')" "\<not> isdigit (CHR ''/'')" "\<not> isdigit DELIM_CHAR" by (simp_all add: isdigit_def DELIM_CHAR_def)
  have t: "t = [] \<or> \<not> isdigit (hd t)" using assms(3) dig by (auto simp: t_def split: option.split)
  have scan: "sscanf subnet_format (dec a @ ''.'' @ dec b @ ''.'' @ dec c @ ''.'' @ dec d @ t) =
      ([VInt (int a), VInt (int b), VInt (int c), VInt (int d)], Some t)"
    unfolding subnet_format_def using byte t dig by (simp add: sscanf_int del: sscanf.simps(4))
  have m: "(case scan_mask t of None \<Rightarrow> 32 | Some n \<Rightarrow> n) = 32 - int (entry_host_bits e)"
  proof (cases "e_prefix e")
    case None
    then have "t = r" by (simp add: t_def)
    moreover have "DELIM_CHAR \<noteq> CHR ''/''" by (simp add: DELIM_CHAR_def)
    ultimately have "scan_mask t = None" using assms(3) by (cases r) (auto simp: scan_mask_def)
    then show ?thesis using None by (simp add: entry_host_bits_def)
  next
    case (Some n)
    then have n: "n \<le> 32" using assms(1) by (simp add: entry_ok_def e)
    have "r = [] \<or> \<not> isdigit (hd r)" using assms(3) dig(3) by auto
    then have "scan_mask t = Some (int n)"
      using n Some by (simp add: t_def scan_mask_def sscanf_int del: sscanf.simps(4))
    then show ?thesis using n Some by (simp add: entry_host_bits_def)
  qed
  have "entry_text e @ r = (if e_allow e then CHR ''+'' else CHR ''-'') # dec a @ ''.'' @ dec b @ ''.'' @ dec c @ ''.'' @ dec d @ t"
    by (simp add: entry_text_def e t_def)
  moreover have "entry_host_bits e \<le> 32" by (simp add: entry_host_bits_def)
  ultimately show ?thesis
    using assms(2) byte scan m
    by (simp add: parse_acl_entry_def isbyte_def stored_def entry_addr_def e ip_word_value)
qed

lemma entry_text_word: "word_ok (entry_text e)"
proof -
  have "c \<noteq> NUL \<and> c \<noteq> DELIM_CHAR" if "c \<in> set (dec n)" for c n
    using isdigit_dec [OF that] by (auto simp: isdigit_def DELIM_CHAR_def)
  then show ?thesis
    by (auto simp: word_ok_def entry_text_def DELIM_CHAR_def split: prod.splits option.splits)
qed

lemma words_from_Cons:
  assumes "word_ok w" and "r = [] \<or> hd r \<noteq> DELIM_CHAR"
  shows "words_from (w @ DELIM_CHAR # r) = (w @ DELIM_CHAR # r, length w) # words_from r"
proof -
  have "strspn_delim (DELIM_CHAR # r) = 1"
    using assms(2) by (cases r) (auto simp: strspn_delim_def)
  with assms(1) show ?thesis
    by (subst words_from.simps) (simp add: Let_def strcspn_word, simp add: word_ok_def)
qed

lemma words_from_single: "word_ok w \<Longrightarrow> words_from w = [(w, length w)]"
  by (subst words_from.simps) (simp add: Let_def strcspn_word, simp add: word_ok_def)

lemma set_acl_loop_text:
  assumes "mem sizeof_acl"
  shows "list_all entry_ok es \<Longrightarrow> set_acl_loop mem (words_from (join_words (map entry_text es))) = Inr (map stored es)"
proof (induction es rule: induct_list012)
  case (2 e)
  then show ?case using parse_acl_entry_text [of e mem "[]"] assms by (simp add: words_from_single entry_text_word)
next
  case (3 e e' es)
  let ?r = "join_words (map entry_text (e' # es))"
  have "hd ?r \<noteq> DELIM_CHAR" by (cases es) (simp_all add: entry_text_def DELIM_CHAR_def split: prod.split)
  then show ?case
    using 3 parse_acl_entry_text [of e mem "DELIM_CHAR # ?r"] assms words_from_Cons [OF entry_text_word, of ?r e] by simp
qed simp

text \<open>
  C33. Access control: configuring the text of a list of entries \<open>[+|-]a.b.c.d[/n]\<close>, separated by commas, succeeds,
  and from then on the last entry of the list that covers an address decides whether it is allowed; an address
  no entry covers is allowed. An entry covers the addresses that agree with it in the first \<open>n\<close> bits (32
  without \<open>/n\<close>), provided its other bits are zero; otherwise it covers none.
\<close>

theorem is_allowed_last_match:
  assumes "list_all entry_ok es" and "mem sizeof_acl"
  shows "\<exists>ctx'. set_acl mem ctx (Some (join_words (map entry_text es))) = Inr ctx' \<and>
    (\<forall>ip. is_allowed (ctx_acl ctx') ip = (case List.find (covers ip) (rev es) of None \<Rightarrow> True | Some e \<Rightarrow> e_allow e))"
proof -
  have "set_acl mem ctx (Some (join_words (map entry_text es))) = Inr (ctx\<lparr>ctx_acl := map stored es\<rparr>)"
    using set_acl_loop_text [of mem, OF assms(2,1)] by (simp add: set_acl_def for_each_word_def)
  moreover have "is_allowed (map stored es) ip = (case List.find (covers ip) (rev es) of None \<Rightarrow> True | Some e \<Rightarrow> e_allow e)" for ip
    using assms(1)
  proof (induction es rule: rev_induct)
    case Nil
    then show ?case by (simp add: is_allowed_def)
  next
    case (snoc e es)
    then show ?case using stored_matches [of e ip] by (simp add: is_allowed_snoc) (simp add: stored_def)
  qed
  ultimately show ?thesis by auto
qed

definition sample_entries :: "acl_entry list" where
  "sample_entries = [\<lparr>e_allow = False, e_bytes = (0, 0, 0, 0), e_prefix = Some 0\<rparr>, \<lparr>e_allow = True, e_bytes = (192, 168, 1, 0), e_prefix = Some 24\<rparr>,
     \<lparr>e_allow = False, e_bytes = (192, 168, 1, 7), e_prefix = None\<rparr>]"

theorem is_allowed_last_match_witness:
  "\<exists>ctx'. set_acl (\<lambda>_. True) sample_ctx (Some ''-0.0.0.0/0,+192.168.1.0/24,-192.168.1.7'') = Inr ctx' \<and>
     is_allowed (ctx_acl ctx') 0xC0A80101 \<and> \<not> is_allowed (ctx_acl ctx') 0xC0A80107 \<and> \<not> is_allowed (ctx_acl ctx') 0xC0A80201"
proof -
  have ok: "list_all entry_ok sample_entries" by code_simp
  have tx: "join_words (map entry_text sample_entries) = ''-0.0.0.0/0,+192.168.1.0/24,-192.168.1.7''" by code_simp
  obtain ctx' where c: "set_acl (\<lambda>_. True) sample_ctx (Some ''-0.0.0.0/0,+192.168.1.0/24,-192.168.1.7'') = Inr ctx'"
    "\<forall>ip. is_allowed (ctx_acl ctx') ip = (case List.find (covers ip) (rev sample_entries) of None \<Rightarrow> True | Some e \<Rightarrow> e_allow e)"
    using is_allowed_last_match [OF ok, of "\<lambda>_. True" sample_ctx] unfolding tx by blast
  have "case List.find (covers 0xC0A80101) (rev sample_entries) of None \<Rightarrow> True | Some e \<Rightarrow> e_allow e"
    "\<not> (case List.find (covers 0xC0A80107) (rev sample_entries) of None \<Rightarrow> True | Some e \<Rightarrow> e_allow e)"
    "\<not> (case List.find (covers 0xC0A80201) (rev sample_entries) of None \<Rightarrow> True | Some e \<Rightarrow> e_allow e)"
    by (simp_all add: sample_entries_def covers_def entry_addr_def entry_host_bits_def)
  with c show ?thesis by blast
qed

lemma lazy_scan_least:
  assumes "lazy < i" and "ns = pre @ ms" and "length pre = i" and "n = ns ! lazy"
    and "\<forall>j<i. n \<le> ns ! j" and "\<forall>j<lazy. n < ns ! j"
  shows "let k = lazy_scan ms i lazy n
    in k < length ns \<and> (\<forall>j<length ns. ns ! k \<le> ns ! j) \<and> (\<forall>j<k. ns ! k < ns ! j)"
  using assms
proof (induction ms arbitrary: i lazy n pre)
  case (Cons m ms)
  have m: "ns ! i = m" using Cons.prems(2,3) by (simp add: nth_append)
  show ?case
  proof (cases "m < n")
    case True
    have lt: "\<forall>j<i. m < ns ! j" using Cons.prems(5) True by fastforce
    then have "\<forall>j<Suc i. m \<le> ns ! j" using m by (fastforce simp: less_Suc_eq)
    then have "let k = lazy_scan ms (Suc i) i m
        in k < length ns \<and> (\<forall>j<length ns. ns ! k \<le> ns ! j) \<and> (\<forall>j<k. ns ! k < ns ! j)"
      by (intro Cons.IH [of i "Suc i" "pre @ [m]" m]) (use Cons.prems(2,3) m lt in simp_all)
    then show ?thesis using True by simp
  next
    case False
    have "\<forall>j<Suc i. n \<le> ns ! j" using Cons.prems(5) False m by (auto simp: less_Suc_eq)
    then have "let k = lazy_scan ms (Suc i) lazy n
        in k < length ns \<and> (\<forall>j<length ns. ns ! k \<le> ns ! j) \<and> (\<forall>j<k. ns ! k < ns ! j)"
      by (intro Cons.IH [of lazy "Suc i" "pre @ [m]" n]) (use Cons.prems in simp_all)
    then show ?thesis using False by simp
  qed
qed simp

lemma lazy_worker_least:
  assumes "ws \<noteq> []"
  shows "let i = lazy_worker ws
    in i < length ws \<and> (\<forall>j<length ws. wk_num_conns (ws ! i) \<le> wk_num_conns (ws ! j)) \<and>
       (\<forall>j<i. wk_num_conns (ws ! i) < wk_num_conns (ws ! j))"
proof -
  obtain x xs where ws: "ws = x # xs" using assms by (cases ws) auto
  have "lazy_worker ws = lazy_scan (map wk_num_conns xs) 1 0 (wk_num_conns x)" by (simp add: ws lazy_worker_def)
  moreover have "let k = lazy_scan (map wk_num_conns xs) 1 0 (wk_num_conns x)
      in k < length (map wk_num_conns ws) \<and> (\<forall>j<length (map wk_num_conns ws). map wk_num_conns ws ! k \<le> map wk_num_conns ws ! j) \<and>
        (\<forall>j<k. map wk_num_conns ws ! k < map wk_num_conns ws ! j)"
    by (rule lazy_scan_least [of _ _ _ "[wk_num_conns x]"]) (simp_all add: ws)
  ultimately show ?thesis by (auto simp: Let_def)
qed

text \<open>
  A new socket goes to the least busy worker: with several workers the socket is passed to the
  first worker with the smallest number of connections, no other worker hears of it, and no
  connection is added before that worker reads its control socket.
\<close>

lemma pass_socket_least_busy:
  assumes "ws \<noteq> []" and "num_workers ctx > 1" and "os_fd_setsize os = None" and "is_allowed (ctx_acl ctx) ip"
  shows "\<exists>i<length ws. (\<forall>j<length ws. wk_num_conns (ws ! i) \<le> wk_num_conns (ws ! j)) \<and>
    (\<forall>j<i. wk_num_conns (ws ! i) < wk_num_conns (ws ! j)) \<and>
    handle_connected_socket os ctx now ip sock is_ssl ws w =
      Inr (ws[i := (ws ! i)\<lparr>wk_inbox := wk_inbox (ws ! i) @ [CTL_PASS_SOCKET sock is_ssl]\<rparr>], w)"
proof (intro exI [of _ "lazy_worker ws"] conjI)
  show "handle_connected_socket os ctx now ip sock is_ssl ws w =
      Inr (ws[lazy_worker ws := (ws ! lazy_worker ws)
        \<lparr>wk_inbox := wk_inbox (ws ! lazy_worker ws) @ [CTL_PASS_SOCKET sock is_ssl]\<rparr>], w)"
    using assms by (cases ws) (simp_all add: handle_connected_socket_def pass_socket_def Let_def send_ctl_def)
qed (use lazy_worker_least [OF assms(1)] in \<open>auto simp: Let_def\<close>)

lemma pass_socket_least_busy_witness:
  "\<exists>ws'. handle_connected_socket sample_os (sample_ctx\<lparr>ctx_options := [OPT_THREADS \<mapsto> ''2'']\<rparr>) 0 0 7 False
      [sample_worker\<lparr>wk_num_conns := 4\<rparr>, sample_worker] [] = Inr (ws', []) \<and>
    map wk_inbox ws' = [[], [CTL_PASS_SOCKET 7 False]]"
proof -
  let ?ws = "[sample_worker\<lparr>wk_num_conns := 4\<rparr>, sample_worker]"
    and ?ctx = "sample_ctx\<lparr>ctx_options := [OPT_THREADS \<mapsto> ''2'']\<rparr>"
  have "atoi ''2'' = 2" by code_simp
  then have h: "?ws \<noteq> []" "num_workers ?ctx > 1" "os_fd_setsize sample_os = None" "is_allowed (ctx_acl ?ctx) 0"
    by (simp_all add: num_workers_def sample_os_def is_allowed_def sample_ctx_def)
  obtain i where i: "i < length ?ws" "\<forall>j<length ?ws. wk_num_conns (?ws ! i) \<le> wk_num_conns (?ws ! j)"
    and r: "handle_connected_socket sample_os ?ctx 0 0 7 False ?ws [] =
      Inr (?ws[i := (?ws ! i)\<lparr>wk_inbox := wk_inbox (?ws ! i) @ [CTL_PASS_SOCKET 7 False]\<rparr>], [])"
    using pass_socket_least_busy [OF h, of 0 7 False "[]"] by blast
  from i have "i = 1" by (auto simp: less_Suc_eq sample_worker_def)
  with r show ?thesis by (simp add: sample_worker_def)
qed

text \<open>
  Waking up a suspended connection wakes up the wrong one: \<open>shttpd_wakeup\<close> sends the bytes of the
  connection instead of its address, so the worker treats the connection in front of it in the list
  as the one to wake. That connection loses every flag of its local stream but \<open>FLAG_SUSPEND\<close>, and the
  suspended connection stays as it was; for the first connection the worker writes through the head
  of the list, which is not a connection.
\<close>

lemma shttpd_wakeup_wrong_connection:
  assumes "i < length (wk_connections worker)" and "wk_inbox worker = []"
  shows "read_control os ctx now (shttpd_wakeup i worker) w =
    (if i = 0 then Inl Out_Of_Bounds
     else Inr (worker\<lparr>wk_connections := (wk_connections worker)
            [i - 1 := (let c = wk_connections worker ! (i - 1)
                       in c\<lparr>c_loc := (c_loc c)\<lparr>s_flags := s_flags (c_loc c) AND FLAG_SUSPEND\<rparr>\<rparr>)]\<rparr>, w))"
  using assms by (auto simp: read_control_def shttpd_wakeup_def send_ctl_def link_prev_def wake_def Let_def)

lemma shttpd_wakeup_wrong_connection_instance:
  "\<exists>worker'. read_control sample_os sample_ctx 0
     (shttpd_wakeup 1 (sample_worker\<lparr>wk_connections := [or_flags Loc FLAG_R zero_conn, or_flags Loc FLAG_SUSPEND zero_conn]\<rparr>)) []
     = Inr (worker', []) \<and>
     map (\<lambda>c. s_flags (c_loc c)) (wk_connections worker') = [0, FLAG_SUSPEND]"
proof -
  let ?wk = "sample_worker\<lparr>wk_connections := [or_flags Loc FLAG_R zero_conn, or_flags Loc FLAG_SUSPEND zero_conn]\<rparr>"
  have "1 < length (wk_connections ?wk)" "wk_inbox ?wk = []" by (simp_all add: sample_worker_def)
  from shttpd_wakeup_wrong_connection [OF this, of sample_os sample_ctx 0 "[]"]
  show ?thesis by (simp add: or_flags_def zero_conn_def zero_stream_def flag_defs)
qed

end
