(* ===== verification/ShttpdConfig.thy ===== *)
theory ShttpdConfig
  imports ShttpdWorker
begin

text \<open>
  Configuration of the server (\<open>shttpd.c\<close>): the table of options and their setters, listening ports,
  the configuration file and the command line, start and end of a server. The server of the
  configured build has no SSL, CGI, authentication or threads.
\<close>

section \<open>The server and its environment\<close>

record server =
  sv_ctx :: ctx
  sv_listeners :: "(int \<times> bool) list"
  sv_workers :: "worker list"
  sv_error_log :: bool

text \<open>
  What configuration needs of the outside world: the steps of opening a socket (the flag is success),
  log files, the lines of a configuration file as \<open>fgets\<close> delivers them, the user data base.
\<close>

record 'w net =
  net_socket :: "'w \<Rightarrow> int \<times> 'w"
  net_nonblock :: "'w \<Rightarrow> int \<Rightarrow> bool \<times> 'w"
  net_reuse :: "'w \<Rightarrow> int \<Rightarrow> bool \<times> 'w"
  net_bind :: "'w \<Rightarrow> int \<Rightarrow> int \<Rightarrow> bool \<times> 'w"
  net_listen :: "'w \<Rightarrow> int \<Rightarrow> bool \<times> 'w"
  net_fopen_append :: "'w \<Rightarrow> string \<Rightarrow> bool \<times> 'w"
  net_config_lines :: "'w \<Rightarrow> string \<Rightarrow> (string list) option"
  net_become :: "'w \<Rightarrow> string \<Rightarrow> bool \<times> 'w"
  net_dirsep :: char
  net_ctl_socket :: "'w \<Rightarrow> int \<times> 'w"

section \<open>Listening ports\<close>

text \<open>The steps behind each other; the first that fails closes the socket. \<open>-1\<close> is failure.\<close>

definition shttpd_open_listening_port :: "'w os \<Rightarrow> 'w net \<Rightarrow> int \<Rightarrow> 'w \<Rightarrow> int \<times> 'w" where
  "shttpd_open_listening_port os net port w =
     (let (sock, w1) = net_socket net w
      in if sock = -1 then (-1, w1)
         else
           let (ok2, w2) = net_nonblock net w1 sock
           in if \<not> ok2 then (-1, os_closesocket os w2 sock)
              else
                let (ok3, w3) = net_reuse net w2 sock
                in if \<not> ok3 then (-1, os_closesocket os w3 sock)
                   else
                     let (ok4, w4) = net_bind net w3 sock (port mod 2 ^ 16)
                     in if \<not> ok4 then (-1, os_closesocket os w4 sock)
                        else
                          let (ok5, w5) = net_listen net w4 sock
                          in if \<not> ok5 then (-1, os_closesocket os w5 sock) else (sock, w5))"

definition close_listeners :: "'w os \<Rightarrow> (int \<times> bool) list \<Rightarrow> 'w \<Rightarrow> 'w" where
  "close_listeners os ls w = foldl (\<lambda>w l. os_closesocket os w (fst l)) w ls"

definition sizeof_listener :: nat where "sizeof_listener = 20"

text \<open>
  \<open>set_ports\<close>: one listener per word. A word that ends with \<open>s\<close> asks for SSL, which this build cannot
  give. A failure closes every listener opened so far.
\<close>

fun set_ports_loop ::
  "'w os \<Rightarrow> 'w net \<Rightarrow> (string \<times> nat) list \<Rightarrow> (int \<times> bool) list \<Rightarrow> 'w \<Rightarrow> bool \<times> (int \<times> bool) list \<times> 'w" where
  "set_ports_loop os net [] ls w = (True, ls, w)"
| "set_ports_loop os net ((p, len) # ps) ls w =
     (let is_ssl = (c_at p (len - 1) = CHR ''s'');
          (sock, w1) = shttpd_open_listening_port os net (atoi p) w
      in if sock = -1 then (False, [], close_listeners os ls w1)
         else if is_ssl then (False, [], close_listeners os ls (os_closesocket os w1 sock))
         else if \<not> os_malloc os w1 sizeof_listener then (False, [], close_listeners os ls (os_closesocket os w1 sock))
         else set_ports_loop os net ps (ls @ [(sock, is_ssl)]) w1)"

definition set_ports :: "'w os \<Rightarrow> 'w net \<Rightarrow> string option \<Rightarrow> server \<Rightarrow> 'w \<Rightarrow> bool \<times> server \<times> 'w" where
  "set_ports os net p sv w =
     (let (ok, ls, w1) = set_ports_loop os net (for_each_word p) [] (close_listeners os (sv_listeners sv) w)
      in (ok, sv\<lparr>sv_listeners := ls\<rparr>, w1))"

section \<open>Options\<close>

datatype setter = No_setter | Set_ports | Set_cfg_uri | Set_inetd | Set_uid | Set_alog | Set_elog | Set_acl

record opt_entry =
  o_index :: opt
  o_name :: string
  o_description :: string
  o_default :: "string option"
  o_setter :: setter

definition entry :: "opt \<Rightarrow> string \<Rightarrow> string \<Rightarrow> string option \<Rightarrow> setter \<Rightarrow> opt_entry" where
  "entry i n d v s = \<lparr>o_index = i, o_name = n, o_description = d, o_default = v, o_setter = s\<rparr>"

text \<open>
  The options of a build without \<open>_LIB\<close> that is not Windows. A build with \<open>_LIB\<close>, as the project of the Windows
  Mobile library defines it, does not have \<open>inetd\<close> and \<open>uid\<close>.
\<close>

definition known_options :: "opt_entry list" where
  "known_options =
     [entry OPT_ROOT ''root'' ([CHR 0x09] @ ''Web root directory'') (Some ''.'') No_setter,
      entry OPT_INDEX_FILES ''index_files'' ''Index files''
        (Some ''index_erb.iseq,index.html,index.htm,index.php,index.cgi'') No_setter,
      entry OPT_PORTS ''ports'' ''Listening ports'' (Some ''8080'') Set_ports,
      entry OPT_DIR_LIST ''dir_list'' ''Directory listing'' (Some ''yes'') No_setter,
      entry OPT_CFG_URI ''cfg_uri'' ''Config uri'' None Set_cfg_uri,
      entry OPT_PROTECT ''protect'' ''URI to htpasswd mapping'' None No_setter,
      entry OPT_SSI_EXTENSIONS ''ssi_ext'' ''SSI extensions'' (Some ''shtml,shtm'') No_setter,
      entry OPT_INETD ''inetd'' ''Inetd mode'' (Some ''no'') Set_inetd,
      entry OPT_UID ''uid'' ([CHR 0x09] @ ''Run as user'') None Set_uid,
      entry OPT_ACCESS_LOG ''access_log'' ''Access log file'' None Set_alog,
      entry OPT_ERROR_LOG ''error_log'' ''Error log file'' None Set_elog,
      entry OPT_MIME_TYPES ''mime_types'' ''Additional mime types list'' None No_setter,
      entry OPT_ALIASES ''aliases'' ''Path=URI mappings'' None No_setter,
      entry OPT_ACL ''acl'' ([CHR 0x09] @ ''Allow/deny IP addresses/subnets'') None Set_acl]"

text \<open>An unknown option ends the program.\<close>

definition find_opt :: "string \<Rightarrow> opt_entry res" where
  "find_opt name =
     (case List.find (\<lambda>e. o_name e = name) known_options of None \<Rightarrow> Inl Process_Exit | Some e \<Rightarrow> Inr e)"

definition open_log_file :: "'w net \<Rightarrow> string option \<Rightarrow> 'w \<Rightarrow> bool \<times> bool \<times> 'w" where
  "open_log_file net path w =
     (case path of
        None \<Rightarrow> (True, False, w)
      | Some p \<Rightarrow> let (ok, w1) = net_fopen_append net w p in (ok, ok, w1))"

definition set_cfg_uri :: "'w os \<Rightarrow> callback \<Rightarrow> user_data \<Rightarrow> string option \<Rightarrow> server \<Rightarrow> 'w \<Rightarrow> server" where
  "set_cfg_uri os cfg_page data uri sv w =
     (let ctx = (sv_ctx sv)\<lparr>ctx_registered_uris := []\<rparr>
      in sv\<lparr>sv_ctx := (case uri of None \<Rightarrow> ctx | Some u \<Rightarrow> shttpd_register_uri os w ctx u cfg_page data)\<rparr>)"

text \<open>
  A setter returns whether it succeeded. \<open>set_inetd\<close> clears its pointer to the context before it uses
  it; \<open>set_uid\<close> ends the program when the user cannot be taken. The configuration page is the
  callback \<open>Cb_user 0\<close>.
\<close>

definition run_setter ::
  "'w os \<Rightarrow> 'w net \<Rightarrow> setter \<Rightarrow> string option \<Rightarrow> server \<Rightarrow> 'w \<Rightarrow> (bool \<times> server \<times> 'w) res" where
  "run_setter os net st val sv w =
     (case st of
        No_setter \<Rightarrow> Inr (True, sv, w)
      | Set_ports \<Rightarrow> Inr (set_ports os net val sv w)
      | Set_cfg_uri \<Rightarrow> Inr (True, set_cfg_uri os (Cb_user 0) (Data_User 0) val sv w, w)
      | Set_inetd \<Rightarrow> if shttpd_is_true val then Inl Null_Deref else Inr (True, sv, w)
      | Set_uid \<Rightarrow>
          (case val of
             None \<Rightarrow> Inl Null_Deref
           | Some uid \<Rightarrow> let (ok, w1) = net_become net w uid in if ok then Inr (True, sv, w1) else Inl Process_Exit)
      | Set_alog \<Rightarrow>
          let (ok, opened, w1) = open_log_file net val w
          in Inr (ok, sv\<lparr>sv_ctx := (sv_ctx sv)\<lparr>ctx_access_log := opened\<rparr>\<rparr>, w1)
      | Set_elog \<Rightarrow> let (ok, opened, w1) = open_log_file net val w in Inr (ok, sv\<lparr>sv_error_log := opened\<rparr>, w1)
      | Set_acl \<Rightarrow> rbind (set_acl (os_malloc os w) (sv_ctx sv) val) (\<lambda>ctx. Inr (True, sv\<lparr>sv_ctx := ctx\<rparr>, w)))"

definition strdup_opt :: "'w os \<Rightarrow> 'w \<Rightarrow> string \<Rightarrow> string option" where
  "strdup_opt os w s = (if os_malloc os w (length s + 1) then Some s else None)"

definition store_opt :: "opt \<Rightarrow> string option \<Rightarrow> server \<Rightarrow> server" where
  "store_opt i v sv = sv\<lparr>sv_ctx := (sv_ctx sv)\<lparr>ctx_options := (ctx_options (sv_ctx sv))(i := v)\<rparr>\<rparr>"

definition shttpd_set_option ::
  "'w os \<Rightarrow> 'w net \<Rightarrow> string \<Rightarrow> string option \<Rightarrow> server \<Rightarrow> 'w \<Rightarrow> (bool \<times> server \<times> 'w) res" where
  "shttpd_set_option os net name val sv w =
     rbind (find_opt name) (\<lambda>e.
     rbind (run_setter os net (o_setter e) val sv w) (\<lambda>(ok, sv1, w1).
       Inr (ok, store_opt (o_index e) (Option.bind val (strdup_opt os w1)) sv1, w1)))"

definition shttpd_get_index_names :: "server \<Rightarrow> string option" where
  "shttpd_get_index_names sv = ctx_options (sv_ctx sv) OPT_INDEX_FILES"

definition set_opt :: "'w os \<Rightarrow> 'w \<Rightarrow> string \<Rightarrow> string \<Rightarrow> server \<Rightarrow> server res" where
  "set_opt os w name value sv =
     rbind (find_opt name) (\<lambda>e. Inr (store_opt (o_index e) (strdup_opt os w value) sv))"

section \<open>Configuration file and command line\<close>

text \<open>
  A line of the configuration file: empty lines and comments are skipped; \<open>sscanf(line, "%s %[^\n#]")\<close>
  must find a word and a value, otherwise the program ends.
\<close>

definition config_line :: "string \<Rightarrow> ((string \<times> string) option) res" where
  "config_line line =
     (case line of
        [] \<Rightarrow> Inl Process_Exit
      | c # _ \<Rightarrow>
          if c = CHR ''#'' \<or> c = CHR 0x0A then Inr None
          else
            let s = dropWhile isspace line;
                name = takeWhile (\<lambda>c. \<not> isspace c) s;
                val = takeWhile (\<lambda>c. c \<noteq> CHR 0x0A \<and> c \<noteq> CHR ''#'') (dropWhile isspace (drop (length name) s))
            in if name = [] \<or> val = [] then Inl Process_Exit else Inr (Some (name, val)))"

fun config_settings :: "string list \<Rightarrow> ((string \<times> string) list) res" where
  "config_settings [] = Inr []"
| "config_settings (l # ls) =
     rbind (config_line l) (\<lambda>so. rbind (config_settings ls) (\<lambda>ss.
       Inr (case so of None \<Rightarrow> ss | Some s \<Rightarrow> s # ss)))"

text \<open>
  The options on the command line: pairs of a word that starts with a dash and a value. The result is
  the settings and the arguments that follow; an option without a value ends the program.
\<close>

fun arg_settings :: "string list \<Rightarrow> ((string \<times> string) list \<times> string list) res" where
  "arg_settings ((CHR ''-'' # name) # rest) =
     (case rest of
        [] \<Rightarrow> Inl Process_Exit
      | v # rest1 \<Rightarrow> rbind (arg_settings rest1) (\<lambda>(ss, r). Inr ((name, v) # ss, r)))"
| "arg_settings rest = Inr ([], rest)"

definition config_path :: "'w net \<Rightarrow> string \<Rightarrow> string list \<Rightarrow> string res" where
  "config_path net argv0 rest =
     (case rest of
        _ # _ # _ \<Rightarrow> Inl Process_Exit
      | [f] \<Rightarrow> Inr f
      | [] \<Rightarrow>
          Inr (if net_dirsep net \<in> set argv0
               then fmt_buf FILENAME_MAX (rev (dropWhile (\<lambda>c. c \<noteq> net_dirsep net) (rev argv0)) @ ''shttpd.conf'')
               else ''shttpd.conf''))"

fun set_opts :: "'w os \<Rightarrow> 'w \<Rightarrow> (string \<times> string) list \<Rightarrow> server \<Rightarrow> server res" where
  "set_opts os w [] sv = Inr sv"
| "set_opts os w ((n, v) # ss) sv = rbind (set_opt os w n v sv) (set_opts os w ss)"

definition process_command_line_arguments :: "'w os \<Rightarrow> 'w net \<Rightarrow> string list \<Rightarrow> server \<Rightarrow> 'w \<Rightarrow> server res" where
  "process_command_line_arguments os net argv sv w =
     (case argv of
        [] \<Rightarrow> Inl Null_Deref
      | argv0 # args \<Rightarrow>
          rbind (arg_settings args) (\<lambda>(ss, rest).
          rbind (config_path net argv0 rest) (\<lambda>path.
          rbind (case net_config_lines net w path of
                   None \<Rightarrow> if rest \<noteq> [] then Inl Process_Exit else Inr []
                 | Some ls \<Rightarrow> config_settings ls) (\<lambda>fs.
          rbind (set_opts os w fs sv) (set_opts os w ss)))))"

section \<open>Start and end\<close>

definition sizeof_ctx :: nat where "sizeof_ctx = 160"

definition sizeof_worker :: nat where "sizeof_worker = 36"

definition default_options :: "'w os \<Rightarrow> 'w \<Rightarrow> opt \<Rightarrow> string option" where
  "default_options os w =
     foldl (\<lambda>m e. m(o_index e := Option.bind (o_default e) (strdup_opt os w))) Map.empty known_options"

definition empty_server :: "(opt \<Rightarrow> string option) \<Rightarrow> server" where
  "empty_server opts =
     \<lparr>sv_ctx = \<lparr>ctx_registered_uris = [], ctx_error_handlers = [], ctx_acl = [], ctx_options = opts, ctx_access_log = False\<rparr>,
      sv_listeners = [], sv_workers = [], sv_error_log = False\<rparr>"

text \<open>The setters of all options that have a value, in the order of the table, until one fails.\<close>

fun run_setters ::
  "'w os \<Rightarrow> 'w net \<Rightarrow> opt_entry list \<Rightarrow> server \<Rightarrow> 'w \<Rightarrow> (bool \<times> server \<times> 'w) res" where
  "run_setters os net [] sv w = Inr (True, sv, w)"
| "run_setters os net (e # es) sv w =
     (case ctx_options (sv_ctx sv) (o_index e) of
        None \<Rightarrow> run_setters os net es sv w
      | Some v \<Rightarrow>
          rbind (run_setter os net (o_setter e) (Some v) sv w) (\<lambda>(ok, sv1, w1).
            if ok then run_setters os net es sv1 w1 else Inr (False, sv1, w1)))"

definition add_worker :: "'w os \<Rightarrow> 'w net \<Rightarrow> server \<Rightarrow> 'w \<Rightarrow> (server \<times> 'w) res" where
  "add_worker os net sv w =
     (if os_malloc os w sizeof_worker
      then let (ctl, w1) = net_ctl_socket net w
           in Inr (sv\<lparr>sv_workers := sv_workers sv @ [\<lparr>wk_num_conns = 0, wk_ctl = ctl, wk_inbox = [], wk_connections = []\<rparr>]\<rparr>, w1)
      else Inl Process_Exit)"

text \<open>
  \<open>shttpd_fini\<close>: the connections of every worker go through the destructor (one that wants to be kept
  open is processed once more), then the listeners are closed.
\<close>

fun fini_conns :: "nat \<Rightarrow> 'w os \<Rightarrow> ctx \<Rightarrow> int \<Rightarrow> conn list \<Rightarrow> 'w \<Rightarrow> 'w res" where
  "fini_conns fuel os ctx now [] w = Inr w"
| "fini_conns fuel os ctx now (c # cs) w =
     rbind (destroy os ctx now c w) (\<lambda>(co, again, w1).
     rbind (case co of
              Some c1 \<Rightarrow> if again then rbind (process_connection fuel os ctx now False False c1 w1) (\<lambda>(_, w2). Inr w2)
                         else Inr w1
            | None \<Rightarrow> Inr w1) (fini_conns fuel os ctx now cs))"

definition shttpd_fini :: "nat \<Rightarrow> 'w os \<Rightarrow> int \<Rightarrow> server \<Rightarrow> 'w \<Rightarrow> 'w res" where
  "shttpd_fini fuel os now sv w =
     rbind (fini_conns fuel os (sv_ctx sv) now (concat (map wk_connections (sv_workers sv))) w) (\<lambda>w1.
       Inr (close_listeners os (sv_listeners sv) w1))"

text \<open>\<open>shttpd_init\<close>: \<open>None\<close> when a setter failed and everything was released again.\<close>

definition shttpd_init ::
  "nat \<Rightarrow> 'w os \<Rightarrow> 'w net \<Rightarrow> int \<Rightarrow> string list \<Rightarrow> 'w \<Rightarrow> (server option \<times> 'w) res" where
  "shttpd_init fuel os net now argv w =
     (if \<not> os_malloc os w sizeof_ctx then Inl Process_Exit
      else
        let sv0 = empty_server (default_options os w)
        in rbind (if argv = [] then Inr sv0 else process_command_line_arguments os net argv sv0 w) (\<lambda>sv1.
           rbind (run_setters os net known_options sv1 w) (\<lambda>(ok, sv2, w1).
             if \<not> ok then rbind (shttpd_fini fuel os now sv2 w1) (\<lambda>w2. Inr (None, w2))
             else if num_workers (sv_ctx sv2) = 1
             then rbind (add_worker os net sv2 w1) (\<lambda>(sv3, w2). Inr (Some sv3, w2))
             else Inr (Some sv2, w1))))"

definition shutdown_poll :: "'w os \<Rightarrow> server \<Rightarrow> 'w \<Rightarrow> 'w" where
  "shutdown_poll os sv w = close_listeners os (sv_listeners sv) w"

section \<open>The configuration page\<close>

definition BUFSIZ :: nat where "BUFSIZ = 512"

definition cfg_row :: "server \<Rightarrow> opt_entry \<Rightarrow> string" where
  "cfg_row sv e =
     ''<form method=post><tr><td>'' @ o_name e @ ''</td><td>'' @ o_description e @ ''</td>'' @
     ''<input type=hidden name=o value='' @ [CHR 0x27] @ o_name e @ [CHR 0x27] @ ''>'' @
     ''<td><input type=text name=v value='' @ [CHR 0x27] @
     (case ctx_options (sv_ctx sv) (o_index e) of None \<Rightarrow> [] | Some v \<Rightarrow> v) @ [CHR 0x27] @ ''></td>'' @
     ''<td><input type=submit value=save></td></form></tr>''"

definition cfg_texts :: "server \<Rightarrow> string \<Rightarrow> string \<Rightarrow> string list" where
  "cfg_texts sv name value =
     [''HTTP/1.1 200 OK'' @ crlf @ ''Content-Type: text/html'' @ crlf @ crlf @ ''<html><body><h1>SHTTPD v. 1.42</h1>'',
      ''<table border=1<tr><th>Option</th><th>Description</th><th colspan=2>Value</th></tr>''] @
     (if name \<noteq> [] \<and> value \<noteq> []
      then [''<p style='' @ [CHR 0x27] @ ''color: green'' @ [CHR 0x27] @ ''>Saved: '' @ name @ ''='' @ value @ ''</p>'']
      else []) @
     map (cfg_row sv) known_options @ [''</table></body></html>'']"

fun print_texts :: "bool \<Rightarrow> string list \<Rightarrow> shttpd_arg \<Rightarrow> shttpd_arg res" where
  "print_texts neg [] arg = Inr arg"
| "print_texts neg (t # ts) arg = rbind (shttpd_printf neg arg t) (\<lambda>(_, arg1). print_texts neg ts arg1)"

text \<open>
  \<open>show_cfg_page\<close>: a posted form sets an option (an unknown one ends the program), then the page lists
  all options. A variable that is missing leaves an empty string.
\<close>

definition form_var :: "string \<Rightarrow> string \<Rightarrow> nat \<Rightarrow> string res" where
  "form_var var buf n =
     rbind (shttpd_get_var var buf (length buf) n) (\<lambda>(r, v). Inr (if r < 0 then [] else cstr v))"

definition show_cfg_page ::
  "'w os \<Rightarrow> 'w net \<Rightarrow> conn \<Rightarrow> shttpd_arg \<Rightarrow> server \<Rightarrow> 'w \<Rightarrow> (shttpd_arg \<times> server \<times> 'w) res" where
  "show_cfg_page os net c arg sv w =
     (if c_method c = METHOD_POST \<and> has (a_flags arg) SHTTPD_MORE_POST_DATA then Inr (arg, sv, w)
      else
        rbind (if c_method c = METHOD_POST
               then rbind (form_var ''o'' (a_in arg) 20) (\<lambda>name.
                    rbind (form_var ''v'' (a_in arg) BUFSIZ) (\<lambda>value.
                    rbind (shttpd_set_option os net name (if value = [] then None else Some value) sv w) (\<lambda>(_, sv1, w1).
                      Inr (name, value, sv1, w1))))
               else Inr ([], [], sv, w)) (\<lambda>(name, value, sv1, w1).
        rbind (print_texts (os_neg_snprintf os) (cfg_texts sv1 name value) arg) (\<lambda>arg1.
          Inr (arg1\<lparr>a_flags := a_flags arg1 OR SHTTPD_END_OF_OUTPUT\<rparr>, sv1, w1))))"

section \<open>Which value an option gets\<close>

lemma known_options_distinct: "distinct (map o_name known_options)" "distinct (map o_index known_options)"
  by (simp_all add: known_options_def entry_def)

lemma known_options_inj:
  assumes "e \<in> set known_options" and "d \<in> set known_options"
  shows "o_name e = o_name d \<longleftrightarrow> e = d" and "o_index e = o_index d \<longleftrightarrow> e = d"
  using assms known_options_distinct by (auto simp: distinct_map inj_on_eq_iff)

lemma find_opt_Inr: "find_opt name = Inr e \<Longrightarrow> e \<in> set known_options \<and> o_name e = name"
  by (auto simp: find_opt_def find_Some_iff split: option.splits)

lemma set_opts_options:
  assumes "set_opts os w ss sv = Inr sv'" and mem: "\<And>w n. os_malloc os w n" and e: "e \<in> set known_options"
  shows "ctx_options (sv_ctx sv') (o_index e) =
    (case map_of (rev ss) (o_name e) of Some v \<Rightarrow> Some v | None \<Rightarrow> ctx_options (sv_ctx sv) (o_index e))"
  using assms(1)
proof (induction ss arbitrary: sv)
  case (Cons s ss)
  obtain n v where s: "s = (n, v)" by fastforce
  from Cons.prems obtain d where d: "find_opt n = Inr d" and r: "set_opts os w ss (store_opt (o_index d) (Some v) sv) = Inr sv'"
    by (auto simp: s set_opt_def strdup_opt_def mem rbind_Inr_iff)
  have "d \<in> set known_options" "o_name d = n" using find_opt_Inr [OF d] by auto
  then show ?case
    using Cons.IH [OF r] known_options_inj [OF e] by (auto simp: s store_opt_def map_add_def split: option.splits)
qed simp

lemma set_opts_other:
  assumes "set_opts os w ss sv = Inr sv'" and "i \<notin> o_index ` set known_options"
  shows "ctx_options (sv_ctx sv') i = ctx_options (sv_ctx sv) i \<and> sv_workers sv' = sv_workers sv"
  using assms(1)
proof (induction ss arbitrary: sv)
  case (Cons s ss)
  obtain n v where s: "s = (n, v)" by fastforce
  from Cons.prems obtain d x where d: "find_opt n = Inr d" and r: "set_opts os w ss (store_opt (o_index d) x sv) = Inr sv'"
    by (auto simp: s set_opt_def rbind_Inr_iff)
  have "i \<noteq> o_index d" using find_opt_Inr [OF d] assms(2) by auto
  then show ?case using Cons.IH [OF r] by (simp add: store_opt_def)
qed simp

lemma run_setter_keeps:
  "run_setter os net st v sv w = Inr (ok, sv', w') \<Longrightarrow>
   ctx_options (sv_ctx sv') = ctx_options (sv_ctx sv) \<and> sv_workers sv' = sv_workers sv"
  by (auto simp: run_setter_def set_ports_def set_cfg_uri_def shttpd_register_uri_def set_acl_def rbind_Inr_iff Let_def
      split: setter.splits prod.splits option.splits if_splits)

lemma run_setters_keeps:
  "run_setters os net es sv w = Inr (ok, sv', w') \<Longrightarrow>
   ctx_options (sv_ctx sv') = ctx_options (sv_ctx sv) \<and> sv_workers sv' = sv_workers sv"
proof (induction es arbitrary: sv w)
  case (Cons e es)
  show ?case
  proof (cases "ctx_options (sv_ctx sv) (o_index e)")
    case None
    then show ?thesis using Cons by simp
  next
    case (Some v)
    with Cons.prems obtain ok1 sv1 w1 where r: "run_setter os net (o_setter e) (Some v) sv w = Inr (ok1, sv1, w1)"
      by (cases "run_setter os net (o_setter e) (Some v) sv w") auto
    show ?thesis using Cons.prems Cons.IH [of sv1 w1] run_setter_keeps [OF r] Some r by (auto split: if_splits)
  qed
qed simp

lemma default_options_known:
  assumes "\<And>w n. os_malloc os w n" and "e \<in> set known_options"
  shows "default_options os w (o_index e) = o_default e"
proof -
  have s: "Option.bind d (strdup_opt os w) = d" for d using assms(1) by (cases d) (simp_all add: strdup_opt_def)
  show ?thesis using assms(2) by (auto simp: default_options_def s known_options_def entry_def)
qed

lemma threads_not_known: "OPT_THREADS \<notin> o_index ` set known_options"
  by (simp add: known_options_def entry_def)

lemma default_threads: "default_options os w OPT_THREADS = None"
  by (simp add: default_options_def known_options_def entry_def)

lemma shttpd_init_options_aux:
  assumes "shttpd_init fuel os net now (argv0 # args) w = Inr (Some sv, w')" and mem: "\<And>w n. os_malloc os w n"
    and "arg_settings args = Inr (ss, rest)" and "config_path net argv0 rest = Inr path"
    and "(case net_config_lines net w path of None \<Rightarrow> Inr [] | Some ls \<Rightarrow> config_settings ls) = Inr fs"
  shows "(\<forall>e\<in>set known_options. ctx_options (sv_ctx sv) (o_index e) =
      (case map_of (rev (fs @ ss)) (o_name e) of Some v \<Rightarrow> Some v | None \<Rightarrow> o_default e)) \<and>
    map wk_connections (sv_workers sv) = [[]]"
proof -
  let ?sv0 = "empty_server (default_options os w)"
  have "(case net_config_lines net w path of None \<Rightarrow> if rest \<noteq> [] then Inl Process_Exit else Inr []
      | Some ls \<Rightarrow> config_settings ls) \<in> {Inr fs, Inl Process_Exit}"
    using assms(5) by (auto split: option.splits)
  with assms(1,3,4) obtain sv1 sv2 w1 where p: "set_opts os w fs ?sv0 = Inr sv1" "set_opts os w ss sv1 = Inr sv2"
    and i: "rbind (run_setters os net known_options sv2 w) (\<lambda>(ok, sv2, w1).
             if \<not> ok then rbind (shttpd_fini fuel os now sv2 w1) (\<lambda>w2. Inr (None, w2))
             else if num_workers (sv_ctx sv2) = 1
             then rbind (add_worker os net sv2 w1) (\<lambda>(sv3, w2). Inr (Some sv3, w2))
             else Inr (Some sv2, w1)) = Inr (Some sv, w')"
    by (auto simp: shttpd_init_def mem Let_def process_command_line_arguments_def rbind_Inr_iff)
  from i obtain ok sv3 w3 where rs: "run_setters os net known_options sv2 w = Inr (ok, sv3, w3)"
    by (cases "run_setters os net known_options sv2 w") auto
  have o3: "ctx_options (sv_ctx sv3) = ctx_options (sv_ctx sv2)" "sv_workers sv3 = sv_workers sv2"
    using run_setters_keeps [OF rs] by auto
  have "ctx_options (sv_ctx sv3) OPT_THREADS = None" "sv_workers sv3 = []"
    using o3 set_opts_other [OF p(1) threads_not_known] set_opts_other [OF p(2) threads_not_known]
    by (simp_all add: empty_server_def default_threads)
  then have "num_workers (sv_ctx sv3) = 1" by (simp add: num_workers_def)
  with i rs \<open>sv_workers sv3 = []\<close> have fin: "sv_ctx sv = sv_ctx sv3" "map wk_connections (sv_workers sv) = [[]]"
    by (auto simp: add_worker_def mem Let_def rbind_Inr_iff split: if_splits prod.splits)
  have "ctx_options (sv_ctx sv) (o_index e) =
      (case map_of (rev (fs @ ss)) (o_name e) of Some v \<Rightarrow> Some v | None \<Rightarrow> o_default e)" if e: "e \<in> set known_options" for e
    using set_opts_options [OF p(1) mem e] set_opts_options [OF p(2) mem e] default_options_known [OF mem e]
    by (auto simp: fin(1) o3 empty_server_def map_add_def split: option.splits)
  with fin(2) show ?thesis by simp
qed

text \<open>
  C40. Which value an option gets: in a server that started, every option has the value given last on
  the command line, otherwise the value given last in the configuration file, otherwise its default;
  the setters do not change it. The server has exactly one worker, without connections.
\<close>

theorem shttpd_init_options:
  assumes "shttpd_init fuel os net now (argv0 # args) w = Inr (Some sv, w')" and "\<And>w n. os_malloc os w n"
    and "arg_settings args = Inr (ss, rest)" and "config_path net argv0 rest = Inr path"
    and "(case net_config_lines net w path of None \<Rightarrow> Inr [] | Some ls \<Rightarrow> config_settings ls) = Inr fs"
  shows "(\<forall>e\<in>set known_options. ctx_options (sv_ctx sv) (o_index e) =
      (case map_of (rev (fs @ ss)) (o_name e) of Some v \<Rightarrow> Some v | None \<Rightarrow> o_default e)) \<and>
    map wk_connections (sv_workers sv) = [[]]"
  using assms by (rule shttpd_init_options_aux)

definition sample_net :: "string net" where
  "sample_net =
     \<lparr>net_socket = (\<lambda>w. (4, w)), net_nonblock = (\<lambda>w _. (True, w)), net_reuse = (\<lambda>w _. (True, w)),
      net_bind = (\<lambda>w _ _. (True, w)), net_listen = (\<lambda>w _. (True, w)), net_fopen_append = (\<lambda>w _. (True, w)),
      net_config_lines = (\<lambda>_ _. Some [''# server'' @ [CHR 0x0A], ''root /www'' @ [CHR 0x0A], ''ports 81'' @ [CHR 0x0A]]),
      net_become = (\<lambda>w _. (True, w)), net_dirsep = CHR ''/'', net_ctl_socket = (\<lambda>w. (5, w))\<rparr>"

theorem shttpd_init_options_witness:
  "\<exists>sv w'. shttpd_init 1 sample_os sample_net 0 [''shttpd'', ''-root'', ''/srv''] [] = Inr (Some sv, w') \<and>
     ctx_options (sv_ctx sv) OPT_ROOT = Some ''/srv'' \<and> ctx_options (sv_ctx sv) OPT_PORTS = Some ''81'' \<and>
     ctx_options (sv_ctx sv) OPT_DIR_LIST = Some ''yes''"
proof -
  let ?fs = "[(''root'', ''/www''), (''ports'', ''81'')]" and ?ss = "[(''root'', ''/srv'')]"
  have started: "case shttpd_init 1 sample_os sample_net 0 [''shttpd'', ''-root'', ''/srv''] [] of
      Inr (Some _, _) \<Rightarrow> True | _ \<Rightarrow> False" by code_simp
  then obtain sv w' where sv: "shttpd_init 1 sample_os sample_net 0 [''shttpd'', ''-root'', ''/srv''] [] = Inr (Some sv, w')"
    by (auto split: sum.splits option.splits)
  have mem: "os_malloc sample_os w n" for w n by (simp add: sample_os_def)
  have args: "arg_settings [''-root'', ''/srv''] = Inr (?ss, [])" by code_simp
  have path: "config_path sample_net ''shttpd'' [] = Inr ''shttpd.conf''" by code_simp
  have lines: "(case net_config_lines sample_net [] ''shttpd.conf'' of None \<Rightarrow> Inr [] | Some ls \<Rightarrow> config_settings ls) = Inr ?fs"
    by code_simp
  have known: "entry OPT_ROOT ''root'' ([CHR 0x09] @ ''Web root directory'') (Some ''.'') No_setter \<in> set known_options"
    "entry OPT_PORTS ''ports'' ''Listening ports'' (Some ''8080'') Set_ports \<in> set known_options"
    "entry OPT_DIR_LIST ''dir_list'' ''Directory listing'' (Some ''yes'') No_setter \<in> set known_options"
    by (simp_all add: known_options_def)
  have all: "\<forall>e\<in>set known_options. ctx_options (sv_ctx sv) (o_index e) =
      (case map_of (rev (?fs @ ?ss)) (o_name e) of Some v \<Rightarrow> Some v | None \<Rightarrow> o_default e)"
    using shttpd_init_options [OF sv mem args path lines] by (rule conjunct1)
  show ?thesis
    using sv all [rule_format, OF known(1)] all [rule_format, OF known(2)] all [rule_format, OF known(3)]
    by (intro exI conjI) (assumption, simp_all add: entry_def)
qed

end
