(* ===== verification/Md5.thy ===== *)
theory Md5
  imports Prelude
begin

text \<open>
  The MD5 message digest (\<open>md5.c\<close>): the block function, the incremental interface with its bit count,
  and its equivalence with the digest of the whole message at once.
\<close>

unbundle bit_operations_syntax

section \<open>The block function\<close>

type_synonym byte = "8 word"

type_synonym md5_fun = "32 word \<Rightarrow> 32 word \<Rightarrow> 32 word \<Rightarrow> 32 word"

definition F1 :: md5_fun where "F1 x y z = z XOR (x AND (y XOR z))"

definition F2 :: md5_fun where "F2 x y z = F1 z x y"

definition F3 :: md5_fun where "F3 x y z = x XOR y XOR z"

definition F4 :: md5_fun where "F4 x y z = y XOR (x OR NOT z)"

definition MD5STEP :: "md5_fun \<Rightarrow> 32 word \<Rightarrow> 32 word \<Rightarrow> 32 word \<Rightarrow> 32 word \<Rightarrow> 32 word \<Rightarrow> nat \<Rightarrow> 32 word" where
  "MD5STEP f w x y z data s =
     (let w1 = w + (f x y z + data); w2 = push_bit s w1 OR drop_bit (32 - s) w1 in w2 + x)"

text \<open>
  The 64 steps: function, index of the input word, constant, rotation. The four registers change
  roles from line to line: the one just written becomes the second argument of the next step.
\<close>

definition md5_steps :: "(md5_fun \<times> nat \<times> 32 word \<times> nat) list" where
  "md5_steps =
     [(F1, 0, 0xd76aa478, 7), (F1, 1, 0xe8c7b756, 12), (F1, 2, 0x242070db, 17), (F1, 3, 0xc1bdceee, 22),
      (F1, 4, 0xf57c0faf, 7), (F1, 5, 0x4787c62a, 12), (F1, 6, 0xa8304613, 17), (F1, 7, 0xfd469501, 22),
      (F1, 8, 0x698098d8, 7), (F1, 9, 0x8b44f7af, 12), (F1, 10, 0xffff5bb1, 17), (F1, 11, 0x895cd7be, 22),
      (F1, 12, 0x6b901122, 7), (F1, 13, 0xfd987193, 12), (F1, 14, 0xa679438e, 17), (F1, 15, 0x49b40821, 22),
      (F2, 1, 0xf61e2562, 5), (F2, 6, 0xc040b340, 9), (F2, 11, 0x265e5a51, 14), (F2, 0, 0xe9b6c7aa, 20),
      (F2, 5, 0xd62f105d, 5), (F2, 10, 0x02441453, 9), (F2, 15, 0xd8a1e681, 14), (F2, 4, 0xe7d3fbc8, 20),
      (F2, 9, 0x21e1cde6, 5), (F2, 14, 0xc33707d6, 9), (F2, 3, 0xf4d50d87, 14), (F2, 8, 0x455a14ed, 20),
      (F2, 13, 0xa9e3e905, 5), (F2, 2, 0xfcefa3f8, 9), (F2, 7, 0x676f02d9, 14), (F2, 12, 0x8d2a4c8a, 20),
      (F3, 5, 0xfffa3942, 4), (F3, 8, 0x8771f681, 11), (F3, 11, 0x6d9d6122, 16), (F3, 14, 0xfde5380c, 23),
      (F3, 1, 0xa4beea44, 4), (F3, 4, 0x4bdecfa9, 11), (F3, 7, 0xf6bb4b60, 16), (F3, 10, 0xbebfbc70, 23),
      (F3, 13, 0x289b7ec6, 4), (F3, 0, 0xeaa127fa, 11), (F3, 3, 0xd4ef3085, 16), (F3, 6, 0x04881d05, 23),
      (F3, 9, 0xd9d4d039, 4), (F3, 12, 0xe6db99e5, 11), (F3, 15, 0x1fa27cf8, 16), (F3, 2, 0xc4ac5665, 23),
      (F4, 0, 0xf4292244, 6), (F4, 7, 0x432aff97, 10), (F4, 14, 0xab9423a7, 15), (F4, 5, 0xfc93a039, 21),
      (F4, 12, 0x655b59c3, 6), (F4, 3, 0x8f0ccc92, 10), (F4, 10, 0xffeff47d, 15), (F4, 1, 0x85845dd1, 21),
      (F4, 8, 0x6fa87e4f, 6), (F4, 15, 0xfe2ce6e0, 10), (F4, 6, 0xa3014314, 15), (F4, 13, 0x4e0811a1, 21),
      (F4, 4, 0xf7537e82, 6), (F4, 11, 0xbd3af235, 10), (F4, 2, 0x2ad7d2bb, 15), (F4, 9, 0xeb86d391, 21)]"

type_synonym md5_regs = "32 word \<times> 32 word \<times> 32 word \<times> 32 word"

fun md5_step :: "32 word list \<Rightarrow> md5_regs \<Rightarrow> md5_fun \<times> nat \<times> 32 word \<times> nat \<Rightarrow> md5_regs" where
  "md5_step inp (a, b, c, d) (f, k, t, s) = (d, MD5STEP f a b c d (inp ! k + t) s, b, c)"

fun MD5Transform :: "md5_regs \<Rightarrow> 32 word list \<Rightarrow> md5_regs" where
  "MD5Transform (a, b, c, d) inp =
     (let (a', b', c', d') = foldl (md5_step inp) (a, b, c, d) md5_steps
      in (a + a', b + b', c + c', d + d'))"

section \<open>The context\<close>

record MD5_CTX =
  m_buf :: md5_regs
  m_bits0 :: "32 word"
  m_bits1 :: "32 word"
  m_in :: "byte list"

definition md5_init_regs :: md5_regs where
  "md5_init_regs = (0x67452301, 0xefcdab89, 0x98badcfe, 0x10325476)"

definition MD5Init :: "MD5_CTX \<Rightarrow> MD5_CTX" where
  "MD5Init ctx = ctx\<lparr>m_buf := md5_init_regs, m_bits0 := 0, m_bits1 := 0\<rparr>"

text \<open>
  Bytes are combined to words with the lowest byte first; on a big-endian machine \<open>byteReverse\<close>
  rearranges the bytes for that.
\<close>

definition le_word :: "byte \<Rightarrow> byte \<Rightarrow> byte \<Rightarrow> byte \<Rightarrow> 32 word" where
  "le_word b0 b1 b2 b3 = push_bit 16 (push_bit 8 (ucast b3) OR ucast b2) OR (push_bit 8 (ucast b1) OR ucast b0)"

fun le_words :: "byte list \<Rightarrow> 32 word list" where
  "le_words (b0 # b1 # b2 # b3 # bs) = le_word b0 b1 b2 b3 # le_words bs"
| "le_words _ = []"

definition le_bytes :: "32 word \<Rightarrow> byte list" where
  "le_bytes w = [ucast w, ucast (drop_bit 8 w), ucast (drop_bit 16 w), ucast (drop_bit 24 w)]"

text \<open>\<open>memcpy\<close> into the context's block.\<close>

definition copy_in :: "nat \<Rightarrow> byte list \<Rightarrow> byte list \<Rightarrow> byte list" where
  "copy_in at bs blk = take at blk @ bs @ drop (at + length bs) blk"

fun update_blocks :: "md5_regs \<Rightarrow> byte list \<Rightarrow> byte list \<Rightarrow> md5_regs \<times> byte list \<times> byte list" where
  "update_blocks regs blk buf =
     (if length buf \<ge> 64
      then let blk1 = copy_in 0 (take 64 buf) blk
           in update_blocks (MD5Transform regs (le_words blk1)) blk1 (drop 64 buf)
      else (regs, blk, buf))"

declare update_blocks.simps [simp del]

definition MD5Update :: "MD5_CTX \<Rightarrow> byte list \<Rightarrow> MD5_CTX" where
  "MD5Update ctx buf =
     (let len = length buf;
          bits0 = m_bits0 ctx + push_bit 3 (of_nat len);
          bits1 = (if bits0 < m_bits0 ctx then m_bits1 ctx + 1 else m_bits1 ctx) + drop_bit 29 (of_nat len);
          t = unat (drop_bit 3 (m_bits0 ctx) AND 0x3f);
          ctx1 = ctx\<lparr>m_bits0 := bits0, m_bits1 := bits1\<rparr>;
          rest = (\<lambda>regs blk buf.
                    let (regs1, blk1, buf1) = update_blocks regs blk buf
                    in ctx1\<lparr>m_buf := regs1, m_in := copy_in 0 buf1 blk1\<rparr>)
      in if t \<noteq> 0
         then if len < 64 - t then ctx1\<lparr>m_in := copy_in t buf (m_in ctx)\<rparr>
              else let blk = copy_in t (take (64 - t) buf) (m_in ctx)
                   in rest (MD5Transform (m_buf ctx) (le_words blk)) blk (drop (64 - t) buf)
         else rest (m_buf ctx) (m_in ctx) buf)"

definition digest_bytes :: "md5_regs \<Rightarrow> byte list" where
  "digest_bytes regs = (case regs of (a, b, c, d) \<Rightarrow> le_bytes a @ le_bytes b @ le_bytes c @ le_bytes d)"

definition MD5Final :: "MD5_CTX \<Rightarrow> byte list" where
  "MD5Final ctx =
     (let count = unat (drop_bit 3 (m_bits0 ctx) AND 0x3f);
          blk1 = copy_in count [0x80] (m_in ctx);
          free = 64 - 1 - count;
          (regs, blk) =
            (if free < 8
             then let blk2 = copy_in (count + 1) (replicate free 0) blk1
                  in (MD5Transform (m_buf ctx) (le_words blk2), copy_in 0 (replicate 56 0) blk2)
             else (m_buf ctx, copy_in (count + 1) (replicate (free - 8) 0) blk1))
      in digest_bytes (MD5Transform regs (le_words (take 56 blk) @ [m_bits0 ctx, m_bits1 ctx])))"

section \<open>The digest of a whole message\<close>

text \<open>Hashing complete blocks; what does not fill a block remains.\<close>

function hash_blocks :: "md5_regs \<Rightarrow> byte list \<Rightarrow> md5_regs \<times> byte list" where
  "hash_blocks regs xs =
     (if length xs \<ge> 64 then hash_blocks (MD5Transform regs (le_words (take 64 xs))) (drop 64 xs) else (regs, xs))"
  by pat_completeness auto

termination
  by (relation "measure (\<lambda>(_, xs). length xs)") auto

declare hash_blocks.simps [simp del]

text \<open>
  The padded message: a single one bit, zeros up to eight bytes before the end of a block, the number
  of bits modulo \<open>2^64\<close> with the lowest byte first.
\<close>

definition md5_pad :: "nat \<Rightarrow> byte list" where
  "md5_pad n =
     0x80 # replicate ((119 - n mod 64) mod 64) 0 @
     le_bytes (of_nat (8 * n)) @ le_bytes (word_of_int (8 * int n div 2 ^ 32))"

definition md5 :: "byte list \<Rightarrow> byte list" where
  "md5 msg = digest_bytes (fst (hash_blocks md5_init_regs (msg @ md5_pad (length msg))))"

section \<open>Incremental hashing\<close>

lemma hash_blocks_short: "length xs < 64 \<Longrightarrow> hash_blocks regs xs = (regs, xs)"
  by (simp add: hash_blocks.simps)

lemma hash_blocks_append:
  "hash_blocks regs (xs @ ys) = (case hash_blocks regs xs of (regs1, r) \<Rightarrow> hash_blocks regs1 (r @ ys))"
proof (induction regs xs rule: hash_blocks.induct)
  case (1 regs xs)
  show ?case
  proof (cases "length xs \<ge> 64")
    case True
    have "hash_blocks regs (xs @ ys) = hash_blocks (MD5Transform regs (le_words (take 64 xs))) (drop 64 xs @ ys)"
      using True by (subst hash_blocks.simps) simp
    also have "\<dots> = (case hash_blocks regs xs of (regs1, r) \<Rightarrow> hash_blocks regs1 (r @ ys))"
      using 1 [OF True] True by (subst (2) hash_blocks.simps) simp
    finally show ?thesis .
  next
    case False
    then show ?thesis by (simp add: hash_blocks_short)
  qed
qed

lemma hash_blocks_rest: "hash_blocks regs xs = (regs1, r) \<Longrightarrow> length r = length xs mod 64"
proof (induction regs xs rule: hash_blocks.induct)
  case (1 regs xs)
  show ?case
  proof (cases "length xs \<ge> 64")
    case True
    have "hash_blocks (MD5Transform regs (le_words (take 64 xs))) (drop 64 xs) = (regs1, r)"
      using 1(2) True by (subst (asm) hash_blocks.simps) simp
    from 1(1) [OF True this] True show ?thesis by (simp add: le_mod_geq)
  next
    case False
    with 1 show ?thesis by (simp add: hash_blocks_short)
  qed
qed

lemma update_blocks_hash:
  assumes "length blk = 64"
  shows "\<exists>blk1. update_blocks regs blk buf = (fst (hash_blocks regs buf), blk1, snd (hash_blocks regs buf)) \<and> length blk1 = 64"
  using assms
proof (induction regs blk buf rule: update_blocks.induct)
  case (1 regs blk buf)
  show ?case
  proof (cases "length buf \<ge> 64")
    case True
    have c: "copy_in 0 (take 64 buf) blk = take 64 buf" using True 1(2) by (simp add: copy_in_def)
    from 1(1) [OF True refl] True show ?thesis
      by (subst update_blocks.simps, subst (1 2) hash_blocks.simps) (simp add: c Let_def)
  next
    case False
    with 1 show ?thesis by (subst update_blocks.simps) (simp add: hash_blocks_short)
  qed
qed


lemma unat32: "unat (of_nat k :: 32 word) = k mod 2 ^ 32"
  by (simp add: unat_of_nat)

lemma drop_bit_29: "l < 2 ^ 32 \<Longrightarrow> drop_bit 29 (of_nat l :: 32 word) = of_nat (8 * l div 2 ^ 32)"
proof -
  assume l: "l < 2 ^ 32"
  have "8 * l div 2 ^ 32 = l div 2 ^ 29" by (simp add: div_mult2_eq [of "8 * l" 8 "2 ^ 29", simplified])
  moreover have "unat (drop_bit 29 (of_nat l :: 32 word)) = l div 2 ^ 29"
    unfolding unat_drop_bit_eq unat32 using l by (simp add: drop_bit_eq_div)
  ultimately show ?thesis by (simp only: word_unat_eq_iff unat32) (use l in simp)
qed

lemma bits_carry:
  fixes b0 b1 :: "32 word"
  assumes "l < 2 ^ 32" and b0: "b0 = of_nat (8 * n)" and b1: "b1 = of_nat (8 * n div 2 ^ 32)"
  shows "b0 + push_bit 3 (of_nat l) = of_nat (8 * (n + l))"
    and "(if b0 + push_bit 3 (of_nat l) < b0 then b1 + 1 else b1) + drop_bit 29 (of_nat l) = of_nat (8 * (n + l) div 2 ^ 32)"
proof -
  let ?M = "2 ^ 32 :: nat" and ?A = "8 * n mod 2 ^ 32" and ?B = "8 * l mod 2 ^ 32"
  show s: "b0 + push_bit 3 (of_nat l) = of_nat (8 * (n + l))"
    by (simp add: b0 push_bit_eq_mult distrib_left)
  have u: "unat b0 = ?A" "unat (of_nat (8 * (n + l)) :: 32 word) = (?A + ?B) mod ?M"
    unfolding b0 unat32 by (simp_all add: mod_add_eq distrib_left)
  have "?A < ?M" "?B < ?M" by simp_all
  then have c: "(?A + ?B) mod ?M < ?A \<longleftrightarrow> ?M \<le> ?A + ?B"
    by (cases "?M \<le> ?A + ?B") (auto simp: le_mod_geq)
  have d: "(?A + ?B) div ?M = (if ?M \<le> ?A + ?B then 1 else 0)"
    using \<open>?A < ?M\<close> \<open>?B < ?M\<close> by (auto simp: div_if)
  have "8 * (n + l) div ?M = 8 * n div ?M + 8 * l div ?M + (?A + ?B) div ?M"
    using div_add1_eq [of "8 * n" "8 * l" ?M] by (simp only: distrib_left)
  then show "(if b0 + push_bit 3 (of_nat l) < b0 then b1 + 1 else b1) + drop_bit 29 (of_nat l) = of_nat (8 * (n + l) div 2 ^ 32)"
    unfolding s b1 drop_bit_29 [OF assms(1)] word_less_nat_alt u c d by auto
qed

lemma pending_count: "unat (drop_bit 3 (of_nat (8 * n) :: 32 word) AND 0x3f) = n mod 64"
proof -
  have m: "(0x3f :: 32 word) = mask 6" by (simp add: mask_eq_exp_minus_1)
  have "unat (drop_bit 3 (of_nat (8 * n) :: 32 word) AND 0x3f) = take_bit 6 (drop_bit 3 (take_bit 32 (8 * n)))"
    unfolding m take_bit_eq_mask [symmetric] unsigned_take_bit_eq unat_drop_bit_eq unat32 by (simp add: take_bit_eq_mod)
  also have "\<dots> = take_bit 6 (drop_bit 3 (8 * n))" by (simp add: drop_bit_take_bit take_bit_take_bit)
  also have "\<dots> = n mod 64" by (simp add: take_bit_eq_mod drop_bit_eq_div)
  finally show ?thesis .
qed

text \<open>What the context stands for after the bytes \<open>xs\<close>.\<close>

definition md5_inv :: "MD5_CTX \<Rightarrow> byte list \<Rightarrow> bool" where
  "md5_inv ctx xs \<longleftrightarrow> length (m_in ctx) = 64 \<and>
     m_bits0 ctx = of_nat (8 * length xs) \<and> m_bits1 ctx = of_nat (8 * length xs div 2 ^ 32) \<and>
     hash_blocks md5_init_regs xs = (m_buf ctx, take (length xs mod 64) (m_in ctx))"

lemma md5_inv_Init: "length (m_in ctx) = 64 \<Longrightarrow> md5_inv (MD5Init ctx) []"
  by (simp add: md5_inv_def MD5Init_def hash_blocks_short)

lemma hash_blocks_resume:
  "hash_blocks regs xs = (regs1, r) \<Longrightarrow> hash_blocks regs (xs @ ys) = hash_blocks regs1 (r @ ys)"
  by (subst hash_blocks_append) simp

lemma hash_two: "length xs = 64 \<Longrightarrow> hash_blocks regs (xs @ ys) = hash_blocks (MD5Transform regs (le_words xs)) ys"
  by (subst hash_blocks.simps) simp

lemma md5_inv_hash: "md5_inv ctx xs \<Longrightarrow> hash_blocks md5_init_regs xs = (m_buf ctx, take (length xs mod 64) (m_in ctx))"
  unfolding md5_inv_def by blast

lemma MD5Update_inv:
  assumes inv: "md5_inv ctx xs" and len: "length ys < 2 ^ 32"
  shows "md5_inv (MD5Update ctx ys) (xs @ ys)"
proof -
  let ?n = "length xs" and ?blk = "m_in ctx"
  define t where "t = length xs mod 64"
  define r where "r = take t ?blk"
  have bl: "length ?blk = 64" and b0: "m_bits0 ctx = of_nat (8 * ?n)" and b1: "m_bits1 ctx = of_nat (8 * ?n div 2 ^ 32)"
    using inv unfolding md5_inv_def by blast+
  have t64: "t < 64" and lr: "length r = t" using bl by (auto simp: t_def r_def)
  have h: "hash_blocks md5_init_regs (xs @ ys) = hash_blocks (m_buf ctx) (r @ ys)"
    unfolding r_def t_def by (rule hash_blocks_resume [OF md5_inv_hash [OF inv]])
  have tt: "unat (drop_bit 3 (m_bits0 ctx) AND 0x3f) = t" unfolding b0 t_def by (rule pending_count)
  let ?c1 = "ctx\<lparr>m_bits0 := of_nat (8 * (?n + length ys)), m_bits1 := of_nat (8 * (?n + length ys) div 2 ^ 32)\<rparr>"
  note s1 = bits_carry(1) [OF len b0 b1]
  note s2 = bits_carry(2) [OF len b0 b1, unfolded s1]
  have u: "MD5Update ctx ys =
      (if t \<noteq> 0
       then if length ys < 64 - t then ?c1\<lparr>m_in := copy_in t ys ?blk\<rparr>
            else let blk = copy_in t (take (64 - t) ys) ?blk;
                     (regs1, blk1, buf1) = update_blocks (MD5Transform (m_buf ctx) (le_words blk)) blk (drop (64 - t) ys)
                 in ?c1\<lparr>m_buf := regs1, m_in := copy_in 0 buf1 blk1\<rparr>
       else let (regs1, blk1, buf1) = update_blocks (m_buf ctx) ?blk ys in ?c1\<lparr>m_buf := regs1, m_in := copy_in 0 buf1 blk1\<rparr>)"
    unfolding MD5Update_def Let_def tt s1 s2 by (rule refl)
  have fin: "md5_inv (?c1\<lparr>m_buf := regs1, m_in := copy_in 0 buf1 blk1\<rparr>) (xs @ ys)"
    if hb: "hash_blocks md5_init_regs (xs @ ys) = (regs1, buf1)" and "length blk1 = 64" for regs1 buf1 blk1
  proof -
    have "length buf1 = length (xs @ ys) mod 64" by (rule hash_blocks_rest [OF hb])
    moreover from this have "length buf1 < 64" by simp
    ultimately show ?thesis using that by (simp add: md5_inv_def copy_in_def)
  qed
  show ?thesis
  proof (cases "t \<noteq> 0 \<and> length ys < 64 - t")
    case True
    then have "hash_blocks md5_init_regs (xs @ ys) = (m_buf ctx, r @ ys)" unfolding h using lr by (intro hash_blocks_short) auto
    moreover have m: "length (xs @ ys) mod 64 = t + length ys" 
    proof -
      have "t + length ys < 64" using True by linarith
      then show ?thesis using mod_add_left_eq [of ?n 64 "length ys"] by (simp add: t_def)
    qed
    have "take (length (xs @ ys) mod 64) (copy_in t ys ?blk) = r @ ys"
      unfolding m using lr by (simp add: copy_in_def r_def)
    moreover have "length (copy_in t ys ?blk) = 64" using True bl by (auto simp: copy_in_def)
    ultimately show ?thesis using True u by (simp add: md5_inv_def)
  next
    case False
    show ?thesis
    proof (cases "t = 0")
      case True
      obtain blk1 where "update_blocks (m_buf ctx) ?blk ys = (fst (hash_blocks (m_buf ctx) ys), blk1, snd (hash_blocks (m_buf ctx) ys))" "length blk1 = 64"
        using update_blocks_hash [OF bl] by blast
      then show ?thesis using True u fin [of _ _ blk1] h lr by (simp add: Let_def)
    next
      case t0: False
      let ?b = "copy_in t (take (64 - t) ys) ?blk"
      have l: "64 - t \<le> length ys" using False t0 by simp
      then have b: "?b = r @ take (64 - t) ys" using bl t64 by (simp add: copy_in_def r_def)
      have lb: "length ?b = 64" using l t64 lr by (simp add: b)
      have h2: "hash_blocks md5_init_regs (xs @ ys) = hash_blocks (MD5Transform (m_buf ctx) (le_words ?b)) (drop (64 - t) ys)"
        using hash_two [OF lb, of "m_buf ctx" "drop (64 - t) ys"] unfolding h b by simp
      obtain blk1 where "update_blocks (MD5Transform (m_buf ctx) (le_words ?b)) ?b (drop (64 - t) ys) =
          (fst (hash_blocks (MD5Transform (m_buf ctx) (le_words ?b)) (drop (64 - t) ys)), blk1,
           snd (hash_blocks (MD5Transform (m_buf ctx) (le_words ?b)) (drop (64 - t) ys)))" "length blk1 = 64"
        using update_blocks_hash [OF lb] by blast
      then show ?thesis using t0 l u fin [of _ _ blk1] h2 by (simp add: Let_def)
    qed
  qed
qed

section \<open>The end of a message\<close>

lemma le_word_bytes: "le_words (le_bytes w) = [w]"
proof -
  have "le_word (ucast w) (ucast (drop_bit 8 w)) (ucast (drop_bit 16 w)) (ucast (drop_bit 24 w)) = w"
  proof (rule bit_word_eqI)
    fix n assume "n < LENGTH(32)"
    then consider "n < 8" | "8 \<le> n" "n < 16" | "16 \<le> n" "n < 24" | "24 \<le> n" "n < 32" by fastforce
    then show "bit (le_word (ucast w) (ucast (drop_bit 8 w)) (ucast (drop_bit 16 w)) (ucast (drop_bit 24 w))) n = bit w n"
      by cases (auto simp: le_word_def bit_simps)
  qed
  then show ?thesis by (simp add: le_bytes_def)
qed

lemma le_words_append: "4 dvd length xs \<Longrightarrow> le_words (xs @ ys) = le_words xs @ le_words ys"
proof (induction xs rule: le_words.induct)
  case (1 b0 b1 b2 b3 bs)
  then have "4 dvd length bs" by (simp add: dvd_def) presburger
  with 1 show ?case by simp
qed (auto dest!: dvd_imp_le)

lemma last_block:
  assumes "length xs = 56"
  shows "le_words (xs @ le_bytes a @ le_bytes b) = le_words xs @ [a, b]"
proof -
  have "le_words (le_bytes a @ le_bytes b) = [a, b]"
    using le_words_append [of "le_bytes a" "le_bytes b"] le_word_bytes by (simp add: le_bytes_def)
  then show ?thesis using assms by (simp add: le_words_append)
qed

lemma hash_last:
  assumes "length x = 56"
  shows "hash_blocks regs (x @ le_bytes a @ le_bytes b) = (MD5Transform regs (le_words x @ [a, b]), [])"
proof -
  have "length (x @ le_bytes a @ le_bytes b) = 64" using assms by (simp add: le_bytes_def)
  from hash_two [OF this, of regs "[]"] show ?thesis
    unfolding last_block [OF assms] append_Nil2 by (simp add: hash_blocks_short)
qed

lemma MD5Final_inv:
  assumes "md5_inv ctx xs"
  shows "MD5Final ctx = md5 xs"
proof -
  let ?n = "length xs" and ?blk = "m_in ctx"
  define c where "c = length xs mod 64"
  define r where "r = take c ?blk"
  let ?b0 = "m_bits0 ctx" and ?b1 = "m_bits1 ctx"
  have bl: "length ?blk = 64" and b0: "?b0 = of_nat (8 * ?n)" and b1': "?b1 = of_nat (8 * ?n div 2 ^ 32)"
    using assms unfolding md5_inv_def by blast+
  have "8 * int ?n div 2 ^ 32 = int (8 * ?n div 2 ^ 32)" by (simp add: zdiv_int)
  then have b1: "?b1 = word_of_int (8 * int ?n div 2 ^ 32)" unfolding b1' by (simp only: of_int_of_nat_eq)
  have c64: "c < 64" and lr: "length r = c" using bl by (auto simp: c_def r_def)
  have cc: "unat (drop_bit 3 ?b0 AND 0x3f) = c" unfolding b0 c_def by (rule pending_count)
  have h: "hash_blocks md5_init_regs (xs @ md5_pad ?n) = hash_blocks (m_buf ctx) (r @ md5_pad ?n)"
    unfolding r_def c_def by (rule hash_blocks_resume [OF md5_inv_hash [OF assms]])
  show ?thesis
  proof (cases "c \<le> 55")
    case True
    let ?x = "r @ 0x80 # replicate (55 - c) 0"
    have x: "length ?x = 56" using True lr by simp
    have "(119 - c) mod 64 = 55 - c" using True by (simp add: le_mod_geq)
    then have "r @ md5_pad ?n = ?x @ le_bytes ?b0 @ le_bytes ?b1" by (simp add: md5_pad_def b0 b1 c_def)
    then have "hash_blocks (m_buf ctx) (r @ md5_pad ?n) = (MD5Transform (m_buf ctx) (le_words ?x @ [?b0, ?b1]), [])"
      using hash_last [OF x] by (simp only:)
    moreover have "take 56 (copy_in (c + 1) (replicate (63 - c - 8) 0) (copy_in c [0x80] ?blk)) = ?x"
      using True lr bl by (simp add: copy_in_def r_def take_Cons' )
    moreover have "\<not> 63 - c < 8" using True by simp
    ultimately show ?thesis using True h by (simp add: md5_def MD5Final_def cc Let_def)
  next
    case False
    let ?x = "r @ 0x80 # replicate (63 - c) 0" and ?z = "replicate 56 (0 :: byte)"
    have x: "length ?x = 64" using c64 lr by simp
    have e: "(119 - c) mod 64 = (63 - c) + 56" using False c64 by simp
    have "r @ md5_pad ?n = ?x @ ?z @ le_bytes ?b0 @ le_bytes ?b1" 
      unfolding md5_pad_def b0 b1 c_def [symmetric] e replicate_add by simp
    then have "hash_blocks (m_buf ctx) (r @ md5_pad ?n) =
        (MD5Transform (MD5Transform (m_buf ctx) (le_words ?x)) (le_words ?z @ [?b0, ?b1]), [])"
      using hash_two [OF x] hash_last [of ?z] by (simp only: length_replicate)
    moreover have "copy_in (c + 1) (replicate (63 - c) 0) (copy_in c [0x80] ?blk) = ?x"
      using c64 lr bl by (simp add: copy_in_def r_def)
    moreover have "take 56 (copy_in 0 ?z y) = ?z" for y by (simp add: copy_in_def)
    moreover have "63 - c < 8" using False by simp
    ultimately show ?thesis using False h by (simp add: md5_def MD5Final_def cc Let_def)
  qed
qed

lemma MD5_updates_inv:
  "md5_inv ctx xs \<Longrightarrow> \<forall>ys\<in>set yss. length ys < 2 ^ 32 \<Longrightarrow> md5_inv (foldl MD5Update ctx yss) (xs @ concat yss)"
proof (induction yss arbitrary: ctx xs)
  case (Cons ys yss)
  then show ?case using Cons.IH [OF MD5Update_inv [OF Cons.prems(1)]] by simp
qed simp


text \<open>
  C23. Feeding a message to the context in pieces, each shorter than \<open>2^32\<close> bytes as \<open>len\<close> is a 32-bit
  number, gives the digest of the whole message: the pending block, the carry of the bit count and the
  padding across a block boundary are accounted for.
\<close>

theorem MD5_incremental:
  assumes "length (m_in ctx) = 64" and "\<forall>buf\<in>set bufs. length buf < 2 ^ 32"
  shows "MD5Final (foldl MD5Update (MD5Init ctx) bufs) = md5 (concat bufs)"
  using MD5Final_inv [OF MD5_updates_inv [OF md5_inv_Init [OF assms(1)] assms(2)]] by simp

theorem MD5_incremental_witness:
  "MD5Final (foldl MD5Update (MD5Init \<lparr>m_buf = (0, 0, 0, 0), m_bits0 = 0, m_bits1 = 0, m_in = replicate 64 0\<rparr>)
     [replicate 60 1, replicate 10 2, []]) = md5 (replicate 60 1 @ replicate 10 2)"
  using MD5_incremental [of "\<lparr>m_buf = (0, 0, 0, 0), m_bits0 = 0, m_bits1 = 0, m_in = replicate 64 0\<rparr>"
      "[replicate 60 1, replicate 10 2, []]"] by simp

end
