(* ===== verification/ShttpdAuth.thy ===== *)
theory ShttpdAuth
  imports RhoDispatcher ShttpdStreams Md5
begin

text \<open>
  Digest authentication of the embedded HTTP server (\<open>shttpd/src/auth.c\<close>): hashing lists of fields, parsing the
  \<open>Authorization\<close> header, password files, the decision whether a request is authorised, and editing of
  password files. The file is part of the server; the configuration header of the phones compiles it out.

  A \<open>struct vec\<close> is the text from its pointer on, with a length. Password files are read through a parameter that
  gives the content of a file that could be opened.
\<close>

section \<open>Hashing\<close>

type_synonym vec = "string \<times> nat"

definition vtext :: "vec \<Rightarrow> string" where
  "vtext v = take (snd v) (fst v)"

definition char_byte :: "char \<Rightarrow> 8 word" where
  "char_byte c = of_nat (of_char c)"

definition bin2str :: "8 word list \<Rightarrow> string" where
  "bin2str bs = concat (map (\<lambda>b. [''0123456789abcdef'' ! unat (drop_bit 4 b), ''0123456789abcdef'' ! unat (b AND 0x0f)]) bs)"

text \<open>The loop over the arguments: an empty one is skipped, but counts for the separator of those behind it.\<close>

fun md5_updates :: "MD5_CTX \<Rightarrow> nat \<Rightarrow> vec list \<Rightarrow> MD5_CTX" where
  "md5_updates c i [] = c"
| "md5_updates c i (v # vs) =
     (if snd v = 0 then md5_updates c (Suc i) vs
      else md5_updates (MD5Update (if i > 0 then MD5Update c (map char_byte '':'') else c) (map char_byte (vtext v))) (Suc i) vs)"

text \<open>The context is a local variable; what its block holds before is irrelevant.\<close>

definition md5_vecs :: "vec list \<Rightarrow> string" where
  "md5_vecs vs =
     bin2str (MD5Final (md5_updates (MD5Init \<lparr>m_buf = (0, 0, 0, 0), m_bits0 = 0, m_bits1 = 0, m_in = replicate 64 0\<rparr>) 0 vs))"

definition vcmp :: "vec \<Rightarrow> vec \<Rightarrow> bool" where
  "vcmp v1 v2 \<longleftrightarrow> snd v1 = snd v2 \<and> (\<forall>i \<in> set [0..<snd v1]. c_at (fst v1) i = c_at (fst v2) i)"

section \<open>The Authorization header\<close>

record digest =
  d_user :: vec
  d_uri :: vec
  d_nonce :: vec
  d_cnonce :: vec
  d_resp :: vec
  d_qop :: vec
  d_nc :: vec

definition no_digest :: digest where
  "no_digest = \<lparr>d_user = ([], 0), d_uri = ([], 0), d_nonce = ([], 0), d_cnonce = ([], 0), d_resp = ([], 0),
     d_qop = ([], 0), d_nc = ([], 0)\<rparr>"

text \<open>The offset of a field in the structure is represented by its update.\<close>

definition known_auth_keywords :: "(string \<times> (vec \<Rightarrow> digest \<Rightarrow> digest)) list" where
  "known_auth_keywords =
     [(''username='', \<lambda>v d. d\<lparr>d_user := v\<rparr>), (''cnonce='', \<lambda>v d. d\<lparr>d_cnonce := v\<rparr>),
      (''response='', \<lambda>v d. d\<lparr>d_resp := v\<rparr>), (''uri='', \<lambda>v d. d\<lparr>d_uri := v\<rparr>), (''qop='', \<lambda>v d. d\<lparr>d_qop := v\<rparr>),
      (''nc='', \<lambda>v d. d\<lparr>d_nc := v\<rparr>), (''nonce='', \<lambda>v d. d\<lparr>d_nonce := v\<rparr>)]"

text \<open>The first position from \<open>p\<close> on, before \<open>e\<close>, whose character is one of those looked for.\<close>

function scan_until :: "(char \<Rightarrow> bool) \<Rightarrow> string \<Rightarrow> nat \<Rightarrow> nat \<Rightarrow> nat" where
  "scan_until P t e p = (if p < e \<and> \<not> P (c_at t p) then scan_until P t e (Suc p) else p)"
  by pat_completeness auto

termination
  by (relation "measure (\<lambda>(_, _, e, p). e - p)") auto

declare scan_until.simps [simp del]

lemma scan_until_ge: "p \<le> scan_until P t e p"
  by (induction P t e p rule: scan_until.induct) (subst scan_until.simps, auto)

definition is_blank :: "char \<Rightarrow> bool" where
  "is_blank c \<longleftrightarrow> c = CHR '' '' \<or> c = CHR '',''"

abbreviation QUOTE :: char where "QUOTE \<equiv> CHR 0x22"

text \<open>One field: where it starts, the pointer behind its \<open>=\<close>, where its value starts and where it ends.\<close>

definition auth_field :: "string \<Rightarrow> nat \<Rightarrow> nat \<Rightarrow> nat \<times> nat \<times> nat \<times> nat" where
  "auth_field t e p =
     (let p1 = scan_until (\<lambda>c. \<not> is_blank c) t e p;
          s = Suc (scan_until (\<lambda>c. c = CHR ''='') t e p1)
      in if c_at t s = QUOTE then (p1, s, Suc s, scan_until (\<lambda>c. c = QUOTE) t e (Suc s))
         else (p1, s, s, scan_until is_blank t e s))"

definition auth_keyword :: "string \<Rightarrow> nat \<Rightarrow> nat \<Rightarrow> (vec \<Rightarrow> digest \<Rightarrow> digest) option" where
  "auth_keyword t p s =
     map_option snd (List.find (\<lambda>(kw, _). length kw \<le> s - p \<and> take (length kw) (drop p t) = kw) known_auth_keywords)"

lemma auth_field_progress: "(p1, s, v, q) = auth_field t e p \<Longrightarrow> p < q"
  using scan_until_ge [of p "\<lambda>c. \<not> is_blank c" t e]
    scan_until_ge [of "scan_until (\<lambda>c. \<not> is_blank c) t e p" "\<lambda>c. c = CHR ''=''" t e]
    scan_until_ge [of v "\<lambda>c. c = QUOTE" t e] scan_until_ge [of v is_blank t e]
  by (auto simp: auth_field_def Let_def split: if_splits)

text \<open>The loop; the value of an unknown keyword goes to a dummy.\<close>

function parse_auth :: "string \<Rightarrow> nat \<Rightarrow> nat \<Rightarrow> digest \<Rightarrow> digest" where
  "parse_auth t e p dig =
     (if p < e
      then (case auth_field t e p of
              (p1, s, v, q) \<Rightarrow>
                parse_auth t e (if c_at t q = QUOTE then Suc q else q)
                  (case auth_keyword t p1 s of None \<Rightarrow> dig | Some put \<Rightarrow> put (drop v t, q - v) dig))
      else dig)"
  by pat_completeness auto

termination
  by (relation "measure (\<lambda>(_, e, p, _). e - p)") (auto dest!: auth_field_progress)

declare parse_auth.simps [simp del]

definition parse_authorization_header :: "vec \<Rightarrow> digest" where
  "parse_authorization_header h = parse_auth (fst h) (snd h) 7 no_digest"

section \<open>Passwords\<close>

definition check_password :: "http_method \<Rightarrow> vec \<Rightarrow> digest \<Rightarrow> bool" where
  "check_password mth ha1 dig =
     (if snd (d_resp dig) \<noteq> 32 then False
      else
        let a2 = md5_vecs [(method_name mth, length (method_name mth)), d_uri dig];
            resp = md5_vecs [ha1, d_nonce dig, d_nc dig, d_cnonce dig, d_qop dig, (a2, 32)]
        in take 32 (fst (d_resp dig)) = resp)"

text \<open>A line \<open>user:domain:ha1\<close>; the vectors point into it.\<close>

definition parse_htpasswd_line :: "string \<Rightarrow> (vec \<times> vec \<times> vec) option" where
  "parse_htpasswd_line s =
     (let n = length (takeWhile (\<lambda>c. c \<noteq> NUL \<and> c \<noteq> CHR '':'') s); s1 = drop (Suc n) s;
          m = length (takeWhile (\<lambda>c. c \<noteq> NUL \<and> c \<noteq> CHR '':'') s1); s2 = drop (Suc m) s1;
          k = length (takeWhile (\<lambda>c. c \<noteq> NUL \<and> \<not> isspace c) s2)
      in if c_at s n \<noteq> CHR '':'' then None
         else if c_at s1 m \<noteq> CHR '':'' then None
         else if n > 0 \<and> m > 0 \<and> k > 0 then Some ((s, n), (s1, m), (s2, k)) else None)"

text \<open>\<open>fgets\<close>: at most \<open>n - 1\<close> characters, up to and with the first line end; the rest of the file.\<close>

definition fgets :: "nat \<Rightarrow> string \<Rightarrow> (string \<times> string) option" where
  "fgets n f =
     (if f = [] then None
      else
        let k = length (takeWhile (\<lambda>c. c \<noteq> CHR 0x0A) f);
            l = min (n - 1) (if k < length f then Suc k else k)
        in Some (take l f, drop l f))"

lemma fgets_shorter: "fgets n f = Some (line, r) \<Longrightarrow> 1 < n \<Longrightarrow> length r < length f"
  using length_takeWhile_le [of "\<lambda>c. c \<noteq> CHR 0x0A" f] by (auto simp: fgets_def Let_def split: if_splits)

text \<open>\<open>memcmp\<close> of \<open>n\<close> characters, which stops at the first difference.\<close>

definition memcmp_eq :: "string \<Rightarrow> string \<Rightarrow> nat \<Rightarrow> bool" where
  "memcmp_eq a b n \<longleftrightarrow> (\<forall>i \<in> set [0..<n]. c_at a i = c_at b i)"

function authorize_lines :: "string \<Rightarrow> http_method \<Rightarrow> digest \<Rightarrow> string \<Rightarrow> bool" where
  "authorize_lines realm mth dig f =
     (case fgets 256 f of
        None \<Rightarrow> False
      | Some (line, r) \<Rightarrow>
          (case parse_htpasswd_line line of
             None \<Rightarrow> authorize_lines realm mth dig r
           | Some (user, domain, ha1) \<Rightarrow>
               if vcmp (d_user dig) user \<and> memcmp_eq realm (fst domain) (snd domain)
               then check_password mth ha1 dig
               else authorize_lines realm mth dig r))"
  by pat_completeness auto

termination
  by (relation "measure (\<lambda>(_, _, _, f). length f)") (auto dest: fgets_shorter)

declare authorize_lines.simps [simp del]

text \<open>The realm is an option that always has a value; the user of the request is stored in its headers.\<close>

definition authorize :: "ctx \<Rightarrow> conn \<Rightarrow> string \<Rightarrow> bool \<times> conn" where
  "authorize ctx c f =
     (let auth = v_vec (c_ch c) H_auth
      in if 20 < snd auth \<and> shttpd_strncasecmp (fst auth) ''Digest '' 7 = 0
         then let dig = parse_authorization_header auth;
                  c1 = c\<lparr>c_ch := (c_ch c)(H_user := Some ([], HDR_STRING (fst (d_user dig)) (snd (d_user dig))))\<rparr>
              in (authorize_lines (case ctx_options ctx OPT_AUTH_REALM of None \<Rightarrow> [] | Some r \<Rightarrow> r) (c_method c) dig f, c1)
         else (False, c))"

section \<open>Which file decides\<close>

text \<open>
  \<open>files\<close> gives the content of a file that can be opened. The directory of the path ends before its last separator that is
  not its first character.
\<close>

function dir_end :: "string \<Rightarrow> nat \<Rightarrow> nat" where
  "dir_end path e = (if 0 < e \<and> \<not> is_sep (c_at path e) then dir_end path (e - 1) else e)"
  by pat_completeness auto

termination
  by (relation "measure snd") auto

declare dir_end.simps [simp del]

definition open_auth_file :: "(string \<Rightarrow> string option) \<Rightarrow> ctx \<Rightarrow> string \<Rightarrow> string option" where
  "open_auth_file files ctx path =
     files (take (FILENAME_MAX - 1)
          (case ctx_options ctx OPT_AUTH_GPASSWD of
             Some g \<Rightarrow> g
           | None \<Rightarrow> take (dir_end path (strlen path - 1)) path @ ''/'' @ HTPASSWD))"

text \<open>The entry \<open>uri=file\<close> of the list of protected URIs a request falls under.\<close>

definition protected_entry :: "string \<Rightarrow> string \<times> nat \<Rightarrow> string option" where
  "protected_entry uri w =
     (case w of
        (s, len) \<Rightarrow>
          let i = length (takeWhile (\<lambda>c. c \<noteq> CHR ''='') (take len s))
          in if i \<ge> len \<or> i = 0 then None
             else if memcmp_eq uri s i
                  then Some (take (min (len - i) (FILENAME_MAX - 1) - 1) (drop (Suc i) s))
                  else None)"

fun first_protected :: "string \<Rightarrow> (string \<times> nat) list \<Rightarrow> string option" where
  "first_protected uri [] = None"
| "first_protected uri (w # ws) =
     (case protected_entry uri w of Some f \<Rightarrow> Some f | None \<Rightarrow> first_protected uri ws)"

definition shttpd_check_authorization ::
  "(string \<Rightarrow> string option) \<Rightarrow> ctx \<Rightarrow> conn \<Rightarrow> string \<Rightarrow> bool \<times> conn" where
  "shttpd_check_authorization files ctx c path =
     (let fp = (case first_protected (case c_uri c of None \<Rightarrow> [] | Some u \<Rightarrow> u) (for_each_word (ctx_options ctx OPT_PROTECT)) of
                  None \<Rightarrow> None
                | Some f \<Rightarrow> files f)
      in case (case fp of Some f \<Rightarrow> Some f | None \<Rightarrow> open_auth_file files ctx path) of
           None \<Rightarrow> (True, c)
         | Some f \<Rightarrow> authorize ctx c f)"

definition shttpd_is_authorized_for_put :: "(string \<Rightarrow> string option) \<Rightarrow> ctx \<Rightarrow> conn \<Rightarrow> (bool \<times> conn) res" where
  "shttpd_is_authorized_for_put files ctx c =
     (case ctx_options ctx OPT_AUTH_PUT of
        None \<Rightarrow> Inl Null_Deref
      | Some p \<Rightarrow> Inr (case files p of None \<Rightarrow> (False, c) | Some f \<Rightarrow> authorize ctx c f))"

definition unauthorized_text :: "string \<Rightarrow> int \<Rightarrow> string" where
  "unauthorized_text realm now =
     ''Unauthorized'' @ [CHR 0x0D, CHR 0x0A] @ ''WWW-Authenticate: Digest qop='' @ [QUOTE] @ ''auth'' @ [QUOTE] @
     '', realm='' @ [QUOTE] @ realm @ [QUOTE] @ '', nonce='' @ [QUOTE] @ show_int now @ [QUOTE]"

definition shttpd_send_authorization_request ::
  "'w os \<Rightarrow> ctx \<Rightarrow> int \<Rightarrow> conn \<Rightarrow> 'w \<Rightarrow> (conn \<times> 'w) res" where
  "shttpd_send_authorization_request os ctx now c w =
     shttpd_send_server_error os ctx 401
       (take 511 (unauthorized_text (case ctx_options ctx OPT_AUTH_REALM of None \<Rightarrow> [] | Some r \<Rightarrow> r) now)) c w"

section \<open>Editing a password file\<close>

text \<open>
  The copying loop: lines without two colons are dropped, the line of the user in the domain is replaced, the others are
  copied. The result is the text written and whether the user was found.
\<close>

definition entry_line :: "string \<Rightarrow> string \<Rightarrow> string \<Rightarrow> string" where
  "entry_line user domain ha1 = user @ '':'' @ domain @ '':'' @ take 32 ha1 @ [CHR 0x0A]"

function edit_lines :: "string \<Rightarrow> string \<Rightarrow> string \<Rightarrow> string \<Rightarrow> string \<times> bool" where
  "edit_lines domain user pass f =
     (case fgets 512 f of
        None \<Rightarrow> ([], False)
      | Some (l, r) \<Rightarrow>
          let line = cstr l;
              n = length (takeWhile (\<lambda>c. c \<noteq> CHR '':'') line); d = drop (Suc n) line;
              m = length (takeWhile (\<lambda>c. c \<noteq> CHR '':'') d);
              (out, found) = edit_lines domain user pass r
          in if n = length line \<or> m = length d then (out, found)
             else if length user = n \<and> user = take n line \<and> length domain = m \<and> domain = take m d
             then (entry_line user domain (md5_vecs [(line, n), (d, m), (pass, length pass)]) @ out, True)
             else (line @ out, found))"
  by pat_completeness auto

termination
  by (relation "measure (\<lambda>(_, _, _, f). length f)") (auto dest: fgets_shorter)

declare edit_lines.simps [simp del]

text \<open>
  \<open>f\<close> is the content of the file, empty if it did not exist, and \<open>None\<close> if it cannot be opened; \<open>tmp\<close> says whether the
  temporary file could be created. The result is the new content.
\<close>

definition shttpd_edit_passwords :: "string option \<Rightarrow> bool \<Rightarrow> string \<Rightarrow> string \<Rightarrow> string \<Rightarrow> string res" where
  "shttpd_edit_passwords f tmp domain user pass =
     (case f of
        None \<Rightarrow> Inl Process_Exit
      | Some content \<Rightarrow>
          if \<not> tmp then Inl Process_Exit
          else
            let (out, found) = edit_lines domain user pass content
            in Inr (if found then out
                    else out @ entry_line user domain
                           (md5_vecs [(user, length user), (domain, length domain), (pass, length pass)])))"

section \<open>Scanning\<close>

lemma c_at_append: "c_at (a @ b) (length a + i) = c_at b i"
  by (simp add: c_at_def nth_append)

lemma scan_until_stop:
  assumes "t = a @ b @ c # d" and "\<forall>x \<in> set b. \<not> P x" and "P c" and "length a + length b \<le> e"
  shows "scan_until P t e (length a) = length a + length b"
  using assms
proof (induction b arbitrary: a)
  case Nil
  then show ?case using c_at_append [of a "c # d" 0] by (subst scan_until.simps) (simp add: c_at_def)
next
  case (Cons x b)
  have "c_at t (length a) = x" using Cons.prems(1) c_at_append [of a "(x # b) @ c # d" 0] by (simp add: c_at_def)
  moreover have "scan_until P t e (length (a @ [x])) = length (a @ [x]) + length b"
    using Cons.prems by (intro Cons.IH) auto
  ultimately show ?case using Cons.prems(2,4) by (subst scan_until.simps) simp
qed

text \<open>What a keyword is does not depend on the text behind its \<open>=\<close>.\<close>

definition keyword_of :: "string \<Rightarrow> (vec \<Rightarrow> digest \<Rightarrow> digest) option" where
  "keyword_of k = map_option snd (List.find (\<lambda>(kw, _). length kw \<le> length k \<and> take (length kw) k = kw) known_auth_keywords)"

lemma auth_keyword_of:
  assumes "t = a @ k @ r"
  shows "auth_keyword t (length a) (length a + length k) = keyword_of k"
proof -
  have "(\<lambda>(kw, _). length kw \<le> length a + length k - length a \<and> take (length kw) (drop (length a) t) = kw) =
        (\<lambda>(kw, _ :: vec \<Rightarrow> digest \<Rightarrow> digest). length kw \<le> length k \<and> take (length kw) k = kw)"
    using assms by (auto simp: fun_eq_iff)
  then show ?thesis unfolding auth_keyword_def keyword_of_def by (simp only:)
qed

definition field_name :: "string \<Rightarrow> bool" where
  "field_name k \<longleftrightarrow> k \<noteq> [] \<and> \<not> is_blank (hd k) \<and> CHR ''='' \<notin> set k"

definition put_field :: "string \<Rightarrow> vec \<Rightarrow> digest \<Rightarrow> digest" where
  "put_field k v dig = (case keyword_of (k @ ''='') of None \<Rightarrow> dig | Some put \<Rightarrow> put v dig)"

text \<open>Reading one field, with its value in quotes or not.\<close>

lemma parse_field_start:
  assumes t: "t = a @ sep @ k @ ''='' @ r" and sep: "\<forall>x \<in> set sep. is_blank x" and k: "field_name k"
    and e: "length a + length sep + length k < e"
  defines "q \<equiv> length a + length sep + length k + 1"
  shows "auth_field t e (length a) =
      (if c_at r 0 = QUOTE then (length a + length sep, q, Suc q, scan_until (\<lambda>c. c = QUOTE) t e (Suc q))
       else (length a + length sep, q, q, scan_until is_blank t e q))"
    and "auth_keyword t (length a + length sep) q = keyword_of (k @ ''='')"
proof -
  obtain x ks where x: "k = x # ks" "\<not> is_blank x" using k by (cases k) (auto simp: field_name_def)
  have 1: "scan_until (\<lambda>c. \<not> is_blank c) t e (length a) = length a + length sep"
    using t sep x e by (intro scan_until_stop [of t a sep x "ks @ ''='' @ r"]) auto
  have 2: "scan_until (\<lambda>c. c = CHR ''='') t e (length (a @ sep)) = length (a @ sep) + length k"
    using t k e by (intro scan_until_stop [of t "a @ sep" k "CHR ''=''" r]) (auto simp: field_name_def)
  have "c_at t q = c_at r 0"
    using t c_at_append [of "a @ sep @ k @ ''=''" r 0] by (simp add: q_def add.assoc)
  with 1 2 show "auth_field t e (length a) =
      (if c_at r 0 = QUOTE then (length a + length sep, q, Suc q, scan_until (\<lambda>c. c = QUOTE) t e (Suc q))
       else (length a + length sep, q, q, scan_until is_blank t e q))"
    by (simp add: auth_field_def Let_def q_def)
  show "auth_keyword t (length a + length sep) q = keyword_of (k @ ''='')"
    using auth_keyword_of [of t "a @ sep" "k @ ''=''" r] t by (simp add: q_def)
qed

lemma parse_quoted:
  assumes t: "t = a @ sep @ k @ ''='' @ QUOTE # v @ QUOTE # r" and sep: "\<forall>x \<in> set sep. is_blank x" and k: "field_name k"
    and v: "QUOTE \<notin> set v" and e: "length t - length r \<le> e"
  shows "parse_auth t e (length a) dig = parse_auth t e (length t - length r) (put_field k (v @ QUOTE # r, length v) dig)"
proof -
  let ?q = "length a + length sep + length k + 1"
  have "length a + length sep + length k < e" using t e by simp
  note st = parse_field_start [OF t sep k this]
  have sc: "scan_until (\<lambda>c. c = QUOTE) t e (Suc ?q) = Suc ?q + length v"
    using scan_until_stop [of t "a @ sep @ k @ ''='' @ [QUOTE]" v QUOTE r "\<lambda>c. c = QUOTE" e] t v e by (auto simp: ac_simps)
  have q: "c_at t (Suc ?q + length v) = QUOTE" "drop (Suc ?q) t = v @ QUOTE # r" "Suc (Suc ?q + length v) = length t - length r"
    using t c_at_append [of "a @ sep @ k @ ''='' @ QUOTE # v" "QUOTE # r" 0] by (simp_all add: ac_simps c_at_def)
  have "length a < e" using t e by simp
  moreover have "c_at (QUOTE # v @ QUOTE # r) 0 = QUOTE" by (simp add: c_at_def)
  ultimately show ?thesis
    using st sc q by (subst parse_auth.simps) (simp add: put_field_def split: option.split)
qed

lemma parse_unquoted:
  assumes t: "t = a @ sep @ k @ ''='' @ v @ c # r" and sep: "\<forall>x \<in> set sep. is_blank x" and k: "field_name k"
    and v: "v \<noteq> []" "\<forall>x \<in> set v. \<not> is_blank x" "hd v \<noteq> QUOTE" and c: "is_blank c" and e: "length t - length r \<le> e"
  shows "parse_auth t e (length a) dig = parse_auth t e (length t - length r - 1) (put_field k (v @ c # r, length v) dig)"
proof -
  let ?q = "length a + length sep + length k + 1"
  have "length a + length sep + length k < e" using t e by simp
  note st = parse_field_start [OF t sep k this]
  have hd: "c_at (v @ c # r) 0 \<noteq> QUOTE" using v by (cases v) (auto simp: c_at_def)
  have sc: "scan_until is_blank t e ?q = ?q + length v"
    using scan_until_stop [of t "a @ sep @ k @ ''=''" v c r is_blank e] t v c e by (auto simp: ac_simps)
  have q: "c_at t (?q + length v) = c" "drop ?q t = v @ c # r" "?q + length v = length t - length r - 1"
    using t c_at_append [of "a @ sep @ k @ ''='' @ v" "c # r" 0] by (simp_all add: ac_simps c_at_def)
  have lv: "length t - Suc (Suc (length r + (length a + length sep + length k))) = length v" using t by simp
  have "c \<noteq> QUOTE" using c by (auto simp: is_blank_def)
  moreover have "length a < e" using t e by simp
  ultimately show ?thesis
    using st hd sc q lv by (subst parse_auth.simps) (simp add: put_field_def split: option.split)
qed

section \<open>A header as clients print it\<close>

definition quoted :: "string \<Rightarrow> string \<Rightarrow> string" where
  "quoted k v = k @ ''='' @ QUOTE # v @ [QUOTE]"

definition auth_header ::
  "string \<Rightarrow> string \<Rightarrow> string \<Rightarrow> string \<Rightarrow> string \<Rightarrow> string \<Rightarrow> string \<Rightarrow> string \<Rightarrow> string" where
  "auth_header user realm nonce uri qop nc cnonce resp =
     ''Digest '' @ quoted ''username'' user @ '', '' @ quoted ''realm'' realm @ '', '' @ quoted ''nonce'' nonce @ '', '' @
     quoted ''uri'' uri @ '', qop='' @ qop @ '', nc='' @ nc @ '', '' @ quoted ''cnonce'' cnonce @ '', '' @ quoted ''response'' resp"

text \<open>Characters a quoted value and an unquoted value may have.\<close>

abbreviation unquotable :: "string \<Rightarrow> bool" where
  "unquotable v \<equiv> QUOTE \<notin> set v"

definition token :: "string \<Rightarrow> bool" where
  "token v \<longleftrightarrow> v \<noteq> [] \<and> (\<forall>x \<in> set v. \<not> is_blank x) \<and> hd v \<noteq> QUOTE"

lemma put_field_simps:
  "put_field ''username'' v d = d\<lparr>d_user := v\<rparr>" "put_field ''realm'' v d = d" "put_field ''nonce'' v d = d\<lparr>d_nonce := v\<rparr>"
  "put_field ''uri'' v d = d\<lparr>d_uri := v\<rparr>" "put_field ''qop'' v d = d\<lparr>d_qop := v\<rparr>" "put_field ''nc'' v d = d\<lparr>d_nc := v\<rparr>"
  "put_field ''cnonce'' v d = d\<lparr>d_cnonce := v\<rparr>" "put_field ''response'' v d = d\<lparr>d_resp := v\<rparr>"
  by (simp_all add: put_field_def keyword_of_def known_auth_keywords_def)

lemma field_names: "field_name ''username''" "field_name ''realm''" "field_name ''nonce''" "field_name ''uri''" "field_name ''qop''"
  "field_name ''nc''" "field_name ''cnonce''" "field_name ''response''"
  by (simp_all add: field_name_def is_blank_def)

lemma parse_quoted_at:
  assumes "t = a @ sep @ quoted k v @ r" and "\<forall>x \<in> set sep. is_blank x" and "field_name k" and "unquotable v"
    and "length a + length sep + length (quoted k v) \<le> e"
  shows "parse_auth t e (length a) dig = parse_auth t e (length (a @ sep @ quoted k v)) (put_field k (v @ QUOTE # r, length v) dig)"
  using parse_quoted [of t a sep k v r e dig] assms by (simp add: quoted_def numeral_3_eq_3)

lemma parse_token_at:
  assumes "t = a @ sep @ k @ ''='' @ v @ '','' @ r" and "\<forall>x \<in> set sep. is_blank x" and "field_name k" and "token v"
    and "length a + length sep + length k + length v + 2 \<le> e"
  shows "parse_auth t e (length a) dig = parse_auth t e (length (a @ sep @ k @ ''='' @ v)) (put_field k (v @ '','' @ r, length v) dig)"
  using parse_unquoted [of t a sep k v "CHR '',''" r e dig] assms by (simp add: token_def is_blank_def)

lemma parse_auth_header:
  assumes "unquotable user" "unquotable realm" "unquotable nonce" "unquotable uri" "unquotable cnonce" "unquotable resp"
    and "token qop" "token nc"
  defines "h \<equiv> auth_header user realm nonce uri qop nc cnonce resp"
  shows "\<exists>r1 r2 r3 r4 r5 r6 r7. parse_authorization_header (h @ rest, length h) =
     \<lparr>d_user = (user @ r1, length user), d_uri = (uri @ r2, length uri), d_nonce = (nonce @ r3, length nonce),
      d_cnonce = (cnonce @ r4, length cnonce), d_resp = (resp @ r5, length resp), d_qop = (qop @ r6, length qop),
      d_nc = (nc @ r7, length nc)\<rparr>"
proof -
  let ?t = "h @ rest" and ?e = "length h"
  define r7 where "r7 = '', '' @ quoted ''response'' resp @ rest"
  define r6 where "r6 = '', '' @ quoted ''cnonce'' cnonce @ r7"
  define r5 where "r5 = '', nc='' @ nc @ r6"
  define r4 where "r4 = '', qop='' @ qop @ r5"
  define r3 where "r3 = '', '' @ quoted ''uri'' uri @ r4"
  define r2 where "r2 = '', '' @ quoted ''nonce'' nonce @ r3"
  define r1 where "r1 = '', '' @ quoted ''realm'' realm @ r2"
  define a1 where "a1 = ''Digest '' @ quoted ''username'' user"
  define a2 where "a2 = a1 @ '', '' @ quoted ''realm'' realm"
  define a3 where "a3 = a2 @ '', '' @ quoted ''nonce'' nonce"
  define a4 where "a4 = a3 @ '', '' @ quoted ''uri'' uri"
  define a5 where "a5 = a4 @ '', '' @ ''qop'' @ ''='' @ qop"
  define a6 where "a6 = a5 @ '', '' @ ''nc'' @ ''='' @ nc"
  define a7 where "a7 = a6 @ '', '' @ quoted ''cnonce'' cnonce"
  have h: "h = a7 @ '', '' @ quoted ''response'' resp"
    by (simp add: h_def auth_header_def a1_def a2_def a3_def a4_def a5_def a6_def a7_def)
  have b: "\<forall>x \<in> set '', ''. is_blank x" by (simp add: is_blank_def)
  have len: "length a7 \<le> ?e" "length a6 + 1 \<le> length a7" "length a5 + 1 \<le> length a6" "length a4 \<le> length a5"
      "length a3 \<le> length a4" "length a2 \<le> length a3" "length a1 \<le> length a2"
    by (simp_all add: h a2_def a3_def a4_def a5_def a6_def a7_def)
  have t: "?t = ''Digest '' @ [] @ quoted ''username'' user @ r1" "?t = a1 @ '', '' @ quoted ''realm'' realm @ r2"
      "?t = a2 @ '', '' @ quoted ''nonce'' nonce @ r3" "?t = a3 @ '', '' @ quoted ''uri'' uri @ r4"
      "?t = a4 @ '', '' @ ''qop'' @ ''='' @ qop @ '','' @ tl r5" "?t = a5 @ '', '' @ ''nc'' @ ''='' @ nc @ '','' @ tl r6"
      "?t = a6 @ '', '' @ quoted ''cnonce'' cnonce @ r7" "?t = a7 @ '', '' @ quoted ''response'' resp @ rest"
    by (simp_all add: h a1_def a2_def a3_def a4_def a5_def a6_def a7_def r1_def r2_def r3_def r4_def r5_def r6_def r7_def)
  have s1: "parse_auth ?t ?e 7 d = parse_auth ?t ?e (length a1) (put_field ''username'' (user @ QUOTE # r1, length user) d)" for d
    using parse_quoted_at [OF t(1) _ field_names(1) assms(1), of ?e d] len by (simp add: a1_def numeral_eq_Suc)
  have s2: "parse_auth ?t ?e (length a1) d = parse_auth ?t ?e (length a2) (put_field ''realm'' (realm @ QUOTE # r2, length realm) d)" for d
    using parse_quoted_at [OF t(2) b field_names(2) assms(2), of ?e d] len by (simp add: a2_def)
  have s3: "parse_auth ?t ?e (length a2) d = parse_auth ?t ?e (length a3) (put_field ''nonce'' (nonce @ QUOTE # r3, length nonce) d)" for d
    using parse_quoted_at [OF t(3) b field_names(3) assms(3), of ?e d] len by (simp add: a3_def)
  have s4: "parse_auth ?t ?e (length a3) d = parse_auth ?t ?e (length a4) (put_field ''uri'' (uri @ QUOTE # r4, length uri) d)" for d
    using parse_quoted_at [OF t(4) b field_names(4) assms(4), of ?e d] len by (simp add: a4_def)
  have s5: "parse_auth ?t ?e (length a4) d = parse_auth ?t ?e (length a5) (put_field ''qop'' (qop @ '','' @ tl r5, length qop) d)" for d
    using parse_token_at [OF t(5) b field_names(5) assms(7), of ?e d] len by (simp add: a5_def)
  have s6: "parse_auth ?t ?e (length a5) d = parse_auth ?t ?e (length a6) (put_field ''nc'' (nc @ '','' @ tl r6, length nc) d)" for d
    using parse_token_at [OF t(6) b field_names(6) assms(8), of ?e d] len by (simp add: a6_def)
  have s7: "parse_auth ?t ?e (length a6) d = parse_auth ?t ?e (length a7) (put_field ''cnonce'' (cnonce @ QUOTE # r7, length cnonce) d)" for d
    using parse_quoted_at [OF t(7) b field_names(7) assms(5), of ?e d] len by (simp add: a7_def)
  have s8: "parse_auth ?t ?e (length a7) d = parse_auth ?t ?e (length h) (put_field ''response'' (resp @ QUOTE # rest, length resp) d)" for d
    using parse_quoted_at [OF t(8) b field_names(8) assms(6), of ?e d] len by (simp add: h)
  have e: "parse_auth ?t ?e (length h) d = d" for d
    by (subst parse_auth.simps) simp
  show ?thesis
    unfolding parse_authorization_header_def fst_conv snd_conv s1 s2 s3 s4 s5 s6 s7 s8 e put_field_simps no_digest_def
    by simp
qed


section \<open>The hash of a list of fields\<close>

definition hexmd5 :: "string \<Rightarrow> string" where
  "hexmd5 s = bin2str (md5 (map char_byte s))"

definition colon_join :: "string list \<Rightarrow> string" where
  "colon_join ss = (case ss of [] \<Rightarrow> [] | s # r \<Rightarrow> s @ concat (map (\<lambda>x. '':'' @ x) r))"

definition vec_ok :: "vec \<Rightarrow> bool" where
  "vec_ok v \<longleftrightarrow> 0 < snd v \<and> snd v < 2 ^ 32 \<and> snd v \<le> length (fst v)"

lemma md5_updates_inv:
  assumes "md5_inv c xs" and "\<forall>v \<in> set vs. vec_ok v" and "0 < i"
  shows "md5_inv (md5_updates c i vs) (xs @ map char_byte (concat (map (\<lambda>v. '':'' @ vtext v) vs)))"
  using assms
proof (induction vs arbitrary: c xs i)
  case (Cons v vs)
  have "length (map char_byte '':'') < 2 ^ 32" "length (map char_byte (vtext v)) < 2 ^ 32" "snd v \<noteq> 0"
    using Cons.prems(2) by (simp_all add: vec_ok_def vtext_def)
  then show ?case
    using Cons.prems Cons.IH [OF MD5Update_inv [OF MD5Update_inv [OF Cons.prems(1)]], of "map char_byte '':''" "map char_byte (vtext v)" "Suc i"]
    by simp
qed simp

lemma md5_vecs_join:
  assumes "vs \<noteq> []" and "\<forall>v \<in> set vs. vec_ok v"
  shows "md5_vecs vs = hexmd5 (colon_join (map vtext vs))"
proof -
  let ?c = "MD5Init \<lparr>m_buf = (0, 0, 0, 0), m_bits0 = 0, m_bits1 = 0, m_in = replicate 64 0\<rparr>"
  obtain v r where vs: "vs = v # r" using assms(1) by (cases vs) auto
  have v: "length (map char_byte (vtext v)) < 2 ^ 32" "snd v \<noteq> 0"
    using assms(2) vs by (simp_all add: vec_ok_def vtext_def)
  have "md5_inv (md5_updates (MD5Update ?c (map char_byte (vtext v))) 1 r)
      (([] @ map char_byte (vtext v)) @ map char_byte (concat (map (\<lambda>v. '':'' @ vtext v) r)))"
    using assms(2) vs v(1) by (intro md5_updates_inv MD5Update_inv md5_inv_Init) auto
  from MD5Final_inv [OF this] show ?thesis
    using v(2) by (simp add: vs md5_vecs_def hexmd5_def colon_join_def o_def)
qed

lemma vtext_append [simp]: "vtext (s @ r, length s) = s" "vtext (s, length s) = s"
  by (simp_all add: vtext_def)

lemma vec_ok_text [simp]: "vec_ok (s @ r, length s) \<longleftrightarrow> s \<noteq> [] \<and> length s < 2 ^ 32" "vec_ok (s, length s) \<longleftrightarrow> s \<noteq> [] \<and> length s < 2 ^ 32"
  by (auto simp: vec_ok_def)

lemma length_hexmd5 [simp]: "length (hexmd5 s) = 32"
proof -
  have "length (md5 xs) = 16" for xs
    by (simp add: md5_def digest_bytes_def le_bytes_def split: prod.split)
  then show ?thesis by (simp add: hexmd5_def bin2str_def length_concat o_def sum_list_triv)
qed

lemma hexmd5_not_empty [simp]: "hexmd5 s \<noteq> []"
  using length_hexmd5 [of s] by (intro notI) simp

lemma hex_digit: "i < 16 \<Longrightarrow> ''0123456789abcdef'' ! i \<in> set ''0123456789abcdef''"
  by (rule nth_mem) simp

lemma set_bin2str: "set (bin2str bs) \<subseteq> set ''0123456789abcdef''"
proof -
  have "unat (drop_bit 4 b) < 16" "unat (b AND 0x0f) < 16" for b :: byte
  proof -
    have "unat b < 256" using unsigned_less [of b] by simp
    then show "unat (drop_bit 4 b) < 16" unfolding unat_drop_bit_eq by (simp add: drop_bit_eq_div)
    have m: "(0x0f :: byte) = mask 4" by (simp add: mask_eq_exp_minus_1)
    show "unat (b AND 0x0f) < 16"
      unfolding m take_bit_eq_mask [symmetric] unsigned_take_bit_eq by (simp add: take_bit_eq_mod)
  qed
  then have "set [''0123456789abcdef'' ! unat (drop_bit 4 b), ''0123456789abcdef'' ! unat (b AND 0x0f)] \<subseteq> set ''0123456789abcdef''"
    for b :: byte
    using hex_digit by (metis empty_set empty_subsetI insert_subset list.simps(15))
  then show ?thesis unfolding bin2str_def set_concat set_map by blast
qed


section \<open>A password file as a list of entries\<close>

type_synonym entry = "string \<times> string \<times> string"

definition pw_line :: "entry \<Rightarrow> string" where
  "pw_line e = (case e of (u, d, h) \<Rightarrow> u @ '':'' @ d @ '':'' @ h @ [CHR 0x0A])"

definition pw_file :: "entry list \<Rightarrow> string" where
  "pw_file es = concat (map pw_line es)"

definition name_ok :: "string \<Rightarrow> bool" where
  "name_ok s \<longleftrightarrow> s \<noteq> [] \<and> set s \<inter> {CHR '':'', CHR 0x0A, NUL} = {}"

definition entry_ok :: "entry \<Rightarrow> bool" where
  "entry_ok e \<longleftrightarrow>
     (case e of (u, d, h) \<Rightarrow> name_ok u \<and> name_ok d \<and> h \<noteq> [] \<and> (\<forall>x \<in> set h. x \<noteq> NUL \<and> \<not> isspace x) \<and> length (pw_line e) < 256)"

definition set_password :: "string \<Rightarrow> string \<Rightarrow> string \<Rightarrow> entry list \<Rightarrow> entry list" where
  "set_password user domain h es =
     (if \<exists>e \<in> set es. fst e = user \<and> fst (snd e) = domain
      then map (\<lambda>e. if fst e = user \<and> fst (snd e) = domain then (user, domain, h) else e) es
      else es @ [(user, domain, h)])"

lemma takeWhile_stop: "\<forall>x \<in> set a. P x \<Longrightarrow> \<not> P c \<Longrightarrow> takeWhile P (a @ c # r) = a"
  by (simp add: takeWhile_append)

lemma fgets_line:
  assumes "CHR 0x0A \<notin> set x" and "length x + 1 < n"
  shows "fgets n (x @ CHR 0x0A # r) = Some (x @ [CHR 0x0A], r)"
proof -
  have "takeWhile (\<lambda>c. c \<noteq> CHR 0x0A) (x @ CHR 0x0A # r) = x" using assms(1) by (intro takeWhile_stop) auto
  moreover have "min (n - 1) (Suc (length x)) = Suc (length x)" using assms(2) by simp
  ultimately show ?thesis by (simp add: fgets_def Let_def)
qed

lemma pw_line_ok:
  assumes "entry_ok e"
  obtains x where "pw_line e = x @ [CHR 0x0A]" "CHR 0x0A \<notin> set x" "length x < 255" "NUL \<notin> set x"
proof -
  obtain u d h where e: "e = (u, d, h)" by (cases e)
  show ?thesis
    using assms that [of "u @ '':'' @ d @ '':'' @ h"]
    by (auto simp: e entry_ok_def pw_line_def name_ok_def isspace_def)
qed

lemma fgets_pw_file: "entry_ok e \<Longrightarrow> 256 \<le> n \<Longrightarrow> fgets n (pw_file (e # es)) = Some (pw_line e, pw_file es)"
  using fgets_line by (elim pw_line_ok) (simp add: pw_file_def)

lemma parse_pw_line:
  assumes "entry_ok (u, d, h)"
  shows "parse_htpasswd_line (pw_line (u, d, h)) =
    Some ((pw_line (u, d, h), length u), (d @ '':'' @ h @ [CHR 0x0A], length d), (h @ [CHR 0x0A], length h))"
proof -
  have u: "takeWhile (\<lambda>c. c \<noteq> NUL \<and> c \<noteq> CHR '':'') (u @ CHR '':'' # r) = u"
    and d: "takeWhile (\<lambda>c. c \<noteq> NUL \<and> c \<noteq> CHR '':'') (d @ CHR '':'' # r) = d"
    and h: "takeWhile (\<lambda>c. c \<noteq> NUL \<and> \<not> isspace c) (h @ [CHR 0x0A]) = h" for r
    using assms by (auto simp: entry_ok_def name_ok_def isspace_def intro!: takeWhile_stop)
  have c: "c_at (s @ CHR '':'' # r) (length s) = CHR '':''" for s r by (simp add: c_at_def)
  have ne: "u \<noteq> []" "d \<noteq> []" "h \<noteq> []" using assms by (auto simp: entry_ok_def name_ok_def)
  have x: "drop (Suc (length s)) (s @ CHR '':'' # r) = r" for s r :: string by simp
  show ?thesis
    using ne by (simp add: parse_htpasswd_line_def pw_line_def u d h c Let_def x del: drop_append)
qed

lemma vcmp_text: "vcmp (a @ x, length a) (b @ y, length b) \<longleftrightarrow> a = b"
proof -
  have "(\<forall>i < length a. (a @ x) ! i = (b @ y) ! i) \<longleftrightarrow> a = b" if "length a = length b"
    using that by (simp add: nth_append list_eq_iff_nth_eq)
  then show ?thesis by (auto simp: vcmp_def c_at_def)
qed

lemma memcmp_prefix:
  assumes "NUL \<notin> set d"
  shows "memcmp_eq realm (d @ r) (length d) \<longleftrightarrow> take (length d) realm = d"
proof
  assume m: "memcmp_eq realm (d @ r) (length d)"
  have *: "i < length realm \<and> realm ! i = d ! i" if "i < length d" for i
  proof -
    have "c_at realm i = d ! i" using m that by (simp add: memcmp_eq_def c_at_def nth_append)
    moreover have "d ! i \<noteq> NUL" using assms nth_mem [OF that] by metis
    ultimately show ?thesis by (auto simp: c_at_def split: if_splits)
  qed
  have "length d \<le> length realm" using * by (cases "length d") (auto simp: Suc_le_eq)
  with * show "take (length d) realm = d" by (simp add: list_eq_iff_nth_eq)
next
  assume d: "take (length d) realm = d"
  have "length d \<le> length realm" using arg_cong [OF d, of length] by simp
  moreover have "realm ! i = d ! i" if "i < length d" for i using d nth_take [OF that, of realm] by simp
  ultimately show "memcmp_eq realm (d @ r) (length d)" by (simp add: memcmp_eq_def c_at_def nth_append)
qed

text \<open>What the two loops over a password file compute.\<close>

lemma check_password_text: "check_password mth (h @ r, length h) dig = check_password mth (h, length h) dig"
  by (simp add: check_password_def md5_vecs_def Let_def)

lemma authorize_pw_file:
  assumes "\<forall>e \<in> set es. entry_ok e" and "d_user dig = (user @ r, length user)"
  shows "authorize_lines realm mth dig (pw_file es) =
    (case List.find (\<lambda>(u, d, h). u = user \<and> take (length d) realm = d) es of
       None \<Rightarrow> False | Some (u, d, h) \<Rightarrow> check_password mth (h, length h) dig)"
  using assms(1)
proof (induction es)
  case Nil
  then show ?case by (subst authorize_lines.simps) (simp add: pw_file_def fgets_def)
next
  case (Cons e es)
  obtain u d h where e: "e = (u, d, h)" by (cases e)
  have "NUL \<notin> set d" using Cons.prems e by (auto simp: entry_ok_def name_ok_def)
  then have m: "memcmp_eq realm (d @ x) (length d) \<longleftrightarrow> take (length d) realm = d" for x by (rule memcmp_prefix)
  have v: "vcmp (user @ r, length user) (pw_line e, length u) \<longleftrightarrow> user = u"
    unfolding e pw_line_def prod.case by (rule vcmp_text)
  have ok: "entry_ok (u, d, h)" using Cons.prems e by simp
  show ?case
    using Cons fgets_pw_file [of e 256 es] parse_pw_line [OF ok] m v check_password_text assms(2)
    by (subst authorize_lines.simps) (auto simp: e)
qed

lemma edit_pw_file:
  fixes pass :: string
  assumes "\<forall>e \<in> set es. entry_ok e" and "name_ok user" "name_ok domain"
  defines "h \<equiv> md5_vecs [(user, length user), (domain, length domain), (pass, length pass)]"
  shows "edit_lines domain user pass (pw_file es) =
    (pw_file (map (\<lambda>e. if fst e = user \<and> fst (snd e) = domain then (user, domain, take 32 h) else e) es),
     \<exists>e \<in> set es. fst e = user \<and> fst (snd e) = domain)"
  using assms(1)
proof (induction es)
  case Nil
  then show ?case by (subst edit_lines.simps) (simp add: pw_file_def fgets_def)
next
  case (Cons e es)
  obtain u d k where e: "e = (u, d, k)" by (cases e)
  have ok: "entry_ok (u, d, k)" using Cons.prems e by simp
  then have c: "cstr (pw_line e) = pw_line e" unfolding e by (elim pw_line_ok) simp
  have u: "takeWhile (\<lambda>c. c \<noteq> CHR '':'') (u @ CHR '':'' # r) = u"
    and d: "takeWhile (\<lambda>c. c \<noteq> CHR '':'') (d @ CHR '':'' # r) = d" for r
    using ok by (auto simp: entry_ok_def name_ok_def intro!: takeWhile_stop)
  have h: "md5_vecs [(u @ x, length u), (d @ y, length d), (pass, length pass)] =
      md5_vecs [(u, length u), (d, length d), (pass, length pass)]" for x y
    by (simp add: md5_vecs_def)
  have line: "pw_line e = u @ CHR '':'' # d @ CHR '':'' # k @ [CHR 0x0A]" by (simp add: e pw_line_def)
  have new: "entry_line user domain x = pw_line (user, domain, take 32 x)" for x by (simp add: entry_line_def pw_line_def)
  have IH: "edit_lines domain user pass (pw_file es) =
      (pw_file (map (\<lambda>e. if fst e = user \<and> fst (snd e) = domain then (user, domain, take 32 h) else e) es),
       \<exists>e \<in> set es. fst e = user \<and> fst (snd e) = domain)"
    using Cons by simp
  have cons: "pw_file (x # xs) = pw_line x @ pw_file xs" for x xs by (simp add: pw_file_def)
  have f: "fgets 512 (pw_file (e # es)) = Some (u @ CHR '':'' # d @ CHR '':'' # k @ [CHR 0x0A], pw_file es)"
      and c': "cstr (u @ CHR '':'' # d @ CHR '':'' # k @ [CHR 0x0A]) = u @ CHR '':'' # d @ CHR '':'' # k @ [CHR 0x0A]"
    using fgets_pw_file [of e 512 es] Cons.prems c by (simp_all add: line)
  have "edit_lines domain user pass (pw_file (e # es)) =
      (if u = user \<and> d = domain then (pw_line (user, domain, take 32 h) @ fst (edit_lines domain user pass (pw_file es)), True)
       else (pw_line e @ fst (edit_lines domain user pass (pw_file es)), snd (edit_lines domain user pass (pw_file es))))"
    using h by (subst edit_lines.simps) (auto simp: f c' u d Let_def h_def new line split: prod.split)
  then show ?case by (auto simp: IH cons e)
qed


definition ha1_text :: "string \<Rightarrow> string \<Rightarrow> string \<Rightarrow> string" where
  "ha1_text user domain pass = hexmd5 (colon_join [user, domain, pass])"

lemma ha1_vecs:
  assumes "name_ok user" "name_ok domain" "pass \<noteq> []" "length user < 2 ^ 32" "length domain < 2 ^ 32" "length pass < 2 ^ 32"
  shows "md5_vecs [(user, length user), (domain, length domain), (pass, length pass)] = ha1_text user domain pass"
  using assms by (subst md5_vecs_join) (simp_all add: ha1_text_def name_ok_def)

lemma map_no_match: "\<not> (\<exists>e \<in> set es. P e) \<Longrightarrow> map (\<lambda>e. if P e then x else e) es = es"
  by (intro map_idI) auto

lemma edit_passwords_entries:
  assumes "\<forall>e \<in> set es. entry_ok e" and "name_ok user" "name_ok domain" "pass \<noteq> []"
    and "length user < 2 ^ 32" "length domain < 2 ^ 32" "length pass < 2 ^ 32"
  shows "shttpd_edit_passwords (Some (pw_file es)) True domain user pass =
    Inr (pw_file (set_password user domain (ha1_text user domain pass) es))"
proof -
  note h = ha1_vecs [OF assms(2-)]
  have l: "take 32 (ha1_text user domain pass) = ha1_text user domain pass" by (simp add: ha1_text_def)
  note ed = edit_pw_file [OF assms(1-3), of pass, unfolded h l]
  show ?thesis
  proof (cases "\<exists>e \<in> set es. fst e = user \<and> fst (snd e) = domain")
    case True
    then show ?thesis by (simp add: shttpd_edit_passwords_def ed set_password_def)
  next
    case False
    then show ?thesis
      unfolding shttpd_edit_passwords_def option.case ed h map_no_match [OF False] set_password_def if_not_P [OF False]
      by (simp add: entry_line_def l pw_file_def pw_line_def)
  qed
qed

lemma hexmd5_chars: "\<forall>x \<in> set (hexmd5 s). x \<noteq> NUL \<and> \<not> isspace x"
  using set_bin2str [of "md5 (map char_byte s)"] by (auto simp: hexmd5_def isspace_def)

lemma set_password_ok:
  assumes "\<forall>e \<in> set es. entry_ok e" and "entry_ok (user, domain, h)"
  shows "\<forall>e \<in> set (set_password user domain h es). entry_ok e"
  using assms by (auto simp: set_password_def)

lemma find_set_password:
  assumes "\<forall>e \<in> set es. fst e = user \<and> take (length (fst (snd e))) domain = fst (snd e) \<longrightarrow> fst (snd e) = domain"
  shows "List.find (\<lambda>(u, d, h). u = user \<and> take (length d) domain = d) (set_password user domain h es) = Some (user, domain, h)"
proof -
  have "List.find (\<lambda>(u, d, h). u = user \<and> take (length d) domain = d)
      (map (\<lambda>e. if fst e = user \<and> fst (snd e) = domain then (user, domain, h) else e) es @ r) =
      (if \<exists>e \<in> set es. fst e = user \<and> fst (snd e) = domain then Some (user, domain, h)
       else List.find (\<lambda>(u, d, h). u = user \<and> take (length d) domain = d) r)" for r
    using assms by (induction es) auto
  from this [of "[]"] this [of "[(user, domain, h)]"] show ?thesis
    using map_no_match [of es "\<lambda>e. fst e = user \<and> fst (snd e) = domain" "(user, domain, h)"]
    by (cases "\<exists>e \<in> set es. fst e = user \<and> fst (snd e) = domain") (simp_all add: set_password_def)
qed

text \<open>The response of a client that knows the password.\<close>

definition expected_response ::
  "http_method \<Rightarrow> string \<Rightarrow> string \<Rightarrow> string \<Rightarrow> string \<Rightarrow> string \<Rightarrow> string \<Rightarrow> string" where
  "expected_response mth ha1 nonce uri qop nc cnonce =
     hexmd5 (colon_join [ha1, nonce, nc, cnonce, qop, hexmd5 (colon_join [method_name mth, uri])])"

lemma check_password_response:
  assumes "d_uri dig = (uri @ r2, length uri)" "d_nonce dig = (nonce @ r3, length nonce)" "d_cnonce dig = (cnonce @ r4, length cnonce)"
    "d_resp dig = (resp @ r5, length resp)" "d_qop dig = (qop @ r6, length qop)" "d_nc dig = (nc @ r7, length nc)"
    and "\<forall>s \<in> set [ha1, uri, nonce, cnonce, qop, nc]. s \<noteq> [] \<and> length s < 2 ^ 32"
  shows "check_password mth (ha1, length ha1) dig \<longleftrightarrow> resp = expected_response mth ha1 nonce uri qop nc cnonce"
proof -
  have mth: "method_name mth \<noteq> []" "length (method_name mth) < 2 ^ 32" by (cases mth; simp)+
  have a2: "md5_vecs [(method_name mth, length (method_name mth)), d_uri dig] = hexmd5 (colon_join [method_name mth, uri])"
    using assms mth by (subst md5_vecs_join) simp_all
  have l: "vec_ok (hexmd5 s, 32)" "vtext (hexmd5 s, 32) = hexmd5 s" for s
    using vec_ok_text(2) [of "hexmd5 s"] vtext_append(2) [of "hexmd5 s"] by (simp_all add: vec_ok_def)
  have "md5_vecs [(ha1, length ha1), d_nonce dig, d_nc dig, d_cnonce dig, d_qop dig, (hexmd5 (colon_join [method_name mth, uri]), 32)] =
      expected_response mth ha1 nonce uri qop nc cnonce"
    using assms l by (subst md5_vecs_join) (simp_all add: expected_response_def)
  moreover have "length (expected_response mth ha1 nonce uri qop nc cnonce) = 32" by (simp add: expected_response_def)
  ultimately show ?thesis using assms(4) by (auto simp: check_password_def a2 Let_def)
qed


section \<open>Logging in\<close>

text \<open>A request for which no password file can be opened is authorised, one that names a protected URI too.\<close>

lemma unreadable_password_file_grants:
  assumes "\<And>p. files p = None"
  shows "shttpd_check_authorization files ctx c path = (True, c)"
  using assms by (simp add: shttpd_check_authorization_def open_auth_file_def Let_def del: first_protected.simps split: option.split)

definition header_field_ok :: "string \<Rightarrow> bool" where
  "header_field_ok s \<longleftrightarrow> s \<noteq> [] \<and> length s < 2 ^ 32 \<and> unquotable s"

text \<open>
  C13. After the password of a user has been set with \<open>edit_passwords\<close>, a request with a digest header is authorised
  exactly if its response is the hash a client computes from the user, the realm, the password and the fields of the header.
  The file may hold any other entries, except earlier domains of the user that are a proper prefix of the realm, which the
  comparison by the length of the domain would accept.
\<close>

theorem password_roundtrip:
  assumes es: "\<forall>e \<in> set es. entry_ok e"
    and names: "name_ok user" "name_ok domain" "length user + length domain < 221" "unquotable user" "unquotable realm"
    and pass: "pass \<noteq> []" "length pass < 2 ^ 32"
    and other: "\<forall>e \<in> set es. fst e = user \<and> take (length (fst (snd e))) domain = fst (snd e) \<longrightarrow> fst (snd e) = domain"
    and fields: "header_field_ok nonce" "header_field_ok uri" "header_field_ok cnonce" "token qop" "token nc" "unquotable resp"
      "length qop < 2 ^ 32" "length nc < 2 ^ 32"
    and opt: "ctx_options ctx OPT_AUTH_REALM = Some domain"
    and hdr: "v_vec (c_ch c) H_auth = (auth_header user realm nonce uri qop nc cnonce resp @ rest,
                length (auth_header user realm nonce uri qop nc cnonce resp))"
  shows "\<exists>f. shttpd_edit_passwords (Some (pw_file es)) True domain user pass = Inr f \<and>
    (fst (authorize ctx c f) \<longleftrightarrow>
     resp = expected_response (c_method c) (ha1_text user domain pass) nonce uri qop nc cnonce)"
proof -
  let ?ha1 = "ha1_text user domain pass" and ?h = "auth_header user realm nonce uri qop nc cnonce resp"
  let ?es = "set_password user domain ?ha1 es"
  have len: "length ?ha1 = 32" by (simp add: ha1_text_def)
  have ok: "entry_ok (user, domain, ?ha1)"
    using names len hexmd5_chars by (auto simp: entry_ok_def pw_line_def ha1_text_def)
  have ed: "shttpd_edit_passwords (Some (pw_file es)) True domain user pass = Inr (pw_file ?es)"
    using names by (intro edit_passwords_entries es pass) auto
  obtain r1 r2 r3 r4 r5 r6 r7 where dig: "parse_authorization_header (?h @ rest, length ?h) =
     \<lparr>d_user = (user @ r1, length user), d_uri = (uri @ r2, length uri), d_nonce = (nonce @ r3, length nonce),
      d_cnonce = (cnonce @ r4, length cnonce), d_resp = (resp @ r5, length resp), d_qop = (qop @ r6, length qop),
      d_nc = (nc @ r7, length nc)\<rparr>" (is "_ = ?dig")
    using parse_auth_header [of user realm nonce uri cnonce resp qop nc rest] names fields by (auto simp: header_field_ok_def)
  have "authorize_lines domain (c_method c) ?dig (pw_file ?es) = check_password (c_method c) (?ha1, length ?ha1) ?dig"
    using authorize_pw_file [OF set_password_ok [OF es ok], of ?dig user r1 domain "c_method c"] find_set_password [OF other, of ?ha1]
    by simp
  also have "\<dots> \<longleftrightarrow> resp = expected_response (c_method c) ?ha1 nonce uri qop nc cnonce"
    using fields len by (intro check_password_response) (auto simp: header_field_ok_def token_def ha1_text_def)
  finally have a: "authorize_lines domain (c_method c) ?dig (pw_file ?es) \<longleftrightarrow>
      resp = expected_response (c_method c) ?ha1 nonce uri qop nc cnonce" .
  have "20 < length ?h" "shttpd_strncasecmp (?h @ rest) ''Digest '' 7 = 0"
    by (simp_all add: auth_header_def quoted_def shttpd_strncasecmp_zero cstr_def)
  then have "fst (authorize ctx c (pw_file ?es)) = authorize_lines domain (c_method c) ?dig (pw_file ?es)"
    by (simp add: authorize_def hdr dig opt Let_def)
  with ed a show ?thesis by blast
qed

definition login_conn :: conn where
  "login_conn = (let h = auth_header ''al'' ''rho'' ''7'' ''/x'' ''auth'' ''01'' ''c''
       (expected_response METHOD_GET (ha1_text ''al'' ''rho'' ''pw'') ''7'' ''/x'' ''auth'' ''01'' ''c'')
     in zero_conn\<lparr>c_method := METHOD_GET, c_ch := [H_auth \<mapsto> ([], HDR_STRING h (length h))]\<rparr>)"

theorem password_roundtrip_witness:
  "\<exists>f. shttpd_edit_passwords (Some (pw_file [(''bo'', ''rho'', ''0'')])) True ''rho'' ''al'' ''pw'' = Inr f \<and>
    fst (authorize \<lparr>ctx_registered_uris = [], ctx_error_handlers = [], ctx_acl = [], ctx_options = [OPT_AUTH_REALM \<mapsto> ''rho''],
      ctx_access_log = False\<rparr> login_conn f)"
proof -
  let ?r = "expected_response METHOD_GET (ha1_text ''al'' ''rho'' ''pw'') ''7'' ''/x'' ''auth'' ''01'' ''c''"
  let ?h = "auth_header ''al'' ''rho'' ''7'' ''/x'' ''auth'' ''01'' ''c'' ?r"
  have h: "v_vec (c_ch login_conn) H_auth = (?h @ [], length ?h)" and m: "c_method login_conn = METHOD_GET"
    by (simp_all add: login_conn_def v_vec_def Let_def)
  have e: "\<forall>e \<in> set [(''bo'', ''rho'', ''0'')]. entry_ok e" "name_ok ''al''" "name_ok ''rho''" "unquotable ''al''" "unquotable ''rho''"
    by (simp_all add: entry_ok_def name_ok_def pw_line_def isspace_def)
  have f: "header_field_ok ''7''" "header_field_ok ''/x''" "header_field_ok ''c''" "token ''auth''" "token ''01''" "unquotable ?r"
    using set_bin2str by (auto simp: header_field_ok_def token_def is_blank_def expected_response_def hexmd5_def)
  show ?thesis
    using password_roundtrip [OF e(1,2,3) _ e(4,5) _ _ _ f _ _ _ h, of "''pw''"] m by simp
qed

end
