(* ===== verification/IphoneReply.thy ===== *)
theory IphoneReply
  imports ShttpdRequest
begin

text \<open>
  The HTTP server of the iPhone build (\<open>platform/iphone/Classes/Server\<close>), first part: the request and
  the connection (\<open>HttpContext.h\<close>), and from \<open>HttpMessage.c\<close> the parsing of requests and the replies
  that do not depend on files. Several routines are copies of those of \<open>shttpd.c\<close>, with the same text
  under another name; they are defined through the model of the original.
\<close>

section \<open>Requests and connections\<close>

text \<open>
  A request is all zero when the connection is created. \<open>_uri\<close> and \<open>_query\<close> point into one block, cut
  by a NUL byte at the question mark.
\<close>

record http_request =
  q_parsed :: bool
  q_major_version :: int
  q_minor_version :: int
  q_method :: http_method
  q_uri :: "string option"
  q_query :: "string option"
  q_headers :: "string option"
  q_mime_type :: string
  q_ch :: headers

definition zero_request :: http_request where
  "zero_request =
     \<lparr>q_parsed = False, q_major_version = 0, q_minor_version = 0, q_method = METHOD_GET, q_uri = None,
      q_query = None, q_headers = None, q_mime_type = [], q_ch = no_headers\<rparr>"

text \<open>
  A connection. The streams and the timer are there or not; the two buffers are growable byte arrays
  (\<open>CFMutableData\<close>).
\<close>

record http_context =
  x_retain_count :: "32 word"
  x_timer :: bool
  x_in :: bool
  x_out :: bool
  x_rcvd :: string
  x_send :: string
  x_request :: http_request

definition zero_context :: http_context where
  "zero_context =
     \<lparr>x_retain_count = 0, x_timer = False, x_in = False, x_out = False, x_rcvd = [], x_send = [],
      x_request = zero_request\<rparr>"

definition send_bytes :: "string \<Rightarrow> http_context \<Rightarrow> http_context" where
  "send_bytes bs x = x\<lparr>x_send := x_send x @ bs\<rparr>"

definition upd_request :: "(http_request \<Rightarrow> http_request) \<Rightarrow> http_context \<Rightarrow> http_context" where
  "upd_request f x = x\<lparr>x_request := f (x_request x)\<rparr>"

lemma context_simps [simp]:
  "x_rcvd (send_bytes bs x) = x_rcvd x" "x_request (send_bytes bs x) = x_request x"
  "x_send (send_bytes bs x) = x_send x @ bs"
  "x_rcvd (upd_request f x) = x_rcvd x" "x_send (upd_request f x) = x_send x"
  "x_request (upd_request f x) = f (x_request x)"
  by (simp_all add: send_bytes_def upd_request_def)

text \<open>
  What the server calls and is not C code of the repository: the services of the operating system
  and of Ruby, the root directory of the applications, the clock, the contents of fresh memory, and
  the parts written in Objective-C and C++. \<open>ph_app_manager\<close> reports its result and what it sends.
\<close>

record 'w phone =
  ph_os :: "'w os"
  ph_root :: string
  ph_now :: "'w \<Rightarrow> int"
  ph_fresh :: "'w \<Rightarrow> nat \<Rightarrow> string"
  ph_call_framework :: "'w \<Rightarrow> rhash \<Rightarrow> string option \<times> 'w"
  ph_call_serve_index :: "'w \<Rightarrow> string \<Rightarrow> string option \<times> 'w"
  ph_app_manager :: "'w \<Rightarrow> http_request \<Rightarrow> route \<Rightarrow> int \<times> string \<times> 'w"
  ph_geo_location :: "'w \<Rightarrow> string \<times> 'w"
  ph_sync_all :: "'w \<Rightarrow> 'w"
  ph_map_location :: "'w \<Rightarrow> string \<Rightarrow> 'w"

section \<open>Replies\<close>

text \<open>\<open>HttpSnprintf\<close>: what it leaves in an array of \<open>buflen\<close> bytes; the count returned is its length.\<close>

definition HttpSnprintf :: "nat \<Rightarrow> string \<Rightarrow> string" where
  "HttpSnprintf buflen out =
     (if buflen = 0 then []
      else
        let (n, bs) = vsnprintf False buflen out
        in take (if n < 0 \<or> nat n \<ge> buflen then buflen - 1 else nat n) bs)"

lemma HttpSnprintf_eq: "HttpSnprintf n s = take (n - 1) s"
  by (auto simp: HttpSnprintf_def vsnprintf_def)

definition error_body :: "int \<Rightarrow> string \<Rightarrow> string" where
  "error_body status reason = ''Error: '' @ dec3 status @ '' - '' @ reason @ crlf"

definition error_head :: "int \<Rightarrow> string \<Rightarrow> string" where
  "error_head status reason =
     ''HTTP/1.1 '' @ show_int status @ '' '' @ reason @ crlf @
     ''Content-Type: text/plain'' @ crlf @
     ''Content-Length: '' @ dec (15 + length reason) @ crlf @
     ''Connection: close'' @ crlf @ crlf"

text \<open>\<open>sprintf\<close> writes into a local array of 1024 bytes.\<close>

definition HttpSendErrorToTheServer :: "http_context \<Rightarrow> int \<Rightarrow> string \<Rightarrow> http_context res" where
  "HttpSendErrorToTheServer x status reason =
     (let t = error_head status reason @ error_body status reason
      in if length t < 1024 then Inr (send_bytes t x) else Inl Out_Of_Bounds)"

definition reply_headers :: "string \<Rightarrow> string \<Rightarrow> string \<Rightarrow> nat \<Rightarrow> string" where
  "reply_headers date lm etag cl =
     ''HTTP/1.1 200 OK'' @ crlf @
     ''Date: '' @ date @ crlf @
     ''Last-Modified: '' @ lm @ crlf @
     ''Etag: '' @ [CHR 0x22] @ etag @ [CHR 0x22] @ crlf @
     ''Connection: close'' @ crlf @
     ''Content-Type: text/html'' @ crlf @
     ''Content-Length: '' @ dec cl @ crlf @ crlf"

definition HTTPSendReply :: "'w phone \<Rightarrow> 'w \<Rightarrow> http_context \<Rightarrow> string \<Rightarrow> int \<times> http_context" where
  "HTTPSendReply ph w x body =
     (let cl = length body; now = ph_now ph w;
          date = fmt_buf 64 (os_strftime (ph_os ph) date_fmt now);
          etag = HttpSnprintf 64 (hex (ulong now) @ ''.'' @ hex cl);
          headers = HttpSnprintf 512 (reply_headers date date etag cl)
      in (1, send_bytes body (send_bytes headers x)))"

definition redirect_text :: "string \<Rightarrow> string" where
  "redirect_text location =
     ''HTTP/1.1 301 Moved Permanently'' @ crlf @
     ''Location: '' @ location @ crlf @
     ''Content-Type: text/plain'' @ crlf @
     ''Content-Length: 0'' @ crlf @
     ''Connection: close'' @ crlf @ crlf"

definition HTTPRedirect :: "http_context \<Rightarrow> string \<Rightarrow> int \<times> http_context" where
  "HTTPRedirect x location =
     (1, send_bytes (HttpSnprintf (256 + length location) (redirect_text location)) x)"

section \<open>Copies of shttpd routines\<close>

definition HTTPUrlDecode :: "char list \<Rightarrow> nat \<Rightarrow> nat \<Rightarrow> nat \<Rightarrow> nat \<Rightarrow> (nat \<times> char list) res" where
  "HTTPUrlDecode = shttpd_url_decode"

definition HttpGetHeadersLen :: "char list \<Rightarrow> nat \<Rightarrow> int res" where
  "HttpGetHeadersLen = shttpd_get_headers_len"

definition HTTPParseHeaders :: "(string \<Rightarrow> int) \<Rightarrow> string \<Rightarrow> nat \<Rightarrow> headers \<Rightarrow> headers" where
  "HTTPParseHeaders = shttpd_parse_headers"

definition HttpGetMimeType :: "string \<Rightarrow> nat \<Rightarrow> string" where
  "HttpGetMimeType = builtin_mime"

text \<open>Decoding a C string in its own block, as both callers do.\<close>

definition decode_in_place :: "string \<Rightarrow> string res" where
  "decode_in_place u =
     rbind (HTTPUrlDecode (u @ [NUL]) 0 (length u) 0 (length u + 1)) (\<lambda>(_, m). Inr (cstr m))"

section \<open>Parsing a request\<close>

definition HTTPGetRequestMethod :: "string \<Rightarrow> http_method option" where
  "HTTPGetRequestMethod buf =
     map_option snd (List.find (\<lambda>(name, _). take (length name) buf = name) known_http_methods)"

definition HTTPGetMethod :: "http_method \<Rightarrow> string" where
  "HTTPGetMethod m = method_name m"

definition set_version :: "string \<Rightarrow> http_request \<Rightarrow> http_request" where
  "set_version s q =
     (case fst (sscanf version_format s) of
        [VInt maj] \<Rightarrow> q\<lparr>q_major_version := maj\<rparr>
      | [VInt maj, VInt mnr] \<Rightarrow> q\<lparr>q_major_version := maj, q_minor_version := mnr\<rparr>
      | _ \<Rightarrow> q)"

definition fail_with :: "http_context \<Rightarrow> int \<Rightarrow> string \<Rightarrow> (int \<times> http_context) res" where
  "fail_with x status reason = rbind (HttpSendErrorToTheServer x status reason) (\<lambda>x1. Inr (-1, x1))"

text \<open>
  The request line and the headers, once \<open>req_len\<close> bytes of headers are there. The byte copied behind
  the headers is overwritten by the terminator at once.
\<close>

definition parse_received :: "'w phone \<Rightarrow> 'w \<Rightarrow> nat \<Rightarrow> http_context \<Rightarrow> (int \<times> http_context) res" where
  "parse_received ph w req_len x =
     (let buffer = x_rcvd x;
          p0 = skip_while (\<lambda>ch. ch \<noteq> CHR '' '') buffer req_len 0;
          start = skip_while (\<lambda>ch. ch = CHR '' '') buffer req_len p0;
          p1 = skip_while (\<lambda>ch. \<not> isspace ch) buffer req_len start;
          uri_len = p1 - start
      in if \<not> os_malloc (ph_os ph) w (uri_len + 1)
         then fail_with x 500 (''Internal server error - can'' @ [CHR 0x27] @ ''t allocate uri'')
         else
           let p2 = skip_while (\<lambda>ch. ch = CHR '' '') buffer req_len p1;
               version = cstr (drop p2 buffer);
               x1 = upd_request (\<lambda>q. set_version version (q\<lparr>q_uri := Some (cstr (take uri_len (drop start buffer)))\<rparr>)) x;
               q1 = x_request x1
           in if length (fst (sscanf version_format version)) \<noteq> 2 then fail_with x1 400 ''Bad HTTP version''
              else if q_major_version q1 > 1 \<or> q_major_version q1 = 1 \<and> q_minor_version q1 > 1
              then fail_with x1 505 ''HTTP version not supported''
              else if uri_len = 0 then fail_with x1 400 ''Bad URI''
              else
                let p3 = skip_while (\<lambda>ch. ch \<noteq> CHR 0x0A) buffer req_len p2;
                    p4 = skip_while isspace buffer req_len p3;
                    headers_len = req_len - p4
                in if \<not> os_malloc (ph_os ph) w (headers_len + 2)
                   then fail_with x1 500 (''Internal server error - can'' @ [CHR 0x27] @ ''t allocate headers'')
                   else
                     let hs = take headers_len (drop p4 buffer);
                         ch = HTTPParseHeaders (date_to_epoch (os_mktime (ph_os ph)) (os_isdst (ph_os ph)))
                                hs headers_len (q_ch q1)
                     in Inr (1, (upd_request (\<lambda>q. q\<lparr>q_headers := Some hs, q_ch := ch, q_parsed := True\<rparr>) x1)
                                  \<lparr>x_rcvd := drop req_len buffer\<rparr>))"

definition HTTPParseMessage :: "'w phone \<Rightarrow> 'w \<Rightarrow> http_context \<Rightarrow> (int \<times> http_context) res" where
  "HTTPParseMessage ph w x =
     (let buffer = x_rcvd x; buflen = length buffer
      in rbind (HttpGetHeadersLen buffer buflen) (\<lambda>req_len.
           if req_len = 0
           then if buflen > 2048 then fail_with x 400 ''Request is too big'' else Inr (0, x)
           else if req_len < 16 then fail_with x 400 ''Bad request''
           else case HTTPGetRequestMethod buffer of
                  None \<Rightarrow> fail_with x 501 ''Method Not Implemented''
                | Some mth \<Rightarrow> parse_received ph w (nat req_len) (upd_request (\<lambda>q. q\<lparr>q_method := mth\<rparr>) x)))"

text \<open>\<open>1\<close>: headers and body are there; \<open>0\<close>: wait for more; \<open>-1\<close>: an error reply was made.\<close>

definition HTTPParseRequest :: "'w phone \<Rightarrow> 'w \<Rightarrow> http_context \<Rightarrow> (int \<times> http_context) res" where
  "HTTPParseRequest ph w x =
     rbind (if q_parsed (x_request x) then Inr (1, x) else HTTPParseMessage ph w x) (\<lambda>(ret, x1).
       if ret = 1 \<and> q_parsed (x_request x1)
       then Inr (if v_big_int (q_ch (x_request x1)) H_cl \<le> int (length (x_rcvd x1)) then 1 else 0, x1)
       else Inr (ret, x1))"

section \<open>A sample telephone\<close>

definition sample_phone :: "string phone" where
  "sample_phone =
     \<lparr>ph_os = sample_os, ph_root = ''/apps'', ph_now = (\<lambda>_. 0), ph_fresh = (\<lambda>_ n. replicate n (CHR ''?'')),
      ph_call_framework = (\<lambda>w _. (Some ''OK'', w)), ph_call_serve_index = (\<lambda>w _. (Some ''OK'', w)),
      ph_app_manager = (\<lambda>w _ _. (0, [], w)), ph_geo_location = (\<lambda>w. ([], w)), ph_sync_all = (\<lambda>w. w),
      ph_map_location = (\<lambda>w _. w)\<rparr>"

end
