(* ===== verification/IphoneRequest.thy ===== *)
theory IphoneRequest
  imports IphoneReply
begin

text \<open>
  Parsing requests on the iPhone: a request a client prints is read back, in whatever pieces it arrives;
  error replies are complete.
\<close>

section \<open>Requests round trip\<close>

text \<open>Characters a client may use inside a line.\<close>

definition plain :: "char \<Rightarrow> bool" where
  "plain c \<longleftrightarrow> \<not> ctl_char c \<and> c \<noteq> CHR 0x0A \<and> c \<noteq> CHR 0x0D"

definition request_head :: "http_method \<Rightarrow> string \<Rightarrow> header_line list \<Rightarrow> string" where
  "request_head mth uri ls = method_name mth @ '' '' @ uri @ '' HTTP/1.1'' @ crlf @ header_block ls"

lemma drop_nth:
  assumes "drop s buf = c # r"
  shows "s < length buf" "buf ! s = c" "drop (Suc s) buf = r"
  using assms by (metis drop_all list.distinct(1) not_le_imp_less, metis assms drop_eq_Nil2 hd_drop_conv_nth linorder_not_less list.distinct(1) list.sel(1),
    metis assms drop_Suc list.sel(3) tl_drop)

lemma headers_len_plain:
  assumes "drop s buf = l @ CHR 0x0D # CHR 0x0A # r" and "list_all plain l" and "length buf = n"
  shows "headers_len_loop buf n s = headers_len_loop buf n (s + length l + 1)"
  using assms
proof (induction l arbitrary: s)
  case Nil
  note d = drop_nth [OF Nil(1) [simplified]]
  have "s + 1 < n" using drop_nth(1) [OF d(3)] Nil(3) by simp
  moreover have "\<not> ctl_char (CHR 0x0D)" by (simp add: ctl_char_def)
  ultimately show ?case using d(2) Nil(3) by (subst headers_len_loop_step) (simp_all add: lf_lf_def lf_cr_lf_def)
next
  case (Cons c l)
  note d = drop_nth [OF Cons.prems(1) [simplified]]
  have "s + 1 < n" using d(3) Cons.prems(3) by (cases "Suc s < length buf") auto
  moreover have "\<not> ctl_char c" "c \<noteq> CHR 0x0A" using Cons.prems(2) by (simp_all add: plain_def)
  ultimately have "headers_len_loop buf n s = headers_len_loop buf n (s + 1)"
    using d(2) Cons.prems(3) by (subst headers_len_loop_step) (simp_all add: lf_lf_def lf_cr_lf_def)
  also have "\<dots> = headers_len_loop buf n (s + 1 + length l + 1)"
    using Cons d(3) by (intro Cons.IH) simp_all
  finally show ?case by simp
qed

lemma headers_len_blank:
  assumes "drop s buf = CHR 0x0A # CHR 0x0D # CHR 0x0A # r" and "length buf = n"
  shows "headers_len_loop buf n s = Inr (int s + 3)"
proof -
  note d0 = drop_nth [OF assms(1)]
  note d1 = drop_nth [OF d0(3)]
  note d2 = drop_nth [OF d1(3)]
  show ?thesis
    using d0 d1 d2 assms(2) by (subst headers_len_loop_step) (simp_all add: lf_lf_def lf_cr_lf_def ctl_char_def numeral_2_eq_2)
qed

lemma headers_len_next:
  assumes "drop s buf = CHR 0x0A # c # r" and "plain c" and "length buf = n"
  shows "headers_len_loop buf n s = headers_len_loop buf n (s + 1)"
proof -
  note d0 = drop_nth [OF assms(1)]
  note d1 = drop_nth [OF d0(3)]
  show ?thesis
    using d0 d1 assms(2,3) by (subst headers_len_loop_step) (auto simp: lf_lf_def lf_cr_lf_def ctl_char_def plain_def)
qed

text \<open>Header lines whose values are plain.\<close>

fun plain_line :: "header_line \<Rightarrow> bool" where
  "plain_line (e, v) \<longleftrightarrow> line_ok (e, v) \<and> list_all plain v"

lemma table_plain: "list_all (\<lambda>(hl, ty, h, name). name \<noteq> [] \<and> list_all plain name) http_headers"
  by (simp add: http_headers_def plain_def ctl_char_def isprint_def)

lemma plain_line_text:
  assumes "plain_line l"
  shows "\<exists>c t. line_text l = c # t @ crlf \<and> list_all plain (c # t)"
proof -
  obtain hl ty h name v where l: "l = ((hl, ty, h, name), v)" by (metis prod.exhaust)
  with assms have "name \<noteq> []" "list_all plain name" "list_all plain v"
    using table_plain by (auto simp: list_all_iff)
  then show ?thesis by (cases name) (auto simp: l)
qed

lemma headers_len_lines:
  assumes "drop s buf = CHR 0x0A # header_block ls @ r" and "list_all plain_line ls" and "length buf = n"
  shows "headers_len_loop buf n s = Inr (int s + 1 + int (length (header_block ls)))"
  using assms
proof (induction ls arbitrary: s)
  case Nil
  then show ?case using headers_len_blank [of s buf r n] by (simp add: header_block_def crlf_def)
next
  case (Cons l ls)
  obtain c t where t: "line_text l = c # t @ crlf" "list_all plain (c # t)"
    using plain_line_text [of l] Cons.prems(2) by auto
  let ?s = "s + 1 + length (c # t) + 1"
  have d: "drop s buf = CHR 0x0A # (c # t) @ CHR 0x0D # CHR 0x0A # header_block ls @ r"
    using Cons.prems(1) t(1) by (simp add: header_block_def crlf_def)
  then have d1: "drop (s + 1) buf = (c # t) @ CHR 0x0D # CHR 0x0A # header_block ls @ r"
    using drop_nth(3) by simp
  have "headers_len_loop buf n s = headers_len_loop buf n (s + 1)"
    using headers_len_next [of s buf c] d t(2) Cons.prems(3) by simp
  also have "\<dots> = headers_len_loop buf n ?s" using headers_len_plain [OF d1 t(2) Cons.prems(3)] .
  also have "\<dots> = Inr (int ?s + 1 + int (length (header_block ls)))"
  proof (rule Cons.IH)
    have "drop ?s buf = drop (length (c # t) + 1) (drop (s + 1) buf)" by (simp add: add.commute)
    then show "drop ?s buf = CHR 0x0A # header_block ls @ r" unfolding d1 by simp
  qed (use Cons.prems in simp_all)
  finally show ?case using t(1) by (simp add: header_block_def crlf_def)
qed

lemma plain_method: "list_all plain (method_name mth)"
  by (cases mth) (simp_all add: plain_def ctl_char_def isprint_def)

lemma HttpGetHeadersLen_head:
  assumes "list_all plain uri" and "list_all plain_line ls"
  shows "HttpGetHeadersLen (request_head mth uri ls @ r) (length (request_head mth uri ls @ r)) =
    Inr (int (length (request_head mth uri ls)))"
proof -
  define l where "l = method_name mth @ '' '' @ uri @ '' HTTP/1.1''"
  let ?buf = "request_head mth uri ls @ r"
  have l: "list_all plain l"
    using assms(1) plain_method by (simp add: l_def plain_def ctl_char_def isprint_def)
  have h: "request_head mth uri ls = l @ CHR 0x0D # CHR 0x0A # header_block ls"
    by (simp add: l_def request_head_def crlf_def)
  have b: "drop 0 ?buf = l @ CHR 0x0D # CHR 0x0A # header_block ls @ r" by (simp add: h)
  then have "drop (length l + 1) ?buf = CHR 0x0A # header_block ls @ r" by simp
  then have "headers_len_loop ?buf (length ?buf) (length l + 1) = Inr (int (length l + 1) + 1 + int (length (header_block ls)))"
    by (rule headers_len_lines [OF _ assms(2) refl])
  moreover have "headers_len_loop ?buf (length ?buf) 0 = headers_len_loop ?buf (length ?buf) (0 + length l + 1)"
    by (rule headers_len_plain [OF b l refl])
  ultimately show ?thesis by (simp add: HttpGetHeadersLen_def shttpd_get_headers_len_def h)
qed

lemma HttpGetHeadersLen_prefix:
  assumes "list_all plain uri" and "list_all plain_line ls" and "request_head mth uri ls = p @ q" and "q \<noteq> []"
  shows "HttpGetHeadersLen p (length p) = Inr 0"
proof -
  obtain r where r: "headers_len_loop p (length p) 0 = Inr r" "headers_verdict p (length p) r"
    using headers_len_loop_verdict [of "length p" p 0] by (auto simp: none_before_def)
  have "r = 0"
  proof (rule ccontr)
    assume nz: "r \<noteq> 0"
    have "headers_len_loop (p @ q) (length (p @ q)) 0 = Inr r"
      by (rule headers_len_loop_more [OF _ _ _ _ r(1) nz]) simp_all
    then have "r = int (length (p @ q))"
      using HttpGetHeadersLen_head [OF assms(1,2), of mth "[]"] assms(3)
      by (simp add: HttpGetHeadersLen_def shttpd_get_headers_len_def)
    then show False using r(2) assms(4) nz by (cases q) (auto simp: headers_verdict_def nat_add_distrib)
  qed
  then show ?thesis using r(1) by (simp add: HttpGetHeadersLen_def shttpd_get_headers_len_def)
qed


lemma skip_while_prefix:
  assumes "drop p m = a @ b" and "list_all P a" and "p + length a \<le> e" and "p + length a = e \<or> b = [] \<or> \<not> P (hd b)"
  shows "skip_while P m e p = p + length a"
proof -
  have "take (e - p) (a @ b) = a @ take (e - p - length a) b" using assms(3) by simp
  moreover have "takeWhile P (a @ take (e - p - length a) b) = a"
    using assms(2-4) by (cases b; cases "e - p - length a") (auto simp: list_all_iff takeWhile_tail)
  ultimately show ?thesis by (simp add: skip_while_def assms(1))
qed


lemma version_1_1: "sscanf version_format (''HTTP/1.1'' @ CHR 0x0D # t) = ([VInt 1, VInt 1], Some (CHR 0x0D # t))"
proof -
  have one: "dec (Suc 0) = ''1''" by code_simp
  have "\<not> isdigit (CHR 0x0D)" "\<not> isdigit (CHR ''.'')" by (simp_all add: isdigit_def)
  then have "scan_number (''1.1'' @ CHR 0x0D # t) = (False, ''1'', ''.1'' @ CHR 0x0D # t)"
    and "scan_number (''1'' @ CHR 0x0D # t) = (False, ''1'', CHR 0x0D # t)"
    using scan_number_dec [of "''.1'' @ CHR 0x0D # t" 1] scan_number_dec [of "CHR 0x0D # t" 1] by (simp_all add: one)
  then show ?thesis using ulong_value_dec [of "Suc 0"] by (simp add: version_format_def one)
qed

definition uri_ok :: "string \<Rightarrow> bool" where
  "uri_ok uri \<longleftrightarrow> uri \<noteq> [] \<and> list_all (\<lambda>c. plain c \<and> c \<noteq> CHR '' '') uri"

lemma plain_not_space: "plain c \<Longrightarrow> c \<noteq> CHR '' '' \<Longrightarrow> \<not> isspace c"
  by (auto simp: plain_def ctl_char_def isspace_def isprint_def)

lemma plain_not_NUL: "plain c \<Longrightarrow> c \<noteq> NUL"
  by (auto simp: plain_def ctl_char_def isprint_def)

lemma hd_table_not_space: "list_all (\<lambda>(hl, ty, h, name). \<not> isspace (hd name)) http_headers"
  by (simp add: http_headers_def isspace_def)

lemma skip_blank_lines:
  assumes "list_all plain_line ls" and "drop p m = CHR 0x0A # header_block ls @ b" and "e = p + 1 + length (header_block ls)"
  shows "take (e - skip_while isspace m e p) (drop (skip_while isspace m e p) m) = (if ls = [] then [] else header_block ls)"
proof -
  have sp: "isspace (CHR 0x0A)" "isspace (CHR 0x0D)" by (simp_all add: isspace_def)
  have "skip_while isspace m e p = p + 3" if "ls = []"
    using skip_while_prefix [of p m "[CHR 0x0A, CHR 0x0D, CHR 0x0A]" b isspace e] that assms(2,3) sp
    by (simp add: header_block_def crlf_def)
  moreover have "skip_while isspace m e p = p + 1" if ne: "ls \<noteq> []"
  proof -
    obtain l r where ls: "ls = l # r" using ne by (cases ls) auto
    obtain hl ty h name v where l: "l = ((hl, ty, h, name), v)" by (metis prod.exhaust)
    have "(hl, ty, h, name) \<in> set http_headers" using assms(1) by (simp add: ls l)
    then have "name \<noteq> []" "\<not> isspace (hd name)" using hd_table_not_space table_plain by (auto simp: list_all_iff)
    then have "\<not> isspace (hd (header_block ls @ b))" by (simp add: header_block_def ls l)
    then show ?thesis
      using skip_while_prefix [of p m "[CHR 0x0A]" "header_block ls @ b" isspace e] assms(2,3) sp by simp
  qed
  moreover have "drop (p + 1) m = header_block ls @ b" using drop_nth(3) [OF assms(2)] by simp
  ultimately show ?thesis
    using assms(3) by (auto simp: header_block_def crlf_def)
qed

text \<open>The header text that is kept, and what is read from it.\<close>

definition head_text :: "header_line list \<Rightarrow> string" where
  "head_text ls = (if ls = [] then [] else header_block ls)"

definition head_headers :: "'w phone \<Rightarrow> header_line list \<Rightarrow> headers \<Rightarrow> headers" where
  "head_headers ph ls ch =
     HTTPParseHeaders (date_to_epoch (os_mktime (ph_os ph)) (os_isdst (ph_os ph))) (head_text ls) (length (head_text ls)) ch"

lemma shown_head_headers:
  assumes "list_all plain_line ls"
  shows "shown (head_headers ph ls ch) = shown ch ++ map_of (rev (map line_entry ls))"
proof (cases "ls = []")
  case True
  then show ?thesis
    by (simp add: head_headers_def head_text_def HTTPParseHeaders_def shttpd_parse_headers_def parse_headers_loop.simps)
next
  case False
  have "list_all line_ok ls" using assms by (auto simp: list_all_iff)
  from parse_headers_lines [OF this, of 0 "header_block ls"] False show ?thesis
    by (simp add: head_headers_def head_text_def HTTPParseHeaders_def shttpd_parse_headers_def header_block_def)
qed

definition parsed_request :: "'w phone \<Rightarrow> http_method \<Rightarrow> string \<Rightarrow> header_line list \<Rightarrow> string \<Rightarrow> http_context \<Rightarrow> http_context" where
  "parsed_request ph mth uri ls b x =
     x\<lparr>x_rcvd := b, x_request := (x_request x)\<lparr>q_method := mth, q_uri := Some uri, q_major_version := 1, q_minor_version := 1,
        q_headers := Some (head_text ls), q_ch := head_headers ph ls (q_ch (x_request x)), q_parsed := True\<rparr>\<rparr>"

lemma parse_received_head:
  assumes mem: "\<And>n. os_malloc (ph_os ph) w n" and uri: "uri_ok uri" and ls: "list_all plain_line ls"
    and buf: "x_rcvd x = request_head mth uri ls @ b"
  shows "parse_received ph w (length (request_head mth uri ls)) x = Inr (1, parsed_request ph (q_method (x_request x)) uri ls b x)"
proof -
  define M where "M = method_name mth"
  define V where "V = ''HTTP/1.1''"
  let ?m = "x_rcvd x" and ?e = "length (request_head mth uri ls)" and ?hb = "header_block ls"
  have m: "?m = M @ CHR '' '' # uri @ CHR '' '' # V @ CHR 0x0D # CHR 0x0A # ?hb @ b"
    by (simp add: buf request_head_def crlf_def M_def V_def)
  have e: "?e = length M + length uri + length V + 4 + length ?hb" by (simp add: request_head_def crlf_def M_def V_def)
  have u: "list_all (\<lambda>c. \<not> isspace c) uri" "NUL \<notin> set uri" "uri \<noteq> []" "CHR '' '' \<noteq> hd uri"
    using uri plain_not_space plain_not_NUL by (auto simp: uri_ok_def list_all_iff)
  have M: "list_all (\<lambda>c. c \<noteq> CHR '' '') M" by (cases mth) (simp_all add: M_def)
  have V: "list_all (\<lambda>c. c \<noteq> CHR 0x0A) V" "CHR '' '' \<noteq> hd V" "V \<noteq> []" by (simp_all add: V_def)
  let ?p0 = "length M" and ?p1 = "length M + 1 + length uri" and ?p3 = "length M + 2 + length uri + length V + 1"
  have d: "drop ?p0 ?m = CHR '' '' # uri @ CHR '' '' # V @ CHR 0x0D # CHR 0x0A # ?hb @ b"
    "drop (?p0 + 1) ?m = uri @ CHR '' '' # V @ CHR 0x0D # CHR 0x0A # ?hb @ b"
    "drop ?p1 ?m = CHR '' '' # V @ CHR 0x0D # CHR 0x0A # ?hb @ b"
    "drop (?p1 + 1) ?m = V @ CHR 0x0D # CHR 0x0A # ?hb @ b"
    "drop ?p3 ?m = CHR 0x0A # ?hb @ b" "drop ?e ?m = b"
    by (simp_all add: m e numeral_eq_Suc)
  have k0: "skip_while (\<lambda>ch. ch \<noteq> CHR '' '') ?m ?e 0 = ?p0"
    using skip_while_prefix [of 0 ?m M "CHR '' '' # uri @ CHR '' '' # V @ CHR 0x0D # CHR 0x0A # ?hb @ b" "\<lambda>ch. ch \<noteq> CHR '' ''" ?e] M m e
    by simp
  have k1: "skip_while (\<lambda>ch. ch = CHR '' '') ?m ?e ?p0 = ?p0 + 1"
    using skip_while_prefix [of ?p0 ?m "'' ''" "uri @ CHR '' '' # V @ CHR 0x0D # CHR 0x0A # ?hb @ b" "\<lambda>ch. ch = CHR '' ''" ?e] d(1) e u(3,4)
    by simp
  have k2: "skip_while (\<lambda>ch. \<not> isspace ch) ?m ?e (?p0 + 1) = ?p1"
    using skip_while_prefix [OF d(2), of "\<lambda>ch. \<not> isspace ch" ?e] u(1) e by (simp add: isspace_def)
  have k3: "skip_while (\<lambda>ch. ch = CHR '' '') ?m ?e ?p1 = ?p1 + 1"
    using skip_while_prefix [of ?p1 ?m "'' ''" "V @ CHR 0x0D # CHR 0x0A # ?hb @ b" "\<lambda>ch. ch = CHR '' ''" ?e] d(3) e V(2,3) by simp
  have k4: "skip_while (\<lambda>ch. ch \<noteq> CHR 0x0A) ?m ?e (?p1 + 1) = ?p3"
    using skip_while_prefix [of "?p1 + 1" ?m "V @ [CHR 0x0D]" "CHR 0x0A # ?hb @ b" "\<lambda>ch. ch \<noteq> CHR 0x0A" ?e] d(4) e V(1) by simp
  let ?hs = "head_text ls"
  define p4 where "p4 = skip_while isspace ?m ?e ?p3"
  have hs: "take (?e - p4) (drop p4 ?m) = ?hs"
  proof -
    have ee: "?e = ?p3 + 1 + length ?hb" using e by simp
    show ?thesis unfolding head_text_def p4_def by (rule skip_blank_lines [OF ls d(5) ee])
  qed
  have "?e \<le> length ?m" by (simp add: buf)
  then have lhs: "?e - p4 = length ?hs" unfolding hs [symmetric] by simp
  have ver: "sscanf version_format (cstr (drop (?p1 + 1) ?m)) = ([VInt 1, VInt 1], Some (CHR 0x0D # CHR 0x0A # cstr (?hb @ b)))"
    unfolding d(4) using version_1_1 [of "CHR 0x0A # cstr (?hb @ b)"] by (simp add: V_def cstr_def)
  have ur: "cstr (take (?p1 - (?p0 + 1)) (drop (?p0 + 1) ?m)) = uri" unfolding d(2) using u(2) by simp
  show ?thesis
    unfolding parse_received_def Let_def k0 k1 k2 k3 k4 p4_def [symmetric] hs ur ver set_version_def
    using mem u(3) d(6) by (simp add: lhs parsed_request_def head_headers_def upd_request_def)
qed

text \<open>
  The bytes of a request as they arrive: every piece is appended and parsed, until the request is
  complete or refused.
\<close>

fun receive :: "'w phone \<Rightarrow> 'w \<Rightarrow> string list \<Rightarrow> http_context \<Rightarrow> (int \<times> http_context) res" where
  "receive ph w [] x = Inr (0, x)"
| "receive ph w (c # cs) x =
     rbind (HTTPParseRequest ph w (x\<lparr>x_rcvd := x_rcvd x @ c\<rparr>)) (\<lambda>(r, x1).
       if r = 0 then receive ph w cs x1 else Inr (r, x1))"

lemma method_found: "HTTPGetRequestMethod (request_head mth uri ls @ b) = Some mth"
  by (cases mth) (simp_all add: HTTPGetRequestMethod_def known_http_methods_def request_head_def)

lemma min_head: "uri_ok uri \<Longrightarrow> 16 \<le> length (request_head mth uri ls)"
  by (cases mth; cases uri) (simp_all add: request_head_def header_block_def crlf_def uri_ok_def)

lemma HTTPParseMessage_head:
  assumes "\<And>n. os_malloc (ph_os ph) w n" and "uri_ok uri" and "list_all plain_line ls"
    and "x_rcvd x = request_head mth uri ls @ b"
  shows "HTTPParseMessage ph w x = Inr (1, parsed_request ph mth uri ls b x)"
proof -
  let ?x = "upd_request (\<lambda>q. q\<lparr>q_method := mth\<rparr>) x"
  have "list_all plain uri" using assms(2) by (auto simp: uri_ok_def list_all_iff)
  note len = HttpGetHeadersLen_head [OF this assms(3), of mth b]
  have "parse_received ph w (length (request_head mth uri ls)) ?x = Inr (1, parsed_request ph mth uri ls b x)"
    using parse_received_head [OF assms(1-3), of ?x mth b] assms(4)
    by (simp add: parsed_request_def upd_request_def)
  then show ?thesis
    using len min_head [OF assms(2), of mth ls] by (auto simp: HTTPParseMessage_def assms(4) method_found Let_def)
qed

lemma HTTPParseMessage_prefix:
  assumes "uri_ok uri" and "list_all plain_line ls" and "request_head mth uri ls = x_rcvd x @ q" and "q \<noteq> []"
    and "length (request_head mth uri ls) \<le> 2048"
  shows "HTTPParseMessage ph w x = Inr (0, x)"
proof -
  have "list_all plain uri" using assms(1) by (auto simp: uri_ok_def list_all_iff)
  from HttpGetHeadersLen_prefix [OF this assms(2-4)] show ?thesis
    using assms(3,5) by (simp add: HTTPParseMessage_def)
qed


text \<open>A \<open>Content-Length\<close> is always read as a number.\<close>

definition cl_number :: "headers \<Rightarrow> bool" where
  "cl_number ch \<longleftrightarrow> (case ch H_cl of None \<Rightarrow> True | Some (_, v) \<Rightarrow> \<exists>i\<ge>0. v = HDR_INT i)"

lemma strtoul_nonneg: "0 \<le> strtoul s"
  by (auto simp: strtoul_def ulong_value_def ULONG_MAX_def Let_def split: prod.split)

lemma table_cl: "list_all (\<lambda>(hl, ty, h, name). h = H_cl \<longrightarrow> ty = T_INT) http_headers"
  by (simp add: http_headers_def)

lemma parse_headers_cl: "cl_number parsed \<Longrightarrow> cl_number (parse_headers_loop epoch t len s parsed)"
proof (induction epoch t len s parsed rule: parse_headers_loop.induct)
  case (1 epoch t len s parsed)
  show ?case
  proof (cases "s < len")
    case False
    then show ?thesis using 1(2) by (simp add: parse_headers_loop.simps)
  next
    case True
    let ?p = "s + length (takeWhile (\<lambda>c. c \<noteq> CHR 0x0A) (take (len - s) (drop s t)))"
    let ?parsed = "case known_header t len s of None \<Rightarrow> parsed
      | Some (hl, ty, h, name) \<Rightarrow> parsed(h \<mapsto> (name, header_value epoch t (s + hl) ?p ty))"
    have "cl_number ?parsed"
    proof (cases "known_header t len s")
      case None
      then show ?thesis using 1(2) by simp
    next
      case (Some e)
      obtain hl ty h name where e: "e = (hl, ty, h, name)" by (metis prod.exhaust)
      have "e \<in> set http_headers" using Some unfolding known_header_def find_Some_iff by (metis nth_mem)
      then have "h = H_cl \<longrightarrow> ty = T_INT" using table_cl by (auto simp: e list_all_iff)
      then show ?thesis using 1(2) Some by (auto simp: e cl_number_def header_value_def strtoul_nonneg)
    qed
    from 1(1) [OF True refl refl this] True show ?thesis by (subst parse_headers_loop.simps) (simp add: Let_def)
  qed
qed

lemma dec_inject: "dec m = dec n \<Longrightarrow> m = n"
  by (metis digits_value_dec)

definition announces :: "header_line list \<Rightarrow> nat \<Rightarrow> bool" where
  "announces ls n \<longleftrightarrow>
     (case map_of (rev (map line_entry ls)) H_cl of None \<Rightarrow> n = 0 | Some (_, v) \<Rightarrow> v = dec n)"

lemma announced_length:
  assumes "list_all plain_line ls" and "announces ls n"
  shows "v_big_int (head_headers ph ls no_headers) H_cl = int n"
proof -
  let ?ch = "head_headers ph ls no_headers"
  have num: "cl_number ?ch"
    unfolding head_headers_def HTTPParseHeaders_def shttpd_parse_headers_def
    by (rule parse_headers_cl) (simp add: cl_number_def no_headers_def)
  have "shown ?ch = map_of (rev (map line_entry ls))"
    using shown_head_headers [OF assms(1), of ph no_headers] by (simp add: shown_no_headers)
  then have "case shown ?ch H_cl of None \<Rightarrow> n = 0 | Some (_, v) \<Rightarrow> v = dec n" using assms(2) by (simp add: announces_def)
  with num show ?thesis
    by (auto simp: shown_def cl_number_def v_big_int_def dest!: dec_inject split: option.splits)
qed

text \<open>What the connection holds when the bytes \<open>p\<close> of a request have arrived.\<close>

definition received :: "'w phone \<Rightarrow> http_method \<Rightarrow> string \<Rightarrow> header_line list \<Rightarrow> http_context \<Rightarrow> string \<Rightarrow> http_context" where
  "received ph mth uri ls x p =
     (let h = request_head mth uri ls
      in if length p < length h then x\<lparr>x_rcvd := p\<rparr> else parsed_request ph mth uri ls (drop (length h) p) x)"

lemma HTTPParseRequest_piece:
  assumes mem: "\<And>n. os_malloc (ph_os ph) w n" and uri: "uri_ok uri" and ls: "list_all plain_line ls"
    and small: "length (request_head mth uri ls) \<le> 2048" and x: "x_request x = zero_request"
    and cl: "announces ls (length body)" and txt_eq: "p @ c @ q = request_head mth uri ls @ body"
  shows "let y = received ph mth uri ls x p in
    HTTPParseRequest ph w (y\<lparr>x_rcvd := x_rcvd y @ c\<rparr>) =
      Inr (if q = [] then 1 else 0, received ph mth uri ls x (p @ c))"
proof -
  let ?h = "request_head mth uri ls"
  have np: "\<not> q_parsed zero_request" "q_ch zero_request = no_headers" by (simp_all add: zero_request_def)
  have body: "HTTPParseRequest ph w (parsed_request ph mth uri ls b x) =
      Inr (if q = [] then 1 else 0, parsed_request ph mth uri ls b x)" if b: "b @ q = body" for b
  proof -
    have "v_big_int (q_ch (x_request (parsed_request ph mth uri ls b x))) H_cl = int (length (b @ q))"
      using announced_length [OF ls cl, of ph] x np b by (simp add: parsed_request_def)
    then show ?thesis by (simp add: HTTPParseRequest_def parsed_request_def)
  qed
  have msg: "HTTPParseRequest ph w (x\<lparr>x_rcvd := ?h @ b\<rparr>) = HTTPParseRequest ph w (parsed_request ph mth uri ls b x)" for b
    using HTTPParseMessage_head [OF mem uri ls, of "x\<lparr>x_rcvd := ?h @ b\<rparr>" mth b] x np
    by (simp add: HTTPParseRequest_def parsed_request_def)
  consider (short) "length (p @ c) < length ?h" | (full) "length p < length ?h" "length ?h \<le> length (p @ c)"
    | (rest) "length ?h \<le> length p" by linarith
  then show ?thesis
  proof cases
    case short
    obtain q' where q: "?h = (p @ c) @ q'" "q = q' @ body"
      using txt_eq short by (metis append_assoc append_eq_append_conv_if append_eq_conv_conj less_imp_le_nat)
    then have "q' \<noteq> []" using short by auto
    then show ?thesis
      using HTTPParseMessage_prefix [OF uri ls, of mth "x\<lparr>x_rcvd := p @ c\<rparr>" q' ph w] q small x np short
      by (simp add: received_def HTTPParseRequest_def)
  next
    case full
    obtain b where b: "p @ c = ?h @ b" "b @ q = body"
      using txt_eq full(2) by (metis append_assoc append_eq_append_conv_if append_eq_conv_conj)
    show ?thesis using full body [OF b(2)] msg [of b] b(1) by (simp add: received_def Let_def)
  next
    case rest
    obtain b where b: "p = ?h @ b" "b @ c @ q = body"
      using txt_eq rest by (metis append_assoc append_eq_append_conv_if append_eq_conv_conj)
    have "(parsed_request ph mth uri ls b x)\<lparr>x_rcvd := b @ c\<rparr> = parsed_request ph mth uri ls (b @ c) x"
      and "x_rcvd (parsed_request ph mth uri ls b x) = b" by (simp_all add: parsed_request_def)
    then show ?thesis using rest body [of "b @ c"] b by (simp add: received_def Let_def)
  qed
qed

lemma receive_pieces:
  assumes "\<And>n. os_malloc (ph_os ph) w n" and "uri_ok uri" and "list_all plain_line ls"
    and "length (request_head mth uri ls) \<le> 2048" and "x_request x = zero_request" and "announces ls (length body)"
  shows "p @ concat cs = request_head mth uri ls @ body \<Longrightarrow> concat cs \<noteq> [] \<Longrightarrow>
    receive ph w cs (received ph mth uri ls x p) = Inr (1, parsed_request ph mth uri ls body x)"
proof (induction cs arbitrary: p)
  case (Cons c cs)
  have step: "HTTPParseRequest ph w ((received ph mth uri ls x p)\<lparr>x_rcvd := x_rcvd (received ph mth uri ls x p) @ c\<rparr>) =
      Inr (if concat cs = [] then 1 else 0, received ph mth uri ls x (p @ c))"
    using HTTPParseRequest_piece [OF assms, of p c "concat cs"] Cons.prems(1) by (simp add: Let_def)
  show ?case
  proof (cases "concat cs = []")
    case True
    then have "p @ c = request_head mth uri ls @ body" using Cons.prems(1) by (simp del: concat_eq_Nil_conv)
    then show ?thesis using step True by (simp add: received_def)
  next
    case False
    then show ?thesis using step Cons.IH [of "p @ c"] Cons.prems(1) by (simp del: concat_eq_Nil_conv)
  qed
qed simp

text \<open>
  C4. A request round trips, however the network cuts it into pieces: method, URI, header lines and body
  sent as a client writes them - the head in at most 2048 bytes, the body as long as \<open>Content-Length\<close>
  says - are exactly what the server has when it starts to work on the request, and it starts with the
  piece that completes the body.
\<close>

theorem request_roundtrip:
  assumes "\<forall>n. os_malloc (ph_os ph) w n" and "uri_ok uri" and "list_all plain_line ls"
    and "length (request_head mth uri ls) \<le> 2048" and "announces ls (length body)"
    and "x_rcvd x = []" and "x_request x = zero_request"
    and "concat pieces = request_head mth uri ls @ body"
  shows "\<exists>x'. receive ph w pieces x = Inr (1, x') \<and> x_rcvd x' = body \<and> q_method (x_request x') = mth \<and>
    q_uri (x_request x') = Some uri \<and> shown (q_ch (x_request x')) = map_of (rev (map line_entry ls))"
proof -
  have ne: "request_head mth uri ls \<noteq> []" using min_head [OF assms(2), of mth ls] by auto
  then have "received ph mth uri ls x [] = x" using assms(6) by (simp add: received_def)
  then have "receive ph w pieces x = Inr (1, parsed_request ph mth uri ls body x)"
    using receive_pieces [OF assms(1) [rule_format] assms(2-4,7,5), of "[]" pieces] assms(8) ne by simp
  then show ?thesis
    using shown_head_headers [OF assms(3), of ph no_headers] assms(7)
    by (simp add: parsed_request_def zero_request_def shown_no_headers)
qed


theorem request_roundtrip_witness:
  "\<exists>x'. receive sample_phone [] [''POST /a HTTP/'', ''1.1'' @ crlf @ ''Content-Le'', ''ngth: 2'' @ crlf @ crlf @ ''h'', ''i''] zero_context = Inr (1, x')
     \<and> x_rcvd x' = ''hi'' \<and> q_method (x_request x') = METHOD_POST \<and> q_uri (x_request x') = Some ''/a''"
proof -
  let ?ls = "[((16, T_INT, H_cl, ''Content-Length: ''), ''2'')]"
  let ?pieces = "[''POST /a HTTP/'', ''1.1'' @ crlf @ ''Content-Le'', ''ngth: 2'' @ crlf @ crlf @ ''h'', ''i'']"
  have two: "dec 2 = ''2''" by code_simp
  then have "\<exists>n<4294967296. ''2'' = dec n" by (intro exI [of _ 2]) simp
  then have "list_all plain_line ?ls" by (simp add: http_headers_def plain_def ctl_char_def isprint_def)
  moreover have "uri_ok ''/a''" by (simp add: uri_ok_def plain_def ctl_char_def isprint_def)
  moreover have "concat ?pieces = request_head METHOD_POST ''/a'' ?ls @ ''hi''"
    by (simp add: request_head_def header_block_def crlf_def)
  moreover have "announces ?ls (length ''hi'')"
    using two by (simp add: announces_def line_entry_def numeral_2_eq_2)
  moreover have "length (request_head METHOD_POST ''/a'' ?ls) \<le> 2048" by (simp add: request_head_def header_block_def crlf_def)
  moreover have "\<forall>n. os_malloc (ph_os sample_phone) [] n" by (simp add: sample_phone_def sample_os_def)
  ultimately show ?thesis
    using request_roundtrip [of sample_phone "[]" "''/a''" ?ls METHOD_POST "''hi''" zero_context ?pieces]
    by (auto simp: zero_context_def)
qed

text \<open>
  Every error reply for a three-digit status announces exactly the length of the body that follows
  it; with a reason of up to 400 characters it also fits the array it is printed into.
\<close>

lemma error_reply_complete:
  assumes "100 \<le> status" and "status \<le> 999" and "length reason \<le> 400"
  shows "\<exists>h b. HttpSendErrorToTheServer x status reason = Inr (send_bytes (h @ b) x) \<and>
    h = ''HTTP/1.1 '' @ show_int status @ '' '' @ reason @ crlf @ ''Content-Type: text/plain'' @ crlf @
        ''Content-Length: '' @ dec (length b) @ crlf @ ''Connection: close'' @ crlf @ crlf"
proof -
  have s: "length (show_int status) = 3"
  proof -
    define n where "n = nat status"
    have n: "100 \<le> n" "n < 1000" using assms(1,2) by (simp_all add: n_def)
    then have "\<not> n < 10" "\<not> n div 10 < 10" "n div 10 div 10 < 10"
      by (simp_all add: div_less_iff_less_mult)
    then have "length (dec n) = 3"
      by (simp add: dec.simps [of n] dec.simps [of "n div 10"] dec.simps [of "n div 10 div 10"])
    then show ?thesis using assms(1) by (simp add: show_int_def n_def)
  qed
  then have b: "length (error_body status reason) = 15 + length reason"
    by (simp add: error_body_def dec3_def crlf_def)
  have d: "length (dec (15 + length reason)) \<le> 3"
  proof -
    have "length (dec n) \<le> 3" if "n < 1000" for n
    proof -
      have "n div 10 div 10 < 10" using that by (simp add: div_less_iff_less_mult)
      then show ?thesis by (simp add: dec.simps [of n] dec.simps [of "n div 10"] dec.simps [of "n div 10 div 10"])
    qed
    then show ?thesis using assms(3) by simp
  qed
  have "length (error_head status reason @ error_body status reason) < 1024"
    using s b d assms(3) by (simp add: error_head_def crlf_def)
  then have "HttpSendErrorToTheServer x status reason = Inr (send_bytes (error_head status reason @ error_body status reason) x)"
    by (simp add: HttpSendErrorToTheServer_def)
  then show ?thesis using b by (intro exI [of _ "error_head status reason"] exI [of _ "error_body status reason"]) (simp add: error_head_def)
qed

lemma error_reply_complete_witness:
  "\<exists>h b. HttpSendErrorToTheServer zero_context 404 ''Not Found'' = Inr (send_bytes (h @ b) zero_context) \<and>
     h = ''HTTP/1.1 '' @ show_int 404 @ '' Not Found'' @ crlf @ ''Content-Type: text/plain'' @ crlf @
        ''Content-Length: '' @ dec (length b) @ crlf @ ''Connection: close'' @ crlf @ crlf"
  using error_reply_complete [of 404 "''Not Found''" zero_context] by simp

end
