(* ===== verification/IphoneDispatcher.thy ===== *)
theory IphoneDispatcher
  imports IphoneReply
begin

text \<open>
  The dispatcher of the iPhone build (\<open>platform/iphone/Classes/Dispatcher/Dispatcher.c\<close>): routes, the
  hash handed to Ruby, the built-in services under \<open>/system\<close>. \<open>trim\<close>, \<open>_isid\<close> and \<open>_tok\<close> have the text
  of \<open>rdispatcher.c\<close> and are taken from its model.
\<close>

definition GetRoute :: "string \<Rightarrow> bool \<times> route" where
  "GetRoute url =
     (let zero = \<lparr>r_url = url, r_application = [], r_model = None, r_id = None, r_action = None\<rparr>;
          (app, model) = tok (Some (route_path url));
          route1 = zero\<lparr>r_application := the app, r_model := model\<rparr>
      in if model = None then (False, route1)
         else
           let (model', actionorid) = tok model;
               route2 = route1\<lparr>r_model := model'\<rparr>
           in if actionorid = None then (True, route2)
              else
                let (actionorid', next) = tok actionorid;
                    (next', _) = tok next
                in (True, if isid actionorid' then route2\<lparr>r_id := actionorid', r_action := next'\<rparr>
                          else route2\<lparr>r_id := next', r_action := actionorid'\<rparr>))"

definition CreateRequestHash :: "http_context \<Rightarrow> route \<Rightarrow> rhash res" where
  "CreateRequestHash x route =
     (let q = x_request x
      in case (r_model route, q_uri q) of
           (Some model, Some uri) \<Rightarrow>
             rbind (headers_hash (q_ch q) all_hdrs) (\<lambda>hh.
               Inr ([(''application'', Rh_Str (r_application route)), (''model'', Rh_Str model)]
                    @ opt_entry ''action'' (r_action route) @ opt_entry ''id'' (r_id route)
                    @ [(''request-method'', Rh_Str (HTTPGetMethod (q_method q))),
                       (''request-uri'', Rh_Str uri),
                       (''request-query'', Rh_Str (case q_query q of None \<Rightarrow> [] | Some s \<Rightarrow> s)),
                       (''headers'', Rh_Hash hh)]
                    @ (if x_rcvd x \<noteq> [] then [(''request-body'', Rh_Str (x_rcvd x))] else [])))
         | _ \<Rightarrow> Inl Null_Deref)"

text \<open>The answer of Ruby is sent up to its first NUL byte.\<close>

definition send_answer :: "string option \<Rightarrow> http_context \<Rightarrow> int \<times> http_context" where
  "send_answer ans x = (case ans of Some s \<Rightarrow> (1, send_bytes (cstr s) x) | None \<Rightarrow> (0, x))"

definition CallApplication :: "'w phone \<Rightarrow> route \<Rightarrow> http_context \<Rightarrow> 'w \<Rightarrow> (int \<times> http_context \<times> 'w) res" where
  "CallApplication ph route x w =
     rbind (CreateRequestHash x route) (\<lambda>req.
       let (ans, w1) = ph_call_framework ph w req; (r, x1) = send_answer ans x
       in Inr (r, x1, w1))"

definition ServeIndex :: "'w phone \<Rightarrow> string \<Rightarrow> http_context \<Rightarrow> 'w \<Rightarrow> int \<times> http_context \<times> 'w" where
  "ServeIndex ph index_name x w =
     (let (ans, w1) = ph_call_serve_index ph w index_name; (r, x1) = send_answer ans x
      in (r, x1, w1))"

text \<open>
  The services under \<open>/system\<close>, for GET. A redirection decodes its target in place, in the query of
  the request.
\<close>

definition redirect_to :: "http_context \<Rightarrow> (int \<times> http_context) res" where
  "redirect_to x =
     (case q_query (x_request x) of
        Some qy \<Rightarrow>
          if take 4 qy = ''url=''
          then rbind (decode_in_place (drop 4 qy)) (\<lambda>location.
                 Inr (HTTPRedirect (upd_request (\<lambda>q. q\<lparr>q_query := Some (''url='' @ location)\<rparr>) x) location))
          else Inr (HTTPRedirect x ''/app/'')
      | None \<Rightarrow> Inr (HTTPRedirect x ''/app/''))"

definition execute_system :: "'w phone \<Rightarrow> route \<Rightarrow> http_context \<Rightarrow> 'w \<Rightarrow> (int \<times> http_context \<times> 'w) res" where
  "execute_system ph route x w =
     (if q_method (x_request x) = METHOD_GET
      then if r_model route = Some ''geolocation''
           then let (loc, w1) = ph_geo_location ph w; (r, x1) = HTTPSendReply ph w1 x loc in Inr (r, x1, w1)
           else if r_model route = Some ''syncdb''
           then let w1 = ph_sync_all ph w; (r, x1) = HTTPSendReply ph w1 x ''OK'' in Inr (r, x1, w1)
           else if r_model route = Some ''redirect_to''
           then rbind (redirect_to x) (\<lambda>(r, x1). Inr (r, x1, w))
           else if r_model route = Some ''map''
           then let w1 = ph_map_location ph w (case q_query (x_request x) of None \<Rightarrow> [] | Some s \<Rightarrow> s);
                    (r, x1) = HTTPSendReply ph w1 x []
                in Inr (r, x1, w1)
           else Inr (0, x, w)
      else Inr (0, x, w))"

definition ExecuteApp :: "'w phone \<Rightarrow> route \<Rightarrow> http_context \<Rightarrow> 'w \<Rightarrow> (int \<times> http_context \<times> 'w) res" where
  "ExecuteApp ph route x w =
     (if r_application route = ''AppManager''
      then let (r, out, w1) = ph_app_manager ph w (x_request x) route in Inr (r, send_bytes out x, w1)
      else if r_application route = ''system'' then execute_system ph route x w
      else if r_application route = ''shared'' then Inr (0, x, w)
      else CallApplication ph route x w)"

definition Dispatch :: "'w phone \<Rightarrow> http_context \<Rightarrow> 'w \<Rightarrow> (int \<times> http_context \<times> 'w) res" where
  "Dispatch ph x w =
     (case q_uri (x_request x) of
        None \<Rightarrow> Inl Null_Deref
      | Some uri \<Rightarrow>
          if os_malloc (ph_os ph) w (length uri + 1)
          then let (ok, route) = GetRoute uri in if ok then ExecuteApp ph route x w else Inr (0, x, w)
          else Inl Null_Deref)"

end
