(* ===== verification/IphoneMessage.thy ===== *)
theory IphoneMessage
  imports IphoneDispatcher
begin

text \<open>
  Serving files and deciding what to do with a request (\<open>HttpMessage.c\<close> of the iPhone build).
\<close>

section \<open>Files and directories\<close>

definition PHONE_URI_MAX :: nat where "PHONE_URI_MAX = 16384"

definition PHONE_FILENAME_MAX :: nat where "PHONE_FILENAME_MAX = 1024"

definition slash_after :: "string \<Rightarrow> string res" where
  "slash_after s = rbind (last_char s) (\<lambda>c. Inr (if c = CHR ''/'' then [] else ''/''))"

definition listing_head :: "string \<Rightarrow> string" where
  "listing_head uri =
     ''<html><head><title>Index of '' @ uri @ ''</title>'' @
     ''<style>th {text-align: left;} * {font-size: 30px; font-weight: bold;}</style></head>'' @
     ''<body><h1>Index of '' @ uri @ ''</h1><pre><table cellpadding='' @ [CHR 0x22] @ ''0'' @ [CHR 0x22] @ ''>'' @
     ''<tr><th>Name</th><th>Modified</th><th>Size</th></tr>'' @
     ''<tr><td colspan='' @ [CHR 0x22] @ ''3'' @ [CHR 0x22] @ ''><hr></td></tr>''"

definition listing_footer :: string where
  "listing_footer = ''</table></body></html>'' @ [CHR 0x0A]"

definition listing_size :: "'w os \<Rightarrow> stat \<Rightarrow> string" where
  "listing_size os st =
     HttpSnprintf 64
       (if st_isdir st then ''&lt;DIR&gt;''
        else if st_size st < 1024 then dec (st_size st)
        else if st_size st < 1024 * 1024 then dec (st_size st div 1024 + 1) @ ''k''
        else os_show_mb os (st_size st))"

definition listing_line :: "'w os \<Rightarrow> string \<Rightarrow> string \<Rightarrow> string \<Rightarrow> stat \<Rightarrow> string" where
  "listing_line os uri slash name st =
     HttpSnprintf (PHONE_FILENAME_MAX + 512)
       (''<tr><td><a href='' @ [CHR 0x22] @ uri @ slash @ name @ [CHR 0x22] @ ''>'' @ name @
        (if st_isdir st then ''/'' else []) @ ''</a></td>'' @
        ''<td>&nbsp;'' @ fmt_buf 64 (os_strftime os ''%d-%b-%Y %H:%M'' (st_mtime st)) @
        ''</td><td>&nbsp;&nbsp;'' @ listing_size os st @ ''</td></tr>'' @ [CHR 0x0A])"

text \<open>
  The lines of a listing. The result of \<open>stat\<close> is not checked: when it fails, the line shows what the
  structure held before, which for the first entry is nothing that was ever stored.
\<close>

fun listing_lines ::
  "'w os \<Rightarrow> 'w \<Rightarrow> string \<Rightarrow> string \<Rightarrow> string \<Rightarrow> stat option \<Rightarrow> string list \<Rightarrow> string res" where
  "listing_lines os w uri slash dir st [] = Inr []"
| "listing_lines os w uri slash dir st (name # names) =
     (if name = ''.'' then listing_lines os w uri slash dir st names
      else
        let st1 = (case os_stat os w (HttpSnprintf PHONE_FILENAME_MAX (dir @ name)) of Some s \<Rightarrow> Some s | None \<Rightarrow> st)
        in case st1 of
             None \<Rightarrow> Inl Uninitialised_Read
           | Some s \<Rightarrow>
               rbind (listing_lines os w uri slash dir st1 names) (\<lambda>ls. Inr (listing_line os uri slash name s @ ls)))"

definition listing_headers :: "nat \<Rightarrow> string" where
  "listing_headers n =
     ''HTTP/1.1 200 OK'' @ crlf @ ''Content-Length: '' @ dec n @ crlf @ ''Connection: close'' @ crlf @
     ''Content-Type: text/html; charset=utf-8'' @ crlf @ crlf"

definition HTTPServeDirectoryListing :: "'w phone \<Rightarrow> string \<Rightarrow> http_context \<Rightarrow> 'w \<Rightarrow> (int \<times> http_context) res" where
  "HTTPServeDirectoryListing ph dir x w =
     (case q_uri (x_request x) of
        None \<Rightarrow> Inl Null_Deref
      | Some uri \<Rightarrow>
          rbind (slash_after dir) (\<lambda>slash.
            case os_opendir (ph_os ph) w dir of
              None \<Rightarrow> fail_with x 500 ''Cannot open directory''
            | Some names \<Rightarrow>
                rbind (listing_lines (ph_os ph) w uri slash dir None names) (\<lambda>ls.
                  let body = HttpSnprintf (PHONE_FILENAME_MAX + 512) (listing_head uri) @ ls @ listing_footer
                  in Inr (0, send_bytes body (send_bytes (HttpSnprintf (PHONE_FILENAME_MAX + 512) (listing_headers (length body))) x)))))"

text \<open>
  A file is read into a fresh block of as many bytes as the reply announces; all of the block is sent,
  however many bytes were read. A block that cannot be allocated makes \<open>read\<close> fail. The length is converted to
  \<open>CFIndex\<close> when it is sent, which changes nothing below 2 GB.
\<close>

definition file_reply_headers :: "'w phone \<Rightarrow> 'w \<Rightarrow> int \<Rightarrow> string \<Rightarrow> stat \<Rightarrow> string \<Rightarrow> nat \<Rightarrow> string \<Rightarrow> string" where
  "file_reply_headers ph w status msg st mime cl rg =
     ''HTTP/1.1 '' @ show_int status @ '' '' @ msg @ crlf @
     ''Date: '' @ fmt_buf 64 (os_strftime (ph_os ph) date_fmt (ph_now ph w)) @ crlf @
     ''Last-Modified: '' @ fmt_buf 64 (os_strftime (ph_os ph) date_fmt (st_mtime st)) @ crlf @
     ''Etag: '' @ [CHR 0x22] @ HttpSnprintf 64 (hex (ulong (st_mtime st)) @ ''.'' @ hex (ulong (int (st_size st)))) @
     [CHR 0x22] @ crlf @
     ''Connection: close'' @ crlf @
     ''Content-Type: '' @ mime @ crlf @
     ''Content-Length: '' @ dec cl @ crlf @
     ''Cache-Control: max-age=2592000'' @ crlf @
     ''Accept-Ranges: bytes'' @ crlf @ rg @ crlf"

definition HTTPServeFile :: "'w phone \<Rightarrow> stat \<Rightarrow> string \<Rightarrow> http_context \<Rightarrow> 'w \<Rightarrow> (int \<times> http_context \<times> 'w) res" where
  "HTTPServeFile ph st path x w =
     (let os = ph_os ph; ch = q_ch (x_request x); (fd, w1) = os_open_read os w path
      in if fd = -1
         then rbind (fail_with x 500 (''Internal Server Error - Can'' @ [CHR 0x27] @ ''t open requested file'')) (\<lambda>(r, x1). Inr (r, x1, w1))
         else if range_eof ch then Inl Uninitialised_Read
         else
           let (status, msg, start, cl, rg) = file_range ch (st_size st);
               w2 = (case start of None \<Rightarrow> w1 | Some r1 \<Rightarrow> os_lseek os w1 fd r1);
               (got, w3) = (if os_malloc os w2 cl then os_read os w2 fd cl else (Io_Error, w2));
               bytes = (case got of Moved bs \<Rightarrow> bs | _ \<Rightarrow> [])
           in if bytes \<noteq> []
              then
                let mime = HttpGetMimeType path (length path);
                    headers = HttpSnprintf 512 (file_reply_headers ph w3 status msg st mime cl rg);
                    block = bytes @ drop (length bytes) (ph_fresh ph w2 cl)
                in Inr (1, send_bytes block (send_bytes headers (upd_request (\<lambda>q. q\<lparr>q_mime_type := mime\<rparr>) x)), os_close os w3 fd)
              else rbind (fail_with x 500 (''Internal Server Error - Can'' @ [CHR 0x27] @ ''t read requested file'')) (\<lambda>(r, x1).
                     Inr (r, x1, os_close os w3 fd)))"

section \<open>Index files\<close>

definition indexfile :: "string list" where
  "indexfile = [''controller.iseq'', ''index_erb.iseq'', ''index.html'', ''index.htm'']"

text \<open>The first index file that exists in a directory, with its position in the list.\<close>

definition first_index :: "'w os \<Rightarrow> 'w \<Rightarrow> string \<Rightarrow> string \<Rightarrow> nat option" where
  "first_index os w path slash =
     List.find (\<lambda>i. is_file os w (HttpSnprintf PHONE_FILENAME_MAX (path @ slash @ indexfile ! i))) [0..<4]"

definition HTTPGetIndexFile :: "'w phone \<Rightarrow> string \<Rightarrow> http_context \<Rightarrow> 'w \<Rightarrow> (int \<times> http_context) res" where
  "HTTPGetIndexFile ph path x w =
     rbind (slash_after path) (\<lambda>slash.
       case first_index (ph_os ph) w path slash of
         None \<Rightarrow> Inr (0, x)
       | Some i \<Rightarrow>
           if i = 0 then Inr (-2, x)
           else case q_uri (x_request x) of
                  None \<Rightarrow> Inl Null_Deref
                | Some uri \<Rightarrow>
                    rbind (slash_after uri) (\<lambda>us.
                      Inr (HTTPRedirect x (HttpSnprintf PHONE_URI_MAX
                             (uri @ us @ indexfile ! i @ (case q_query (x_request x) of Some qy \<Rightarrow> ''?'' @ qy | None \<Rightarrow> []))))))"

definition phone_isindex :: "string \<Rightarrow> bool" where
  "phone_isindex path =
     list_ex (\<lambda>f. length f \<le> length path \<and> drop (length path - length f) path = f) (tl indexfile)"

definition HTTPGetFile :: "'w phone \<Rightarrow> string \<Rightarrow> http_context \<Rightarrow> 'w \<Rightarrow> (int \<times> http_context \<times> 'w) res" where
  "HTTPGetFile ph path x w =
     (case os_stat (ph_os ph) w path of
        None \<Rightarrow> Inr (0, x, w)
      | Some st \<Rightarrow>
          if st_isdir st
          then rbind (HTTPGetIndexFile ph path x w) (\<lambda>(ret, x1).
                 if ret = 0
                 then rbind (HTTPServeDirectoryListing ph path x1 w) (\<lambda>(r, x2). Inr (r, x2, w))
                 else Inr (if ret = -2 then 0 else ret, x1, w))
          else if phone_isindex path then Inr (ServeIndex ph path x w)
          else HTTPServeFile ph st path x w)"

section \<open>Resolving URLs\<close>

definition HTTPResolveIndex :: "'w os \<Rightarrow> 'w \<Rightarrow> string \<Rightarrow> string \<Rightarrow> string res" where
  "HTTPResolveIndex os w url path =
     rbind (slash_after path) (\<lambda>slash.
       case first_index os w path slash of
         None \<Rightarrow> Inr url
       | Some i \<Rightarrow>
           if i = 0 then Inr url
           else rbind (slash_after url) (\<lambda>us.
                  if os_malloc os w (length url + length us + length (indexfile ! i) + 1)
                  then Inr (HttpSnprintf (length url + length us + length (indexfile ! i) + 1) (url @ us @ indexfile ! i))
                  else Inl Null_Deref))"

definition HTTPResolveUrl :: "'w phone \<Rightarrow> 'w \<Rightarrow> string \<Rightarrow> string res" where
  "HTTPResolveUrl ph w url =
     (case strstr url ''http://'' of
        Some full_path \<Rightarrow> Inr full_path
      | None \<Rightarrow>
          rbind
            (if length url + length (ph_root ph) \<ge> PHONE_URI_MAX then Inr url
             else
               let path = HttpSnprintf PHONE_URI_MAX (ph_root ph @ url)
               in case os_stat (ph_os ph) w path of
                    None \<Rightarrow> Inr url
                  | Some st \<Rightarrow> if st_isdir st then HTTPResolveIndex (ph_os ph) w url path else Inr url)
            (\<lambda>tmp_url.
               if os_malloc (ph_os ph) w (length localhost + length tmp_url + 1)
               then Inr (HttpSnprintf (length localhost + length tmp_url + 1) (localhost @ tmp_url))
               else Inl Null_Deref))"

section \<open>A complete request\<close>

definition phone_path :: "'w phone \<Rightarrow> string \<Rightarrow> string" where
  "phone_path ph uri = HttpSnprintf PHONE_URI_MAX (ph_root ph @ uri)"

definition HTTPProcessMessage :: "'w phone \<Rightarrow> http_context \<Rightarrow> 'w \<Rightarrow> (int \<times> http_context \<times> 'w) res" where
  "HTTPProcessMessage ph x w =
     (case q_uri (x_request x) of
        None \<Rightarrow> Inl Null_Deref
      | Some uri0 \<Rightarrow>
          let (u, qy) = split_query uri0
          in rbind (decode_in_place u) (\<lambda>uri.
               let x1 = upd_request (\<lambda>q. q\<lparr>q_uri := Some uri, q_query := qy\<rparr>) x
               in if length uri + length (ph_root ph) \<ge> PHONE_URI_MAX
                  then rbind (fail_with x1 400 ''URI is too long'') (\<lambda>(r, x2). Inr (r, x2, w))
                  else
                    rbind (if q_method (x_request x1) = METHOD_GET then HTTPGetFile ph (phone_path ph uri) x1 w
                           else Inr (0, x1, w)) (\<lambda>(res, x2, w1).
                      if res \<noteq> 0 then Inr (res, x2, w1)
                      else rbind (Dispatch ph x2 w1) (\<lambda>(res2, x3, w2).
                        if res2 \<noteq> 0 then Inr (res2, x3, w2)
                        else rbind (fail_with x3 404 ''Not Found'') (\<lambda>(r, x4). Inr (r, x4, w2))))))"

section \<open>Which file a request gets\<close>

lemma decode_in_place_eq:
  assumes "NUL \<notin> set u"
  shows "decode_in_place u = Inr (cstr (pct_decode u))"
proof -
  let ?m = "u @ [NUL]"
  have "\<not> isxdigit NUL" by code_simp
  then have "shttpd_url_decode ?m 0 (length u) 0 (length u + 1) =
      Inr (length (pct_decode u), store ?m 0 (pct_decode u))"
    using shttpd_url_decode_eq [of 0 "length u" ?m 0 "length u + 1"] length_pct_decode [of u]
    by (simp add: nth_append Let_def)
  then show ?thesis by (simp add: decode_in_place_def HTTPUrlDecode_def store_def cstr_append_NUL_any)
qed

lemma pct_decode_id: "CHR ''%'' \<notin> set u \<Longrightarrow> pct_decode u = u"
  by (induction u) (auto simp: pct_decode_plain)

lemma split_query_none: "CHR ''?'' \<notin> set u \<Longrightarrow> split_query u = (u, None)"
proof -
  assume "CHR ''?'' \<notin> set u"
  then have "takeWhile (\<lambda>c. c \<noteq> CHR ''?'') u = u" by (auto simp: takeWhile_eq_all_conv)
  then show ?thesis unfolding split_query_def Let_def by (simp del: takeWhile_eq_all_conv)
qed

lemma HTTPServeFile_nonzero: "HTTPServeFile ph st path x w = Inr (r, x', w') \<Longrightarrow> r \<noteq> 0"
  by (auto simp: HTTPServeFile_def fail_with_def Let_def rbind_Inr_iff split: if_splits prod.splits)

definition uri_plain :: "string \<Rightarrow> bool" where
  "uri_plain uri \<longleftrightarrow> NUL \<notin> set uri \<and> CHR ''%'' \<notin> set uri \<and> CHR ''?'' \<notin> set uri"

lemma HTTPProcessMessage_get:
  assumes "q_uri (x_request x) = Some uri" and "uri_plain uri" and "q_method (x_request x) = METHOD_GET"
    and "length uri + length (ph_root ph) < PHONE_URI_MAX"
    and "HTTPGetFile ph (ph_root ph @ uri) (upd_request (\<lambda>q. q\<lparr>q_query := None\<rparr>) x) w = r"
  shows "HTTPProcessMessage ph x w =
    rbind r (\<lambda>(res, x2, w1).
      if res \<noteq> 0 then Inr (res, x2, w1)
      else rbind (Dispatch ph x2 w1) (\<lambda>(res2, x3, w2).
        if res2 \<noteq> 0 then Inr (res2, x3, w2)
        else rbind (fail_with x3 404 ''Not Found'') (\<lambda>(r, x4). Inr (r, x4, w2))))"
proof -
  have "phone_path ph uri = ph_root ph @ uri" using assms(4) by (simp add: phone_path_def HttpSnprintf_eq)
  moreover have "upd_request (\<lambda>q. q\<lparr>q_uri := Some uri, q_query := None\<rparr>) x = upd_request (\<lambda>q. q\<lparr>q_query := None\<rparr>) x"
    using assms(1) by (simp add: upd_request_def)
  ultimately show ?thesis
    using assms by (simp add: HTTPProcessMessage_def split_query_none decode_in_place_eq pct_decode_id uri_plain_def)
qed

text \<open>The path a URI leads to: the root with the decoded URI behind it, up to the query.\<close>

definition requested_path :: "'w phone \<Rightarrow> string \<Rightarrow> string" where
  "requested_path ph uri = ph_root ph @ cstr (pct_decode (takeWhile (\<lambda>c. c \<noteq> CHR ''?'') uri))"

lemma fst_split_query: "fst (split_query uri) = takeWhile (\<lambda>c. c \<noteq> CHR ''?'') uri"
  by (simp add: split_query_def Let_def)

lemma HTTPProcessMessage_file:
  assumes "q_uri (x_request x) = Some uri" and "NUL \<notin> set uri" and "q_method (x_request x) = METHOD_GET"
    and "length (requested_path ph uri) < PHONE_URI_MAX"
    and "os_stat (ph_os ph) w (requested_path ph uri) = Some st" and "\<not> st_isdir st"
    and "\<not> phone_isindex (requested_path ph uri)"
  shows "\<exists>f. HTTPProcessMessage ph x w = HTTPServeFile ph st (requested_path ph uri) (upd_request f x) w \<and>
    (\<forall>q. q_ch (f q) = q_ch q)"
proof -
  obtain u qy where sq: "split_query uri = (u, qy)" by fastforce
  then have u: "u = takeWhile (\<lambda>c. c \<noteq> CHR ''?'') uri" using fst_split_query [of uri] by simp
  then have "NUL \<notin> set u" using assms(2) set_takeWhileD by metis
  then have d: "decode_in_place u = Inr (cstr (pct_decode u))" by (rule decode_in_place_eq)
  have p: "requested_path ph uri = ph_root ph @ cstr (pct_decode u)" by (simp add: requested_path_def u)
  have pp: "phone_path ph (cstr (pct_decode u)) = requested_path ph uri"
    using assms(4) by (simp add: phone_path_def HttpSnprintf_eq p)
  let ?f = "\<lambda>q. q\<lparr>q_uri := Some (cstr (pct_decode u)), q_query := qy\<rparr>"
  have "HTTPProcessMessage ph x w = HTTPServeFile ph st (requested_path ph uri) (upd_request ?f x) w"
    using assms(1,3-7) sq d pp p
    by (cases "HTTPServeFile ph st (requested_path ph uri) (upd_request ?f x) w")
       (auto simp: HTTPProcessMessage_def HTTPGetFile_def dest: HTTPServeFile_nonzero)
  then show ?thesis by (intro exI [of _ ?f]) simp
qed

lemma HTTPServeFile_whole:
  assumes "snd (v_vec (q_ch (x_request x)) H_range) = 0" and "st_size st < 2 ^ 32"
    and "os_open_read (ph_os ph) w path = (fd, w1)" and "fd \<noteq> -1" and "os_malloc (ph_os ph) w1 (st_size st)"
    and "os_read (ph_os ph) w1 fd (st_size st) = (Moved bs, w2)" and "length bs = st_size st" and "bs \<noteq> []"
    and "length (ph_fresh ph w1 (st_size st)) = st_size st"
  shows "\<exists>x'. HTTPServeFile ph st path x w = Inr (1, x', os_close (ph_os ph) w2 fd) \<and>
    x_send x' = x_send x @ take 511 (file_reply_headers ph w2 200 ''OK'' st (HttpGetMimeType path (length path)) (st_size st) []) @ bs"
proof -
  have "scan_range (q_ch (x_request x)) = []"
    using assms(1) by (cases "v_vec (q_ch (x_request x)) H_range") (simp add: scan_range_def)
  then have "file_range (q_ch (x_request x)) (st_size st) = (200, ''OK'', None, st_size st, [])"
    using assms(2) by (simp add: file_range_def ulong_def Let_def)
  moreover have "\<not> range_eof (q_ch (x_request x))"
    using assms(1) by (cases "v_vec (q_ch (x_request x)) H_range") (simp add: range_eof_def)
  ultimately show ?thesis
    using assms(3-9) by (simp add: HTTPServeFile_def Let_def HttpSnprintf_eq)
qed

text \<open>
  C24. A GET of a file is answered with the bytes of that file, wherever the URI leads: the file that is
  opened is the root with the decoded URI (up to its query) behind it, and unlike in \<open>shttpd\<close> nothing
  removes \<open>..\<close>, so that files outside the root leave the telephone too. The reply is the header block
  for status 200 and the length of the file, cut at 511 bytes, and then all of the file. Stated for a
  request without a \<open>Range\<close>, and a file of less than 4 GB that is neither empty nor a directory nor an
  index file, that can be opened and is read at once into memory that is there.
\<close>

theorem phone_serves_path_verbatim:
  assumes "q_uri (x_request x) = Some uri" and "NUL \<notin> set uri" and "q_method (x_request x) = METHOD_GET"
    and "length (requested_path ph uri) < PHONE_URI_MAX"
    and "os_stat (ph_os ph) w (requested_path ph uri) = Some st" and "\<not> st_isdir st"
    and "\<not> phone_isindex (requested_path ph uri)"
    and "snd (v_vec (q_ch (x_request x)) H_range) = 0" and "st_size st < 2 ^ 32"
    and "os_open_read (ph_os ph) w (requested_path ph uri) = (fd, w1)" and "fd \<noteq> -1"
    and "os_malloc (ph_os ph) w1 (st_size st)"
    and "os_read (ph_os ph) w1 fd (st_size st) = (Moved bs, w2)" and "length bs = st_size st" and "bs \<noteq> []"
    and "length (ph_fresh ph w1 (st_size st)) = st_size st"
  shows "\<exists>x'. HTTPProcessMessage ph x w = Inr (1, x', os_close (ph_os ph) w2 fd) \<and>
    x_send x' = x_send x @
      take 511 (file_reply_headers ph w2 200 ''OK'' st
        (HttpGetMimeType (requested_path ph uri) (length (requested_path ph uri))) (st_size st) []) @ bs"
proof -
  obtain f where f: "HTTPProcessMessage ph x w = HTTPServeFile ph st (requested_path ph uri) (upd_request f x) w"
      "\<forall>q. q_ch (f q) = q_ch q"
    using HTTPProcessMessage_file [OF assms(1-7)] by blast
  show ?thesis
    using HTTPServeFile_whole [of "upd_request f x" st ph w "requested_path ph uri" fd w1 bs w2] f assms(8-16) by simp
qed

text \<open>A telephone with one file of three bytes next to the root directory.\<close>

definition file_phone :: "string phone" where
  "file_phone = sample_phone\<lparr>ph_os := sample_os\<lparr>
     os_stat := (\<lambda>_ p. if p = ''/apps/../key'' then Some \<lparr>st_isdir = False, st_size = 3, st_mtime = 0\<rparr> else None),
     os_open_read := (\<lambda>w p. (if p = ''/apps/../key'' then 7 else -1, w)),
     os_read := (\<lambda>w _ n. (Moved (take n ''abc''), w))\<rparr>\<rparr>"

definition get_context :: "string \<Rightarrow> headers \<Rightarrow> http_context" where
  "get_context uri ch = zero_context\<lparr>x_request := zero_request\<lparr>q_uri := Some uri, q_ch := ch, q_parsed := True\<rparr>\<rparr>"

lemma file_phone_simps:
  "os_stat (ph_os file_phone) w ''/apps/../key'' = Some \<lparr>st_isdir = False, st_size = 3, st_mtime = 0\<rparr>"
  "os_open_read (ph_os file_phone) w ''/apps/../key'' = (7, w)" "os_read (ph_os file_phone) w fd 3 = (Moved ''abc'', w)"
  "os_malloc (ph_os file_phone) w n" "length (ph_fresh file_phone w n) = n" "os_close (ph_os file_phone) w fd = w"
  by (simp_all add: file_phone_def sample_phone_def sample_os_def)

theorem phone_serves_path_verbatim_witness:
  "\<exists>x' h. HTTPProcessMessage file_phone (get_context ''/%2e./key?v=1'' no_headers) [] = Inr (1, x', []) \<and>
     x_send x' = h @ ''abc''"
proof -
  have path: "requested_path file_phone ''/%2e./key?v=1'' = ''/apps/../key''" by code_simp
  have idx: "\<not> phone_isindex ''/apps/../key''" by code_simp
  have "\<exists>x'. HTTPProcessMessage file_phone (get_context ''/%2e./key?v=1'' no_headers) [] =
      Inr (1, x', os_close (ph_os file_phone) [] 7) \<and>
    x_send x' = x_send (get_context ''/%2e./key?v=1'' no_headers) @
      take 511 (file_reply_headers file_phone [] 200 ''OK'' \<lparr>st_isdir = False, st_size = 3, st_mtime = 0\<rparr>
        (HttpGetMimeType (requested_path file_phone ''/%2e./key?v=1'') (length (requested_path file_phone ''/%2e./key?v=1'')))
        (st_size \<lparr>st_isdir = False, st_size = 3, st_mtime = 0\<rparr>) []) @ ''abc''"
    by (rule phone_serves_path_verbatim)
       (simp_all add: path idx file_phone_simps get_context_def zero_request_def PHONE_URI_MAX_def v_vec_def no_headers_def)
  then obtain x' h where "HTTPProcessMessage file_phone (get_context ''/%2e./key?v=1'' no_headers) [] =
      Inr (1, x', os_close (ph_os file_phone) [] 7)" "x_send x' = h @ ''abc''"
    by (metis append_assoc)
  then show ?thesis by (auto simp: file_phone_simps)
qed

text \<open>
  A GET of a directory that has neither an index file nor a controller, for a URI that is no route,
  is answered twice: the listing is sent as a complete reply with status 200, then the error reply
  404 follows on the same connection, because the listing reports 0.
\<close>

lemma directory_answered_twice:
  assumes "q_uri (x_request x) = Some uri" and "uri_plain uri" and "q_method (x_request x) = METHOD_GET"
    and "length uri + length (ph_root ph) < PHONE_URI_MAX"
    and "os_stat (ph_os ph) w (ph_root ph @ uri) = Some st" and "st_isdir st"
    and "\<forall>i<4. \<not> is_file (ph_os ph) w (HttpSnprintf PHONE_FILENAME_MAX (ph_root ph @ uri @ ''/'' @ indexfile ! i))"
    and "uri = CHR ''/'' # name" and "name \<noteq> []" and "CHR ''/'' \<notin> set name"
    and "os_opendir (ph_os ph) w (ph_root ph @ uri) = Some []" and "os_malloc (ph_os ph) w (length uri + 1)"
  shows "\<exists>x'. HTTPProcessMessage ph x w = Inr (-1, x', w) \<and>
    x_send x' = x_send x @ HttpSnprintf (PHONE_FILENAME_MAX + 512) (listing_headers (length
        (HttpSnprintf (PHONE_FILENAME_MAX + 512) (listing_head uri) @ listing_footer))) @
      HttpSnprintf (PHONE_FILENAME_MAX + 512) (listing_head uri) @ listing_footer @
      error_head 404 ''Not Found'' @ error_body 404 ''Not Found''"
proof -
  let ?x = "upd_request (\<lambda>q. q\<lparr>q_query := None\<rparr>) x" and ?path = "ph_root ph @ uri"
  let ?body = "HttpSnprintf (PHONE_FILENAME_MAX + 512) (listing_head uri) @ listing_footer"
  let ?y = "send_bytes ?body (send_bytes (HttpSnprintf (PHONE_FILENAME_MAX + 512) (listing_headers (length ?body))) ?x)"
  have "last name \<noteq> CHR ''/''" using assms(9,10) by (metis last_in_set)
  then have sl: "slash_after ?path = Inr ''/''" using assms(8,9) by (simp add: slash_after_def last_char_def)
  have "first_index (ph_os ph) w ?path ''/'' = None"
    using assms(7) by (simp add: first_index_def find_None_iff)
  then have "HTTPGetFile ph ?path ?x w = Inr (0, ?y, w)"
    using assms(1,5,6,11) sl by (simp add: HTTPGetFile_def HTTPGetIndexFile_def HTTPServeDirectoryListing_def Let_def)
  moreover have "Dispatch ph ?y w = Inr (0, ?y, w)"
  proof -
    have "takeWhile (\<lambda>c. c \<noteq> CHR ''/'') name = name" using assms(10) by (auto simp: takeWhile_eq_all_conv)
    then obtain rt where "GetRoute uri = (False, rt)" 
      unfolding GetRoute_def route_path_def c_at_def assms(8) tok_def Let_def by (simp del: takeWhile_eq_all_conv)
    then show ?thesis using assms(1,12) by (simp add: Dispatch_def)
  qed
  moreover have "fail_with ?y 404 ''Not Found'' = Inr (-1, send_bytes (error_head 404 ''Not Found'' @ error_body 404 ''Not Found'') ?y)"
  proof -
    have "length (error_head 404 ''Not Found'' @ error_body 404 ''Not Found'') < 1024" by code_simp
    then show ?thesis by (simp add: fail_with_def HttpSendErrorToTheServer_def Let_def)
  qed
  ultimately show ?thesis unfolding HTTPProcessMessage_get [OF assms(1-4) refl] by simp
qed


lemma directory_answered_twice_instance:
  "\<exists>x' h. HTTPProcessMessage (sample_phone\<lparr>ph_os := sample_os\<lparr>
        os_stat := (\<lambda>_ p. if p = ''/apps/img'' then Some \<lparr>st_isdir = True, st_size = 0, st_mtime = 0\<rparr> else None),
        os_opendir := (\<lambda>_ _. Some [])\<rparr>\<rparr>) (get_context ''/img'' no_headers) [] = Inr (-1, x', []) \<and>
     x_send x' = h @ listing_footer @ error_head 404 ''Not Found'' @ error_body 404 ''Not Found''"
proof -
  let ?ph = "sample_phone\<lparr>ph_os := sample_os\<lparr>
        os_stat := (\<lambda>_ p. if p = ''/apps/img'' then Some \<lparr>st_isdir = True, st_size = 0, st_mtime = 0\<rparr> else None),
        os_opendir := (\<lambda>_ _. Some [])\<rparr>\<rparr>"
  have "\<forall>i<4. \<not> is_file (ph_os ?ph) [] (HttpSnprintf PHONE_FILENAME_MAX (ph_root ?ph @ ''/img'' @ ''/'' @ indexfile ! i))"
    by code_simp
  then have "\<exists>x'. HTTPProcessMessage ?ph (get_context ''/img'' no_headers) [] = Inr (-1, x', []) \<and>
    x_send x' = x_send (get_context ''/img'' no_headers) @
      HttpSnprintf (PHONE_FILENAME_MAX + 512) (listing_headers (length
        (HttpSnprintf (PHONE_FILENAME_MAX + 512) (listing_head ''/img'') @ listing_footer))) @
      HttpSnprintf (PHONE_FILENAME_MAX + 512) (listing_head ''/img'') @ listing_footer @
      error_head 404 ''Not Found'' @ error_body 404 ''Not Found''"
    by (intro directory_answered_twice [where name = "''img''" and st = "\<lparr>st_isdir = True, st_size = 0, st_mtime = 0\<rparr>"])
       (simp_all add: get_context_def zero_request_def sample_phone_def sample_os_def uri_plain_def PHONE_URI_MAX_def)
  then show ?thesis by (metis append_assoc)
qed


lemma ulong_id: "k < 2 ^ 32 \<Longrightarrow> ulong (int k) = k"
  by (simp add: ulong_def)

lemma range_eof_dec:
  assumes "v_vec ch H_range = (''bytes='' @ dec a @ r, n)"
  shows "\<not> range_eof ch"
proof -
  obtain c t where c: "dec a = c # t" "isdigit c" using dec_Cons by blast
  then have "c \<noteq> NUL" by (auto simp: isdigit_def)
  then have "cstr (''bytes='' @ dec a @ r) = ''bytes='' @ c # cstr (t @ r)" by (simp add: c cstr_def)
  then show ?thesis using isdigit_not_space [OF c(2)] by (simp add: range_eof_def assms)
qed

text \<open>
  C25. A range that goes beyond the end of the file is answered with memory that was never written: the
  reply has as many bytes as the client asked for, the first ones from the file, all others from the
  block that was allocated for them.
\<close>

theorem range_reply_leaks_memory:
  assumes "v_vec (q_ch (x_request x)) H_range = (''bytes='' @ dec a @ ''-'' @ dec b @ r, n)" and "0 < n"
    and "a \<le> b" and "b < 2 ^ 32 - 1" and "r = [] \<or> \<not> isdigit (hd r)"
    and "os_open_read (ph_os ph) w path = (fd, w1)" and "fd \<noteq> -1"
    and "os_malloc (ph_os ph) (os_lseek (ph_os ph) w1 fd (int a)) (b - a + 1)"
    and "os_read (ph_os ph) (os_lseek (ph_os ph) w1 fd (int a)) fd (b - a + 1) = (Moved bs, w3)"
    and "bs \<noteq> []" and "length bs < b - a + 1" and "\<forall>w k. length (ph_fresh ph w k) = k"
  shows "\<exists>x' h leak. HTTPServeFile ph st path x w = Inr (1, x', os_close (ph_os ph) w3 fd) \<and>
    x_send x' = x_send x @ h @ bs @ leak \<and> length leak = b - a + 1 - length bs \<and>
    leak = drop (length bs) (ph_fresh ph (os_lseek (ph_os ph) w1 fd (int a)) (b - a + 1))"
proof -
  have "int b - int a + 1 = int (b - a + 1)" using assms(3) by simp
  moreover have "b - a + 1 < 2 ^ 32" using assms(4) by simp
  ultimately have u: "ulong (int b - int a + 1) = b - a + 1" using ulong_id by metis
  have "scan_range (q_ch (x_request x)) = [VInt (int a), VInt (int b)]"
    using scan_range_dec [OF assms(1,2) _ _ assms(5)] assms(3,4) by simp
  then have "\<exists>rg. file_range (q_ch (x_request x)) (st_size st) = (206, ''Partial Content'', Some (int a), ulong (int b - int a + 1), rg)"
    by (simp add: file_range_def Let_def)
  then obtain rg where fr: "file_range (q_ch (x_request x)) (st_size st) = (206, ''Partial Content'', Some (int a), b - a + 1, rg)"
    unfolding u by blast
  show ?thesis
    using assms(6-12) range_eof_dec [of "q_ch (x_request x)" a "''-'' @ dec b @ r" n] assms(1) fr
    by (simp add: HTTPServeFile_def Let_def)
qed

theorem range_reply_leaks_memory_witness:
  "\<exists>x' h. HTTPServeFile file_phone \<lparr>st_isdir = False, st_size = 3, st_mtime = 0\<rparr> ''/apps/../key''
      (get_context ''/../key'' (no_headers(H_range \<mapsto> (''Range: '', HDR_STRING ''bytes=0-5'' 9)))) [] = Inr (1, x', []) \<and>
     x_send x' = h @ ''abc???''"
proof -
  have d: "dec 0 = ''0''" "dec 5 = ''5''" by code_simp+
  let ?x = "get_context ''/../key'' (no_headers(H_range \<mapsto> (''Range: '', HDR_STRING ''bytes=0-5'' 9)))"
  have "\<exists>x' h leak. HTTPServeFile file_phone \<lparr>st_isdir = False, st_size = 3, st_mtime = 0\<rparr> ''/apps/../key'' ?x [] =
      Inr (1, x', os_close (ph_os file_phone) [] 7) \<and> x_send x' = x_send ?x @ h @ ''abc'' @ leak \<and> length leak = 5 - 0 + 1 - length ''abc'' \<and>
      leak = drop (length ''abc'') (ph_fresh file_phone (os_lseek (ph_os file_phone) [] 7 (int 0)) (5 - 0 + 1))"
    by (rule range_reply_leaks_memory [where n = 9 and r = "[]"])
       (simp_all add: get_context_def zero_request_def v_vec_def d file_phone_def sample_phone_def sample_os_def)
  then show ?thesis by (auto simp: get_context_def zero_context_def file_phone_def sample_phone_def sample_os_def numeral_eq_Suc)
qed

end
