(* ===== verification/IphoneContext.thy ===== *)
theory IphoneContext
  imports IphoneMessage IphoneRequest
begin

text \<open>
  Connections of the iPhone build (\<open>HttpContext.c\<close>): creation, opening and closing with their reference
  counts, the handlers of the stream and timer events, how replies leave and how a request is run twice.
\<close>

section \<open>CoreFoundation\<close>

text \<open>
  The services of CoreFoundation a connection uses. Opening a socket may give only one of the streams;
  setting a client, opening a stream and creating a timer may fail. \<open>cf_retain_calls\<close> is how often the
  retain callback is called when a client or a timer is set, \<open>cf_release_calls\<close> how often the release
  callback is called when it is taken away.
\<close>

record 'w cf =
  cf_create_pair :: "'w \<Rightarrow> int \<Rightarrow> bool \<times> bool \<times> 'w"
  cf_data_create :: "'w \<Rightarrow> bool"
  cf_set_read_client :: "'w \<Rightarrow> bool \<times> 'w"
  cf_set_write_client :: "'w \<Rightarrow> bool \<times> 'w"
  cf_open_read :: "'w \<Rightarrow> bool \<times> 'w"
  cf_open_write :: "'w \<Rightarrow> bool \<times> 'w"
  cf_timer_create :: "'w \<Rightarrow> bool \<times> 'w"
  cf_read :: "'w \<Rightarrow> nat \<Rightarrow> io_ret \<times> 'w"
  cf_write :: "'w \<Rightarrow> string \<Rightarrow> io_ret \<times> 'w"
  cf_can_accept :: "'w \<Rightarrow> bool"
  cf_close_stream :: "'w \<Rightarrow> 'w"
  cf_retain_calls :: nat
  cf_release_calls :: nat

text \<open>What the documentation promises of the callbacks: one call each.\<close>

definition cf_counts :: "'w cf \<Rightarrow> bool" where
  "cf_counts cf \<longleftrightarrow> cf_retain_calls cf = 1 \<and> cf_release_calls cf = 1"

section \<open>Reference counts\<close>

text \<open>
  The memory of a connection, \<open>None\<close> once it is deallocated, and which of its streams have it as
  their client.
\<close>

record context_state =
  cs_context :: "http_context option"
  cs_read_client :: bool
  cs_write_client :: bool

definition upd_context :: "(http_context \<Rightarrow> http_context) \<Rightarrow> context_state \<Rightarrow> context_state res" where
  "upd_context f s =
     (case cs_context s of None \<Rightarrow> Inl Use_After_Free | Some x \<Rightarrow> Inr (s\<lparr>cs_context := Some (f x)\<rparr>))"

definition HttpContextRetain :: "context_state \<Rightarrow> context_state res" where
  "HttpContextRetain s = upd_context (\<lambda>x. x\<lparr>x_retain_count := x_retain_count x + 1\<rparr>) s"

definition HttpContextRelease :: "context_state \<Rightarrow> context_state res" where
  "HttpContextRelease s =
     (case cs_context s of
        None \<Rightarrow> Inl Use_After_Free
      | Some x \<Rightarrow>
          let n = x_retain_count x - 1
          in if n > 0 then Inr (s\<lparr>cs_context := Some (x\<lparr>x_retain_count := n\<rparr>)\<rparr>)
             else if x_in x \<or> x_out x \<or> x_timer x then Inl Assertion_Failed
             else Inr (s\<lparr>cs_context := None\<rparr>))"

fun repeat_res :: "nat \<Rightarrow> ('a \<Rightarrow> 'a res) \<Rightarrow> 'a \<Rightarrow> 'a res" where
  "repeat_res 0 f a = Inr a"
| "repeat_res (Suc n) f a = rbind (f a) (repeat_res n f)"

section \<open>Creation\<close>

definition sizeof_context :: nat where "sizeof_context = 32"

definition sizeof_request :: nat where "sizeof_request = 324"

text \<open>\<open>None\<close> is the null pointer; a failure releases the connection again.\<close>

definition HttpContextCreate :: "'w cf \<Rightarrow> 'w phone \<Rightarrow> int \<Rightarrow> 'w \<Rightarrow> (context_state option \<times> 'w) res" where
  "HttpContextCreate cf ph sock w =
     (if \<not> os_malloc (ph_os ph) w sizeof_context then Inr (None, w)
      else
        rbind (HttpContextRetain \<lparr>cs_context = Some zero_context, cs_read_client = False, cs_write_client = False\<rparr>) (\<lambda>s.
          let (i, ou, w1) = cf_create_pair cf w sock;
              failed = (\<lambda>s. rbind (HttpContextRelease s) (\<lambda>_. Inr (None, w1)))
          in rbind (upd_context (\<lambda>x. x\<lparr>x_in := i, x_out := ou\<rparr>) s) (\<lambda>s1.
               if \<not> i \<or> \<not> ou \<or> \<not> cf_data_create cf w1 \<or> \<not> os_malloc (ph_os ph) w1 sizeof_request
               then failed s1
               else Inr (Some s1, w1))))"

section \<open>Opening and closing\<close>

definition clear_read_client :: "'w cf \<Rightarrow> context_state \<Rightarrow> context_state res" where
  "clear_read_client cf s =
     (if cs_read_client s
      then rbind (repeat_res (cf_release_calls cf) HttpContextRelease s) (\<lambda>s1. Inr (s1\<lparr>cs_read_client := False\<rparr>))
      else Inr s)"

definition clear_write_client :: "'w cf \<Rightarrow> context_state \<Rightarrow> context_state res" where
  "clear_write_client cf s =
     (if cs_write_client s
      then rbind (repeat_res (cf_release_calls cf) HttpContextRelease s) (\<lambda>s1. Inr (s1\<lparr>cs_write_client := False\<rparr>))
      else Inr s)"

definition close_in :: "'w cf \<Rightarrow> context_state \<Rightarrow> 'w \<Rightarrow> (context_state \<times> 'w) res" where
  "close_in cf s w =
     (case cs_context s of
        None \<Rightarrow> Inl Use_After_Free
      | Some x \<Rightarrow>
          if x_in x
          then rbind (clear_read_client cf s) (\<lambda>s1.
               rbind (upd_context (\<lambda>x. x\<lparr>x_in := False\<rparr>) s1) (\<lambda>s2. Inr (s2, cf_close_stream cf w)))
          else Inr (s, w))"

definition close_out :: "'w cf \<Rightarrow> context_state \<Rightarrow> 'w \<Rightarrow> (context_state \<times> 'w) res" where
  "close_out cf s w =
     (case cs_context s of
        None \<Rightarrow> Inl Use_After_Free
      | Some x \<Rightarrow>
          if x_out x
          then rbind (clear_write_client cf s) (\<lambda>s1.
               rbind (upd_context (\<lambda>x. x\<lparr>x_out := False\<rparr>) s1) (\<lambda>s2. Inr (s2, cf_close_stream cf w)))
          else Inr (s, w))"

definition close_timer :: "'w cf \<Rightarrow> context_state \<Rightarrow> context_state res" where
  "close_timer cf s =
     (case cs_context s of
        None \<Rightarrow> Inl Use_After_Free
      | Some x \<Rightarrow>
          if x_timer x
          then rbind (repeat_res (cf_release_calls cf) HttpContextRelease s) (upd_context (\<lambda>x. x\<lparr>x_timer := False\<rparr>))
          else Inr s)"

definition HttpContextClose :: "'w cf \<Rightarrow> context_state \<Rightarrow> 'w \<Rightarrow> (context_state \<times> 'w) res" where
  "HttpContextClose cf s w =
     rbind (close_in cf s w) (\<lambda>(s1, w1).
     rbind (close_out cf s1 w1) (\<lambda>(s2, w2).
     rbind (close_timer cf s2) (\<lambda>s3. Inr (s3, w2))))"

text \<open>The steps of opening; the first that fails closes everything again.\<close>

definition HttpContextOpen :: "'w cf \<Rightarrow> context_state \<Rightarrow> 'w \<Rightarrow> (bool \<times> context_state \<times> 'w) res" where
  "HttpContextOpen cf s w =
     (let hold = repeat_res (cf_retain_calls cf) HttpContextRetain;
          failed = (\<lambda>s w. rbind (HttpContextClose cf s w) (\<lambda>(s1, w1). Inr (False, s1, w1)));
          (ok1, w1) = cf_set_read_client cf w
      in if \<not> ok1 then failed s w1
         else rbind (hold s) (\<lambda>s0.
           let s1 = s0\<lparr>cs_read_client := True\<rparr>; (ok2, w2) = cf_set_write_client cf w1
           in if \<not> ok2 then failed s1 w2
              else rbind (hold s1) (\<lambda>s1'.
                let s2 = s1'\<lparr>cs_write_client := True\<rparr>; (ok3, w3) = cf_open_read cf w2
                in if \<not> ok3 then failed s2 w3
                   else
                     let (ok4, w4) = cf_open_write cf w3
                     in if \<not> ok4 then failed s2 w4
                        else
                          let (ok5, w5) = cf_timer_create cf w4
                          in if \<not> ok5 then failed s2 w5
                             else rbind (hold s2) (\<lambda>s3.
                                  rbind (upd_context (\<lambda>x. x\<lparr>x_timer := True\<rparr>) s3) (\<lambda>s4. Inr (True, s4, w5))))))"

text \<open>\<open>AcceptConnection\<close> of \<open>ServerHost.m\<close>, for a socket: a connection that cannot be opened is released.\<close>

definition AcceptConnection :: "'w cf \<Rightarrow> 'w phone \<Rightarrow> int \<Rightarrow> 'w \<Rightarrow> (context_state option \<times> 'w) res" where
  "AcceptConnection cf ph sock w =
     rbind (HttpContextCreate cf ph sock w) (\<lambda>(so, w1).
       case so of
         None \<Rightarrow> Inr (None, w1)
       | Some s \<Rightarrow>
           rbind (HttpContextOpen cf s w1) (\<lambda>(ok, s1, w2).
             if ok then Inr (Some s1, w2)
             else rbind (HttpContextRelease s1) (\<lambda>_. Inr (None, w2))))"

section \<open>Events\<close>

definition HandleCanAcceptBytes :: "'w cf \<Rightarrow> http_context \<Rightarrow> 'w \<Rightarrow> http_context \<times> 'w" where
  "HandleCanAcceptBytes cf x w =
     (if x_send x \<noteq> []
      then let (r, w1) = cf_write cf w (x_send x)
           in case r of
                Moved bs \<Rightarrow> (x\<lparr>x_send := drop (length bs) (x_send x)\<rparr>, w1)
              | _ \<Rightarrow> (x, w1)
      else (x, w))"

definition READ_BUF :: nat where "READ_BUF = 2048"

definition HandleHasBytesAvailable :: "'w cf \<Rightarrow> 'w phone \<Rightarrow> http_context \<Rightarrow> 'w \<Rightarrow> (http_context \<times> 'w) res" where
  "HandleHasBytesAvailable cf ph x w =
     (let (r, w1) = cf_read cf w READ_BUF
      in case r of
           Moved bs \<Rightarrow>
             if length bs > READ_BUF then Inl Out_Of_Bounds
             else if bs = [] then Inr (x, w1)
             else
               rbind (HTTPParseRequest ph w1 (x\<lparr>x_rcvd := x_rcvd x @ bs\<rparr>)) (\<lambda>(result, x1).
               rbind (if result = 1
                      then rbind (HTTPProcessMessage ph x1 w1) (\<lambda>(_, x2, w2). Inr (x2, w2))
                      else Inr (x1, w1)) (\<lambda>(x2, w2).
                 Inr (if result \<noteq> 0 \<and> cf_can_accept cf w2 then HandleCanAcceptBytes cf x2 w2 else (x2, w2))))
         | _ \<Rightarrow> Inr (x, w1))"

text \<open>The end of the input, an error and the timer all end the connection.\<close>

definition HandleEnd :: "'w cf \<Rightarrow> context_state \<Rightarrow> 'w \<Rightarrow> (context_state \<times> 'w) res" where
  "HandleEnd cf s w =
     rbind (HttpContextClose cf s w) (\<lambda>(s1, w1). rbind (HttpContextRelease s1) (\<lambda>s2. Inr (s2, w1)))"

datatype cf_event = Has_Bytes | End_Encountered | Read_Error | Can_Accept | Write_Error | Timer_Fired

text \<open>The three callbacks. A handler that keeps the connection works on its memory.\<close>

definition on_context ::
  "(http_context \<Rightarrow> 'w \<Rightarrow> (http_context \<times> 'w) res) \<Rightarrow> context_state \<Rightarrow> 'w \<Rightarrow> (context_state \<times> 'w) res" where
  "on_context f s w =
     (case cs_context s of
        None \<Rightarrow> Inl Use_After_Free
      | Some x \<Rightarrow> rbind (f x w) (\<lambda>(x1, w1). Inr (s\<lparr>cs_context := Some x1\<rparr>, w1)))"

fun context_callback :: "'w cf \<Rightarrow> 'w phone \<Rightarrow> cf_event \<Rightarrow> context_state \<Rightarrow> 'w \<Rightarrow> (context_state \<times> 'w) res" where
  "context_callback cf ph Has_Bytes s w = on_context (HandleHasBytesAvailable cf ph) s w"
| "context_callback cf ph Can_Accept s w = on_context (\<lambda>x w. Inr (HandleCanAcceptBytes cf x w)) s w"
| "context_callback cf ph _ s w = HandleEnd cf s w"

text \<open>Events reach a connection only while a stream has it as its client or its timer runs.\<close>

fun delivered :: "cf_event \<Rightarrow> context_state \<Rightarrow> bool" where
  "delivered Has_Bytes s = cs_read_client s"
| "delivered End_Encountered s = cs_read_client s"
| "delivered Read_Error s = cs_read_client s"
| "delivered Can_Accept s = cs_write_client s"
| "delivered Write_Error s = cs_write_client s"
| "delivered Timer_Fired s = (case cs_context s of None \<Rightarrow> False | Some x \<Rightarrow> x_timer x)"

inductive context_step :: "'w cf \<Rightarrow> 'w phone \<Rightarrow> context_state \<times> 'w \<Rightarrow> context_state \<times> 'w \<Rightarrow> bool" for cf ph where
  event: "delivered e s \<Longrightarrow> context_callback cf ph e s w = Inr (s', w') \<Longrightarrow> context_step cf ph (s, w) (s', w')"
| world: "context_step cf ph (s, w) (s, w')"

section \<open>Handlers keep the references\<close>

definition life :: "http_context \<Rightarrow> 32 word \<times> bool \<times> bool \<times> bool" where
  "life x = (x_retain_count x, x_in x, x_out x, x_timer x)"

lemma life_simps [simp]:
  "life (send_bytes bs x) = life x" "life (upd_request f x) = life x"
  "life (x\<lparr>x_rcvd := t\<rparr>) = life x" "life (x\<lparr>x_send := t\<rparr>) = life x"
  by (simp_all add: life_def send_bytes_def upd_request_def)

lemma fail_with_life: "fail_with x status reason = Inr (r, x') \<Longrightarrow> life x' = life x"
  by (auto simp: fail_with_def HttpSendErrorToTheServer_def Let_def split: if_splits)

lemma parse_received_life: "parse_received ph w n x = Inr (r, x') \<Longrightarrow> life x' = life x"
  by (auto simp: parse_received_def Let_def dest!: fail_with_life split: if_splits)

lemma HTTPParseRequest_life: "HTTPParseRequest ph w x = Inr (r, x') \<Longrightarrow> life x' = life x"
  by (auto simp: HTTPParseRequest_def HTTPParseMessage_def Let_def rbind_Inr_iff
      dest!: fail_with_life parse_received_life split: if_splits option.splits)

lemma reply_life [simp]:
  "life (snd (HTTPSendReply ph w x body)) = life x" "life (snd (HTTPRedirect x location)) = life x"
  "life (snd (send_answer ans x)) = life x"
  by (simp_all add: HTTPSendReply_def HTTPRedirect_def send_answer_def Let_def split: option.split)

lemma send_answer_life: "send_answer ans x = (r, x') \<Longrightarrow> life x' = life x"
  by (metis reply_life(3) snd_conv)

lemma redirect_to_life: "redirect_to x = Inr (r, x') \<Longrightarrow> life x' = life x"
  using reply_life(2) by (auto simp: redirect_to_def HTTPRedirect_def rbind_Inr_iff split: option.splits if_splits)

lemma execute_system_life: "execute_system ph route x w = Inr (r, x', w') \<Longrightarrow> life x' = life x"
  by (auto simp: execute_system_def Let_def HTTPSendReply_def rbind_Inr_iff dest!: redirect_to_life split: if_splits prod.splits)

lemma CallApplication_life: "CallApplication ph route x w = Inr (r, x', w') \<Longrightarrow> life x' = life x"
  by (cases "CreateRequestHash x route") (auto simp: CallApplication_def Let_def dest: send_answer_life split: prod.splits)

lemma ExecuteApp_life: "ExecuteApp ph route x w = Inr (r, x', w') \<Longrightarrow> life x' = life x"
  by (auto simp: ExecuteApp_def dest: execute_system_life CallApplication_life split: if_splits prod.splits)

lemma Dispatch_life: "Dispatch ph x w = Inr (r, x', w') \<Longrightarrow> life x' = life x"
  by (auto simp: Dispatch_def dest: ExecuteApp_life split: if_splits option.splits prod.splits)

lemma listing_life: "HTTPServeDirectoryListing ph dir x w = Inr (r, x') \<Longrightarrow> life x' = life x"
  by (auto simp: HTTPServeDirectoryListing_def Let_def rbind_Inr_iff dest!: fail_with_life split: option.splits)

lemma index_life: "HTTPGetIndexFile ph path x w = Inr (r, x') \<Longrightarrow> life x' = life x"
  by (cases "slash_after path")
     (auto simp: HTTPGetIndexFile_def HTTPRedirect_def rbind_Inr_iff split: option.splits if_splits)

lemma serve_file_life: "HTTPServeFile ph st path x w = Inr (r, x', w') \<Longrightarrow> life x' = life x"
  by (auto simp: HTTPServeFile_def Let_def rbind_Inr_iff dest!: fail_with_life split: if_splits prod.splits)

lemma serve_index_life: "ServeIndex ph path x w = (r, x', w') \<Longrightarrow> life x' = life x"
  by (auto simp: ServeIndex_def dest: send_answer_life split: prod.splits)

lemma HTTPGetFile_life: "HTTPGetFile ph path x w = Inr (r, x', w') \<Longrightarrow> life x' = life x"
  by (auto simp: HTTPGetFile_def rbind_Inr_iff dest!: listing_life index_life serve_file_life serve_index_life
      split: if_splits option.splits)

lemma HTTPProcessMessage_life:
  assumes "HTTPProcessMessage ph x w = Inr (r, x', w')"
  shows "life x' = life x"
proof -
  from assms obtain uri0 u qy uri where "split_query uri0 = (u, qy)" "decode_in_place u = Inr uri"
    and "q_uri (x_request x) = Some uri0"
    by (auto simp: HTTPProcessMessage_def rbind_Inr_iff split: option.splits prod.splits)
  with assms show ?thesis
    by (auto simp: HTTPProcessMessage_def Let_def elim!: rbind_InrE
        dest!: fail_with_life HTTPGetFile_life Dispatch_life split: if_splits prod.splits)
qed

lemma HandleCanAcceptBytes_life: "life (fst (HandleCanAcceptBytes cf x w)) = life x"
  by (simp add: HandleCanAcceptBytes_def split: prod.split io_ret.split)

lemma HandleHasBytesAvailable_life: "HandleHasBytesAvailable cf ph x w = Inr (x', w') \<Longrightarrow> life x' = life x"
  by (auto simp: HandleHasBytesAvailable_def Let_def rbind_Inr_iff
      dest!: HTTPParseRequest_life HTTPProcessMessage_life split: if_splits prod.splits io_ret.splits)
     (metis HandleCanAcceptBytes_life fst_conv)+


section \<open>The life of a connection\<close>

text \<open>An open connection is referenced by its creator, its two streams and its timer.\<close>

definition context_inv :: "context_state \<Rightarrow> bool" where
  "context_inv s \<longleftrightarrow>
     (case cs_context s of
        None \<Rightarrow> \<not> cs_read_client s \<and> \<not> cs_write_client s
      | Some x \<Rightarrow> cs_read_client s \<and> cs_write_client s \<and> life x = (4, True, True, True))"

lemma on_context_inv:
  assumes "on_context f s w = Inr (s', w')" and "context_inv s" and "\<And>x x' w w'. f x w = Inr (x', w') \<Longrightarrow> life x' = life x"
  shows "context_inv s'"
  using assms by (auto simp: on_context_def context_inv_def rbind_Inr_iff split: option.splits)

lemma HandleEnd_frees:
  assumes "cf_counts cf" and "context_inv s" and "cs_context s = Some x"
  shows "HandleEnd cf s w = Inr (\<lparr>cs_context = None, cs_read_client = False, cs_write_client = False\<rparr>,
           cf_close_stream cf (cf_close_stream cf w))"
  using assms
  by (simp add: HandleEnd_def HttpContextClose_def close_in_def close_out_def close_timer_def clear_read_client_def
      clear_write_client_def cf_counts_def context_inv_def life_def HttpContextRelease_def upd_context_def Let_def)

lemma context_callback_inv:
  assumes "cf_counts cf" and "context_inv s" and "delivered e s" and "context_callback cf ph e s w = Inr (s', w')"
  shows "context_inv s'"
proof -
  obtain x where x: "cs_context s = Some x"
    using assms(2,3) by (cases e) (auto simp: context_inv_def split: option.splits)
  have fin: "context_inv s'" if "HandleEnd cf s w = Inr (s', w')"
    using HandleEnd_frees [OF assms(1,2) x, of w] that by (auto simp: context_inv_def)
  show ?thesis
  proof (cases e)
    case Has_Bytes
    then have "on_context (HandleHasBytesAvailable cf ph) s w = Inr (s', w')" using assms(4) by simp
    then show ?thesis by (rule on_context_inv [OF _ assms(2)]) (rule HandleHasBytesAvailable_life)
  next
    case Can_Accept
    then have "on_context (\<lambda>x w. Inr (HandleCanAcceptBytes cf x w)) s w = Inr (s', w')" using assms(4) by simp
    then show ?thesis by (rule on_context_inv [OF _ assms(2)]) (metis HandleCanAcceptBytes_life fst_conv sum.inject(2))
  qed (use assms(4) fin in simp_all)
qed

lemma context_step_inv:
  "context_step cf ph sw sw' \<Longrightarrow> cf_counts cf \<Longrightarrow> context_inv (fst sw) \<Longrightarrow> context_inv (fst sw')"
  by (induction rule: context_step.induct) (auto dest: context_callback_inv)

lemma context_reachable_inv:
  "(context_step cf ph)\<^sup>*\<^sup>* sw sw' \<Longrightarrow> cf_counts cf \<Longrightarrow> context_inv (fst sw) \<Longrightarrow> context_inv (fst sw')"
  by (induction rule: rtranclp_induct) (auto dest: context_step_inv)

lemma HttpContextCreate_fresh:
  assumes "HttpContextCreate cf ph sock w = Inr (Some s, w')"
  shows "s = \<lparr>cs_context = Some (zero_context\<lparr>x_retain_count := 1, x_in := True, x_out := True\<rparr>),
              cs_read_client = False, cs_write_client = False\<rparr>"
  using assms
  by (auto simp: HttpContextCreate_def HttpContextRetain_def upd_context_def zero_context_def Let_def rbind_Inr_iff
      split: if_splits prod.splits)

text \<open>A connection on its way to be opened: referenced by its creator and the clients set so far.\<close>

definition half_open :: "context_state \<Rightarrow> bool" where
  "half_open s \<longleftrightarrow>
     (case cs_context s of
        None \<Rightarrow> False
      | Some x \<Rightarrow> life x = (1 + of_bool (cs_read_client s) + of_bool (cs_write_client s), True, True, False))"

definition closed_again :: "context_state \<Rightarrow> bool" where
  "closed_again s \<longleftrightarrow>
     \<not> cs_read_client s \<and> \<not> cs_write_client s \<and> (\<exists>x. cs_context s = Some x \<and> life x = (1, False, False, False))"

lemmas context_ops =
  HttpContextClose_def HttpContextRetain_def HttpContextRelease_def upd_context_def cf_counts_def life_def
  close_in_def close_out_def close_timer_def clear_read_client_def clear_write_client_def

lemma HttpContextClose_half_open:
  assumes "cf_counts cf" and "half_open s"
  shows "\<exists>s' w'. HttpContextClose cf s w = Inr (s', w') \<and> closed_again s'"
  using assms
  by (cases "cs_read_client s"; cases "cs_write_client s"; cases "cs_context s")
     (simp_all add: context_ops half_open_def closed_again_def Let_def)

lemma hold_half_open:
  assumes "cf_counts cf" and "half_open s"
  shows "\<not> cs_read_client s \<Longrightarrow>
      \<exists>s'. repeat_res (cf_retain_calls cf) HttpContextRetain s = Inr s' \<and> half_open (s'\<lparr>cs_read_client := True\<rparr>) \<and>
        cs_write_client s' = cs_write_client s"
    and "\<not> cs_write_client s \<Longrightarrow>
      \<exists>s'. repeat_res (cf_retain_calls cf) HttpContextRetain s = Inr s' \<and> half_open (s'\<lparr>cs_write_client := True\<rparr>) \<and>
        cs_read_client s' = cs_read_client s"
  using assms
  by (cases "cs_context s"; auto simp: context_ops half_open_def)+

lemma timer_opens:
  assumes "cf_counts cf" and "half_open s" and "cs_read_client s" and "cs_write_client s"
  shows "\<exists>s' s''. repeat_res (cf_retain_calls cf) HttpContextRetain s = Inr s' \<and>
    upd_context (\<lambda>x. x\<lparr>x_timer := True\<rparr>) s' = Inr s'' \<and> context_inv s''"
  using assms by (cases "cs_context s") (auto simp: context_ops half_open_def context_inv_def)

lemma HttpContextOpen_result:
  assumes cf: "cf_counts cf" and s: "half_open s" "\<not> cs_read_client s" "\<not> cs_write_client s"
  shows "\<exists>ok s' w'. HttpContextOpen cf s w = Inr (ok, s', w') \<and> (if ok then context_inv s' else closed_again s')"
proof -
  note close = HttpContextClose_half_open [OF cf]
  obtain s1 where s1: "repeat_res (cf_retain_calls cf) HttpContextRetain s = Inr s1"
      "half_open (s1\<lparr>cs_read_client := True\<rparr>)" "\<not> cs_write_client s1"
    using hold_half_open(1) [OF cf s(1,2)] s(3) by auto
  let ?s1 = "s1\<lparr>cs_read_client := True\<rparr>"
  obtain s2 where s2: "repeat_res (cf_retain_calls cf) HttpContextRetain ?s1 = Inr s2"
      "half_open (s2\<lparr>cs_write_client := True\<rparr>)" "cs_read_client s2"
    using hold_half_open(2) [OF cf s1(2)] s1(3) by auto
  let ?s2 = "s2\<lparr>cs_write_client := True\<rparr>"
  obtain s3 s4 where s3: "repeat_res (cf_retain_calls cf) HttpContextRetain ?s2 = Inr s3"
      "upd_context (\<lambda>x. x\<lparr>x_timer := True\<rparr>) s3 = Inr s4" "context_inv s4"
    using timer_opens [OF cf s2(2)] s2(3) by auto
  obtain ok1 w1 where e1: "cf_set_read_client cf w = (ok1, w1)" by fastforce
  obtain ok2 w2 where e2: "cf_set_write_client cf w1 = (ok2, w2)" by fastforce
  obtain ok3 w3 where e3: "cf_open_read cf w2 = (ok3, w3)" by fastforce
  obtain ok4 w4 where e4: "cf_open_write cf w3 = (ok4, w4)" by fastforce
  obtain ok5 w5 where e5: "cf_timer_create cf w4 = (ok5, w5)" by fastforce
  note eqs = HttpContextOpen_def Let_def e1 e2 e3 e4 e5 s1(1) s2(1) s3(1,2)
  show ?thesis
    using close [OF s(1), of w1] close [OF s1(2), of w2] close [OF s2(2), of w3] close [OF s2(2), of w4]
      close [OF s2(2), of w5] s3(3)
    by (cases ok1; cases ok2; cases ok3; cases ok4; cases ok5) (auto simp: eqs)
qed


lemma AcceptConnection_created:
  assumes "cf_counts cf" and "HttpContextCreate cf ph sock w = Inr (Some s, w1)"
  shows "\<exists>so w2. AcceptConnection cf ph sock w = Inr (so, w2) \<and> (\<forall>s'. so = Some s' \<longrightarrow> context_inv s')"
proof -
  have "half_open s" "\<not> cs_read_client s" "\<not> cs_write_client s"
    unfolding HttpContextCreate_fresh [OF assms(2)] by (simp_all add: half_open_def life_def zero_context_def)
  from HttpContextOpen_result [OF assms(1) this, of w1] obtain ok s' w2 where
    r: "HttpContextOpen cf s w1 = Inr (ok, s', w2)" "if ok then context_inv s' else closed_again s'" by blast
  then show ?thesis
    by (cases ok) (auto simp: AcceptConnection_def assms(2) closed_again_def HttpContextRelease_def life_def)
qed

text \<open>
  C6. From the moment a connection was accepted, whatever events the run loop delivers: while its
  memory exists it is referenced exactly four times and both streams and the timer are there, and each
  of the four events that end it frees it, without a failed assertion or a use of freed memory; once
  it is freed, no event reaches it any more.
\<close>

theorem context_lifecycle:
  assumes "cf_counts cf" and "AcceptConnection cf ph sock w0 = Inr (Some s0, w1)"
    and "(context_step cf ph)\<^sup>*\<^sup>* (s0, w1) (s, w)"
  shows "case cs_context s of
      None \<Rightarrow> \<forall>e. \<not> delivered e s
    | Some x \<Rightarrow> x_retain_count x = 4 \<and> x_in x \<and> x_out x \<and> x_timer x \<and>
        (\<forall>e\<in>{End_Encountered, Read_Error, Write_Error, Timer_Fired}.
           \<exists>s' w'. context_callback cf ph e s w = Inr (s', w') \<and> cs_context s' = None)"
proof -
  obtain s1 w' where "HttpContextCreate cf ph sock w0 = Inr (Some s1, w')"
    using assms(2) by (auto simp: AcceptConnection_def rbind_Inr_iff split: option.splits)
  from AcceptConnection_created [OF assms(1) this] assms(2) have "context_inv s0" by auto
  with context_reachable_inv [OF assms(3,1)] have inv: "context_inv s" by simp
  show ?thesis
  proof (cases "cs_context s")
    case None
    then have "\<not> delivered e s" for e using inv by (cases e) (simp_all add: context_inv_def)
    with None show ?thesis by simp
  next
    case (Some x)
    with inv show ?thesis by (simp add: HandleEnd_frees [OF assms(1) inv Some] context_inv_def life_def)
  qed
qed

definition sample_cf :: "string cf" where
  "sample_cf =
     \<lparr>cf_create_pair = (\<lambda>w _. (True, True, w)), cf_data_create = (\<lambda>_. True),
      cf_set_read_client = (\<lambda>w. (True, w)), cf_set_write_client = (\<lambda>w. (True, w)),
      cf_open_read = (\<lambda>w. (True, w)), cf_open_write = (\<lambda>w. (True, w)), cf_timer_create = (\<lambda>w. (True, w)),
      cf_read = (\<lambda>w _. (Moved w, [])), cf_write = (\<lambda>w bs. (Moved bs, w)), cf_can_accept = (\<lambda>_. True),
      cf_close_stream = (\<lambda>w. w), cf_retain_calls = 1, cf_release_calls = 1\<rparr>"

definition sample_open :: context_state where
  "sample_open =
     \<lparr>cs_context = Some (zero_context\<lparr>x_retain_count := 4, x_in := True, x_out := True, x_timer := True\<rparr>),
      cs_read_client = True, cs_write_client = True\<rparr>"

lemma sample_accept: "AcceptConnection sample_cf sample_phone 5 [] = Inr (Some sample_open, [])"
  by (simp add: AcceptConnection_def HttpContextCreate_def HttpContextOpen_def context_ops sample_cf_def sample_phone_def
      sample_os_def sample_open_def zero_context_def)

theorem context_lifecycle_witness:
  "\<exists>s' w'. context_callback sample_cf sample_phone Timer_Fired sample_open [] = Inr (s', w') \<and> cs_context s' = None"
  using context_lifecycle [OF _ sample_accept, of sample_open "[]"]
  by (auto simp: sample_open_def cf_counts_def sample_cf_def simp del: context_callback.simps)

text \<open>
  C35. What accepting a socket can end in: it fails only with the assertion of \<open>HttpContextRelease\<close>, and
  this exactly when memory for the connection was there and a stream was created, but not both streams
  or not the memory for buffers and request.
\<close>

theorem AcceptConnection_fails_iff:
  assumes "cf_counts cf" and "cf_create_pair cf w sock = (i, ou, w1)"
  shows "AcceptConnection cf ph sock w = Inl e \<longleftrightarrow>
    e = Assertion_Failed \<and> os_malloc (ph_os ph) w sizeof_context \<and> (i \<or> ou) \<and>
    \<not> (i \<and> ou \<and> cf_data_create cf w1 \<and> os_malloc (ph_os ph) w1 sizeof_request)"
proof (cases "\<exists>s w2. HttpContextCreate cf ph sock w = Inr (Some s, w2)")
  case True
  then obtain s w2 where c: "HttpContextCreate cf ph sock w = Inr (Some s, w2)" by blast
  moreover from c assms(2) have "i \<and> ou \<and> cf_data_create cf w1 \<and> os_malloc (ph_os ph) w1 sizeof_request"
    by (auto simp: HttpContextCreate_def Let_def rbind_Inr_iff split: if_splits)
  ultimately show ?thesis using AcceptConnection_created [OF assms(1) c] by auto
next
  case False
  then show ?thesis
    using assms(2)
    by (auto simp: AcceptConnection_def HttpContextCreate_def HttpContextRetain_def HttpContextRelease_def upd_context_def
        zero_context_def Let_def split: if_splits)
qed

theorem AcceptConnection_fails_iff_witness:
  "AcceptConnection (sample_cf\<lparr>cf_data_create := \<lambda>_. False\<rparr>) sample_phone 5 [] = Inl Assertion_Failed"
  using AcceptConnection_fails_iff [of "sample_cf\<lparr>cf_data_create := \<lambda>_. False\<rparr>" "[]" 5 True True "[]" sample_phone Assertion_Failed]
  by (simp add: cf_counts_def sample_cf_def sample_phone_def sample_os_def)

section \<open>Sending\<close>

text \<open>\<open>n\<close> rounds of "can accept bytes".\<close>

fun drain :: "'w cf \<Rightarrow> nat \<Rightarrow> http_context \<Rightarrow> 'w \<Rightarrow> http_context \<times> 'w" where
  "drain cf 0 x w = (x, w)"
| "drain cf (Suc n) x w = (let (x1, w1) = HandleCanAcceptBytes cf x w in drain cf n x1 w1)"

text \<open>
  A write stream: \<open>wire w\<close> is all it has accepted so far. A call that reports bytes as written has accepted
  exactly these, the first ones it was given; a call that reports an error has accepted none.
\<close>

definition write_stream :: "'w cf \<Rightarrow> ('w \<Rightarrow> string) \<Rightarrow> bool" where
  "write_stream cf wire \<longleftrightarrow>
     (\<forall>w bs. case cf_write cf w bs of
        (Moved m, w') \<Rightarrow> (\<exists>k. m = take k bs) \<and> wire w' = wire w @ m
      | (_, w') \<Rightarrow> wire w' = wire w)"

lemma HandleCanAcceptBytes_wire:
  assumes "write_stream cf wire" and "HandleCanAcceptBytes cf x w = (x', w')"
  shows "wire w' @ x_send x' = wire w @ x_send x" "x' = x\<lparr>x_send := x_send x'\<rparr>"
    "(\<forall>w bs. bs \<noteq> [] \<longrightarrow> (\<exists>m w'. cf_write cf w bs = (Moved m, w') \<and> m \<noteq> [])) \<Longrightarrow> x_send x \<noteq> [] \<Longrightarrow>
       length (x_send x') < length (x_send x)"
proof -
  obtain r w1 where wr: "cf_write cf w (x_send x) = (r, w1)" by fastforce
  have law: "case r of Moved m \<Rightarrow> (\<exists>k. m = take k (x_send x)) \<and> wire w1 = wire w @ m | _ \<Rightarrow> wire w1 = wire w"
    using assms(1) [unfolded write_stream_def, rule_format, of "x_send x" w] wr by (cases r) simp_all
  show "wire w' @ x_send x' = wire w @ x_send x" "x' = x\<lparr>x_send := x_send x'\<rparr>"
    using assms(2) wr law
    by (auto simp: HandleCanAcceptBytes_def min_def split: if_splits io_ret.splits)
  assume prog: "\<forall>w bs. bs \<noteq> [] \<longrightarrow> (\<exists>m w'. cf_write cf w bs = (Moved m, w') \<and> m \<noteq> [])" and ne: "x_send x \<noteq> []"
  then obtain m w2 where "cf_write cf w (x_send x) = (Moved m, w2)" "m \<noteq> []" by blast
  then show "length (x_send x') < length (x_send x)"
    using assms(2) ne by (auto simp: HandleCanAcceptBytes_def)
qed

text \<open>
  C36. Nothing of a reply is lost, doubled or reordered while it is sent: after any number of events,
  what the stream has accepted in the meantime and what is still in the send buffer are together the
  reply, in its order, and nothing else of the connection has changed. When the stream accepts at least
  one byte of what it is given, as many events as the reply has bytes bring all of it out.
\<close>

theorem reply_leaves_complete:
  assumes "write_stream cf wire" and "drain cf n x w = (x', w')"
  shows "wire w' @ x_send x' = wire w @ x_send x \<and> x' = x\<lparr>x_send := x_send x'\<rparr> \<and>
    ((\<forall>w bs. bs \<noteq> [] \<longrightarrow> (\<exists>m w'. cf_write cf w bs = (Moved m, w') \<and> m \<noteq> [])) \<and> length (x_send x) \<le> n \<longrightarrow>
      wire w' = wire w @ x_send x \<and> x_send x' = [])"
  using assms(2)
proof (induction n arbitrary: x w)
  case (Suc n)
  obtain x1 w1 where h: "HandleCanAcceptBytes cf x w = (x1, w1)" by fastforce
  note step = HandleCanAcceptBytes_wire [OF assms(1) h]
  have IH: "wire w' @ x_send x' = wire w1 @ x_send x1" "x' = x1\<lparr>x_send := x_send x'\<rparr>"
    "(\<forall>w bs. bs \<noteq> [] \<longrightarrow> (\<exists>m w'. cf_write cf w bs = (Moved m, w') \<and> m \<noteq> [])) \<and> length (x_send x1) \<le> n \<Longrightarrow> x_send x' = []"
    using Suc.IH [of x1 w1] Suc.prems h by simp_all
  have eq: "wire w' @ x_send x' = wire w @ x_send x" using IH(1) step(1) by simp
  have "x' = x\<lparr>x_send := x_send x'\<rparr>" using IH(2) step(2) by (metis http_context.surjective http_context.update_convs(6))
  moreover have "x_send x' = []"
    if prog: "\<forall>w bs. bs \<noteq> [] \<longrightarrow> (\<exists>m w'. cf_write cf w bs = (Moved m, w') \<and> m \<noteq> [])" and le: "length (x_send x) \<le> Suc n"
  proof (rule IH(3), intro conjI)
    show "length (x_send x1) \<le> n"
      using step(3) [OF prog] le h by (cases "x_send x = []") (simp_all add: HandleCanAcceptBytes_def)
  qed (rule prog)
  ultimately show ?case using eq by auto
qed auto

theorem reply_leaves_complete_witness:
  "let cf = sample_cf\<lparr>cf_write := \<lambda>w bs. (Moved (take 2 bs), w @ take 2 bs)\<rparr>
   in \<exists>x' w'. drain cf 5 (zero_context\<lparr>x_send := ''reply''\<rparr>) ''earlier '' = (x', w') \<and>
     w' = ''earlier reply'' \<and> x_send x' = []"
proof -
  let ?cf = "sample_cf\<lparr>cf_write := \<lambda>w bs. (Moved (take 2 bs), w @ take 2 bs)\<rparr>"
  let ?x = "zero_context\<lparr>x_send := ''reply''\<rparr>"
  have ws: "write_stream ?cf (\<lambda>w. w)" by (auto simp: write_stream_def)
  obtain x' w' where d: "drain ?cf 5 ?x ''earlier '' = (x', w')" by fastforce
  show ?thesis using reply_leaves_complete [OF ws d] d by (auto simp: Let_def)
qed

section \<open>A second request on a connection\<close>

lemma table_trim: "list_all (\<lambda>(hl, ty, h, name). case trim (name @ [NUL]) of Inl _ \<Rightarrow> False | Inr _ \<Rightarrow> True) http_headers"
  by code_simp

lemma headers_hash_total:
  assumes "\<And>h name v. ch h = Some (name, v) \<Longrightarrow> \<exists>b. trim (name @ [NUL]) = Inr b"
  shows "\<exists>hh. headers_hash ch hs = Inr hh"
proof (induction hs)
  case (Cons h hs)
  then obtain hh where "headers_hash ch hs = Inr hh" by blast
  then show ?case
    using assms by (cases "ch h") (fastforce simp: header_entry_def)+
qed simp

lemma headers_hash_lines:
  assumes "list_all plain_line ls"
  shows "\<exists>hh. headers_hash (head_headers ph ls no_headers) hs = Inr hh"
proof (rule headers_hash_total)
  fix h name v assume "head_headers ph ls no_headers h = Some (name, v)"
  then have "shown (head_headers ph ls no_headers) h = Some (name, hdr_show v)" by (simp add: shown_def)
  then have "map_of (rev (map line_entry ls)) h = Some (name, hdr_show v)"
    using shown_head_headers [OF assms, of ph no_headers] by (simp add: shown_no_headers)
  then have "(h, name, hdr_show v) \<in> line_entry ` set ls" by (metis map_of_SomeD list.set_map set_rev)
  then obtain hl ty u where "((hl, ty, h, name), u) \<in> set ls" by (auto simp: line_entry_def split: prod.splits)
  then have "(hl, ty, h, name) \<in> set http_headers" using assms by (fastforce simp: list_all_iff)
  from table_trim [unfolded list_all_iff, THEN bspec, OF this]
  show "\<exists>b. trim (name @ [NUL]) = Inr b" by (cases "trim (name @ [NUL])") simp_all
qed

lemma GetRoute_model: "GetRoute uri = (True, route) \<Longrightarrow> r_model route \<noteq> None"
  by (auto simp: GetRoute_def tok_def Let_def split: prod.splits if_splits option.splits)

text \<open>The hash for a parsed request depends on the received bytes only in its last entry.\<close>

definition request_entries :: "http_method \<Rightarrow> string \<Rightarrow> route \<Rightarrow> rhash \<Rightarrow> rhash" where
  "request_entries mth uri route hh =
     [(''application'', Rh_Str (r_application route)), (''model'', Rh_Str (the (r_model route)))]
     @ opt_entry ''action'' (r_action route) @ opt_entry ''id'' (r_id route)
     @ [(''request-method'', Rh_Str (method_name mth)), (''request-uri'', Rh_Str uri), (''request-query'', Rh_Str []),
        (''headers'', Rh_Hash hh)]"

definition body_entry :: "string \<Rightarrow> rhash" where
  "body_entry body = (if body = [] then [] else [(''request-body'', Rh_Str body)])"

lemma HTTPProcessMessage_framework:
  assumes "q_uri (x_request x) = Some uri" and "uri_plain uri" and "q_method (x_request x) = mth" and "mth \<noteq> METHOD_GET"
    and "length uri + length (ph_root ph) < PHONE_URI_MAX" and "GetRoute uri = (True, route)"
    and "r_application route \<notin> {''AppManager'', ''system'', ''shared''}"
    and "os_malloc (ph_os ph) w (length uri + 1)" and "headers_hash (q_ch (x_request x)) all_hdrs = Inr hh"
    and "ph_call_framework ph w (request_entries mth uri route hh @ body_entry (x_rcvd x)) = (Some a, w1)"
  shows "HTTPProcessMessage ph x w = Inr (1, send_bytes (cstr a) (upd_request (\<lambda>q. q\<lparr>q_query := None\<rparr>) x), w1)"
proof -
  let ?x = "upd_request (\<lambda>q. q\<lparr>q_query := None\<rparr>) x"
  obtain m where m: "r_model route = Some m" using GetRoute_model [OF assms(6)] by blast
  have "CreateRequestHash ?x route = Inr (request_entries mth uri route hh @ body_entry (x_rcvd x))"
    using assms(1,3,9) m by (simp add: CreateRequestHash_def request_entries_def body_entry_def HTTPGetMethod_def)
  then have "Dispatch ph ?x w = Inr (1, send_bytes (cstr a) ?x, w1)"
    using assms(1,6-8,10) by (simp add: Dispatch_def ExecuteApp_def CallApplication_def send_answer_def)
  moreover have "upd_request (\<lambda>q. q\<lparr>q_uri := Some uri, q_query := None\<rparr>) x = ?x" using assms(1) by (simp add: upd_request_def)
  ultimately show ?thesis
    using assms(1-5) by (simp add: HTTPProcessMessage_def split_query_none decode_in_place_eq pct_decode_id uri_plain_def)
qed

text \<open>
  C34. Bytes that arrive after a complete request run that request again. On a fresh connection, the read
  that brings a whole request, not a GET, has the framework called with its method, URI, headers and body, and
  the answer put into the send buffer; nothing marks the request as done: the next read, whatever it
  brings, has the framework called once more, with the same method, URI and headers and with the new
  bytes behind the old body, and its answer is sent behind the first.
\<close>

theorem request_runs_again:
  assumes "\<forall>w n. os_malloc (ph_os ph) w n" and "uri_ok uri" and "uri_plain uri" and "mth \<noteq> METHOD_GET"
    and "list_all plain_line ls" and "announces ls (length body)"
    and "length (request_head mth uri ls @ body) \<le> READ_BUF" and "length uri + length (ph_root ph) < PHONE_URI_MAX"
    and "GetRoute uri = (True, route)" and "r_application route \<notin> {''AppManager'', ''system'', ''shared''}"
    and "x_rcvd x = []" and "x_request x = zero_request"
    and "\<forall>w r. ph_call_framework ph w r = (Some (ans w r), after w r)" and "\<forall>w. \<not> cf_can_accept cf w"
    and "cf_read cf w READ_BUF = (Moved (request_head mth uri ls @ body), w1)"
  shows "\<exists>hh x1. let req = request_entries mth uri route hh @ body_entry body in
    HandleHasBytesAvailable cf ph x w = Inr (x1, after w1 req) \<and> x_send x1 = x_send x @ cstr (ans w1 req) \<and>
    (\<forall>bs w2. cf_read cf (after w1 req) READ_BUF = (Moved bs, w2) \<and> bs \<noteq> [] \<and> length bs \<le> READ_BUF \<longrightarrow>
      (let req' = request_entries mth uri route hh @ body_entry (body @ bs) in
       \<exists>x2. HandleHasBytesAvailable cf ph x1 (after w1 req) = Inr (x2, after w2 req') \<and>
         x_send x2 = x_send x @ cstr (ans w1 req) @ cstr (ans w2 req')))"
proof -
  let ?p = "\<lambda>b. parsed_request ph mth uri ls b x" and ?f = "\<lambda>q. q\<lparr>q_query := None\<rparr>"
  obtain hh where hh: "headers_hash (head_headers ph ls no_headers) all_hdrs = Inr hh"
    using headers_hash_lines [OF assms(5)] by blast
  have ne: "request_head mth uri ls \<noteq> []" using min_head [OF assms(2), of mth ls] by auto
  let ?req = "\<lambda>b. request_entries mth uri route hh @ body_entry b"
  have q: "q_uri (x_request (?p b)) = Some uri" "q_method (x_request (?p b)) = mth" "x_rcvd (?p b) = b"
    "x_send (?p b) = x_send x" "q_parsed (x_request (?p b))"
    "q_ch (x_request (?p b)) = head_headers ph ls no_headers" for b
    using assms(12) by (simp_all add: parsed_request_def zero_request_def)
  have run: "HTTPProcessMessage ph y v = Inr (1, send_bytes (cstr (ans v (?req (x_rcvd y)))) (upd_request ?f y), after v (?req (x_rcvd y)))"
    if "q_uri (x_request y) = Some uri" "q_method (x_request y) = mth" "q_ch (x_request y) = head_headers ph ls no_headers" for y v
    using HTTPProcessMessage_framework [OF that(1) assms(3) that(2) assms(4,8-10), of v hh] assms(1,13) hh that(3) by simp
  have "length (request_head mth uri ls) \<le> 2048" using assms(7) by (simp add: READ_BUF_def)
  from HTTPParseRequest_piece [OF assms(1) [rule_format] assms(2,5) this assms(12,6), of "[]" "request_head mth uri ls @ body" "[]"]
  have parse: "HTTPParseRequest ph w1 (x\<lparr>x_rcvd := request_head mth uri ls @ body\<rparr>) = Inr (1, ?p body)"
    using ne assms(11) by (simp add: received_def)
  define x1 where "x1 = send_bytes (cstr (ans w1 (?req body))) (upd_request ?f (?p body))"
  have first: "HandleHasBytesAvailable cf ph x w = Inr (x1, after w1 (?req body))"
    using assms(7,11,14,15) ne parse run [of "?p body" w1] q by (simp add: HandleHasBytesAvailable_def x1_def)
  have again: "\<exists>x2. HandleHasBytesAvailable cf ph x1 (after w1 (?req body)) = Inr (x2, after w2 (?req (body @ bs))) \<and>
      x_send x2 = x_send x @ cstr (ans w1 (?req body)) @ cstr (ans w2 (?req (body @ bs)))"
    if bs: "cf_read cf (after w1 (?req body)) READ_BUF = (Moved bs, w2)" "bs \<noteq> []" "length bs \<le> READ_BUF" for bs w2
  proof -
    let ?y = "x1\<lparr>x_rcvd := body @ bs\<rparr>"
    have y: "q_uri (x_request ?y) = Some uri" "q_method (x_request ?y) = mth" "q_parsed (x_request ?y)"
      "q_ch (x_request ?y) = head_headers ph ls no_headers" "x_send ?y = x_send x @ cstr (ans w1 (?req body))" "x_rcvd x1 = body"
      using q by (simp_all add: x1_def)
    have "HTTPParseRequest ph w2 ?y = Inr (1, ?y)"
      using y announced_length [OF assms(5,6), of ph] by (simp add: HTTPParseRequest_def)
    then show ?thesis
      using bs y run [of ?y w2] assms(14) by (simp add: HandleHasBytesAvailable_def)
  qed
  from first again show ?thesis
    by (intro exI [of _ hh] exI [of _ x1]) (simp add: Let_def x1_def q)
qed

text \<open>A stream whose reads bring first a request, then one byte more.\<close>

definition two_reads_cf :: "string cf" where
  "two_reads_cf = sample_cf\<lparr>cf_can_accept := \<lambda>_. False,
     cf_read := \<lambda>w _. if w = ''first''
       then (Moved (request_head METHOD_POST ''/app/Note'' [((16, T_INT, H_cl, ''Content-Length: ''), ''2'')] @ ''hi''), ''second'')
       else (Moved ''x'', [])\<rparr>"

theorem request_runs_again_witness:
  "\<exists>x1 x2. HandleHasBytesAvailable two_reads_cf sample_phone zero_context ''first'' = Inr (x1, ''second'') \<and> x_send x1 = ''OK'' \<and>
     HandleHasBytesAvailable two_reads_cf sample_phone x1 ''second'' = Inr (x2, []) \<and> x_send x2 = ''OKOK''"
proof -
  let ?ls = "[((16, T_INT, H_cl, ''Content-Length: ''), ''2'')]"
  let ?route = "\<lparr>r_url = ''/app/Note'', r_application = ''app'', r_model = Some ''Note'', r_id = None, r_action = None\<rparr>"
  have two: "dec 2 = ''2''" by code_simp
  then have "\<exists>n<4294967296. ''2'' = dec n" by (intro exI [of _ 2]) simp
  then have ls: "list_all plain_line ?ls" by (simp add: http_headers_def plain_def ctl_char_def isprint_def)
  have uri: "uri_ok ''/app/Note''" by (simp add: uri_ok_def plain_def ctl_char_def isprint_def)
  have cl: "announces ?ls (length ''hi'')" using two by (simp add: announces_def line_entry_def numeral_2_eq_2)
  have len: "length (request_head METHOD_POST ''/app/Note'' ?ls @ ''hi'') \<le> READ_BUF"
    by (simp add: request_head_def header_block_def crlf_def READ_BUF_def)
  have route: "GetRoute ''/app/Note'' = (True, ?route)" by code_simp
  have "\<forall>w n. os_malloc (ph_os sample_phone) w n" by (simp add: sample_phone_def sample_os_def)
  from request_runs_again [OF this uri _ _ ls cl len _ route, of zero_context "\<lambda>_ _. ''OK''" "\<lambda>w _. w" two_reads_cf "''first''" "''second''"]
  obtain hh x1 where r: "let req = request_entries METHOD_POST ''/app/Note'' ?route hh @ body_entry ''hi'' in
    HandleHasBytesAvailable two_reads_cf sample_phone zero_context ''first'' = Inr (x1, ''second'') \<and>
    x_send x1 = x_send zero_context @ cstr ''OK'' \<and>
    (\<forall>bs w2. cf_read two_reads_cf ''second'' READ_BUF = (Moved bs, w2) \<and> bs \<noteq> [] \<and> length bs \<le> READ_BUF \<longrightarrow>
      (let req' = request_entries METHOD_POST ''/app/Note'' ?route hh @ body_entry (''hi'' @ bs) in
       \<exists>x2. HandleHasBytesAvailable two_reads_cf sample_phone x1 ''second'' = Inr (x2, w2) \<and>
         x_send x2 = x_send zero_context @ cstr ''OK'' @ cstr ''OK''))"
    by (auto simp: uri_plain_def PHONE_URI_MAX_def sample_phone_def zero_context_def two_reads_cf_def sample_cf_def)
  have "cf_read two_reads_cf ''second'' READ_BUF = (Moved ''x'', [])" "length ''x'' \<le> READ_BUF"
    by (simp_all add: two_reads_cf_def READ_BUF_def)
  moreover have "x_send zero_context = []" by (simp add: zero_context_def)
  ultimately obtain x2 where "HandleHasBytesAvailable two_reads_cf sample_phone x1 ''second'' = Inr (x2, [])"
      "x_send x2 = ''OKOK''" "x_send x1 = ''OK''"
    using r unfolding Let_def by (auto simp: cstr_def)
  with r show ?thesis unfolding Let_def by (intro exI [of _ x1] exI [of _ x2]) simp
qed

end
