(* ===== verification/IphoneServer.thy ===== *)
theory IphoneServer
  imports Prelude "HOL-Library.Word"
begin

unbundle bit_operations_syntax

text \<open>
  The listening server of the iPhone build (\<open>platform/iphone/Classes/Server/Server.c\<close>) and the thread that owns
  it (\<open>ServerHost.m\<close>): creation, connection to the network, invalidation and the callbacks, with the
  reference counts of the server and of the CoreFoundation objects it uses.
\<close>

section \<open>State\<close>

text \<open>The CoreFoundation objects the code holds references to.\<close>

datatype cf_object = Socket | Source | Address | Name | Type | Service | Info

text \<open>
  \<open>struct __Server\<close>; pointers are represented by whether they are set. \<open>ps_info\<close>, \<open>ps_retain\<close> and \<open>ps_release\<close> are
  the fields of the user's context that matter.
\<close>

record phone_server =
  ps_rc :: "32 word"
  ps_socket :: bool
  ps_name :: bool
  ps_type :: bool
  ps_port :: "32 word"
  ps_service :: bool
  ps_callback :: bool
  ps_info :: bool
  ps_retain :: bool
  ps_release :: bool

text \<open>
  The memory of the server, \<open>None\<close> once it is deallocated; whether its socket and its net service still have it as
  their client and so hold a reference to it; and for every kind of object how many references the code has
  acquired and not given back.
\<close>

record server_state =
  ss_server :: "phone_server option"
  ss_sock_client :: bool
  ss_svc_client :: bool
  ss_refs :: "cf_object \<Rightarrow> int"

definition acquire :: "cf_object \<Rightarrow> server_state \<Rightarrow> server_state" where
  "acquire ob s = s\<lparr>ss_refs := (ss_refs s)(ob := ss_refs s ob + 1)\<rparr>"

definition give_back :: "cf_object \<Rightarrow> server_state \<Rightarrow> server_state" where
  "give_back ob s = s\<lparr>ss_refs := (ss_refs s)(ob := ss_refs s ob - 1)\<rparr>"

definition the_server :: "server_state \<Rightarrow> phone_server res" where
  "the_server s = (case ss_server s of None \<Rightarrow> Inl Use_After_Free | Some v \<Rightarrow> Inr v)"

definition upd_server :: "(phone_server \<Rightarrow> phone_server) \<Rightarrow> server_state \<Rightarrow> server_state res" where
  "upd_server f s = rbind (the_server s) (\<lambda>v. Inr (s\<lparr>ss_server := Some (f v)\<rparr>))"

text \<open>
  What the calls of CoreFoundation and of the socket layer answer. \<open>so_local_port\<close> is the port in the address
  \<open>CFSocketCopyAddress\<close> returns, \<open>None\<close> when it returns NULL.
\<close>

record 'w server_os =
  so_alloc :: "'w \<Rightarrow> bool"
  so_socket :: "'w \<Rightarrow> bool \<times> 'w"
  so_source :: "'w \<Rightarrow> bool"
  so_data :: "'w \<Rightarrow> bool"
  so_set_address :: "'w \<Rightarrow> 16 word \<Rightarrow> bool \<times> 'w"
  so_local_port :: "'w \<Rightarrow> 16 word option"
  so_service :: "'w \<Rightarrow> 32 word \<Rightarrow> bool \<times> 'w"
  so_set_client :: "'w \<Rightarrow> bool"
  so_register :: "'w \<Rightarrow> bool \<times> 'w"

section \<open>Reference counts and invalidation\<close>

definition ServerRetain :: "server_state \<Rightarrow> server_state res" where
  "ServerRetain s = upd_server (\<lambda>v. v\<lparr>ps_rc := ps_rc v + 1\<rparr>) s"

text \<open>
  Invalidating a socket and taking the client of a net service away call the release function of their client, which
  is \<open>ServerRelease\<close>; so the functions are mutually recursive. The fuel bounds the nesting.
\<close>

definition drop_context :: "server_state \<Rightarrow> server_state res" where
  "drop_context s =
     rbind (the_server s) (\<lambda>v.
       upd_server (\<lambda>v. v\<lparr>ps_info := False, ps_retain := False, ps_release := False, ps_callback := False\<rparr>)
         (if ps_info v \<and> ps_release v then give_back Info s else s))"

definition drop_names :: "server_state \<Rightarrow> server_state res" where
  "drop_names s =
     rbind (the_server s) (\<lambda>v.
       let s1 = (if ps_name v then give_back Name s else s);
           s2 = (if ps_type v then give_back Type s1 else s1)
       in upd_server (\<lambda>v. v\<lparr>ps_name := False, ps_type := False\<rparr>) s2)"

fun ServerRelease :: "nat \<Rightarrow> server_state \<Rightarrow> server_state res"
  and ServerInvalidate :: "nat \<Rightarrow> server_state \<Rightarrow> server_state res"
  and ServerReleaseNetService :: "nat \<Rightarrow> server_state \<Rightarrow> server_state res"
  and ServerReleaseSocket :: "nat \<Rightarrow> server_state \<Rightarrow> server_state res"
where
  "ServerRelease 0 s = Inl Out_Of_Fuel"
| "ServerRelease (Suc n) s =
     rbind (upd_server (\<lambda>v. v\<lparr>ps_rc := ps_rc v - 1\<rparr>) s) (\<lambda>s1.
     rbind (the_server s1) (\<lambda>v.
       if ps_rc v = 0
       then rbind (ServerInvalidate n s1) (\<lambda>s2. rbind (the_server s2) (\<lambda>_. Inr (s2\<lparr>ss_server := None\<rparr>)))
       else Inr s1))"
| "ServerInvalidate 0 s = Inl Out_Of_Fuel"
| "ServerInvalidate (Suc n) s =
     rbind (drop_context s) (\<lambda>s1.
     rbind (ServerReleaseNetService n s1) (\<lambda>s2.
     rbind (drop_names s2) (ServerReleaseSocket n)))"
| "ServerReleaseNetService 0 s = Inl Out_Of_Fuel"
| "ServerReleaseNetService (Suc n) s =
     rbind (the_server s) (\<lambda>v.
       if ps_service v
       then rbind (if ss_svc_client s then ServerRelease n (s\<lparr>ss_svc_client := False\<rparr>) else Inr s) (\<lambda>s1.
            upd_server (\<lambda>v. v\<lparr>ps_service := False\<rparr>) (give_back Service s1))
       else Inr s)"
| "ServerReleaseSocket 0 s = Inl Out_Of_Fuel"
| "ServerReleaseSocket (Suc n) s =
     rbind (the_server s) (\<lambda>v.
       if ps_socket v
       then rbind (if ss_sock_client s then ServerRelease n (s\<lparr>ss_sock_client := False\<rparr>) else Inr s) (\<lambda>s1.
            upd_server (\<lambda>v. v\<lparr>ps_socket := False\<rparr>) (give_back Socket s1))
       else Inr s)"

section \<open>Creation and connection\<close>

definition zero_server :: phone_server where
  "zero_server = \<lparr>ps_rc = 0, ps_socket = False, ps_name = False, ps_type = False, ps_port = 0, ps_service = False,
     ps_callback = False, ps_info = False, ps_retain = False, ps_release = False\<rparr>"

definition release_fuel :: nat where
  "release_fuel = 12"

text \<open>\<open>info\<close>, \<open>retain\<close> and \<open>release\<close> say which fields of the user's context are set; \<open>None\<close> is the null pointer.\<close>

definition ServerCreate ::
  "'w server_os \<Rightarrow> bool \<Rightarrow> bool \<Rightarrow> bool \<Rightarrow> bool \<Rightarrow> 'w \<Rightarrow> (server_state option \<times> 'w) res" where
  "ServerCreate so callback info retain release w =
     (if \<not> so_alloc so w then Inr (None, w)
      else
        rbind (ServerRetain \<lparr>ss_server = Some zero_server, ss_sock_client = False, ss_svc_client = False, ss_refs = (\<lambda>_. 0)\<rparr>) (\<lambda>s.
          case so_socket so w of
            (False, w1) \<Rightarrow>
              rbind (ServerInvalidate release_fuel s) (\<lambda>s1.
              rbind (ServerRelease release_fuel s1) (\<lambda>_. Inr (None, w1)))
          | (True, w1) \<Rightarrow>
              rbind (ServerRetain s) (\<lambda>s1.
              rbind (upd_server (\<lambda>v. v\<lparr>ps_socket := True, ps_callback := callback, ps_info := info, ps_retain := retain,
                       ps_release := release\<rparr>) (acquire Socket (s1\<lparr>ss_sock_client := True\<rparr>))) (\<lambda>s2.
                Inr (Some (if info \<and> retain then acquire Info s2 else s2), w1)))))"

text \<open>
  The result of \<open>CFSocketCopyAddress\<close> is used without a test. When the port is still 0 the address is read
  through its pointer after it was released; the model reads it.
\<close>

definition copy_address :: "'w server_os \<Rightarrow> 'w \<Rightarrow> (32 word) res" where
  "copy_address so w = (case so_local_port so w of None \<Rightarrow> Inl Null_Deref | Some p \<Rightarrow> Inr (ucast p))"

definition ServerCreateAndRegisterNetService ::
  "'w server_os \<Rightarrow> server_state \<Rightarrow> 'w \<Rightarrow> (bool \<times> server_state \<times> 'w) res" where
  "ServerCreateAndRegisterNetService so s w =
     rbind (the_server s) (\<lambda>v.
     rbind (if ps_port v = 0 then copy_address so w else Inr (ps_port v)) (\<lambda>port.
       let failed = (\<lambda>s w. rbind (ServerReleaseNetService release_fuel s) (\<lambda>s1. Inr (False, s1, w)))
       in case so_service so w port of
            (False, w1) \<Rightarrow> failed s w1
          | (True, w1) \<Rightarrow>
              rbind (upd_server (\<lambda>v. v\<lparr>ps_service := True\<rparr>) (acquire Service s)) (\<lambda>s1.
                if \<not> so_set_client so w1 then failed s1 w1
                else rbind (ServerRetain (s1\<lparr>ss_svc_client := True\<rparr>)) (\<lambda>s2.
                  case so_register so w1 of
                    (False, w2) \<Rightarrow> failed s2 w2
                  | (True, w2) \<Rightarrow> Inr (True, s2, w2)))))"

text \<open>
  \<open>addr\<close> is the local variable \<open>address\<close>, whether it is not NULL. The failure branch releases it and the socket.
\<close>

definition connect_failed :: "bool \<Rightarrow> server_state \<Rightarrow> 'w \<Rightarrow> (bool \<times> server_state \<times> 'w) res" where
  "connect_failed addr s w =
     rbind (ServerReleaseSocket release_fuel (if addr then give_back Address s else s)) (\<lambda>s1. Inr (False, s1, w))"

definition ServerConnect ::
  "'w server_os \<Rightarrow> bool \<Rightarrow> 32 word \<Rightarrow> server_state \<Rightarrow> 'w \<Rightarrow> (bool \<times> server_state \<times> 'w) res" where
  "ServerConnect so type port s w =
     rbind (the_server s) (\<lambda>v.
       if port AND 0xFFFF0000 \<noteq> 0 then connect_failed False s w
       else
         let s1 = (if so_source so w then give_back Source (acquire Source s) else s)
         in if \<not> so_data so w then connect_failed False s1 w
            else
              let s2 = acquire Address s1
              in case so_set_address so w (ucast port) of
                   (False, w1) \<Rightarrow> connect_failed True s2 w1
                 | (True, w1) \<Rightarrow>
                     rbind (copy_address so w1) (\<lambda>local_port.
                       let s3 = give_back Address (acquire Address (give_back Address s2));
                           s4 = acquire Name s3;
                           s5 = (if type then acquire Type s4 else s4)
                       in rbind (upd_server (\<lambda>v. v\<lparr>ps_name := True, ps_type := type, ps_port := local_port\<rparr>) s5) (\<lambda>s6.
                          rbind (if type then ServerCreateAndRegisterNetService so s6 w1 else Inr (True, s6, w1)) (\<lambda>(ok, s7, w2).
                            if \<not> ok then connect_failed True s7 w2
                            else Inr (True, give_back Address s7, w2)))))"

section \<open>Callbacks\<close>

text \<open>The error branch of \<open>AcceptConnection\<close>, the callback the program installs.\<close>

definition accept_error :: "server_state \<Rightarrow> server_state res" where
  "accept_error s = rbind (ServerInvalidate release_fuel s) (ServerRelease release_fuel)"

definition ServerHandleNetServiceError :: "bool \<Rightarrow> server_state \<Rightarrow> server_state res" where
  "ServerHandleNetServiceError error s =
     (if error
      then rbind (ServerReleaseNetService release_fuel s) (\<lambda>s1.
           rbind (ServerReleaseSocket release_fuel s1) (\<lambda>s2.
           rbind (the_server s2) (\<lambda>v. if ps_callback v then accept_error s2 else Inr s2)))
      else Inr s)"

text \<open>\<open>service\<close> says whether the service that calls back is the one of the server.\<close>

definition NetServiceCallBack :: "bool \<Rightarrow> bool \<Rightarrow> server_state \<Rightarrow> server_state res" where
  "NetServiceCallBack service error s =
     rbind (the_server s) (\<lambda>_. if \<not> service then Inl Assertion_Failed else ServerHandleNetServiceError error s)"

text \<open>A second socket is looked for behind the end of the array of one socket.\<close>

definition ServerCopyDescription :: "server_state \<Rightarrow> string res" where
  "ServerCopyDescription s = rbind (the_server s) (\<lambda>_. Inl Out_Of_Bounds)"

definition ServerShow :: "server_state \<Rightarrow> unit res" where
  "ServerShow s = rbind (ServerCopyDescription s) (\<lambda>_. Inr ())"

text \<open>
  \<open>own\<close> says whether the socket is the one of the server; \<open>handle\<close> is the native socket of a new connection. The
  result is the socket given to the user's callback.
\<close>

definition ServerHandleAccept :: "server_state \<Rightarrow> int \<Rightarrow> int option res" where
  "ServerHandleAccept s handle = rbind (the_server s) (\<lambda>v. Inr (if ps_callback v then Some handle else None))"

definition SocketCallBack :: "bool \<Rightarrow> bool \<Rightarrow> int option \<Rightarrow> server_state \<Rightarrow> int option res" where
  "SocketCallBack own accept handle s =
     rbind (the_server s) (\<lambda>_.
       if \<not> own then Inl Out_Of_Bounds
       else if \<not> accept then Inr None
       else (case handle of
               None \<Rightarrow> Inl Assertion_Failed
             | Some h \<Rightarrow> if h = -1 then Inl Assertion_Failed else ServerHandleAccept s h))"

section \<open>The owner\<close>

text \<open>
  What the thread of \<open>ServerHost\<close> does with the server: \<open>run\<close> is what happens to it while the run loop runs. A
  server that could not connect is not given back.
\<close>

definition ServerHostThreadRoutine ::
  "'w server_os \<Rightarrow> (server_state \<Rightarrow> 'w \<Rightarrow> (server_state \<times> 'w) res) \<Rightarrow> 'w \<Rightarrow> (server_state option \<times> 'w) res" where
  "ServerHostThreadRoutine so run w =
     rbind (ServerCreate so True False False False w) (\<lambda>(so1, w1).
       case so1 of
         None \<Rightarrow> Inr (None, w1)
       | Some s \<Rightarrow>
           rbind (ServerConnect so True 8080 s w1) (\<lambda>(ok, s1, w2).
             if ok then rbind (run s1 w2) (\<lambda>(s2, w3). rbind (ServerInvalidate release_fuel s2) (\<lambda>s3. Inr (Some s3, w3)))
             else Inr (Some s1, w2)))"

section \<open>The invariant\<close>

definition held :: "int \<Rightarrow> phone_server \<Rightarrow> cf_object \<Rightarrow> int" where
  "held k v ob =
     (case ob of
        Socket \<Rightarrow> of_bool (ps_socket v)
      | Source \<Rightarrow> 0
      | Address \<Rightarrow> k
      | Name \<Rightarrow> of_bool (ps_name v)
      | Type \<Rightarrow> of_bool (ps_type v)
      | Service \<Rightarrow> of_bool (ps_service v)
      | Info \<Rightarrow> of_bool (ps_info v \<and> ps_retain v))"

text \<open>
  A server its owner holds one reference to: the count is that reference and those of its clients, and for every
  object the references held are those the fields stand for; \<open>k\<close> is the balance of the address.
\<close>

definition server_ok :: "int \<Rightarrow> server_state \<Rightarrow> bool" where
  "server_ok k s \<longleftrightarrow> (\<exists>v. ss_server s = Some v \<and>
     ps_rc v = 1 + (if ss_sock_client s then 1 else 0) + (if ss_svc_client s then 1 else 0) \<and>
     (ss_sock_client s \<longrightarrow> ps_socket v) \<and> (ss_svc_client s \<longrightarrow> ps_service v) \<and> (ps_info v \<longrightarrow> ps_retain v = ps_release v) \<and>
     ss_refs s = held k v)"

lemma held_eq: "f = held k v \<longleftrightarrow> f Socket = of_bool (ps_socket v) \<and> f Source = 0 \<and> f Address = k \<and> f Name = of_bool (ps_name v) \<and>
    f Type = of_bool (ps_type v) \<and> f Service = of_bool (ps_service v) \<and> f Info = of_bool (ps_info v \<and> ps_retain v)"
proof
  assume "f Socket = of_bool (ps_socket v) \<and> f Source = 0 \<and> f Address = k \<and> f Name = of_bool (ps_name v) \<and>
    f Type = of_bool (ps_type v) \<and> f Service = of_bool (ps_service v) \<and> f Info = of_bool (ps_info v \<and> ps_retain v)"
  then have "f ob = held k v ob" for ob by (cases ob) (simp_all add: held_def)
  then show "f = held k v" by (rule ext)
qed (simp add: held_def)

lemmas server_defs = the_server_def upd_server_def acquire_def give_back_def drop_context_def drop_names_def

lemma release_shared:
  assumes "ss_server s = Some v" and "ps_rc v = 2 + (if b then 1 else 0)"
  shows "ServerRelease (Suc n) s = Inr (s\<lparr>ss_server := Some (v\<lparr>ps_rc := ps_rc v - 1\<rparr>)\<rparr>)"
  using assms by (auto simp: server_defs split: if_splits)

lemma release_net_service_ok:
  assumes "server_ok k s"
  shows "\<exists>s1 v1. ServerReleaseNetService (Suc (Suc n)) s = Inr s1 \<and> server_ok k s1 \<and> \<not> ss_svc_client s1 \<and>
     ss_server s1 = Some v1 \<and> \<not> ps_service v1 \<and> (\<forall>v. ss_server s = Some v \<longrightarrow> ps_callback v1 = ps_callback v)"
proof -
  obtain v where v: "ss_server s = Some v" using assms by (auto simp: server_ok_def)
  show ?thesis
  proof (cases "ps_service v")
    case True
    then show ?thesis using assms v
      by (cases "ss_svc_client s"; cases "ss_sock_client s")
        (auto simp: server_ok_def server_defs held_eq release_shared simp del: ServerRelease.simps)
  qed (use assms v in \<open>auto simp: server_ok_def server_defs\<close>)
qed

lemma release_socket_ok:
  assumes "server_ok k s"
  shows "\<exists>s1 v1. ServerReleaseSocket (Suc (Suc n)) s = Inr s1 \<and> server_ok k s1 \<and> \<not> ss_sock_client s1 \<and>
     ss_svc_client s1 = ss_svc_client s \<and> ss_server s1 = Some v1 \<and> \<not> ps_socket v1 \<and>
     (\<forall>v. ss_server s = Some v \<longrightarrow> ps_callback v1 = ps_callback v \<and> ps_service v1 = ps_service v \<and>
        ps_name v1 = ps_name v \<and> ps_type v1 = ps_type v \<and> ps_info v1 = ps_info v)"
proof -
  obtain v where v: "ss_server s = Some v" using assms by (auto simp: server_ok_def)
  show ?thesis
  proof (cases "ps_socket v")
    case True
    then show ?thesis using assms v
      by (cases "ss_svc_client s"; cases "ss_sock_client s")
        (auto simp: server_ok_def server_defs held_eq release_shared simp del: ServerRelease.simps)
  qed (use assms v in \<open>auto simp: server_ok_def server_defs\<close>)
qed

lemma drop_context_ok:
  assumes "server_ok k s"
  shows "\<exists>s1 v1. drop_context s = Inr s1 \<and> server_ok k s1 \<and> ss_server s1 = Some v1 \<and> \<not> ps_info v1"
proof -
  obtain v where v: "ss_server s = Some v" using assms by (auto simp: server_ok_def)
  let ?v = "v\<lparr>ps_info := False, ps_retain := False, ps_release := False, ps_callback := False\<rparr>"
  let ?s = "(if ps_info v \<and> ps_release v then give_back Info s else s)\<lparr>ss_server := Some ?v\<rparr>"
  have "drop_context s = Inr ?s" using v by (simp add: drop_context_def upd_server_def the_server_def give_back_def)
  moreover have "server_ok k ?s"
    using assms v by (cases "ps_info v"; cases "ps_release v") (simp_all add: server_ok_def give_back_def held_eq)
  ultimately show ?thesis by fastforce
qed

lemma drop_names_ok:
  assumes "server_ok k s"
  shows "\<exists>s1 v1. drop_names s = Inr s1 \<and> server_ok k s1 \<and> ss_server s1 = Some v1 \<and> \<not> ps_name v1 \<and> \<not> ps_type v1 \<and>
     ss_svc_client s1 = ss_svc_client s \<and> (\<forall>v. ss_server s = Some v \<longrightarrow> ps_service v1 = ps_service v \<and> ps_info v1 = ps_info v)"
proof -
  obtain v where v: "ss_server s = Some v" using assms by (auto simp: server_ok_def)
  let ?s1 = "if ps_name v then give_back Name s else s"
  let ?s = "(if ps_type v then give_back Type ?s1 else ?s1)\<lparr>ss_server := Some (v\<lparr>ps_name := False, ps_type := False\<rparr>)\<rparr>"
  have "drop_names s = Inr ?s" using v by (simp add: drop_names_def upd_server_def the_server_def give_back_def Let_def)
  moreover have "server_ok k ?s"
    using assms v by (cases "ps_name v"; cases "ps_type v") (simp_all add: server_ok_def give_back_def held_eq)
  ultimately show ?thesis using v by (auto simp: give_back_def)
qed

text \<open>An invalidated server holds nothing but its memory, and its owner's reference is the last.\<close>

definition idle :: "server_state \<Rightarrow> bool" where
  "idle s \<longleftrightarrow> \<not> ss_sock_client s \<and> \<not> ss_svc_client s \<and> (\<exists>v. ss_server s = Some v \<and> ps_rc v = 1 \<and> \<not> ps_socket v \<and>
     \<not> ps_service v \<and> \<not> ps_name v \<and> \<not> ps_type v \<and> \<not> ps_info v)"

lemma release_net_service_info:
  assumes "ServerReleaseNetService (Suc (Suc n)) s = Inr s1" and "server_ok k s" and "ss_server s = Some v" and "ss_server s1 = Some v1"
  shows "ps_info v1 = ps_info v"
  using assms by (cases "ss_svc_client s"; cases "ss_sock_client s"; cases "ps_service v")
    (auto simp: server_ok_def server_defs release_shared simp del: ServerRelease.simps)

lemma ServerInvalidate_ok:
  assumes "server_ok k s"
  shows "\<exists>s1. ServerInvalidate (Suc (Suc (Suc n))) s = Inr s1 \<and> server_ok k s1 \<and> idle s1"
proof -
  obtain s1 v1 where 1: "drop_context s = Inr s1" "server_ok k s1" "ss_server s1 = Some v1" "\<not> ps_info v1"
    using drop_context_ok [OF assms] by blast
  obtain s2 v2 where 2: "ServerReleaseNetService (Suc (Suc n)) s1 = Inr s2" "server_ok k s2" "\<not> ss_svc_client s2"
      "ss_server s2 = Some v2" "\<not> ps_service v2"
    using release_net_service_ok [OF 1(2)] by blast
  have i2: "\<not> ps_info v2" using release_net_service_info [OF 2(1) 1(2,3) 2(4)] 1(4) by simp
  obtain s3 v3 where 3: "drop_names s2 = Inr s3" "server_ok k s3" "ss_server s3 = Some v3" "\<not> ps_name v3" "\<not> ps_type v3"
      "\<not> ss_svc_client s3" "\<not> ps_service v3" "\<not> ps_info v3"
    using drop_names_ok [OF 2(2)] 2 i2 by metis
  obtain s4 v4 where 4: "ServerReleaseSocket (Suc (Suc n)) s3 = Inr s4" "server_ok k s4" "\<not> ss_sock_client s4"
      "\<not> ss_svc_client s4" "ss_server s4 = Some v4" "\<not> ps_socket v4" "\<not> ps_service v4" "\<not> ps_name v4" "\<not> ps_type v4" "\<not> ps_info v4"
    using release_socket_ok [OF 3(2)] 3 by metis
  have "ps_rc v4 = 1" using 4(2-5) by (auto simp: server_ok_def)
  with 1(1) 2(1) 3(1) 4 show ?thesis by (simp add: idle_def)
qed

lemma ServerRelease_last:
  assumes "server_ok k s" and "idle s"
  shows "\<exists>s1. ServerRelease (Suc (Suc (Suc (Suc n)))) s = Inr s1 \<and> ss_server s1 = None \<and> \<not> ss_sock_client s1 \<and>
     \<not> ss_svc_client s1 \<and> ss_refs s1 = held k zero_server"
  using assms by (auto simp: server_ok_def idle_def server_defs held_eq zero_server_def)

lemma release_fuel_Suc: "release_fuel = Suc (Suc 10)" "release_fuel = Suc (Suc (Suc 9))" "release_fuel = Suc (Suc (Suc (Suc 8)))"
  by (simp_all add: release_fuel_def)

lemma ServerCreate_ok:
  assumes "ServerCreate so callback info retain release w = Inr (Some s, w1)" and "retain = release"
  shows "server_ok 0 s"
  using assms by (auto simp: ServerCreate_def ServerRetain_def server_defs zero_server_def server_ok_def held_eq
      rbind_Inr_iff split: if_splits prod.splits bool.splits)

section \<open>Connecting\<close>

definition unconnected :: "server_state \<Rightarrow> bool" where
  "unconnected s \<longleftrightarrow> \<not> ss_svc_client s \<and> (\<exists>v. ss_server s = Some v \<and> \<not> ps_service v \<and> \<not> ps_name v \<and> \<not> ps_type v)"

lemma ServerCreate_unconnected:
  assumes "ServerCreate so callback info retain release w = Inr (Some s, w1)"
  shows "unconnected s"
  using assms by (auto simp: ServerCreate_def ServerRetain_def server_defs zero_server_def unconnected_def
      rbind_Inr_iff split: if_splits prod.splits bool.splits)

lemma server_ok_address: "server_ok k s \<Longrightarrow> server_ok (k - 1) (give_back Address s)"
  by (auto simp: server_ok_def give_back_def held_eq)

lemma connect_failed_ok:
  assumes "server_ok k s"
  shows "\<exists>s1. connect_failed addr s w = Inr (False, s1, w) \<and> server_ok (if addr then k - 1 else k) s1"
proof -
  have "server_ok (if addr then k - 1 else k) (if addr then give_back Address s else s)"
    using server_ok_address [OF assms] assms by simp
  from release_socket_ok [OF this, of 10] obtain s1 where
    "ServerReleaseSocket release_fuel (if addr then give_back Address s else s) = Inr s1" "server_ok (if addr then k - 1 else k) s1"
    unfolding release_fuel_Suc(1) by blast
  then show ?thesis by (simp add: connect_failed_def)
qed

lemma release_net_fuel: "server_ok k s \<Longrightarrow> \<exists>s1. ServerReleaseNetService release_fuel s = Inr s1 \<and> server_ok k s1"
  unfolding release_fuel_Suc(1) using release_net_service_ok [of k s 10] by blast

lemma register_ok:
  assumes ok: "server_ok k s" and v: "ss_server s = Some v" "\<not> ps_service v" "\<not> ss_svc_client s"
    and port: "so_local_port so w = Some p"
  shows "\<exists>b s1 w1. ServerCreateAndRegisterNetService so s w = Inr (b, s1, w1) \<and> server_ok k s1"
proof -
  define s1 where "s1 = s\<lparr>ss_server := Some (v\<lparr>ps_service := True\<rparr>), ss_refs := (ss_refs s)(Service := ss_refs s Service + 1)\<rparr>"
  define s2 where "s2 = s1\<lparr>ss_svc_client := True, ss_server := Some (v\<lparr>ps_service := True, ps_rc := ps_rc v + 1\<rparr>)\<rparr>"
  have ok1: "server_ok k s1" using ok v by (auto simp: server_ok_def s1_def held_eq)
  have ok2: "server_ok k s2" using ok v by (auto simp: server_ok_def s1_def s2_def held_eq)
  have "upd_server (\<lambda>v. v\<lparr>ps_service := True\<rparr>) (acquire Service s) = Inr s1"
      "ServerRetain (s1\<lparr>ss_svc_client := True\<rparr>) = Inr s2"
    using v by (simp_all add: s1_def s2_def server_defs ServerRetain_def)
  moreover obtain q where "(if ps_port v = 0 then copy_address so w else Inr (ps_port v)) = Inr q"
    using port by (cases "ps_port v = 0") (simp_all add: copy_address_def)
  ultimately show ?thesis
    using release_net_fuel [OF ok] release_net_fuel [OF ok1] release_net_fuel [OF ok2] ok2 v(1)
    by (fastforce simp: ServerCreateAndRegisterNetService_def the_server_def Let_def split: prod.split bool.split)
qed

definition bound :: "'w server_os \<Rightarrow> 32 word \<Rightarrow> 'w \<Rightarrow> bool" where
  "bound so port w \<longleftrightarrow> port AND 0xFFFF0000 = 0 \<and> so_data so w \<and> fst (so_set_address so w (ucast port))"

text \<open>Whether \<open>CFSocketCopyAddress\<close> returns the address of the socket, if it is asked for it.\<close>

definition address_known :: "'w server_os \<Rightarrow> 32 word \<Rightarrow> 'w \<Rightarrow> bool" where
  "address_known so port w \<longleftrightarrow>
     (bound so port w \<longrightarrow> so_local_port so (snd (so_set_address so w (ucast port))) \<noteq> None)"

lemma ServerConnect_null:
  assumes "ss_server s = Some v" and "\<not> address_known so port w"
  shows "ServerConnect so type port s w = Inl Null_Deref"
  using assms
  by (cases "so_set_address so w (ucast port)")
     (auto simp: ServerConnect_def address_known_def bound_def the_server_def copy_address_def Let_def)

lemma ServerConnect_ok:
  assumes ok: "server_ok 0 s" and un: "unconnected s" and known: "address_known so port w"
  shows "\<exists>b s1 w1. ServerConnect so type port s w = Inr (b, s1, w1) \<and> server_ok (if bound so port w then -1 else 0) s1 \<and>
     (b \<longrightarrow> bound so port w)"
proof -
  obtain v where v: "ss_server s = Some v" "\<not> ps_service v" "\<not> ss_svc_client s" "\<not> ps_name v" "\<not> ps_type v"
    using un by (auto simp: unconnected_def)
  have src: "(if so_source so w then give_back Source (acquire Source s) else s) = s"
    by (simp add: give_back_def acquire_def)
  have addr: "server_ok 1 (acquire Address s)" using ok by (auto simp: server_ok_def acquire_def held_eq)
  have same: "give_back Address (acquire Address (give_back Address (acquire Address s))) = s"
    by (simp add: give_back_def acquire_def)
  show ?thesis
  proof (cases "bound so port w")
    case False
    then have "ServerConnect so type port s w = connect_failed False s w \<or>
        (\<exists>w1. ServerConnect so type port s w = connect_failed True (acquire Address s) w1)"
      using v(1) src by (cases "so_set_address so w (ucast port)") (auto simp: ServerConnect_def bound_def the_server_def Let_def)
    with connect_failed_ok [OF ok, of False] connect_failed_ok [OF addr, of True] False show ?thesis by fastforce
  next
    case True
    then obtain w1 where w1: "so_set_address so w (ucast port) = (True, w1)" by (metis bound_def prod.collapse)
    obtain p where p: "so_local_port so w1 = Some p" using known True w1 by (auto simp: address_known_def)
    then have cp: "copy_address so w1 = Inr (ucast p)" by (simp add: copy_address_def)
    define s6 where "s6 = (let s4 = acquire Name s; s5 = (if type then acquire Type s4 else s4)
      in s5\<lparr>ss_server := Some (v\<lparr>ps_name := True, ps_type := type, ps_port := ucast p\<rparr>)\<rparr>)"
    have ok6: "server_ok 0 s6"
      using ok v by (cases type) (auto simp: server_ok_def s6_def acquire_def held_eq)
    have reg: "\<exists>b s7 w2. (if type then ServerCreateAndRegisterNetService so s6 w1 else Inr (True, s6, w1)) = Inr (b, s7, w2) \<and> server_ok 0 s7"
    proof (cases type)
      case True
      have "ss_server s6 = Some (v\<lparr>ps_name := True, ps_type := type, ps_port := ucast p\<rparr>)"
          "\<not> ss_svc_client s6" using v(3) by (simp_all add: s6_def acquire_def Let_def)
      from register_ok [OF ok6 this(1) _ this(2) p] v(2) True show ?thesis by simp
    qed (use ok6 in auto)
    then obtain b s7 w2 where 7: "(if type then ServerCreateAndRegisterNetService so s6 w1 else Inr (True, s6, w1)) = Inr (b, s7, w2)"
      "server_ok 0 s7" by blast
    have up: "upd_server (\<lambda>v. v\<lparr>ps_name := True, ps_type := type, ps_port := ucast p\<rparr>)
        (if type then acquire Type (acquire Name s) else acquire Name s) = Inr s6"
      using v(1) by (simp add: s6_def upd_server_def the_server_def acquire_def Let_def)
    have "ServerConnect so type port s w = (if \<not> b then connect_failed True s7 w2 else Inr (True, give_back Address s7, w2))"
      unfolding ServerConnect_def Let_def src same w1 prod.case bool.case cp up rbind_simps 7(1)
      using True v(1) by (simp add: bound_def the_server_def)
    with connect_failed_ok [OF 7(2), of True w2] server_ok_address [OF 7(2)] True show ?thesis by (cases b) auto
  qed
qed

section \<open>Properties\<close>

text \<open>
  C16. The life of a server: when its owner connects, then invalidates and releases it, connecting fails on a
  null pointer exactly when the socket was bound and \<open>CFSocketCopyAddress\<close> returned no address; otherwise, whatever
  the other calls of CoreFoundation answer, connecting returns, the memory of the server is freed exactly once, no
  function touches it afterwards, no socket or net service still calls back and every reference taken was given
  back, except that the address of the socket was released once more than it was owned if the server got as far as
  binding it.
\<close>

theorem server_lifecycle:
  assumes "ServerCreate so callback info retain release w = Inr (Some s, w1)" and "retain = release"
  shows "if bound so port w1 \<and> so_local_port so (snd (so_set_address so w1 (ucast port))) = None
    then ServerConnect so type port s w1 = Inl Null_Deref
    else \<exists>ok s1 w2 s2 s3. ServerConnect so type port s w1 = Inr (ok, s1, w2) \<and> (ok \<longrightarrow> bound so port w1) \<and>
     ServerInvalidate release_fuel s1 = Inr s2 \<and> ServerRelease release_fuel s2 = Inr s3 \<and>
     ss_server s3 = None \<and> \<not> ss_sock_client s3 \<and> \<not> ss_svc_client s3 \<and>
     ss_refs s3 = (\<lambda>ob. if ob = Address \<and> bound so port w1 then -1 else 0)"
proof (cases "address_known so port w1")
  case False
  moreover obtain v where "ss_server s = Some v"
    using ServerCreate_ok [OF assms] by (auto simp: server_ok_def)
  ultimately show ?thesis by (simp add: ServerConnect_null) (simp add: address_known_def)
next
  case known: True
  define k :: int where "k = (if bound so port w1 then -1 else 0)"
  obtain ok s1 w2 where 1: "ServerConnect so type port s w1 = Inr (ok, s1, w2)" "server_ok k s1" "ok \<longrightarrow> bound so port w1"
    using ServerConnect_ok [OF ServerCreate_ok [OF assms] ServerCreate_unconnected [OF assms(1)] known, of type]
    unfolding k_def by blast
  obtain s2 where 2: "ServerInvalidate release_fuel s1 = Inr s2" "server_ok k s2" "idle s2"
    using ServerInvalidate_ok [OF 1(2), of 9] unfolding release_fuel_Suc(2) by blast
  obtain s3 where 3: "ServerRelease release_fuel s2 = Inr s3" "ss_server s3 = None" "\<not> ss_sock_client s3"
      "\<not> ss_svc_client s3" "ss_refs s3 = held k zero_server"
    using ServerRelease_last [OF 2(2,3), of 8] unfolding release_fuel_Suc(3) by blast
  have "held k zero_server ob = (if ob = Address \<and> bound so port w1 then -1 else 0)" for ob
    by (cases ob) (simp_all add: held_def zero_server_def k_def)
  then have "ss_refs s3 = (\<lambda>ob. if ob = Address \<and> bound so port w1 then -1 else 0)" using 3(5) by (simp add: fun_eq_iff)
  with 1 2(1) 3(1-4) have "\<exists>ok s1 w2 s2 s3. ServerConnect so type port s w1 = Inr (ok, s1, w2) \<and> (ok \<longrightarrow> bound so port w1) \<and>
     ServerInvalidate release_fuel s1 = Inr s2 \<and> ServerRelease release_fuel s2 = Inr s3 \<and>
     ss_server s3 = None \<and> \<not> ss_sock_client s3 \<and> \<not> ss_svc_client s3 \<and>
     ss_refs s3 = (\<lambda>ob. if ob = Address \<and> bound so port w1 then -1 else 0)" by blast
  with known show ?thesis unfolding address_known_def by (simp only: if_False de_Morgan_conj) argo
qed

text \<open>A phone on which everything works.\<close>

definition working_phone :: "unit server_os" where
  "working_phone = \<lparr>so_alloc = (\<lambda>_. True), so_socket = (\<lambda>w. (True, w)), so_source = (\<lambda>_. True), so_data = (\<lambda>_. True),
     so_set_address = (\<lambda>w _. (True, w)), so_local_port = (\<lambda>_. Some 8080), so_service = (\<lambda>w _. (True, w)),
     so_set_client = (\<lambda>_. True), so_register = (\<lambda>w. (True, w))\<rparr>"

definition started_server :: server_state where
  "started_server = \<lparr>ss_server = Some (zero_server\<lparr>ps_rc := 2, ps_socket := True, ps_callback := True\<rparr>),
     ss_sock_client = True, ss_svc_client = False, ss_refs = (\<lambda>ob. if ob = Socket then 1 else 0)\<rparr>"

lemma working_create: "ServerCreate working_phone True False False False () = Inr (Some started_server, ())"
  by (auto simp: ServerCreate_def ServerRetain_def server_defs working_phone_def started_server_def zero_server_def)

theorem server_lifecycle_witness:
  "(\<exists>s1 s2 s3. ServerConnect working_phone True 8080 started_server () = Inr (True, s1, ()) \<and>
     ServerInvalidate release_fuel s1 = Inr s2 \<and> ServerRelease release_fuel s2 = Inr s3 \<and>
     ss_server s3 = None \<and> ss_refs s3 Address = -1 \<and> ss_refs s3 Socket = 0) \<and>
   ServerConnect (working_phone\<lparr>so_local_port := \<lambda>_. None\<rparr>) True 8080 started_server () = Inl Null_Deref"
proof
  let ?so = "working_phone\<lparr>so_local_port := \<lambda>_. None\<rparr>"
  have b: "bound working_phone 8080 ()" "so_local_port working_phone () = Some 8080" by (simp_all add: bound_def working_phone_def)
  have "\<exists>s1. ServerConnect working_phone True 8080 started_server () = Inr (True, s1, ())"
    by (simp add: ServerConnect_def copy_address_def working_phone_def started_server_def server_defs
        ServerCreateAndRegisterNetService_def ServerRetain_def Let_def)
  with server_lifecycle [OF working_create refl, of 8080 True] b
  show "\<exists>s1 s2 s3. ServerConnect working_phone True 8080 started_server () = Inr (True, s1, ()) \<and>
     ServerInvalidate release_fuel s1 = Inr s2 \<and> ServerRelease release_fuel s2 = Inr s3 \<and>
     ss_server s3 = None \<and> ss_refs s3 Address = -1 \<and> ss_refs s3 Socket = 0" by fastforce
  have "ServerCreate ?so True False False False () = Inr (Some started_server, ())"
    using working_create by (simp add: ServerCreate_def working_phone_def)
  from server_lifecycle [OF this refl, of 8080 True]
  show "ServerConnect ?so True 8080 started_server () = Inl Null_Deref"
    by (simp add: bound_def working_phone_def)
qed

section \<open>The owner's mistakes\<close>

lemma service_error_frees:
  assumes ok: "server_ok k s" and v: "ss_server s = Some v" "ps_callback v"
  shows "\<exists>s1. NetServiceCallBack True True s = Inr s1 \<and> ss_server s1 = None"
proof -
  obtain s1 v1 where 1: "ServerReleaseNetService release_fuel s = Inr s1" "server_ok k s1" "ss_server s1 = Some v1" "ps_callback v1"
    using release_net_service_ok [OF ok, of 10] v unfolding release_fuel_Suc(1) by blast
  obtain s2 v2 where 2: "ServerReleaseSocket release_fuel s1 = Inr s2" "server_ok k s2" "ss_server s2 = Some v2" "ps_callback v2"
    using release_socket_ok [OF 1(2), of 10] 1(3,4) unfolding release_fuel_Suc(1) by blast
  obtain s3 where 3: "ServerInvalidate release_fuel s2 = Inr s3" "server_ok k s3" "idle s3"
    using ServerInvalidate_ok [OF 2(2), of 9] unfolding release_fuel_Suc(2) by blast
  obtain s4 where 4: "ServerRelease release_fuel s3 = Inr s4" "ss_server s4 = None"
    using ServerRelease_last [OF 3(2,3), of 8] unfolding release_fuel_Suc(3) by blast
  show ?thesis
    using 1 2 3 4 v(1) by (simp add: NetServiceCallBack_def ServerHandleNetServiceError_def accept_error_def the_server_def)
qed

text \<open>
  When the registration of the net service fails later, the callback gives the server back, and the thread that
  owns it invalidates it once more when its run loop has ended.
\<close>

lemma host_uses_freed_server:
  "ServerHostThreadRoutine working_phone (\<lambda>s w. rbind (NetServiceCallBack True True s) (\<lambda>s1. Inr (s1, w))) () = Inl Use_After_Free"
proof -
  obtain s1 v1 where s1: "ServerConnect working_phone True 8080 started_server () = Inr (True, s1, ())" "ss_server s1 = Some v1" "ps_callback v1"
    by (simp add: ServerConnect_def copy_address_def working_phone_def started_server_def server_defs
        ServerCreateAndRegisterNetService_def ServerRetain_def Let_def)
  have "server_ok 0 started_server" by (rule ServerCreate_ok [OF working_create refl])
  moreover have "unconnected started_server" by (rule ServerCreate_unconnected [OF working_create])
  ultimately obtain k where "server_ok k s1"
    using ServerConnect_ok [of started_server working_phone 8080 "()" True] s1(1)
    by (fastforce simp: address_known_def working_phone_def)
  from service_error_frees [OF this s1(2,3)] obtain s2 where s2: "NetServiceCallBack True True s1 = Inr s2" "ss_server s2 = None" by blast
  have "ServerInvalidate release_fuel s2 = Inl Use_After_Free"
    unfolding release_fuel_Suc(2) ServerInvalidate.simps using s2(2) by (simp add: drop_context_def the_server_def)
  with s1(1) s2(1) show ?thesis by (simp add: ServerHostThreadRoutine_def working_create)
qed

end
