(* ===== verification/SymbianClient.thy ===== *)
theory SymbianClient
  imports RhoDispatcher ShttpdStreams
begin

text \<open>
  The HTTP client of the Symbian port (\<open>platform/symbian/rhodes/src/posix_http_client.c\<close>), by which an application talks to its
  synchronisation server, and the choice of the port the embedded server listens on (\<open>ports_mngt.c\<close>).

  A string in a buffer is its text up to the terminator; every store is checked against the size of the buffer. The socket calls
  are a parameter, \<open>stream_ok\<close> says what a reply relies on of \<open>recv\<close>.
\<close>

section \<open>Sockets\<close>

text \<open>
  Addresses are the bytes of \<open>in_addr\<close>; \<open>None\<close> is \<open>INADDR_NONE\<close>. \<open>recv\<close> gives the bytes received, none at the end of the
  connection, \<open>None\<close> for an error. \<open>k_char_signed\<close> says whether \<open>char\<close> is signed.
\<close>

record 'w sockets =
  k_socket :: "'w \<Rightarrow> int \<times> 'w"
  k_inet_addr :: "string \<Rightarrow> string option"
  k_gethostbyname :: "string \<Rightarrow> 'w \<Rightarrow> string option \<times> 'w"
  k_connect :: "int \<Rightarrow> string \<Rightarrow> nat \<Rightarrow> 'w \<Rightarrow> bool \<times> 'w"
  k_send :: "int \<Rightarrow> string \<Rightarrow> 'w \<Rightarrow> int \<times> 'w"
  k_recv :: "int \<Rightarrow> nat \<Rightarrow> 'w \<Rightarrow> string option \<times> 'w"
  k_bind_port :: "int \<Rightarrow> 'w \<Rightarrow> nat option \<times> 'w"
  k_close :: "int \<Rightarrow> 'w \<Rightarrow> 'w"
  k_char_signed :: bool

definition MAXBUF :: nat where "MAXBUF = 1024"

definition LINE_SIZE :: nat where "LINE_SIZE = 512"

definition MAX_HOST_LEN :: nat where "MAX_HOST_LEN = 512"

section \<open>Text\<close>

definition toupper :: "char \<Rightarrow> char" where
  "toupper c = (if 97 \<le> byte c \<and> byte c \<le> 122 then char_of (byte c - 32) else c)"

text \<open>The loop of \<open>startsWith\<close> ends at the end of either string.\<close>

fun starts_loop :: "string \<Rightarrow> string \<Rightarrow> bool" where
  "starts_loop (x # a) (y # b) = (toupper x = toupper y \<and> starts_loop a b)"
| "starts_loop a b = True"

definition startsWith :: "string \<Rightarrow> string \<Rightarrow> bool" where
  "startsWith a b \<longleftrightarrow> toupper (c_at a 0) = toupper (c_at b 0) \<and> starts_loop a b"

definition chomp :: "string \<Rightarrow> string" where
  "chomp s = takeWhile (\<lambda>c. c \<noteq> CHR 0x0D \<and> c \<noteq> CHR 0x0A) s"

text \<open>
  The trimming functions work on the string that starts at position \<open>p\<close> of a buffer; trimming at the right goes on before
  \<open>p\<close> when that string is blank, and leaves the buffer when everything in front of it is blank too.
\<close>

definition blank :: "char \<Rightarrow> bool" where
  "blank c \<longleftrightarrow> c \<in> {CHR '' '', CHR 0x09, CHR 0x0D, CHR 0x0A}"

definition ltrim :: "string \<Rightarrow> nat \<Rightarrow> string" where
  "ltrim t p = take p t @ dropWhile blank (drop p t)"

function rtrim :: "string \<Rightarrow> string res" where
  "rtrim t = (if t = [] then Inl Out_Of_Bounds else if blank (last t) then rtrim (butlast t) else Inr t)"
  by pat_completeness auto

termination
  by (relation "measure length") auto

declare rtrim.simps [simp del]

definition trim_at :: "string \<Rightarrow> nat \<Rightarrow> string res" where
  "trim_at t p = rtrim (ltrim t p)"

section \<open>URLs\<close>

text \<open>The value \<open>sscanf\<close> stores for \<open>%hu\<close>.\<close>

definition hu_value :: "bool \<Rightarrow> string \<Rightarrow> nat" where
  "hu_value neg ds =
     (let v = digits_value 10 ds
      in if v \<ge> 2 ^ 64 then 65535 else nat ((if neg then - int v else int v) mod 2 ^ 16))"

text \<open>A text stored in a buffer of a given size.\<close>

definition stored :: "nat \<Rightarrow> string \<Rightarrow> string res" where
  "stored sz s = (if length s < sz then Inr s else Inl Out_Of_Bounds)"

text \<open>
  The host and the port, or \<open>None\<close>. When \<open>sscanf\<close> stores no port the value tested is undefined, but the function fails
  whatever it is.
\<close>

definition parse_url :: "string \<Rightarrow> (string \<times> nat) option res" where
  "parse_url url0 =
     (let url = (case strstr url0 ''://'' of None \<Rightarrow> url0 | Some s \<Rightarrow> drop 3 s)
      in if CHR '':'' \<in> set url
         then let h = takeWhile (\<lambda>c. c \<noteq> CHR '':'') url; (neg, dg, _) = scan_number (drop (length h + 1) url)
              in if h = [] then Inr None
                 else rbind (stored MAX_HOST_LEN h) (\<lambda>host.
                        if dg = [] then Inr None
                        else if hu_value neg dg < 1 then Inr None else Inr (Some (host, hu_value neg dg)))
         else let h = takeWhile (\<lambda>c. c \<noteq> CHR ''/'') url
              in if h = [] then Inr None else rbind (stored MAX_HOST_LEN h) (\<lambda>host. Inr (Some (host, 80))))"

section \<open>The request\<close>

definition request_start :: "bool \<Rightarrow> string \<Rightarrow> string \<Rightarrow> string option \<Rightarrow> string" where
  "request_start isPost url host contentType =
     (if isPost then ''POST'' else ''GET'') @ '' '' @ url @ '' HTTP/1.1'' @ [CHR 0x0D, CHR 0x0A] @
     ''Host: '' @ host @ [CHR 0x0D, CHR 0x0A] @
     ''UserAgent: SymRhodes'' @ [CHR 0x0D, CHR 0x0A] @
     ''Accept: text/html,application/xhtml+xml,application/xml;q=0.9,*/*;q=0.8'' @ [CHR 0x0D, CHR 0x0A] @
     ''Accept-Language: en-us,en;q=0.5'' @ [CHR 0x0D, CHR 0x0A] @
     ''Accept-Charset: ISO-8859-1,utf-8;q=0.7,*;q=0.7'' @ [CHR 0x0D, CHR 0x0A] @
     ''Keep-Alive: 300'' @ [CHR 0x0D, CHR 0x0A] @
     ''Connection: keep-alive'' @ [CHR 0x0D, CHR 0x0A] @
     ''Content-Type: '' @ (case contentType of None \<Rightarrow> ''application/x-www-form-urlencoded'' | Some t \<Rightarrow> t) @ [CHR 0x0D, CHR 0x0A]"

definition bounded_cat :: "nat \<Rightarrow> string \<Rightarrow> string \<Rightarrow> string res" where
  "bounded_cat sz s t = stored sz (s @ t)"

definition has_body :: "string option \<Rightarrow> int \<Rightarrow> bool" where
  "has_body body bodySize \<longleftrightarrow> body \<noteq> None \<and> bodySize > 0"

definition request_size :: "string option \<Rightarrow> int \<Rightarrow> int" where
  "request_size body bodySize = (if has_body body bodySize then int MAXBUF + bodySize else int MAXBUF)"

definition build_request ::
  "nat \<Rightarrow> bool \<Rightarrow> string \<Rightarrow> string \<Rightarrow> string option \<Rightarrow> string option \<Rightarrow> string option \<Rightarrow> int \<Rightarrow> string res" where
  "build_request sz isPost url host contentType cookie body bodySize =
     rbind (stored sz (request_start isPost url host contentType)) (\<lambda>b1.
     rbind (case cookie of
              None \<Rightarrow> Inr b1
            | Some c \<Rightarrow> rbind (stored LINE_SIZE (''Cookie: '' @ c @ [CHR 0x0D, CHR 0x0A])) (\<lambda>l. bounded_cat sz b1 l)) (\<lambda>b2.
     rbind (if has_body body bodySize
            then bounded_cat sz b2 (''Content-Length: '' @ show_int bodySize @ [CHR 0x0D, CHR 0x0A]) else Inr b2) (\<lambda>b3.
     rbind (bounded_cat sz b3 [CHR 0x0D, CHR 0x0A]) (\<lambda>b4.
       if has_body body bodySize then bounded_cat sz b4 (case body of None \<Rightarrow> [] | Some t \<Rightarrow> t) else Inr b4))))"

section \<open>Reading lines\<close>

definition socreadByte :: "'w sockets \<Rightarrow> int \<Rightarrow> 'w \<Rightarrow> char \<times> 'w" where
  "socreadByte net fd w =
     (if fd = 0 then (NUL, w)
      else (case k_recv net fd 1 w of (Some (c # _), w1) \<Rightarrow> (c, w1) | (_, w1) \<Rightarrow> (NUL, w1)))"

definition positive_char :: "bool \<Rightarrow> char \<Rightarrow> bool" where
  "positive_char signed_char c \<longleftrightarrow> 0 < byte c \<and> (signed_char \<longrightarrow> byte c < 128)"

fun read_chars :: "'w sockets \<Rightarrow> int \<Rightarrow> nat \<Rightarrow> 'w \<Rightarrow> string \<times> 'w" where
  "read_chars net fd 0 w = ([], w)"
| "read_chars net fd (Suc n) w =
     (case socreadByte net fd w of
        (c, w1) \<Rightarrow>
          if \<not> positive_char (k_char_signed net) c then ([], w1)
          else if c = CHR 0x0A then ([c], w1)
          else (case read_chars net fd n w1 of (s, w2) \<Rightarrow> (c # s, w2)))"

text \<open>The buffer is never null, so the function always returns 1.\<close>

definition socreadln :: "'w sockets \<Rightarrow> int \<Rightarrow> nat \<Rightarrow> 'w \<Rightarrow> string \<times> 'w" where
  "socreadln net fd sz w = read_chars net fd (sz - 1) w"

section \<open>The headers of a reply\<close>

text \<open>
  \<open>rp_found\<close> says that a cookie was seen, \<open>rp_cookie\<close> is the text of the block allocated for cookies. A header function
  gives \<open>None\<close> where the code jumps to the error handler.
\<close>

record reply =
  rp_length :: int
  rp_found :: bool
  rp_cookie :: "string option"

definition no_reply :: reply where
  "no_reply = \<lparr>rp_length = 0, rp_found = False, rp_cookie = None\<rparr>"

text \<open>The number \<open>sscanf(buffer, "%*s%*[: ]%ld", &content_length)\<close> stores.\<close>

definition scan_length :: "string \<Rightarrow> int option" where
  "scan_length s =
     (let s1 = dropWhile isspace s; w = takeWhile (\<lambda>c. \<not> isspace c) s1; s2 = drop (length w) s1;
          sep = takeWhile (\<lambda>c. c = CHR '':'' \<or> c = CHR '' '') s2
      in if w = [] \<or> sep = [] then None
         else (case fst (sscanf [Dir_Int] (drop (length sep) s2)) of [VInt v] \<Rightarrow> Some v | _ \<Rightarrow> None))"

definition length_header :: "string \<Rightarrow> reply \<Rightarrow> reply option" where
  "length_header line r =
     (if startsWith line ''Content-Length''
      then (case scan_length line of None \<Rightarrow> None | Some v \<Rightarrow> if v < 0 then None else Some (r\<lparr>rp_length := v\<rparr>))
      else Some r)"

definition cookie_attributes :: "string list" where
  "cookie_attributes = [''Comment'', ''Domain'', ''expires'', ''Max-Age'', ''Secure'', ''Version'']"

definition first_attribute :: "string \<Rightarrow> string option" where
  "first_attribute s = (case List.find (\<lambda>a. strstr s a \<noteq> None) cookie_attributes of None \<Rightarrow> None | Some a \<Rightarrow> strstr s a)"

lemma strstr_suffix: "strstr s pat = Some r \<Longrightarrow> pat \<noteq> [] \<Longrightarrow> 0 < length r \<and> length r \<le> length s"
  by (induction s pat rule: strstr.induct) (auto split: if_splits)

lemma first_attribute_suffix:
  assumes "first_attribute s = Some r"
  shows "0 < length r \<and> length r \<le> length s"
proof -
  obtain a where a: "a \<in> set cookie_attributes" "strstr s a = Some r"
    using assms by (auto simp: first_attribute_def find_Some_iff split: option.splits intro: nth_mem)
  then have "a \<noteq> []" by (auto simp: cookie_attributes_def)
  with a(2) show ?thesis by (rule strstr_suffix)
qed

text \<open>The loop cuts the text at an attribute as long as there is one.\<close>

function strip_attributes :: "string \<Rightarrow> string" where
  "strip_attributes s =
     (case first_attribute s of None \<Rightarrow> s | Some r \<Rightarrow> strip_attributes (take (length s - length r) s))"
  by pat_completeness auto

termination
  by (relation "measure length") (auto dest!: first_attribute_suffix simp flip: length_greater_0_conv)

declare strip_attributes.simps [simp del]

definition add_cookie :: "allocator \<Rightarrow> bool \<Rightarrow> string \<Rightarrow> reply \<Rightarrow> reply res" where
  "add_cookie mem want set_cookie r =
     (if \<not> want then Inr (r\<lparr>rp_found := True\<rparr>)
      else if \<not> rp_found r \<and> \<not> alloc_ok mem (int MAXBUF) then Inl Null_Deref
      else let old = (if rp_found r then (case rp_cookie r of None \<Rightarrow> [] | Some s \<Rightarrow> s) else [])
           in rbind (bounded_cat MAXBUF old set_cookie) (\<lambda>s. Inr (r\<lparr>rp_found := True, rp_cookie := Some s\<rparr>)))"

definition cookie_header :: "allocator \<Rightarrow> bool \<Rightarrow> string \<Rightarrow> reply \<Rightarrow> reply option res" where
  "cookie_header mem want line r =
     (if \<not> startsWith line ''Set-Cookie'' then Inr (Some r)
      else if CHR '':'' \<notin> set line then Inr None
      else let p = length (takeWhile (\<lambda>c. c \<noteq> CHR '':'') line) + 1
           in rbind (trim_at line p) (\<lambda>t1.
                let t2 = take p t1 @ strip_attributes (drop p t1)
                in if strstr (drop p t2) ''auth_token=;'' \<noteq> None then Inr (Some r)
                   else rbind (trim_at t2 p) (\<lambda>t3.
                          rbind (add_cookie mem want (take (LINE_SIZE - 1) (drop p t3)) r) (\<lambda>r1. Inr (Some r1)))))"

fun read_headers ::
  "nat \<Rightarrow> 'w sockets \<Rightarrow> allocator \<Rightarrow> bool \<Rightarrow> int \<Rightarrow> string \<Rightarrow> reply \<Rightarrow> 'w \<Rightarrow> (bool \<times> reply \<times> 'w) res" where
  "read_headers 0 net mem want fd line r w = Inl Out_Of_Fuel"
| "read_headers (Suc n) net mem want fd line r w =
     (if startsWith line [CHR 0x0D, CHR 0x0A] \<or> startsWith line [CHR 0x0A] \<or> line = [] then Inr (True, r, w)
      else (case length_header line r of
              None \<Rightarrow> Inr (False, r, w)
            | Some r1 \<Rightarrow>
                rbind (cookie_header mem want line r1) (\<lambda>x.
                  case x of
                    None \<Rightarrow> Inr (False, r1, w)
                  | Some r2 \<Rightarrow>
                      (case socreadln net fd LINE_SIZE w of
                         (s, w1) \<Rightarrow> read_headers n net mem want fd (chomp s) r2 w1))))"

section \<open>The body of a reply\<close>

text \<open>The loop stops at an error, at the end of the connection, or when the block is full.\<close>

function read_body :: "'w sockets \<Rightarrow> int \<Rightarrow> nat \<Rightarrow> nat \<Rightarrow> char block \<Rightarrow> 'w \<Rightarrow> (char block \<times> 'w) res" where
  "read_body net fd len curpos b w =
     (case k_recv net fd (len - curpos) w of
        (None, w1) \<Rightarrow> Inr (b, w1)
      | (Some s, w1) \<Rightarrow>
          if length s > len - curpos then Inl Out_Of_Bounds
          else let b1 = take curpos b @ map Some s @ drop (curpos + length s) b
               in if s \<noteq> [] \<and> curpos + length s < len then read_body net fd len (curpos + length s) b1 w1
                  else Inr (b1, w1))"
  by pat_completeness auto

termination
  by (relation "measure (\<lambda>(_, _, len, curpos, _). len - curpos)") (auto simp: diff_less_mono2 simp flip: length_greater_0_conv)

declare read_body.simps [simp del]

definition reply_body :: "'w sockets \<Rightarrow> allocator \<Rightarrow> int \<Rightarrow> int \<Rightarrow> 'w \<Rightarrow> (char block option \<times> 'w) res" where
  "reply_body net mem fd len w =
     (if len > 0
      then if \<not> alloc_ok mem (wrap32 (len + 1)) then Inl Null_Deref
           else rbind (read_body net fd (nat len) 0 (replicate (nat len + 1) None) w) (\<lambda>(b, w1).
                  Inr (Some (b[nat len := Some NUL]), w1))
      else Inr (None, w))"

section \<open>A whole exchange\<close>

definition dest_address :: "'w sockets \<Rightarrow> string \<Rightarrow> 'w \<Rightarrow> string option \<times> 'w" where
  "dest_address net host w =
     (case k_inet_addr net host of
        Some a \<Rightarrow> (Some a, w)
      | None \<Rightarrow>
          (case k_gethostbyname net host w of
             (None, w1) \<Rightarrow> (None, w1)
           | (Some h, w1) \<Rightarrow> (Some (take 4 (h @ drop (length h) (replicate 4 (CHR 0xFF)))), w1)))"

text \<open>
  What the caller gets: the result, and what the two output parameters were set to, where \<open>None\<close> is a parameter that was not
  assigned and \<open>Some None\<close> a null pointer.
\<close>

record outcome =
  o_retval :: int
  o_body :: "char block option option"
  o_cookie :: "string option option"

definition failed :: "reply \<Rightarrow> outcome" where
  "failed r = \<lparr>o_retval = 0, o_body = None, o_cookie = map_option Some (rp_cookie r)\<rparr>"

text \<open>Everything behind the first line of the reply.\<close>

definition finish_reply ::
  "'w sockets \<Rightarrow> allocator \<Rightarrow> bool \<Rightarrow> bool \<Rightarrow> int \<Rightarrow> reply \<Rightarrow> 'w \<Rightarrow> (outcome \<times> 'w) res" where
  "finish_reply net mem want_body want_cookie fd r w =
     rbind (if want_body then rbind (reply_body net mem fd (rp_length r) w) (\<lambda>(b, w1). Inr (Some b, w1)) else Inr (None, w)) (\<lambda>(b, w1).
       Inr (\<lparr>o_retval = 1, o_body = b,
             o_cookie = (if \<not> want_cookie then None else if rp_found r then map_option Some (rp_cookie r) else Some None)\<rparr>,
            k_close net fd w1))"

definition status_format :: "scan_dir list" where
  "status_format = [Dir_Skip_Word LINE_SIZE, Dir_Space, Dir_Int]"

definition receive_reply ::
  "nat \<Rightarrow> 'w sockets \<Rightarrow> allocator \<Rightarrow> bool \<Rightarrow> bool \<Rightarrow> int \<Rightarrow> 'w \<Rightarrow> (outcome \<times> 'w) res" where
  "receive_reply fuel net mem want_body want_cookie fd w =
     (case socreadln net fd LINE_SIZE w of
        (s, w1) \<Rightarrow>
          let line = chomp s
          in (case fst (sscanf status_format line) of
                [VInt status] \<Rightarrow>
                  if status = 200
                  then rbind (read_headers fuel net mem want_cookie fd line no_reply w1) (\<lambda>(complete, r, w2).
                         if complete then finish_reply net mem want_body want_cookie fd r w2 else Inr (failed r, w2))
                  else finish_reply net mem want_body want_cookie fd no_reply w1
              | _ \<Rightarrow> Inr (failed no_reply, w1)))"

definition sendHttpRequest ::
  "nat \<Rightarrow> 'w sockets \<Rightarrow> allocator \<Rightarrow> string option \<Rightarrow> string option \<Rightarrow> string option \<Rightarrow> string option \<Rightarrow> int \<Rightarrow> bool \<Rightarrow> bool \<Rightarrow> bool \<Rightarrow> 'w \<Rightarrow>
     (outcome \<times> 'w) res" where
  "sendHttpRequest fuel net mem url cookie requestBody contentType bodySize want_body want_cookie isPost w =
     (case url of
        None \<Rightarrow> Inr (failed no_reply, w)
      | Some u \<Rightarrow>
          rbind (parse_url u) (\<lambda>info.
            case info of
              None \<Rightarrow> Inr (failed no_reply, w)
            | Some (host, port) \<Rightarrow>
                (case k_socket net w of
                   (fd, w1) \<Rightarrow>
                     if fd < 0 then Inr (failed no_reply, w1)
                     else (case dest_address net host w1 of
                             (None, w2) \<Rightarrow> Inr (failed no_reply, w2)
                           | (Some addr, w2) \<Rightarrow>
                               (case k_connect net fd addr port w2 of
                                  (False, w3) \<Rightarrow> Inr (failed no_reply, w3)
                                | (True, w3) \<Rightarrow>
                                    if \<not> alloc_ok mem (wrap32 (request_size requestBody bodySize)) then Inl Null_Deref
                                    else rbind (build_request (nat (request_size requestBody bodySize)) isPost u host contentType
                                                  cookie requestBody bodySize) (\<lambda>req.
                                           case k_send net fd req w3 of
                                             (n, w4) \<Rightarrow>
                                               if n \<le> 0 then Inr (failed no_reply, w4)
                                               else receive_reply fuel net mem want_body want_cookie fd w4))))))"

section \<open>The port of the embedded server\<close>

text \<open>The two global variables; a port once chosen is kept.\<close>

record ports =
  g_listening_port :: "string option"
  g_home_url :: "string option"

definition get_free_listening_port :: "'w sockets \<Rightarrow> ports \<Rightarrow> 'w \<Rightarrow> string \<times> ports \<times> 'w" where
  "get_free_listening_port net g w =
     (case g_listening_port g of
        Some s \<Rightarrow> (s, g, w)
      | None \<Rightarrow>
          (case k_socket net w of
             (fd, w1) \<Rightarrow>
               let (port, w2) = (if fd < 0 then (None, w1)
                                 else (case k_bind_port net fd w1 of (q, w') \<Rightarrow> (q, k_close net fd w')));
                   s = (case port of None \<Rightarrow> ''8080'' | Some q \<Rightarrow> dec q)
               in (s, g\<lparr>g_listening_port := Some s\<rparr>, w2)))"

definition get_home_url :: "'w sockets \<Rightarrow> ports \<Rightarrow> 'w \<Rightarrow> string \<times> ports \<times> 'w" where
  "get_home_url net g w =
     (case g_home_url g of
        Some s \<Rightarrow> (s, g, w)
      | None \<Rightarrow>
          (case get_free_listening_port net g w of
             (s, g1, w1) \<Rightarrow> (''http://127.0.0.1:'' @ s, g1\<lparr>g_home_url := Some (''http://127.0.0.1:'' @ s)\<rparr>, w1)))"


section \<open>What the pieces do\<close>

definition rstrip :: "string \<Rightarrow> string" where
  "rstrip s = rev (dropWhile blank (rev s))"

lemma length_rstrip: "length (rstrip s) \<le> length s"
  using length_dropWhile_le [of blank "rev s"] by (simp add: rstrip_def)

lemma rtrim_rstrip: "rtrim t = (if rstrip t = [] then Inl Out_Of_Bounds else Inr (rstrip t))"
proof (induction t rule: rev_induct)
  case Nil
  then show ?case by (simp add: rtrim.simps [of "[]"] rstrip_def)
next
  case (snoc c t)
  then show ?case by (subst rtrim.simps) (simp add: rstrip_def)
qed

text \<open>\<open>startsWith\<close> only compares up to the end of the shorter string: a line \<open>C\<close> counts as a \<open>Content-Length\<close> header.\<close>

lemma startsWith_iff:
  assumes "b \<noteq> []" "hd b \<noteq> NUL"
  shows "startsWith a b \<longleftrightarrow> a \<noteq> [] \<and> map toupper (take (length b) a) = map toupper (take (length a) b)"
proof -
  have "starts_loop a b \<longleftrightarrow> map toupper (take (length b) a) = map toupper (take (length a) b)"
    by (induction a b rule: starts_loop.induct) auto
  moreover have "toupper (hd b) \<noteq> toupper NUL"
  proof -
    have n: "toupper NUL = NUL" "byte NUL = 0" by (simp_all add: toupper_def)
    show ?thesis
    proof (cases "97 \<le> byte (hd b) \<and> byte (hd b) \<le> 122")
      case True
      then have "byte (toupper (hd b)) = byte (hd b) - 32" by (simp add: toupper_def del: mod_less) (rule mod_less, linarith)
      with True have "byte (toupper (hd b)) \<noteq> byte NUL" unfolding n by simp
      then show ?thesis unfolding n(1) by metis
    next
      case False
      then have "toupper (hd b) = hd b" by (auto simp: toupper_def)
      then show ?thesis using assms(2) n(1) by simp
    qed
  qed
  ultimately show ?thesis using assms(1) by (cases a; cases b) (auto simp: startsWith_def c_at_def)
qed

lemma rstrip_after: "\<not> blank c \<Longrightarrow> rstrip (a @ c # s) = a @ c # rstrip s"
  by (induction s rule: rev_induct) (auto simp: rstrip_def)

lemma trim_at_after_colon: "trim_at (a @ CHR '':'' # s) (length a + 1) = Inr (a @ CHR '':'' # rstrip (dropWhile blank s))"
  using rstrip_after [of "CHR '':''" a "dropWhile blank s"] by (simp add: trim_at_def ltrim_def rtrim_rstrip blank_def)

lemma strip_attributes_prefix: "\<exists>r. s = strip_attributes s @ r"
proof (induction s rule: strip_attributes.induct)
  case (1 s)
  show ?case
  proof (cases "first_attribute s")
    case None
    then show ?thesis by (subst strip_attributes.simps) simp
  next
    case (Some r)
    from 1 [OF this] obtain q where "take (length s - length r) s = strip_attributes (take (length s - length r) s) @ q" by blast
    then have "s = (strip_attributes (take (length s - length r) s) @ q) @ drop (length s - length r) s"
      by (metis append_take_drop_id)
    with Some show ?thesis by (subst strip_attributes.simps) auto
  qed
qed

lemma strip_attributes_none: "first_attribute (strip_attributes s) = None"
proof (induction s rule: strip_attributes.induct)
  case (1 s)
  then show ?case
    by (subst strip_attributes.simps) (auto split: option.split)
qed

text \<open>The cookie of a header value: attributes and blanks removed; nothing when it clears the token.\<close>

definition cookie_text :: "string \<Rightarrow> string list" where
  "cookie_text v =
     (let s = strip_attributes (rstrip v) in if strstr s ''auth_token=;'' \<noteq> None then [] else [rstrip s])"

lemma set_cookie_header:
  assumes "\<not> blank (hd v)" and "length v < 500"
  shows "cookie_header mem want (''Set-Cookie: '' @ v) r =
    (case cookie_text v of [] \<Rightarrow> Inr (Some r) | s # _ \<Rightarrow> rbind (add_cookie mem want s r) (\<lambda>r1. Inr (Some r1)))"
proof -
  let ?s = "strip_attributes (rstrip v)"
  have sw: "startsWith (''Set-Cookie: '' @ v) ''Set-Cookie''" by (simp add: startsWith_def c_at_def)
  have v: "dropWhile blank (CHR '' '' # v) = v" using assms(1) by (cases v) (auto simp: blank_def)
  have p: "length (takeWhile (\<lambda>c. c \<noteq> CHR '':'') (''Set-Cookie: '' @ v)) + 1 = length ''Set-Cookie'' + 1" by simp
  have t1: "trim_at (''Set-Cookie: '' @ v) (length ''Set-Cookie'' + 1) = Inr (''Set-Cookie:'' @ rstrip v)"
    using trim_at_after_colon [of "''Set-Cookie''" "CHR '' '' # v"] v by simp
  obtain q where q: "rstrip v = ?s @ q" using strip_attributes_prefix by blast
  obtain q' where q': "v = rstrip v @ q'"
    unfolding rstrip_def by (metis rev_append rev_rev_ident takeWhile_dropWhile_id)
  have v2: "v = ?s @ q @ q'" using q q' by (metis append_assoc)
  have s: "dropWhile blank ?s = ?s"
    using assms(1) by (subst (asm) v2) (cases ?s; simp)
  have t2: "trim_at (''Set-Cookie:'' @ ?s) (length ''Set-Cookie'' + 1) = Inr (''Set-Cookie:'' @ rstrip ?s)"
    using trim_at_after_colon [of "''Set-Cookie''" ?s] s by simp
  have "length (rstrip ?s) \<le> length ?s" by (rule length_rstrip)
  moreover have "length ?s \<le> length v" using arg_cong [OF v2, of length] by simp
  ultimately have l: "take 511 (rstrip ?s) = rstrip ?s" using assms(2) by simp
  show ?thesis
    unfolding cookie_header_def p Let_def t1 using sw t2 l
    by (simp add: cookie_text_def LINE_SIZE_def Let_def)
qed


section \<open>A connection as a stream of bytes\<close>

text \<open>\<open>recv\<close> takes some of the bytes that are still to come, at least one if there are any.\<close>

definition stream_ok :: "'w sockets \<Rightarrow> int \<Rightarrow> ('w \<Rightarrow> string) \<Rightarrow> bool" where
  "stream_ok net fd pending \<longleftrightarrow>
     (\<forall>w n. 0 < n \<longrightarrow> (\<exists>k w'. k \<le> n \<and> k \<le> length (pending w) \<and> (pending w \<noteq> [] \<longrightarrow> 0 < k) \<and>
        k_recv net fd n w = (Some (take k (pending w)), w') \<and> pending w' = drop k (pending w)))"

lemma stream_recv:
  assumes "stream_ok net fd pending" and "0 < n" and "pending w \<noteq> []"
  obtains k w' where "0 < k" "k \<le> n" "k \<le> length (pending w)" "k_recv net fd n w = (Some (take k (pending w)), w')"
    "pending w' = drop k (pending w)"
  using assms unfolding stream_ok_def by blast

lemma socreadByte_stream:
  assumes "stream_ok net fd pending" and "fd \<noteq> 0" and "pending w = c # s"
  obtains w' where "socreadByte net fd w = (c, w')" "pending w' = s"
proof -
  obtain k w' where k: "0 < k" "k \<le> 1" "k_recv net fd 1 w = (Some (take k (pending w)), w')" "pending w' = drop k (pending w)"
    using stream_recv [OF assms(1), of 1 w] assms(3) by auto
  then have "k = 1" by simp
  with k assms(2,3) that [of w'] show ?thesis by (simp add: socreadByte_def)
qed

definition line_chars :: "bool \<Rightarrow> string \<Rightarrow> bool" where
  "line_chars signed_char l \<longleftrightarrow> (\<forall>c \<in> set l. positive_char signed_char c \<and> c \<noteq> CHR 0x0D \<and> c \<noteq> CHR 0x0A)"

lemma read_chars_stream:
  assumes "stream_ok net fd pending" and "fd \<noteq> 0" and "pending w = x @ CHR 0x0A # s"
    and "\<forall>c \<in> set x. positive_char (k_char_signed net) c \<and> c \<noteq> CHR 0x0A" and "length x < n"
  shows "\<exists>w'. read_chars net fd n w = (x @ [CHR 0x0A], w') \<and> pending w' = s"
  using assms(3-5)
proof (induction x arbitrary: w n)
  case Nil
  then obtain m where n: "n = Suc m" by (cases n) auto
  have "pending w = CHR 0x0A # s" using Nil.prems(1) by simp
  then obtain w' where "socreadByte net fd w = (CHR 0x0A, w')" "pending w' = s"
    by (rule socreadByte_stream [OF assms(1,2)])
  then show ?case by (simp add: n positive_char_def)
next
  case (Cons c x)
  then obtain m where n: "n = Suc m" by (cases n) auto
  have "pending w = c # x @ CHR 0x0A # s" using Cons.prems(1) by simp
  then obtain w' where w': "socreadByte net fd w = (c, w')" "pending w' = x @ CHR 0x0A # s"
    by (rule socreadByte_stream [OF assms(1,2)])
  have "\<exists>w''. read_chars net fd m w' = (x @ [CHR 0x0A], w'') \<and> pending w'' = s"
    using Cons.prems n by (intro Cons.IH w'(2)) auto
  then obtain w'' where "read_chars net fd m w' = (x @ [CHR 0x0A], w'')" "pending w'' = s" by blast
  moreover have "positive_char (k_char_signed net) c" "c \<noteq> CHR 0x0A" using Cons.prems(2) by simp_all
  ultimately show ?case using w'(1) by (simp add: n)
qed

lemma socreadln_stream:
  assumes "stream_ok net fd pending" and "fd \<noteq> 0" and "pending w = l @ [CHR 0x0D, CHR 0x0A] @ s"
    and "line_chars (k_char_signed net) l" and "length l < 510"
  obtains w' where "fst (socreadln net fd LINE_SIZE w) = l @ [CHR 0x0D, CHR 0x0A]" "snd (socreadln net fd LINE_SIZE w) = w'"
    "chomp (l @ [CHR 0x0D, CHR 0x0A]) = l" "pending w' = s"
proof -
  have "\<exists>w'. read_chars net fd 511 w = ((l @ [CHR 0x0D]) @ [CHR 0x0A], w') \<and> pending w' = s"
    using assms(3-5) by (intro read_chars_stream [OF assms(1,2)]) (auto simp: line_chars_def positive_char_def)
  moreover have "chomp (l @ [CHR 0x0D, CHR 0x0A]) = l"
    using assms(4) by (auto simp: chomp_def line_chars_def takeWhile_append)
  ultimately show ?thesis using that by (auto simp: socreadln_def LINE_SIZE_def)
qed

text \<open>The block that receives the body.\<close>

lemma read_body_stream:
  assumes "stream_ok net fd pending" and "pending w = drop curpos body @ rest" and "curpos < length body"
    and "take curpos b = map Some (take curpos body)" and "length b = length body + 1"
  shows "\<exists>b' w'. read_body net fd (length body) curpos b w = Inr (b', w') \<and> pending w' = rest \<and>
    length b' = length body + 1 \<and> take (length body) b' = map Some body"
  using assms(2-)
proof (induction "length body - curpos" arbitrary: curpos b w rule: less_induct)
  case less
  let ?n = "length body - curpos"
  have ne: "pending w \<noteq> []" "0 < ?n" using less.prems by auto
  obtain k w' where k: "0 < k" "k \<le> ?n" "k_recv net fd ?n w = (Some (take k (pending w)), w')" "pending w' = drop k (pending w)"
    by (rule stream_recv [OF assms(1) ne(2,1)])
  define s where "s = take k (drop curpos body)"
  have s: "take k (pending w) = s" "length s = k" using k(2) less.prems(1) by (simp_all add: s_def)
  define b1 where "b1 = take curpos b @ map Some s @ drop (curpos + length s) b"
  have b1: "length b1 = length body + 1" using k(2) less.prems by (simp add: b1_def s)
  have "take (curpos + k) b1 = map Some (take (curpos + k) body)"
    using k(2) less.prems s by (simp add: b1_def s_def take_add)
  moreover have p: "pending w' = drop (curpos + k) body @ rest" using k(2,4) less.prems(1) by (simp add: add.commute)
  ultimately show ?case
  proof (cases "curpos + k < length body")
    case True
    have "\<exists>b' w''. read_body net fd (length body) (curpos + k) b1 w' = Inr (b', w'') \<and> pending w'' = rest \<and>
        length b' = length body + 1 \<and> take (length body) b' = map Some body"
      using True k(1) p b1 \<open>take (curpos + k) b1 = _\<close> by (intro less.hyps) auto
    moreover have "read_body net fd (length body) curpos b w = read_body net fd (length body) (curpos + k) b1 w'"
      using True k s by (subst read_body.simps) (auto simp: b1_def Let_def)
    ultimately show ?thesis by simp
  next
    case False
    then have "curpos + k = length body" using k(2) less.prems(2) by simp
    moreover have "read_body net fd (length body) curpos b w = Inr (b1, w')"
      using False k s by (subst read_body.simps) (auto simp: b1_def Let_def)
    ultimately show ?thesis using b1 p \<open>take (curpos + k) b1 = _\<close> by simp
  qed
qed


section \<open>A reply with status 200\<close>

text \<open>The header lines of a reply: a cookie, the length of the body, or a line that starts with neither name.\<close>

datatype header_line = Cookie string | Length nat | Other string

fun line_text :: "header_line \<Rightarrow> string" where
  "line_text (Cookie v) = ''Set-Cookie: '' @ v"
| "line_text (Length n) = ''Content-Length: '' @ dec n"
| "line_text (Other l) = l"

definition header_ok :: "bool \<Rightarrow> header_line \<Rightarrow> bool" where
  "header_ok signed_char h \<longleftrightarrow> line_chars signed_char (line_text h) \<and> length (line_text h) < 510 \<and>
     (case h of
        Cookie v \<Rightarrow> \<not> blank (hd v) \<and> length v < 500
      | Length n \<Rightarrow> n < 2 ^ 31 - 1
      | Other l \<Rightarrow> l \<noteq> [] \<and> \<not> startsWith l ''Content-Length'' \<and> \<not> startsWith l ''Set-Cookie'')"

fun cookies :: "header_line list \<Rightarrow> string list" where
  "cookies [] = []"
| "cookies (Cookie v # hs) = cookie_text v @ cookies hs"
| "cookies (h # hs) = cookies hs"

fun body_length :: "nat \<Rightarrow> header_line list \<Rightarrow> nat" where
  "body_length n [] = n"
| "body_length n (Length k # hs) = body_length k hs"
| "body_length n (h # hs) = body_length n hs"

definition header_text :: "header_line list \<Rightarrow> string" where
  "header_text hs = concat (map (\<lambda>h. line_text h @ [CHR 0x0D, CHR 0x0A]) hs) @ [CHR 0x0D, CHR 0x0A]"

text \<open>What the reply structure holds after the cookies \<open>cs\<close> and a length.\<close>

definition reply_of :: "nat \<Rightarrow> string list \<Rightarrow> reply" where
  "reply_of n cs = \<lparr>rp_length = int n, rp_found = (cs \<noteq> []), rp_cookie = (if cs = [] then None else Some (concat cs))\<rparr>"

lemma scan_length_dec:
  assumes "n < 2 ^ 31 - 1"
  shows "scan_length (''Content-Length: '' @ dec n) = Some (int n)"
proof -
  obtain c r where c: "dec n = c # r" "isdigit c" using dec_Cons by blast
  then have "c \<noteq> CHR '':''" "c \<noteq> CHR '' ''" by (auto simp: isdigit_def)
  then have "takeWhile (\<lambda>c. c = CHR '':'' \<or> c = CHR '' '') (CHR '' '' # dec n) = '' ''" using c by simp
  moreover have "fst (sscanf [Dir_Int] (dec n)) = [VInt (int n)]"
    using scan_number_dec [of "[]" n] assms by (simp add: wrap32_def sat64_def)
  ultimately show ?thesis by (simp add: scan_length_def Let_def isspace_def)
qed

lemma add_cookie_reply:
  assumes "alloc_ok mem (int MAXBUF)" and "length (concat (cs @ [s])) < MAXBUF"
  shows "add_cookie mem True s (reply_of n cs) = Inr (reply_of n (cs @ [s]))"
  using assms by (simp add: add_cookie_def reply_of_def bounded_cat_def stored_def)

definition header_step :: "allocator \<Rightarrow> string \<Rightarrow> reply \<Rightarrow> reply option res" where
  "header_step mem line r = (case length_header line r of None \<Rightarrow> Inr None | Some r1 \<Rightarrow> cookie_header mem True line r1)"

lemma header_step_ok:
  assumes "header_ok sc h" and "alloc_ok mem (int MAXBUF)" and "length (concat (cs @ cookies [h])) < MAXBUF"
  shows "header_step mem (line_text h) (reply_of n cs) = Inr (Some (reply_of (body_length n [h]) (cs @ cookies [h])))"
proof (cases h)
  case (Cookie v)
  have v: "\<not> blank (hd v)" "length v < 500" using assms(1) by (auto simp: header_ok_def Cookie)
  have "\<not> startsWith (''Set-Cookie: '' @ v) ''Content-Length''" by (simp add: startsWith_def c_at_def toupper_def)
  then show ?thesis
    using set_cookie_header [OF v, of mem True "reply_of n cs"] add_cookie_reply [OF assms(2)] assms(3)
    by (auto simp: header_step_def length_header_def Cookie cookie_text_def Let_def)
next
  case (Length k)
  have "k < 2 ^ 31 - 1" using assms(1) by (simp add: header_ok_def Length)
  then have "scan_length (''Content-Length: '' @ dec k) = Some (int k)" by (rule scan_length_dec)
  moreover have "startsWith (''Content-Length: '' @ dec k) ''Content-Length''" "\<not> startsWith (''Content-Length: '' @ dec k) ''Set-Cookie''"
    by (simp_all add: startsWith_def c_at_def toupper_def)
  ultimately show ?thesis by (simp add: header_step_def length_header_def cookie_header_def Length reply_of_def)
next
  case (Other l)
  then show ?thesis using assms(1) by (simp add: header_step_def length_header_def cookie_header_def header_ok_def)
qed


lemma toupper_line_end: "toupper c = CHR 0x0D \<longleftrightarrow> c = CHR 0x0D" "toupper c = CHR 0x0A \<longleftrightarrow> c = CHR 0x0A"
proof -
  have "byte (toupper c) \<in> {65..90} \<or> toupper c = c"
    by (auto simp: toupper_def)
  then show "toupper c = CHR 0x0D \<longleftrightarrow> c = CHR 0x0D" "toupper c = CHR 0x0A \<longleftrightarrow> c = CHR 0x0A"
    by (auto simp: toupper_def)
qed

lemma header_line_goes_on:
  assumes "line_chars sc l" and "l \<noteq> []"
  shows "\<not> (startsWith l [CHR 0x0D, CHR 0x0A] \<or> startsWith l [CHR 0x0A] \<or> l = [])"
proof -
  have "c_at l 0 \<in> set l" using assms(2) by (simp add: c_at_def)
  then have "c_at l 0 \<noteq> CHR 0x0D" "c_at l 0 \<noteq> CHR 0x0A" using assms(1) by (auto simp: line_chars_def)
  then have "toupper (c_at l 0) \<noteq> CHR 0x0D" "toupper (c_at l 0) \<noteq> CHR 0x0A" by (simp_all only: toupper_line_end not_False_eq_True)
  moreover have "toupper (c_at [CHR 0x0D, CHR 0x0A] 0) = CHR 0x0D" "toupper (c_at [CHR 0x0A] 0) = CHR 0x0A"
    by (simp_all add: toupper_def c_at_def)
  ultimately show ?thesis using assms(2) by (simp add: startsWith_def)
qed

lemma line_text_not_empty: "header_ok sc h \<Longrightarrow> line_text h \<noteq> []"
  by (cases h) (auto simp: header_ok_def)

lemma read_headers_unfold:
  assumes "line_chars sc l" and "l \<noteq> []" and "header_step mem l r = Inr (Some r2)"
  shows "read_headers (Suc n) net mem True fd l r w =
    (case socreadln net fd LINE_SIZE w of (s, w1) \<Rightarrow> read_headers n net mem True fd (chomp s) r2 w1)"
  using assms(3) header_line_goes_on [OF assms(1,2)] by (auto simp: header_step_def split: option.splits)

lemma cookies_Cons: "cookies (h # hs) = cookies [h] @ cookies hs"
  by (cases h) auto

lemma body_length_Cons: "body_length n (h # hs) = body_length (body_length n [h]) hs"
  by (cases h) auto

lemma read_headers_stream:
  assumes net: "stream_ok net fd pending" "fd \<noteq> 0" and mem: "alloc_ok mem (int MAXBUF)"
    and "line_chars (k_char_signed net) l" "l \<noteq> []" "header_step mem l r = Inr (Some (reply_of n cs))"
    and "\<forall>h \<in> set hs. header_ok (k_char_signed net) h" and "pending w = header_text hs @ rest"
    and "length (concat (cs @ cookies hs)) < MAXBUF" and "length hs + 2 \<le> fuel"
  shows "\<exists>w'. read_headers fuel net mem True fd l r w = Inr (True, reply_of (body_length n hs) (cs @ cookies hs), w') \<and> pending w' = rest"
  using assms(4-)
proof (induction hs arbitrary: fuel l r n cs w)
  case Nil
  from Nil.prems(7) obtain f where f: "fuel = Suc (Suc f)" using le_Suc_ex [of 2 fuel] by auto
  have "pending w = [] @ [CHR 0x0D, CHR 0x0A] @ rest" using Nil.prems by (simp add: header_text_def)
  then obtain w' where w': "fst (socreadln net fd LINE_SIZE w) = [] @ [CHR 0x0D, CHR 0x0A]" "snd (socreadln net fd LINE_SIZE w) = w'"
      "chomp ([] @ [CHR 0x0D, CHR 0x0A]) = []" "pending w' = rest"
    by (rule socreadln_stream [OF net]) (simp_all add: line_chars_def)
  then show ?case
    using read_headers_unfold [OF Nil.prems(1-3), of "Suc f" net fd w] by (auto simp: f split: prod.splits)
next
  case (Cons h hs)
  then obtain f where f: "fuel = Suc f" by (cases fuel) auto
  have h: "header_ok (k_char_signed net) h" using Cons.prems(4) by simp
  then have hl: "line_chars (k_char_signed net) (line_text h)" "length (line_text h) < 510" by (auto simp: header_ok_def)
  have "pending w = line_text h @ [CHR 0x0D, CHR 0x0A] @ (header_text hs @ rest)" using Cons.prems(5) by (simp add: header_text_def)
  then obtain w' where w': "fst (socreadln net fd LINE_SIZE w) = line_text h @ [CHR 0x0D, CHR 0x0A]" "snd (socreadln net fd LINE_SIZE w) = w'"
      "chomp (line_text h @ [CHR 0x0D, CHR 0x0A]) = line_text h" "pending w' = header_text hs @ rest"
    by (rule socreadln_stream [OF net _ hl])
  have c: "length (concat (cs @ cookies [h])) < MAXBUF" "length (concat ((cs @ cookies [h]) @ cookies hs)) < MAXBUF"
    using Cons.prems(6) by (simp_all add: cookies_Cons [of h hs])
  have "\<exists>w''. read_headers f net mem True fd (line_text h) (reply_of n cs) w' =
      Inr (True, reply_of (body_length (body_length n [h]) hs) ((cs @ cookies [h]) @ cookies hs), w'') \<and> pending w'' = rest"
    using Cons.prems(4,7) f by (intro Cons.IH hl(1) line_text_not_empty [OF h] header_step_ok [OF h mem c(1)] w'(4) c(2)) auto
  then show ?case
    using read_headers_unfold [OF Cons.prems(1-3), of f net fd w] w'
    by (auto simp: f cookies_Cons [of h hs] body_length_Cons [of n h hs] split: prod.splits)
qed


text \<open>URLs with a port.\<close>

lemma parse_url_port:
  assumes "host \<noteq> []" "CHR '':'' \<notin> set host" "length host < MAX_HOST_LEN" and "0 < port" "port < 65536"
  shows "parse_url (''http://'' @ host @ '':'' @ dec port @ ''/'' @ path) = Inr (Some (host, port))"
proof -
  let ?u = "host @ CHR '':'' # dec port @ CHR ''/'' # path"
  have s: "strstr (''http://'' @ host @ '':'' @ dec port @ ''/'' @ path) ''://'' = Some (''://'' @ ?u)"
    by simp
  have h: "takeWhile (\<lambda>c. c \<noteq> CHR '':'') ?u = host" using assms(2) by (auto simp: takeWhile_append)
  have n: "scan_number (dec port @ CHR ''/'' # path) = (False, dec port, CHR ''/'' # path)"
    by (rule scan_number_dec) (simp add: isdigit_def)
  have "hu_value False (dec port) = port" using assms(5) by (simp add: hu_value_def Let_def)
  with assms h n show ?thesis unfolding parse_url_def s by (simp add: stored_def Let_def)
qed

text \<open>The request text, and when it does not fit.\<close>

definition request_text ::
  "bool \<Rightarrow> string \<Rightarrow> string \<Rightarrow> string option \<Rightarrow> string option \<Rightarrow> string option \<Rightarrow> int \<Rightarrow> string" where
  "request_text isPost url host contentType cookie body bodySize =
     request_start isPost url host contentType @
     (case cookie of None \<Rightarrow> [] | Some c \<Rightarrow> ''Cookie: '' @ c @ [CHR 0x0D, CHR 0x0A]) @
     (if has_body body bodySize then ''Content-Length: '' @ show_int bodySize @ [CHR 0x0D, CHR 0x0A] else []) @
     [CHR 0x0D, CHR 0x0A] @ (if has_body body bodySize then (case body of None \<Rightarrow> [] | Some t \<Rightarrow> t) else [])"

lemma build_request_eq:
  "build_request sz isPost url host contentType cookie body bodySize =
     (if (\<exists>c. cookie = Some c \<and> LINE_SIZE \<le> length c + 10) \<or> sz \<le> length (request_text isPost url host contentType cookie body bodySize)
      then Inl Out_Of_Bounds else Inr (request_text isPost url host contentType cookie body bodySize))"
  by (cases cookie; cases "has_body body bodySize")
     (auto simp: build_request_def request_text_def stored_def bounded_cat_def LINE_SIZE_def split: option.split)


text \<open>Reading a whole reply.\<close>

lemma reply_body_stream:
  assumes "stream_ok net fd pending" and "pending w = body @ rest" and "length body < 2 ^ 31 - 1" and "alloc_ok mem (int (length body) + 1)"
  shows "\<exists>w'. reply_body net mem fd (int (length body)) w =
    Inr (if body = [] then None else Some (map Some (body @ [NUL])), w') \<and> pending w' = rest"
proof (cases "body = []")
  case True
  then show ?thesis using assms(2) by (simp add: reply_body_def)
next
  case False
  have "\<exists>b' w'. read_body net fd (length body) 0 (replicate (length body + 1) None) w = Inr (b', w') \<and> pending w' = rest \<and>
      length b' = length body + 1 \<and> take (length body) b' = map Some body"
    using assms(2) False by (intro read_body_stream [OF assms(1)]) auto
  then obtain b' w' where b': "read_body net fd (length body) 0 (replicate (length body + 1) None) w = Inr (b', w')" "pending w' = rest"
      "length b' = length body + 1" "take (length body) b' = map Some body" by blast
  have "b'[length body := Some NUL] = map Some (body @ [NUL])"
    using b'(3,4) by (subst upd_conv_take_nth_drop) auto
  moreover have "wrap32 (int (length body) + 1) = int (length body) + 1" using assms(3) by (simp add: wrap32_def)
  ultimately show ?thesis using b' False assms(4) by (simp add: reply_body_def nat_add_distrib)
qed

definition status_line :: "string \<Rightarrow> string" where
  "status_line reason = ''HTTP/1.1 200 '' @ reason"

lemma status_200: "fst (sscanf status_format (status_line reason)) = [VInt 200]"
  by (simp add: status_line_def status_format_def scan_word_def scan_number_def scan_sign_def isspace_def isdigit_def LINE_SIZE_def
        digits_value_def digit_val_def wrap32_def sat64_def Let_def)

lemma receive_reply_stream:
  assumes net: "stream_ok net fd pending" "fd \<noteq> 0"
    and mem: "alloc_ok mem (int MAXBUF)" "alloc_ok mem (int (length body) + 1)"
    and reason: "line_chars (k_char_signed net) reason" "length reason < 490"
    and hs: "\<forall>h \<in> set hs. header_ok (k_char_signed net) h" "length (concat (cookies hs)) < MAXBUF"
    and body: "body_length 0 hs = length body" "length body < 2 ^ 31 - 1" and fuel: "length hs + 2 \<le> fuel"
    and reply: "pending w = status_line reason @ [CHR 0x0D, CHR 0x0A] @ header_text hs @ body @ rest"
  shows "\<exists>w'. receive_reply fuel net mem True True fd w =
    Inr (\<lparr>o_retval = 1, o_body = Some (if body = [] then None else Some (map Some (body @ [NUL]))),
          o_cookie = Some (if cookies hs = [] then None else Some (concat (cookies hs)))\<rparr>, k_close net fd w') \<and> pending w' = rest"
proof -
  let ?l = "status_line reason"
  have l: "line_chars (k_char_signed net) ?l" "length ?l < 510" "?l \<noteq> []"
    using reason by (auto simp: status_line_def line_chars_def positive_char_def)
  have "\<not> startsWith ?l ''Content-Length''" "\<not> startsWith ?l ''Set-Cookie''"
    by (simp_all add: status_line_def startsWith_def c_at_def toupper_def)
  then have st: "header_step mem ?l no_reply = Inr (Some (reply_of 0 []))"
    by (simp add: header_step_def length_header_def cookie_header_def no_reply_def reply_of_def)
  obtain w1 where w1: "fst (socreadln net fd LINE_SIZE w) = ?l @ [CHR 0x0D, CHR 0x0A]" "snd (socreadln net fd LINE_SIZE w) = w1"
      "chomp (?l @ [CHR 0x0D, CHR 0x0A]) = ?l" "pending w1 = header_text hs @ body @ rest"
    by (rule socreadln_stream [OF net reply l(1,2)])
  have "\<exists>w2. read_headers fuel net mem True fd ?l no_reply w1 = Inr (True, reply_of (body_length 0 hs) ([] @ cookies hs), w2) \<and>
      pending w2 = body @ rest"
    using hs(2) by (intro read_headers_stream [OF net mem(1) l(1,3) st hs(1) w1(4) _ fuel]) simp
  then obtain w2 where w2: "read_headers fuel net mem True fd ?l no_reply w1 = Inr (True, reply_of (length body) (cookies hs), w2)"
      "pending w2 = body @ rest" by (auto simp: body)
  obtain w3 where w3: "reply_body net mem fd (int (length body)) w2 =
      Inr (if body = [] then None else Some (map Some (body @ [NUL])), w3)" "pending w3 = rest"
    using reply_body_stream [OF net(1) w2(2) body(2) mem(2)] by blast
  have rd: "socreadln net fd LINE_SIZE w = (?l @ [CHR 0x0D, CHR 0x0A], w1)" using w1(1,2) by (simp add: prod_eq_iff)
  show ?thesis
    using w3(2) unfolding receive_reply_def rd prod.case Let_def w1(3) status_200
    by (auto simp: w2(1) finish_reply_def w3(1) reply_of_def)
qed


section \<open>The port\<close>

text \<open>A port and a URL once chosen are kept, and no socket is opened again.\<close>

lemma get_free_listening_port_stable:
  assumes "get_free_listening_port net g w = (s, g1, w1)"
  shows "get_free_listening_port net g1 w' = (s, g1, w')"
  using assms by (auto simp: get_free_listening_port_def Let_def split: option.splits prod.splits)

lemma get_home_url_stable:
  assumes "get_home_url net g w = (s, g1, w1)"
  shows "get_home_url net g1 w' = (s, g1, w')"
  using assms by (auto simp: get_home_url_def split: option.splits prod.splits)

section \<open>A whole exchange\<close>

text \<open>
  C7. A request to a URL with a port, connected and sent, gets the reply of the server: however the bytes arrive, a reply with
  status 200 gives 1, the body its header announces with a terminator, and the cookies of all its \<open>Set-Cookie\<close> lines, without
  their attributes, one behind the other. The request must fit its buffer, and so must the cookies.
\<close>

theorem client_exchange:
  assumes host: "host \<noteq> []" "CHR '':'' \<notin> set host" "length host < MAX_HOST_LEN" and port: "0 < port" "port < 65536"
    and connected: "k_socket net w = (fd, w1)" "0 < fd" "dest_address net host w1 = (Some addr, w2)"
      "k_connect net fd addr port w2 = (True, w3)"
    and url: "url = ''http://'' @ host @ '':'' @ dec port @ ''/'' @ path"
    and mem: "\<And>n. 0 \<le> n \<Longrightarrow> n < 2 ^ 31 \<Longrightarrow> alloc_ok mem n"
    and fits: "\<forall>c. cookie = Some c \<longrightarrow> length c < 502" "request_size requestBody bodySize < 2 ^ 31"
      "int (length (request_text isPost url host contentType cookie requestBody bodySize)) < request_size requestBody bodySize"
    and sent: "k_send net fd (request_text isPost url host contentType cookie requestBody bodySize) w3 = (n, w4)" "0 < n"
    and net: "stream_ok net fd pending"
    and reply: "pending w4 = status_line reason @ [CHR 0x0D, CHR 0x0A] @ header_text hs @ body @ rest"
    and reason: "line_chars (k_char_signed net) reason" "length reason < 490"
    and hs: "\<forall>h \<in> set hs. header_ok (k_char_signed net) h" "length (concat (cookies hs)) < MAXBUF"
    and body: "body_length 0 hs = length body" "length body < 2 ^ 31 - 1" and fuel: "length hs + 2 \<le> fuel"
  shows "\<exists>w'. sendHttpRequest fuel net mem (Some url) cookie requestBody contentType bodySize True True isPost w =
    Inr (\<lparr>o_retval = 1, o_body = Some (if body = [] then None else Some (map Some (body @ [NUL]))),
          o_cookie = Some (if cookies hs = [] then None else Some (concat (cookies hs)))\<rparr>, k_close net fd w') \<and> pending w' = rest"
proof -
  have u: "parse_url url = Inr (Some (host, port))" unfolding url by (rule parse_url_port [OF host port])
  have sz: "0 \<le> request_size requestBody bodySize" using fits(3) by simp
  then have a: "alloc_ok mem (wrap32 (request_size requestBody bodySize))" using fits(2) mem by (simp add: wrap32_def)
  have b: "build_request (nat (request_size requestBody bodySize)) isPost url host contentType cookie requestBody bodySize =
      Inr (request_text isPost url host contentType cookie requestBody bodySize)"
    using fits sz by (auto simp: build_request_eq LINE_SIZE_def)
  have "sendHttpRequest fuel net mem (Some url) cookie requestBody contentType bodySize True True isPost w =
      receive_reply fuel net mem True True fd w4"
    using connected sent a b by (simp add: sendHttpRequest_def u)
  moreover have "alloc_ok mem (int MAXBUF)" "alloc_ok mem (int (length body) + 1)" using mem body(2) by (simp_all add: MAXBUF_def)
  ultimately show ?thesis
    using receive_reply_stream [OF net _ _ _ reason hs body fuel reply] connected(2) by auto
qed

definition sample_sockets :: "string sockets" where
  "sample_sockets = \<lparr>k_socket = (\<lambda>w. (3, w)), k_inet_addr = (\<lambda>_. Some ''abcd''), k_gethostbyname = (\<lambda>_ w. (None, w)),
     k_connect = (\<lambda>_ _ _ w. (True, w)), k_send = (\<lambda>_ s w. (int (length s), w)), k_recv = (\<lambda>_ n w. (Some (take n w), drop n w)),
     k_bind_port = (\<lambda>_ w. (Some 8080, w)), k_close = (\<lambda>_ w. w), k_char_signed = True\<rparr>"

lemma sample_sockets_stream: "stream_ok sample_sockets 3 (\<lambda>w. w)"
proof -
  have "take n w = take (min n (length w)) w" "drop n w = drop (min n (length w)) w" for n and w :: string
    by (simp_all add: min_def)
  then show ?thesis unfolding stream_ok_def sample_sockets_def by (auto intro!: exI [of _ "min _ (length _)"])
qed

theorem client_exchange_witness:
  "\<exists>w'. sendHttpRequest 5 sample_sockets (\<lambda>_. True) (Some ''http://h:80/x'') None None None 0 True True False
      (status_line ''OK'' @ [CHR 0x0D, CHR 0x0A] @ header_text [Other ''Server: x'', Cookie ''a=1; expires=0'', Length 2] @ ''hi'') =
    Inr (\<lparr>o_retval = 1, o_body = Some (Some (map Some (''hi'' @ [NUL]))), o_cookie = Some (Some ''a=1;'')\<rparr>, w')"
proof -
  let ?hs = "[Other ''Server: x'', Cookie ''a=1; expires=0'', Length 2]"
  let ?w = "status_line ''OK'' @ [CHR 0x0D, CHR 0x0A] @ header_text ?hs @ ''hi''"
  have d: "dec 80 = ''80''" "dec 2 = ''2''" by code_simp+
  have c: "cookies ?hs = [''a=1;'']" by code_simp
  have "header_ok True (Other ''Server: x'')" "header_ok True (Cookie ''a=1; expires=0'')" "header_ok True (Length 2)"
    by (simp_all add: header_ok_def line_chars_def positive_char_def startsWith_def c_at_def toupper_def blank_def d)
  then have hs: "\<forall>h \<in> set ?hs. header_ok (k_char_signed sample_sockets) h" by (simp add: sample_sockets_def)
  have l: "length (request_text False ''http://h:80/x'' ''h'' None None None 0) < 1024"
      "request_text False ''http://h:80/x'' ''h'' None None None 0 \<noteq> []"
    by (simp_all add: request_text_def request_start_def has_body_def)
  have r: "line_chars (k_char_signed sample_sockets) ''OK''"
    by (simp add: line_chars_def positive_char_def sample_sockets_def)
  show ?thesis
    using client_exchange [of "''h''" 80 sample_sockets ?w 3 ?w "''abcd''" ?w ?w "''http://h:80/x''" "''x''" "\<lambda>_. True" None None 0 False None
        "int (length (request_text False ''http://h:80/x'' ''h'' None None None 0))" ?w
        "\<lambda>w. w" "''OK''" ?hs "''hi''" "[]" 5] hs sample_sockets_stream l r c
    by (simp add: MAX_HOST_LEN_def sample_sockets_def dest_address_def alloc_ok_def request_size_def has_body_def MAXBUF_def d)
qed

end
