(* ===== verification/RubyBridge.thy ===== *)
theory RubyBridge
  imports RhoDispatcher "HOL-Library.AList"
begin

text \<open>
  The C side of the embedded Ruby interpreter (\<open>platform/shared/ruby/ext/rho/rhosupport.c\<close> and \<open>rhoruby.c\<close>): loading of compiled
  Ruby files, the values handed to and returned by the framework, the root directory and log output.

  The interpreter is a parameter: what a compiled file requires when it is evaluated, what the framework answers. Strings of Ruby
  have a length; the C functions used on them stop at a NUL character, which \<open>cstr\<close> expresses.
\<close>

section \<open>The interpreter\<close>

record 'v ruby_vm =
  load_path :: "string list"
  loaded_features :: "string list"
  mark_object_ary :: "'v list"

text \<open>
  \<open>ri_script\<close> gives the requires a compiled file makes when it is evaluated, in order; \<open>None\<close> is a file that cannot be read or
  evaluated, which raises. With a name comes whether its buffer is shared with another Ruby string.
\<close>

record ruby_files =
  ri_symbian :: bool
  ri_root :: string
  ri_readable :: "string \<Rightarrow> bool"
  ri_script :: "string \<Rightarrow> (string \<times> bool) list option"

datatype required = Required | Not_Found | Raised

section \<open>Finding a file\<close>

definition RhoPreparePath :: "ruby_files \<Rightarrow> string \<Rightarrow> string" where
  "RhoPreparePath ri path = (if ri_symbian ri then map (\<lambda>c. if c = CHR ''/'' then CHR 0x5C else c) path else path)"

text \<open>\<open>strchr\<close>: the text from the first occurrence on; the code looks for a slash, then for a backslash.\<close>

definition strchr :: "string \<Rightarrow> char \<Rightarrow> string option" where
  "strchr s c = (if c \<in> set s then Some (dropWhile (\<lambda>x. x \<noteq> c) s) else None)"

definition first_slash :: "string \<Rightarrow> string option" where
  "first_slash s = (case strchr s (CHR ''/'') of Some r \<Rightarrow> Some r | None \<Rightarrow> strchr s (CHR 0x5C))"

text \<open>
  A path with a \<open>RhoBundle\<close> directory becomes relative to the directory below it, and to a directory \<open>app\<close> there. Three
  characters \<open>app\<close> are skipped with one more, which may be the terminator.
\<close>

definition checkRhoBundleInPath :: "string \<Rightarrow> string res" where
  "checkRhoBundleInPath fname =
     (case strstr (cstr fname) ''RhoBundle'' of
        None \<Rightarrow> Inr fname
      | Some b \<Rightarrow>
          (case first_slash b of
             None \<Rightarrow> Inr fname
           | Some s \<Rightarrow>
               (case first_slash (tl s) of
                  None \<Rightarrow> Inr fname
                | Some s1 \<Rightarrow>
                    if take 3 (tl s1) = ''app''
                    then if length s1 < 5 then Inl Out_Of_Bounds else Inr (drop 5 s1)
                    else Inr (tl s1))))"

text \<open>The first readable file in the load path.\<close>

fun search_load_path :: "ruby_files \<Rightarrow> string \<Rightarrow> string list \<Rightarrow> string option" where
  "search_load_path ri fname [] = None"
| "search_load_path ri fname (dir # dirs) =
     (let res = dir @ ''/'' @ fname @ ''.iseq''
      in if ri_readable ri (cstr res) then Some res else search_load_path ri fname dirs)"

definition find_file :: "ruby_files \<Rightarrow> 'v ruby_vm \<Rightarrow> string \<Rightarrow> string option res" where
  "find_file ri vm fname =
     (if take (length (ri_root ri)) (cstr fname) = ri_root ri then Inr (Some (RhoPreparePath ri (fname @ ''.iseq'')))
      else rbind (checkRhoBundleInPath fname) (\<lambda>f.
             if 1 < length (load_path vm)
             then Inr (map_option (RhoPreparePath ri) (search_load_path ri f (load_path vm)))
             else Inl Uninitialised_Read))"

section \<open>Requiring a file\<close>

definition isAlreadyLoaded :: "'v ruby_vm \<Rightarrow> string \<Rightarrow> bool" where
  "isAlreadyLoaded vm path \<longleftrightarrow> list_ex (\<lambda>f. length f = length path \<and> cstr f = cstr path) (loaded_features vm)"

text \<open>\<open>fname.sub!(".rb", "")\<close>.\<close>

fun sub_rb :: "string \<Rightarrow> string" where
  "sub_rb [] = []"
| "sub_rb (c # s) = (if take 3 (c # s) = ''.rb'' then drop 3 (c # s) else c # sub_rb s)"

text \<open>
  \<open>require_compiled\<close>, with the requires of the file it evaluates. The name compared with the built-in libraries is the buffer the
  string had before the substitution, which still holds the old name when the buffer was shared. The files evaluated
  are recorded in order.
\<close>

function (sequential) require_compiled ::
  "nat \<Rightarrow> ruby_files \<Rightarrow> string \<Rightarrow> bool \<Rightarrow> 'v ruby_vm \<Rightarrow> string list \<Rightarrow> (required \<times> 'v ruby_vm \<times> string list) res"
  and require_all ::
  "nat \<Rightarrow> ruby_files \<Rightarrow> (string \<times> bool) list \<Rightarrow> 'v ruby_vm \<Rightarrow> string list \<Rightarrow> (required \<times> 'v ruby_vm \<times> string list) res"
where
  "require_compiled 0 ri name shared vm ev = Inl Out_Of_Fuel"
| "require_compiled (Suc n) ri name shared vm ev =
     (let fname = sub_rb name; szName = cstr (if shared then name else fname)
      in if szName = ''strscan'' \<or> szName = ''enumerator'' then Inr (Required, vm, ev)
         else rbind (find_file ri vm fname) (\<lambda>found.
                case found of
                  None \<Rightarrow> Inr (Not_Found, vm, ev)
                | Some path \<Rightarrow>
                    if isAlreadyLoaded vm path then Inr (Required, vm, ev)
                    else
                      let vm1 = vm\<lparr>loaded_features := loaded_features vm @ [path]\<rparr>
                      in (case ri_script ri path of
                            None \<Rightarrow> Inr (Raised, vm1, ev)
                          | Some reqs \<Rightarrow> require_all n ri reqs vm1 (ev @ [path]))))"
| "require_all n ri [] vm ev = Inr (Required, vm, ev)"
| "require_all n ri (r # rs) vm ev =
     rbind (require_compiled n ri (fst r) (snd r) vm ev) (\<lambda>(res, vm1, ev1).
       if res = Required then require_all n ri rs vm1 ev1 else Inr (Raised, vm1, ev1))"
  by pat_completeness auto

termination
  by (relation "inv_image (less_than <*lex*> less_than <*lex*> less_than) (\<lambda>x. case x of
        Inl (n, _) \<Rightarrow> (n, 0 :: nat, 0 :: nat) | Inr (n, _, rs, _) \<Rightarrow> (n, 1, length rs))") auto

text \<open>The method \<open>require\<close> of Ruby programs: a file that is not found raises a load error.\<close>

definition rb_require_compiled ::
  "nat \<Rightarrow> ruby_files \<Rightarrow> string \<Rightarrow> bool \<Rightarrow> 'v ruby_vm \<Rightarrow> string list \<Rightarrow> (required \<times> 'v ruby_vm \<times> string list) res" where
  "rb_require_compiled n ri name shared vm ev =
     rbind (require_compiled n ri name shared vm ev) (\<lambda>(res, vm1, ev1). Inr (if res = Not_Found then Raised else res, vm1, ev1))"


section \<open>Values for the framework\<close>

text \<open>The values the dispatchers build. Ruby's hashes keep the order of insertion; a key set again keeps its place.\<close>

datatype ruby_value = R_nil | R_fixnum int | R_string string | R_time int | R_array "ruby_value list" | R_hash "(string \<times> ruby_value) list"

definition createHash :: ruby_value where
  "createHash = R_hash []"

definition rb_hash_aset :: "ruby_value \<Rightarrow> string \<Rightarrow> ruby_value \<Rightarrow> ruby_value res" where
  "rb_hash_aset h k v = (case h of R_hash kvs \<Rightarrow> Inr (R_hash (AList.update k v kvs)) | _ \<Rightarrow> Inl Type_Confusion)"

text \<open>\<open>INT2FIX\<close> shifts the number left by one in a 32-bit \<open>VALUE\<close>; reading it back shifts right with the sign.\<close>

definition INT2FIX :: "int \<Rightarrow> 32 word" where
  "INT2FIX i = push_bit 1 (word_of_int i) OR 1"

definition fixnum :: "32 word \<Rightarrow> int" where
  "fixnum v = sint v div 2"

definition addIntToHash :: "ruby_value \<Rightarrow> string \<Rightarrow> int \<Rightarrow> ruby_value res" where
  "addIntToHash h key val = rb_hash_aset h (cstr key) (R_fixnum (fixnum (INT2FIX val)))"

definition addTimeToHash :: "ruby_value \<Rightarrow> string \<Rightarrow> int \<Rightarrow> ruby_value res" where
  "addTimeToHash h key val = rb_hash_aset h (cstr key) (R_time val)"

definition addStrToHash :: "ruby_value \<Rightarrow> string \<Rightarrow> string \<Rightarrow> nat \<Rightarrow> ruby_value res" where
  "addStrToHash h key val len = (if len \<le> length val then rb_hash_aset h (cstr key) (R_string (take len val)) else Inl Out_Of_Bounds)"

definition addHashToHash :: "ruby_value \<Rightarrow> string \<Rightarrow> ruby_value \<Rightarrow> ruby_value res" where
  "addHashToHash h key val = rb_hash_aset h (cstr key) val"

definition rho_ruby_create_array :: ruby_value where
  "rho_ruby_create_array = R_array []"

definition rho_ruby_create_string :: "string \<Rightarrow> ruby_value" where
  "rho_ruby_create_string s = R_string (cstr s)"

definition rho_ruby_add_to_array :: "ruby_value \<Rightarrow> ruby_value \<Rightarrow> ruby_value res" where
  "rho_ruby_add_to_array ar v = (case ar of R_array vs \<Rightarrow> Inr (R_array (vs @ [v])) | _ \<Rightarrow> Inl Type_Confusion)"

definition getStringFromValue :: "ruby_value \<Rightarrow> string res" where
  "getStringFromValue v = (case v of R_string s \<Rightarrow> Inr s | _ \<Rightarrow> Inl Type_Confusion)"

definition getStringLenFromValue :: "ruby_value \<Rightarrow> nat res" where
  "getStringLenFromValue v = (case v of R_string s \<Rightarrow> Inr (length s) | _ \<Rightarrow> Inl Type_Confusion)"

section \<open>Calling the framework\<close>

text \<open>
  An answer is pinned against the collector until it is released. \<open>serve\<close> and \<open>serve_index\<close> are the methods of the
  framework; values are references, \<open>is_string\<close> their type, \<open>error\<close> the new string for an answer that is not a string.
\<close>

definition pin_answer :: "('v \<Rightarrow> bool) \<Rightarrow> 'v \<Rightarrow> 'v \<times> 'v ruby_vm \<Rightarrow> 'v \<times> 'v ruby_vm" where
  "pin_answer is_string error r =
     (case r of
        (callres, vm) \<Rightarrow>
          if \<not> is_string callres then (error, vm)
          else (callres, vm\<lparr>mark_object_ary := mark_object_ary vm @ [callres]\<rparr>))"

definition callFramework ::
  "('h \<Rightarrow> 'v ruby_vm \<Rightarrow> 'v \<times> 'v ruby_vm) \<Rightarrow> ('v \<Rightarrow> bool) \<Rightarrow> 'v \<Rightarrow> 'h \<Rightarrow> 'v ruby_vm \<Rightarrow> 'v \<times> 'v ruby_vm" where
  "callFramework serve is_string error hashReq vm = pin_answer is_string error (serve hashReq vm)"

definition callServeIndex ::
  "ruby_files \<Rightarrow> (string \<Rightarrow> 'v ruby_vm \<Rightarrow> 'v \<times> 'v ruby_vm) \<Rightarrow> ('v \<Rightarrow> bool) \<Rightarrow> 'v \<Rightarrow> string \<Rightarrow> 'v ruby_vm \<Rightarrow> 'v \<times> 'v ruby_vm" where
  "callServeIndex ri serve_index is_string error index_name vm =
     pin_answer is_string error (serve_index (RhoPreparePath ri (cstr index_name)) vm)"

text \<open>The search from the end; the number is one more than the index looked at.\<close>

fun last_mark :: "'v list \<Rightarrow> 'v \<Rightarrow> nat \<Rightarrow> nat option" where
  "last_mark ary v 0 = None"
| "last_mark ary v (Suc i) = (if ary ! i = v then Some i else last_mark ary v i)"

definition releaseValue :: "'v \<Rightarrow> 'v ruby_vm \<Rightarrow> 'v ruby_vm" where
  "releaseValue v vm =
     (case last_mark (mark_object_ary vm) v (length (mark_object_ary vm)) of
        None \<Rightarrow> vm
      | Some i \<Rightarrow> vm\<lparr>mark_object_ary := take i (mark_object_ary vm) @ drop (Suc i) (mark_object_ary vm)\<rparr>)"

section \<open>The root directory on Windows\<close>

definition MAX_PATH :: nat where "MAX_PATH = 260"

text \<open>From the terminator back to a separator; the name of the program was stored without a terminator if it fills the buffer.\<close>

fun back_to_slash :: "string \<Rightarrow> nat \<Rightarrow> nat res" where
  "back_to_slash t len =
     (if c_at t len = CHR 0x5C \<or> c_at t len = CHR ''/'' then Inr len
      else if len = 0 then Inl Out_Of_Bounds else back_to_slash t (len - 1))"

declare back_to_slash.simps [simp del]

text \<open>The cached root path and \<open>GetModuleFileNameA\<close>, which gives the path of the program or fails.\<close>

definition RhoGetRootPath :: "string option \<Rightarrow> string option \<Rightarrow> string res" where
  "RhoGetRootPath rootpath module =
     (case rootpath of
        Some r \<Rightarrow> Inr r
      | None \<Rightarrow>
          (case module of
             None \<Rightarrow> Inr ''.''
           | Some t \<Rightarrow>
               if MAX_PATH \<le> length t then Inl Out_Of_Bounds
               else rbind (back_to_slash t (length t)) (\<lambda>len.
                      if len + 5 < MAX_PATH then Inr (take len t @ [CHR 0x5C] @ ''rho'' @ [CHR 0x5C]) else Inl Out_Of_Bounds)))"

section \<open>Logging\<close>

datatype severity = L_INFO | L_ERROR | L_FATAL

datatype out_file = Out_stdout | Out_stderr | Out_other

text \<open>Where output of the interpreter goes: \<open>None\<close> is the file itself.\<close>

definition rhoRubyVFPrintf :: "out_file \<Rightarrow> string \<Rightarrow> severity option" where
  "rhoRubyVFPrintf f fmt =
     (case f of
        Out_other \<Rightarrow> None
      | Out_stdout \<Rightarrow> Some L_INFO
      | Out_stderr \<Rightarrow> Some (if strstr fmt ''[FATAL]'' \<noteq> None then L_FATAL else L_ERROR))"

definition rb_RhoLogWrite :: "string \<Rightarrow> string option" where
  "rb_RhoLogWrite str =
     (let s = cstr str in if s \<noteq> [CHR 0x0D, CHR 0x0A] \<and> s \<noteq> [CHR 0x0A] then Some s else None)"

text \<open>The lines of a report of the collector.\<close>

function rhoGCReport :: "string \<Rightarrow> string list" where
  "rhoGCReport report =
     (if report = [] then []
      else let l = takeWhile (\<lambda>c. c \<noteq> CHR 0x0A) report in l # rhoGCReport (drop (length l + 1) report))"
  by pat_completeness auto

termination
  by (relation "measure length") auto

declare rhoGCReport.simps [simp del]


section \<open>Every file is evaluated once\<close>

definition fresh_run :: "'v ruby_vm \<Rightarrow> string list \<Rightarrow> 'v ruby_vm \<Rightarrow> string list \<Rightarrow> bool" where
  "fresh_run vm ev vm' ev' \<longleftrightarrow> (\<exists>new. ev' = ev @ new \<and> distinct new \<and> set new \<inter> set (loaded_features vm) = {} \<and>
     set (loaded_features vm) \<union> set new \<subseteq> set (loaded_features vm'))"

lemma fresh_run_refl: "fresh_run vm ev vm ev"
  by (simp add: fresh_run_def)

lemma fresh_run_trans: "fresh_run vm ev vm1 ev1 \<Longrightarrow> fresh_run vm1 ev1 vm2 ev2 \<Longrightarrow> fresh_run vm ev vm2 ev2"
  unfolding fresh_run_def by (elim exE) (rule_tac x = "new @ newa" in exI, auto)

lemma not_loaded: "\<not> isAlreadyLoaded vm path \<Longrightarrow> path \<notin> set (loaded_features vm)"
  by (auto simp: isAlreadyLoaded_def list_ex_iff)

lemma fresh_run_load:
  assumes "\<not> isAlreadyLoaded vm path"
  shows "fresh_run vm ev (vm\<lparr>loaded_features := loaded_features vm @ [path]\<rparr>) (ev @ [path])"
  unfolding fresh_run_def using not_loaded [OF assms] by (intro exI [of _ "[path]"]) auto

text \<open>What one call does: nothing, or it adds a file to the features and evaluates it.\<close>

lemma require_compiled_step:
  "require_compiled (Suc n) ri name shared vm ev \<in>
     {Inr (Required, vm, ev), Inr (Not_Found, vm, ev), Inl Out_Of_Bounds, Inl Uninitialised_Read} \<or>
   (\<exists>path. \<not> isAlreadyLoaded vm path \<and>
     (let vm1 = vm\<lparr>loaded_features := loaded_features vm @ [path]\<rparr>
      in (case ri_script ri path of None \<Rightarrow> Inr (Raised, vm1, ev) | Some reqs \<Rightarrow> require_all n ri reqs vm1 (ev @ [path])) =
         require_compiled (Suc n) ri name shared vm ev))"
proof (cases "cstr (if shared then name else sub_rb name) \<in> {''strscan'', ''enumerator''}")
  case True
  then show ?thesis by (auto simp: Let_def)
next
  case False
  have "find_file ri vm (sub_rb name) \<in> {Inl Out_Of_Bounds, Inl Uninitialised_Read} \<or> (\<exists>found. find_file ri vm (sub_rb name) = Inr found)"
    by (auto simp: find_file_def checkRhoBundleInPath_def split: option.splits)
  then consider "find_file ri vm (sub_rb name) \<in> {Inl Out_Of_Bounds, Inl Uninitialised_Read, Inr None}"
    | path where "find_file ri vm (sub_rb name) = Inr (Some path)" "isAlreadyLoaded vm path"
    | path where "find_file ri vm (sub_rb name) = Inr (Some path)" "\<not> isAlreadyLoaded vm path"
    by (metis insertCI insertE not_None_eq singletonD)
  then show ?thesis
  proof cases
    case (3 path)
    then show ?thesis using False by (intro disjI2 exI [of _ path]) (auto simp: Let_def)
  qed (use False in \<open>auto simp: Let_def\<close>)
qed

lemma require_all_fresh:
  fixes vm :: "'v ruby_vm"
  assumes "\<And>name shared (vm :: 'v ruby_vm) ev r vm' ev'. require_compiled n ri name shared vm ev = Inr (r, vm', ev') \<Longrightarrow> fresh_run vm ev vm' ev'"
    and "require_all n ri rs vm ev = Inr (r, vm', ev')"
  shows "fresh_run vm ev vm' ev'"
  using assms(2)
proof (induction rs arbitrary: vm ev)
  case (Cons x rs)
  from Cons.prems obtain q vm1 ev1 where c: "require_compiled n ri (fst x) (snd x) vm ev = Inr (q, vm1, ev1)"
      and d: "q = Required \<and> require_all n ri rs vm1 ev1 = Inr (r, vm', ev') \<or> vm1 = vm' \<and> ev1 = ev'"
    by (auto simp: rbind_Inr_iff split: if_splits)
  from d show ?case using assms(1) [OF c] Cons.IH [of vm1 ev1] by (auto intro: fresh_run_trans)
qed (simp add: fresh_run_refl)

lemma require_fresh: "require_compiled n ri name shared vm ev = Inr (r, vm', ev') \<Longrightarrow> fresh_run vm ev vm' ev'"
proof (induction n arbitrary: name shared vm ev r vm' ev')
  case (Suc n)
  have f: "fresh_run vm ev (vm\<lparr>loaded_features := loaded_features vm @ [path]\<rparr>) ev" for path
    by (auto simp: fresh_run_def)
  have g: "fresh_run vm ev vm' ev'"
    if "\<not> isAlreadyLoaded vm path" "require_all n ri reqs (vm\<lparr>loaded_features := loaded_features vm @ [path]\<rparr>) (ev @ [path]) = Inr (r, vm', ev')"
    for path reqs
    by (rule fresh_run_trans [OF fresh_run_load [OF that(1)] require_all_fresh [OF Suc.IH that(2)]])
  have "vm' = vm \<and> ev' = ev \<or> (\<exists>path. vm' = vm\<lparr>loaded_features := loaded_features vm @ [path]\<rparr> \<and> ev' = ev) \<or>
      (\<exists>path reqs. \<not> isAlreadyLoaded vm path \<and>
        require_all n ri reqs (vm\<lparr>loaded_features := loaded_features vm @ [path]\<rparr>) (ev @ [path]) = Inr (r, vm', ev'))"
    using require_compiled_step [of n ri name shared vm ev] unfolding Suc.prems by (fastforce simp: Let_def split: option.splits)
  then show ?case using f g fresh_run_refl by blast
qed simp

text \<open>Requires end, cyclic ones too: nested evaluations are of different files.\<close>

lemma require_all_ends:
  fixes vm :: "'v ruby_vm"
  assumes "\<And>name shared (vm :: 'v ruby_vm) ev. card (P - set (loaded_features vm)) < n \<Longrightarrow> require_compiled n ri name shared vm ev \<noteq> Inl Out_Of_Fuel"
    and "finite P" and "card (P - set (loaded_features vm)) < n"
  shows "require_all n ri rs vm ev \<noteq> Inl Out_Of_Fuel"
  using assms(3)
proof (induction rs arbitrary: vm ev)
  case (Cons x rs)
  show ?case
  proof (cases "require_compiled n ri (fst x) (snd x) vm ev")
    case (Inl e)
    then show ?thesis using assms(1) [OF Cons.prems, of "fst x" "snd x" ev] by simp
  next
    case (Inr y)
    obtain r vm1 ev1 where y: "y = (r, vm1, ev1)" by (cases y)
    have "P - set (loaded_features vm1) \<subseteq> P - set (loaded_features vm)"
      using require_fresh [OF Inr [unfolded y]] by (auto simp: fresh_run_def)
    then have "card (P - set (loaded_features vm1)) < n"
      using Cons.prems card_mono [of "P - set (loaded_features vm)"] assms(2) by (meson finite_Diff le_less_trans)
    then show ?thesis using Inr y Cons.IH [of vm1 ev1] by simp
  qed
qed simp

lemma require_ends:
  assumes "finite P" and "\<And>p. ri_script ri p \<noteq> None \<Longrightarrow> p \<in> P"
  shows "card (P - set (loaded_features vm)) < n \<Longrightarrow> require_compiled n ri name shared vm ev \<noteq> Inl Out_Of_Fuel"
proof (induction n arbitrary: name shared vm ev)
  case (Suc n)
  have g: "require_all n ri reqs (vm\<lparr>loaded_features := loaded_features vm @ [path]\<rparr>) (ev @ [path]) \<noteq> Inl Out_Of_Fuel"
    if "\<not> isAlreadyLoaded vm path" "ri_script ri path = Some reqs" for path reqs
  proof (rule require_all_ends [OF Suc.IH assms(1)])
    have "path \<in> P - set (loaded_features vm)" using that not_loaded assms(2) [of path] by auto
    then have "card (P - set (loaded_features vm) - {path}) < card (P - set (loaded_features vm))"
      using assms(1) by (intro card_Diff1_less) auto
    moreover have "P - set (loaded_features vm @ [path]) = P - set (loaded_features vm) - {path}" by auto
    ultimately show "card (P - set (loaded_features (vm\<lparr>loaded_features := loaded_features vm @ [path]\<rparr>))) < n"
      using Suc.prems by simp
  qed
  show ?case
  proof
    assume e: "require_compiled (Suc n) ri name shared vm ev = Inl Out_Of_Fuel"
    show False using require_compiled_step [of n ri name shared vm ev] g unfolding e by (auto simp: Let_def split: option.splits)
  qed
qed simp


text \<open>A file that could not be evaluated counts as loaded: requiring it again succeeds without it.\<close>

lemma failed_load_counts_as_loaded:
  assumes "find_file ri vm (sub_rb name) = Inr (Some path)" "\<not> isAlreadyLoaded vm path" "ri_script ri path = None"
    and "cstr (if shared then name else sub_rb name) \<notin> {''strscan'', ''enumerator''}"
  shows "\<exists>vm1. require_compiled (Suc n) ri name shared vm ev = Inr (Raised, vm1, ev) \<and>
    require_compiled (Suc n) ri name shared vm1 ev = Inr (Required, vm1, ev)"
proof -
  let ?vm1 = "vm\<lparr>loaded_features := loaded_features vm @ [path]\<rparr>"
  have "isAlreadyLoaded ?vm1 path" by (simp add: isAlreadyLoaded_def)
  moreover have "find_file ri ?vm1 (sub_rb name) = Inr (Some path)" using assms(1) by (simp add: find_file_def cong: if_cong)
  ultimately show ?thesis using assms by (intro exI [of _ ?vm1]) (auto simp: Let_def)
qed

text \<open>With a load path of one directory the path of a file outside the root is never assigned.\<close>

lemma find_file_single_load_path:
  assumes "take (length (ri_root ri)) (cstr fname) \<noteq> ri_root ri" "strstr (cstr fname) ''RhoBundle'' = None" "length (load_path vm) \<le> 1"
  shows "find_file ri vm fname = Inl Uninitialised_Read"
  using assms by (simp add: find_file_def checkRhoBundleInPath_def)

text \<open>Pinning and releasing an answer are balanced.\<close>

lemma release_after_call:
  assumes "serve req vm = (v, vm1)" and "is_string v"
  shows "callFramework serve is_string err req vm = (v, vm1\<lparr>mark_object_ary := mark_object_ary vm1 @ [v]\<rparr>)"
    and "releaseValue v (vm1\<lparr>mark_object_ary := mark_object_ary vm1 @ [v]\<rparr>) = vm1"
  using assms by (simp_all add: callFramework_def pin_answer_def releaseValue_def)

text \<open>Integers lose a bit on their way into Ruby.\<close>

lemma fixnum_INT2FIX: "fixnum (INT2FIX i) = (i + 2 ^ 30) mod 2 ^ 31 - 2 ^ 30"
proof -
  have w: "INT2FIX i = word_of_int (2 * i + 1)"
    by (simp add: INT2FIX_def push_bit_eq_mult mult.commute or_one_eq)
  have "sint (INT2FIX i) = (2 * i + 1 + 2 ^ 31) mod 2 ^ 32 - 2 ^ 31"
    unfolding w signed_of_int by (simp add: signed_take_bit_eq_take_bit_shift take_bit_eq_mod)
  also have "(2 * i + 1 + 2 ^ 31) mod 2 ^ 32 = 2 * ((i + 2 ^ 30) mod 2 ^ 31) + 1"
    using pos_zmod_mult_2 [of "2 ^ 31" "i + 2 ^ 30"] by (simp add: algebra_simps)
  finally show ?thesis by (simp add: fixnum_def)
qed


section \<open>Properties\<close>

text \<open>
  C10. Requiring a file ends, whatever the files require, cyclic requires included: the fuel that counts the files not yet loaded is
  enough. Every file is evaluated at most once, none that was loaded before, and every evaluated file is recorded.
\<close>

theorem require_loads_once:
  assumes "finite P" and "\<And>p. ri_script ri p \<noteq> None \<Longrightarrow> p \<in> P" and "card (P - set (loaded_features vm)) < n"
  shows "require_compiled n ri name shared vm ev \<noteq> Inl Out_Of_Fuel \<and>
    (\<forall>r vm' ev'. require_compiled n ri name shared vm ev = Inr (r, vm', ev') \<longrightarrow>
      (\<exists>new. ev' = ev @ new \<and> distinct new \<and> set new \<inter> set (loaded_features vm) = {} \<and>
        set (loaded_features vm) \<union> set new \<subseteq> set (loaded_features vm')))"
  using require_ends [OF assms, where name = name and shared = shared and ev = ev] require_fresh [of n ri name shared vm ev] by (simp add: fresh_run_def)

definition cyclic_files :: ruby_files where
  "cyclic_files = \<lparr>ri_symbian = False, ri_root = ''/'', ri_readable = (\<lambda>_. True),
     ri_script = [''/a.iseq'' \<mapsto> [(''/b.rb'', False)], ''/b.iseq'' \<mapsto> [(''/a'', False)]]\<rparr>"

theorem require_loads_once_witness:
  "let vm = \<lparr>load_path = [], loaded_features = [], mark_object_ary = []\<rparr> :: nat ruby_vm
   in require_compiled 3 cyclic_files ''/a'' False vm [] \<noteq> Inl Out_Of_Fuel \<and>
      require_compiled 3 cyclic_files ''/a'' False vm [] =
        Inr (Required, vm\<lparr>loaded_features := [''/a.iseq'', ''/b.iseq'']\<rparr>, [''/a.iseq'', ''/b.iseq''])"
proof -
  let ?vm = "\<lparr>load_path = [], loaded_features = [], mark_object_ary = []\<rparr> :: nat ruby_vm"
  have p: "p \<in> {''/a.iseq'', ''/b.iseq''}" if "ri_script cyclic_files p \<noteq> None" for p
    using that by (auto simp: cyclic_files_def split: if_splits)
  have "require_compiled 3 cyclic_files ''/a'' False ?vm [] \<noteq> Inl Out_Of_Fuel"
    using require_loads_once [OF _ p, where vm = ?vm and n = 3 and name = "''/a''" and shared = False and ev = "[]"] by simp
  moreover have "require_compiled 3 cyclic_files ''/a'' False ?vm [] =
      Inr (Required, ?vm\<lparr>loaded_features := [''/a.iseq'', ''/b.iseq'']\<rparr>, [''/a.iseq'', ''/b.iseq''])"
    by (simp add: numeral_3_eq_3 Let_def cyclic_files_def find_file_def RhoPreparePath_def isAlreadyLoaded_def cstr_def)
  ultimately show ?thesis by (simp add: Let_def)
qed

end
