(* ===== verification/Spec2Isabelle.thy ===== *)
theory Spec2Isabelle
  imports PrintBuf ArrayList LinkHash JsonObject JsonTokener JsonRefs JsonFile HttpText ShttpdIo RhoDispatcher
    ShttpdStreams ShttpdRequest ShttpdServer ShttpdInvariant ShttpdExchange ShttpdWorker
    ShttpdConfig Md5 ShttpdAuth IphoneReply IphoneRequest IphoneDispatcher IphoneMessage IphoneContext IphoneServer
    SymbianClient RubyBridge
begin

text \<open>
  Verification of the C core of Rhodes, a framework for mobile applications written in Ruby. An application runs in an embedded
  Ruby interpreter; its user interface is a web view that talks to an HTTP server inside the same process.

  \<^bold>\<open>The program and its parts.\<close> On Windows Mobile and Symbian the server is a modified shttpd (\<open>platform/shared/shttpd/src\<close>): the
  poll loop accepts connections, reads requests into fixed buffers, parses them and attaches a local stream to the connection,
  which is a file, a directory listing, or a registered callback. The callback of Rhodes is the dispatcher (\<open>rdispatcher.c\<close>): it
  collects the body of a request, splits the URI into application, model, action and identifier, builds a Ruby hash and sends the
  framework's answer through the output buffer in pieces. On the iPhone a separate server in C on CoreFoundation
  (\<open>platform/iphone/Classes/Server\<close>) does the same with a dispatcher of its own. The synchronisation engine reads the server's
  answers with a JSON library (\<open>platform/shared/json\<close>); on Symbian it sends its requests with a small HTTP client
  (\<open>platform/symbian/rhodes/src\<close>). The Ruby bridge (\<open>platform/shared/ruby/ext/rho\<close>) loads compiled Ruby files and calls the framework.

  \<^bold>\<open>How the code is translated.\<close> Structures are records, enumerations and unions datatypes with the constructors of the source, and
  every function is a function of HOL of the same name. An access outside an object, a null pointer, a failed assertion, a call of
  \<open>exit\<close> are values of \<^typ>\<open>c_fault\<close>, so that every function that can go wrong returns a sum. Integers are words, or \<open>int\<close> with
  \<open>wrap32\<close> and, for \<open>size_t\<close>, \<open>size_t\<close> and \<open>add_size_t\<close> written where the code relies on 32 bits; counters that would need gigabytes
  of data to overflow (token positions, slots of tables and arrays) are unbounded. Memory whose content matters is explicit: buffers are lists of characters,
  blocks whose bytes may be uninitialised are lists of options, and JSON objects that share sub-objects live on a heap from
  addresses to objects. Operating system, network, CoreFoundation, Ruby and the memory allocator are parameters: records of
  functions (\<open>os\<close>, \<open>net\<close>, \<open>phone\<close>, \<open>cf\<close>, \<open>server_os\<close>, \<open>files\<close>, \<open>sockets\<close>, \<open>ruby_files\<close>, \<open>dbl\<close>) or a predicate on sizes, and what a theorem
  needs of them is a hypothesis of the theorem.

  \<^bold>\<open>Theories, sources and what is shown.\<close>
  \<^item> \<open>Prelude\<close>: faults, sequencing, fixed-width integers, C strings, character classes, decimal text; lemmas shared by all.
  \<^item> \<open>PrintBuf\<close> (\<open>printbuf.c\<close>), \<open>ArrayList\<close> (\<open>arraylist.c\<close>), \<open>LinkHash\<close> (\<open>linkhash.c\<close>): the containers of the JSON library, each with an
    invariant and a refinement of lists and association lists, stated as the locales \<open>byte_sink\<close>, \<open>dyn_array\<close> and \<open>ordered_map\<close> and
    interpreted on the code's functions. A table without a free slot makes a lookup run forever.
  \<^item> \<open>JsonObject\<close> and \<open>JsonTokener\<close> (\<open>json_object.c\<close>, \<open>json_tokener.c\<close>): the printer writes the text of a value; the parser is a
    state machine over a stack that never leaves its bounds on any text; parsing what was printed gives the value back.
  \<^item> \<open>JsonRefs\<close> (\<open>json_object.c\<close>): the same objects on the heap, with counts, shared members and nested deletion. Every reachable heap
    is well typed and every count is the number of pointers; \<open>json_object_put\<close> frees exactly what is no longer referenced; the
    locale \<open>counted_refs\<close> gives that nothing leaks; storing a member refines the list of members.
  \<^item> \<open>JsonFile\<close> (\<open>json_util.c\<close>): a value written to a file is read back unless a call of the operating system fails, which both
    functions report.
  \<^item> \<open>HttpText\<close> (\<open>string.c\<close> and the text level of \<open>shttpd.c\<close>): URL decoding, removal of double dots, end of headers, dates, MIME types.
  \<^item> \<open>ShttpdIo\<close> (\<open>io.h\<close>, \<open>defs.h\<close>): buffers and the records of streams and connections; the buffers are queues (locale \<open>byte_queue\<close>)
    for steps below \<open>2 ^ 31\<close> bytes.
  \<^item> \<open>RhoDispatcher\<close> (\<open>rdispatcher.c\<close>): routes, request hash, collecting the body, sending the answer.
  \<^item> \<open>ShttpdStreams\<close> (\<open>io_emb.c\<close>, \<open>io_file.c\<close>, \<open>io_dir.c\<close>, \<open>io_socket.c\<close>), \<open>ShttpdRequest\<close> (parsing and routing), \<open>ShttpdServer\<close> (reading, writing,
    processing and closing connections), \<open>ShttpdWorker\<close> (access control, workers, the poll loop), \<open>ShttpdConfig\<close> (options, ports, start
    and end): callbacks are a locale \<open>user_callback\<close> that the dispatcher satisfies; \<open>ShttpdInvariant\<close> shows that all of it keeps the
    buffers well formed as far as it returns, \<open>ShttpdExchange\<close> where the accounting of lengths fails.
  \<^item> \<open>Md5\<close> (\<open>md5.c\<close>): hashing in pieces is hashing the whole. \<open>ShttpdAuth\<close> (\<open>auth.c\<close>): digest authentication accepts exactly the response
    computed from the password that was set.
  \<^item> \<open>IphoneReply\<close>, \<open>IphoneRequest\<close>, \<open>IphoneMessage\<close> (\<open>HttpMessage.c\<close>), \<open>IphoneDispatcher\<close> (\<open>Dispatcher.c\<close>), \<open>IphoneContext\<close> (\<open>HttpContext.c\<close>),
    \<open>IphoneServer\<close> (\<open>Server.c\<close>, \<open>ServerHost.m\<close>): requests are read back in whatever pieces they arrive; connections and the server are
    freed exactly once; which errors the code answers, and which it does not survive.
  \<^item> \<open>SymbianClient\<close> (\<open>posix_http_client.c\<close>, \<open>ports_mngt.c\<close>): a request that fits its buffer gets body and cookies of the reply.
  \<^item> \<open>RubyBridge\<close> (\<open>rhosupport.c\<close>, \<open>rhoruby.c\<close>): requiring ends and evaluates every file once; answers are pinned and released.

  \<^item> This theory: the HTTP client and the JSON parser together, a JSON text in a reply is parsed to its value.

  \<^bold>\<open>Loops and fuel.\<close> A loop over data is a recursive function with a termination proof. Fuel is used where the code may run on: the
  probing of a hash table carries the number of slots, after which the C loop would go round for ever; \<open>redo_fuel\<close> bounds the jumps of
  the tokener on one character, and eight are shown to be enough for every state; \<open>process_connection\<close> and \<open>disconnect\<close> call each other,
  and a theorem shows a request for which no fuel is enough; \<open>json_object_put\<close> needs as much as there are objects;
  \<open>release_fuel\<close> covers the nesting of releases of the iPhone server; reading and writing a file needs the length of the text,
  reading headers their number, requiring files the number of files not yet loaded. The theorems show that this fuel is
  enough, or name the fuel they need.

  \<^bold>\<open>Not modelled.\<close> CGI, server-side includes and SSL of shttpd, which \<open>config.h\<close> compiles out, as it does authentication, whose
  file is modelled on its own; the layers that emulate POSIX on Windows, whose contracts are the parameters above; log output; locks and
  threads beyond the order of the calls; the C++ parts (synchronisation, database, network), which the C code reaches through
  functions that are parameters; Java and Objective-C code of the platforms; the vendored Ruby interpreter, SQLite, tcmalloc, WTL and
  unzip; the wrappers generated by SWIG; start-up of the interpreter and the registration of its extensions. Floating-point
  numbers and their text are a parameter.
\<close>

section \<open>JSON over HTTP\<close>

text \<open>
  C5. The JSON library and the HTTP client together: when a server replies with status 200 and a body that is the text of
  a JSON value nested at most 31 deep, the block the client returns is a C string whose parse is exactly that
  value, in whatever pieces the reply arrives.
\<close>

theorem reply_json_parsed:
  assumes net: "stream_ok net fd to_come" "fd \<noteq> 0" and mem: "mem_total mem"
    and v: "printable D v" "jdepth v \<le> 31" "length (json_text D v) < 2 ^ 31 - 1"
    and reason: "line_chars (k_char_signed net) reason" "length reason < 490"
    and hs: "\<forall>h \<in> set hs. SymbianClient.header_ok (k_char_signed net) h" "length (concat (cookies hs)) < MAXBUF"
    and len: "body_length 0 hs = length (json_text D v)" and fuel: "length hs + 2 \<le> fuel"
    and reply: "to_come w = status_line reason @ [CHR 0x0D, CHR 0x0A] @ header_text hs @ json_text D v @ later"
  shows "\<exists>out b w'. receive_reply fuel net mem True True fd w = Inr (out, k_close net fd w') \<and> to_come w' = later \<and>
    o_retval out = 1 \<and> o_body out = Some (Some b) \<and> rbind (block_cstr b) (json_tokener_parse mem D) = Inr (Inr v)"
proof -
  let ?t = "json_text D v"
  have a: "alloc_ok mem (int MAXBUF)" "alloc_ok mem (int (length ?t) + 1)" using mem by (simp_all add: mem_total_def alloc_ok_def)
  obtain w' where w': "receive_reply fuel net mem True True fd w =
      Inr (\<lparr>o_retval = 1, o_body = Some (if ?t = [] then None else Some (map Some (?t @ [NUL]))),
            o_cookie = Some (if cookies hs = [] then None else Some (concat (cookies hs)))\<rparr>, k_close net fd w')" "to_come w' = later"
    using receive_reply_stream [OF net a reason hs len v(3) fuel reply] by blast
  have "?t \<noteq> []" using text_opens [OF v(1)] by auto
  moreover have "block_cstr (map Some (?t @ [NUL])) = Inr ?t"
    using block_cstr_append [of ?t "[]"] json_text_no_NUL(1) [OF v(1)] by simp
  ultimately show ?thesis using w' parse_json_text [OF v(1,2) mem] by auto
qed

theorem reply_json_parsed_witness:
  "\<exists>out b w'. receive_reply 3 sample_sockets (\<lambda>_. True) True True 3
      (status_line ''OK'' @ [CHR 0x0D, CHR 0x0A] @ header_text [Length 11] @ ''[ 7, null ]'') = Inr (out, w') \<and>
    o_retval out = 1 \<and> o_body out = Some (Some b) \<and>
    rbind (block_cstr b) (json_tokener_parse (\<lambda>_. True) no_doubles) = Inr (Inr (JArray [JInt 7, JNull]))"
proof -
  let ?v = "JArray [JInt 7, JNull] :: unit json"
  have text_eq: "json_text no_doubles ?v = ''[ 7, null ]''" by code_simp
  have d: "dec 11 = ''11''" by code_simp
  have hs: "\<forall>h \<in> set [Length 11]. SymbianClient.header_ok (k_char_signed sample_sockets) h"
    by (simp add: SymbianClient.header_ok_def line_chars_def positive_char_def d sample_sockets_def)
  have r: "line_chars (k_char_signed sample_sockets) ''OK''" by (simp add: line_chars_def positive_char_def sample_sockets_def)
  have p: "printable no_doubles ?v" "jdepth ?v \<le> 31" by (simp_all add: int64_def)
  show ?thesis
    using reply_json_parsed [OF sample_sockets_stream _ _ p _ r _ hs _ _ _ refl, of "\<lambda>_. True" 3 "[]", unfolded text_eq]
    by (simp add: mem_total_def MAXBUF_def) blast
qed

end
